(* ===== verification/CS_Prelude.thy ===== *)
theory CS_Prelude
  imports Main "HOL-Library.Word"
begin

text \<open>
  What every component of the development shares: the C view of memory (a \<open>char\<close> array is a
  list of bytes, a C string is what precedes the first NUL), the two's complement ranges of
  \<open>int\<close> and \<open>long\<close>, the \<open>errno\<close> values the sources test, and the generic list lemmas
  the component proofs rest on. The collections \<open>mem_simps\<close> (memory) and \<open>kio_simps\<close>
  (kernel channels) are filled here and in \<open>Kernel_IO\<close>.
\<close>

section \<open>Collections\<close>

named_theorems mem_simps \<open>reading and overwriting byte arrays\<close>
named_theorems kio_simps \<open>stepping a kernel channel\<close>

section \<open>Bytes, arrays and C strings\<close>

type_synonym byte = char
type_synonym bytes = "char list"

abbreviation NUL :: byte where "NUL \<equiv> CHR 0x00"
abbreviation LF :: byte where "LF \<equiv> CHR 0x0A"
abbreviation CR :: byte where "CR \<equiv> CHR 0x0D"
abbreviation CRLF :: bytes where "CRLF \<equiv> [CR, LF]"

text \<open>
  \<open>overlay bs mem\<close> is the array \<open>mem\<close> after \<open>bs\<close> has been stored at its start, as a
  \<open>memcpy\<close>, a \<open>read\<close> or a store through a moving pointer does it.
\<close>

definition overlay :: "bytes \<Rightarrow> bytes \<Rightarrow> bytes" where
  "overlay bs mem = bs @ drop (length bs) mem"

text \<open>The C string an array holds: its bytes up to the first NUL.\<close>

definition cstr :: "bytes \<Rightarrow> bytes" where
  "cstr mem = takeWhile (\<lambda>c. c \<noteq> NUL) mem"

section \<open>Machine integers\<close>

text \<open>
  \<open>int\<close> is 32 bits and \<open>long\<close>, \<open>size_t\<close> and \<open>ssize_t\<close> are 64 bits (LP64). A value is
  kept as a mathematical integer; \<open>c_int\<close> and \<open>c_long\<close> write out the conversion to the
  type where the source converts.
\<close>

definition INT_MAX :: int where "INT_MAX = 2 ^ 31 - 1"
definition LONG_MAX :: int where "LONG_MAX = 2 ^ 63 - 1"
definition LONG_MIN :: int where "LONG_MIN = - (2 ^ 63)"

definition c_int :: "int \<Rightarrow> int" where
  "c_int x = (x + 2 ^ 31) mod 2 ^ 32 - 2 ^ 31"

definition c_long :: "int \<Rightarrow> int" where
  "c_long x = (x + 2 ^ 63) mod 2 ^ 64 - 2 ^ 63"

section \<open>Error numbers\<close>

text \<open>
  The \<open>errno\<close> values the sources compare with. \<open>EAGAIN\<close> stands for \<open>EWOULDBLOCK\<close> too:
  on Linux they are the same number. \<open>EOTHER\<close> is any other value.
\<close>

datatype errno =
    EINTR | EAGAIN | EPIPE | ECHILD | ENOBUFS | ENOMEM | EBADF | ENOENT | EOTHER nat

section \<open>Lemmas\<close>

lemma overlay_Nil [simp, mem_simps]: "overlay [] mem = mem"
  by (simp add: overlay_def)

lemma length_overlay [simp, mem_simps]: "length (overlay bs mem) = max (length bs) (length mem)"
  by (simp add: overlay_def)

lemma take_overlay [simp, mem_simps]: "n \<le> length bs \<Longrightarrow> take n (overlay bs mem) = take n bs"
  by (simp add: overlay_def)

lemma overlay_full [mem_simps]: "length mem \<le> length bs \<Longrightarrow> overlay bs mem = bs"
  by (simp add: overlay_def)

lemma cstr_NUL [mem_simps]: "NUL \<notin> set s \<Longrightarrow> cstr (s @ NUL # t) = s"
  by (induction s) (auto simp: cstr_def)

lemma cstr_id [mem_simps]: "NUL \<notin> set s \<Longrightarrow> cstr s = s"
  by (induction s) (auto simp: cstr_def)

lemma cstr_overlay_NUL [mem_simps]: "NUL \<notin> set s \<Longrightarrow> cstr (overlay (s @ [NUL]) mem) = s"
  by (simp add: overlay_def cstr_NUL)

lemma NUL_notin_cstr [simp]: "NUL \<notin> set (cstr mem)"
  by (auto simp: cstr_def dest: set_takeWhileD)

lemma cstr_idem [simp]: "cstr (cstr s) = cstr s"
  by (simp add: cstr_id)

lemma length_cstr: "length (cstr s) \<le> length s"
  by (simp add: cstr_def length_takeWhile_le)

lemma c_int_id: "- (2 ^ 31) \<le> x \<Longrightarrow> x < 2 ^ 31 \<Longrightarrow> c_int x = x"
  by (simp add: c_int_def)

lemma c_int_range: "- (2 ^ 31) \<le> c_int x \<and> c_int x < 2 ^ 31"
proof -
  have "0 \<le> (x + 2 ^ 31) mod (2 ^ 32)" and "(x + 2 ^ 31) mod (2 ^ 32) < 2 ^ 32"
    by simp_all
  then show ?thesis unfolding c_int_def by simp
qed

lemma c_long_id: "- (2 ^ 63) \<le> x \<Longrightarrow> x < 2 ^ 63 \<Longrightarrow> c_long x = x"
  by (simp add: c_long_def)

text \<open>The result of an operation on \<open>long\<close>; \<open>None\<close> is an overflow, which is undefined in C.\<close>

definition chk_long :: "int \<Rightarrow> int option" where
  "chk_long x = (if LONG_MIN \<le> x \<and> x \<le> LONG_MAX then Some x else None)"

lemma chk_long_abs: "\<bar>x\<bar> \<le> LONG_MAX \<Longrightarrow> chk_long x = Some x"
  by (auto simp: chk_long_def LONG_MIN_def LONG_MAX_def)

lemma take_length_append_eq:
  "bs @ ys = xs \<Longrightarrow> bs = take (length bs) xs \<and> ys = drop (length bs) xs"
  by auto

lemma takeWhile_append_stop:
  "(\<forall>x \<in> set xs. P x) \<Longrightarrow> \<not> P y \<Longrightarrow> takeWhile P (xs @ y # ys) = xs"
  by (induction xs) auto

lemma dropWhile_append_stop:
  "(\<forall>x \<in> set xs. P x) \<Longrightarrow> \<not> P y \<Longrightarrow> dropWhile P (xs @ y # ys) = y # ys"
  by (induction xs) auto

section \<open>Ownership\<close>

text \<open>Each resource of \<open>S\<close> has exactly one owner, and nothing else is owned.\<close>

definition owns :: "('o \<Rightarrow> 'r option) \<Rightarrow> 'r set \<Rightarrow> bool" where
  "owns F S \<longleftrightarrow> (\<forall>x. x \<in> S \<longleftrightarrow> (\<exists>ow. F ow = Some x)) \<and> (\<forall>ow ow' x. F ow = Some x \<longrightarrow> F ow' = Some x \<longrightarrow> ow = ow')"

lemma owns_take: "owns F S \<Longrightarrow> F ow = None \<Longrightarrow> x \<notin> S \<Longrightarrow> owns (F(ow := Some x)) (insert x S)"
  by (auto simp: owns_def) (metis option.distinct(1))

lemma owns_drop: "owns F S \<Longrightarrow> F ow = Some x \<Longrightarrow> owns (F(ow := None)) (S - {x})"
  by (auto simp: owns_def) (metis option.inject)

lemma owns_move: "owns F S \<Longrightarrow> F ow = Some x \<Longrightarrow> F ow' = None \<Longrightarrow> owns (F(ow := None, ow' := Some x)) S"
  by (auto simp: owns_def) (metis option.distinct(1) option.inject)+

lemma owns_in: "owns F S \<Longrightarrow> F ow = Some x \<Longrightarrow> x \<in> S"
  by (auto simp: owns_def)

lemma owns_unique: "owns F S \<Longrightarrow> F ow = Some x \<Longrightarrow> F ow' = Some x \<Longrightarrow> ow = ow'"
  by (auto simp: owns_def)

lemma owns_none: "owns F S \<Longrightarrow> (\<And>ow. F ow = None) \<Longrightarrow> S = {}"
  by (auto simp: owns_def)

section \<open>Every run reaches a goal\<close>

text \<open>
  On every run of the step relation \<open>R\<close> the condition \<open>Q\<close> holds until \<open>P\<close> does, and \<open>P\<close> is reached after finitely many steps. Until then
  one of the steps in \<open>F\<close> can be taken: \<open>F\<close> are the steps that are bound to happen, such as those of a program that is ready to run.
\<close>

inductive always_until ::
  "('s \<Rightarrow> 's \<Rightarrow> bool) \<Rightarrow> ('s \<Rightarrow> 's \<Rightarrow> bool) \<Rightarrow> ('s \<Rightarrow> bool) \<Rightarrow> ('s \<Rightarrow> bool) \<Rightarrow> 's \<Rightarrow> bool"
  for R F Q P where
  now: "P s \<Longrightarrow> always_until R F Q P s"
| later: "Q s \<Longrightarrow> R s t \<Longrightarrow> F s t \<Longrightarrow> (\<And>u. R s u \<Longrightarrow> always_until R F Q P u) \<Longrightarrow> always_until R F Q P s"

text \<open>The rule by an invariant and a measure.\<close>

lemma always_until_measure:
  fixes m :: "'s \<Rightarrow> nat"
  assumes "I s"
    and ready: "\<And>t. I t \<Longrightarrow> \<not> P t \<Longrightarrow> Q t \<and> (\<exists>u. R t u \<and> F t u)"
    and down: "\<And>t u. I t \<Longrightarrow> \<not> P t \<Longrightarrow> R t u \<Longrightarrow> P u \<or> I u \<and> m u < m t"
  shows "always_until R F Q P s"
  using assms(1)
proof (induction "m s" arbitrary: s rule: less_induct)
  case less
  show ?case
  proof (cases "P s")
    case True
    then show ?thesis by (rule always_until.now)
  next
    case False
    obtain t where t: "Q s" "R s t" "F s t" using ready [OF less.prems False] by blast
    have "always_until R F Q P u" if "R s u" for u
      using down [OF less.prems False that] less.hyps [of u] always_until.now [of P u] by blast
    with t show ?thesis by (rule always_until.later)
  qed
qed

end
