(* ===== verification/Kernel_IO.thy ===== *)
theory Kernel_IO
  imports CS_Prelude
begin

text \<open>
  The kernel's side of one open descriptor, as far as \<open>read(2)\<close> and \<open>write(2)\<close> show it.
  A channel holds the bytes that are still to be read (end of file follows them), the bytes
  accepted so far by writes, and two schedules that say how the kernel answers the next calls:
  a short count of its choice, or a failure with an \<open>errno\<close>. When a schedule is used up the
  kernel serves every request in full, so a schedule is finite but of any length: the theorems
  quantify over all of them. The interfaces \<open>byte_source\<close> and \<open>byte_sink\<close> state what a
  client may rely on.
\<close>

section \<open>Channels\<close>

datatype rd_ev = RdGive nat | RdFail errno
datatype wr_ev = WrTake nat | WrZero errno | WrFail errno

text \<open>
  What \<open>write\<close> returns: a positive count, 0 (with the value \<open>errno\<close> happens to hold, which
  the call does not set), or -1 with \<open>errno\<close>.
\<close>

datatype wr_res = Wrote nat | WroteZero errno | WrErr errno

text \<open>What \<open>errno\<close> holds after a call that wrote nothing.\<close>

fun wr_errno :: "wr_res \<Rightarrow> errno option" where
  "wr_errno (Wrote n) = None"
| "wr_errno (WroteZero e) = Some e"
| "wr_errno (WrErr e) = Some e"

record chan =
  k_in :: bytes
  k_rsched :: "rd_ev list"
  k_out :: bytes
  k_wsched :: "wr_ev list"

definition give :: "nat \<Rightarrow> chan \<Rightarrow> (errno + nat) \<times> bytes \<times> chan" where
  "give m c = (let bs = take m (k_in c) in (Inr (length bs), bs, c\<lparr>k_in := drop m (k_in c)\<rparr>))"

text \<open>
  \<open>kread n c\<close>: one \<open>read\<close> of at most \<open>n\<close> bytes. The result is the return value
  (\<open>Inl\<close> for -1), the bytes stored in the caller's buffer, and the channel afterwards.
\<close>

definition kread :: "nat \<Rightarrow> chan \<Rightarrow> (errno + nat) \<times> bytes \<times> chan" where
  "kread n c =
     (case k_rsched c of
        [] \<Rightarrow> give n c
      | RdGive m # s \<Rightarrow> give (min n (Suc m)) (c\<lparr>k_rsched := s\<rparr>)
      | RdFail e # s \<Rightarrow> (Inl e, [], c\<lparr>k_rsched := s\<rparr>))"

text \<open>\<open>kwrite bs c\<close>: one \<open>write\<close> of the bytes \<open>bs\<close>.\<close>

definition kwrite :: "bytes \<Rightarrow> chan \<Rightarrow> wr_res \<times> chan" where
  "kwrite bs c =
     (case k_wsched c of
        [] \<Rightarrow> (Wrote (length bs), c\<lparr>k_out := k_out c @ bs\<rparr>)
      | WrTake m # s \<Rightarrow>
          (Wrote (min (length bs) (Suc m)),
           c\<lparr>k_out := k_out c @ take (Suc m) bs, k_wsched := s\<rparr>)
      | WrZero e # s \<Rightarrow> (WroteZero e, c\<lparr>k_wsched := s\<rparr>)
      | WrFail e # s \<Rightarrow> (WrErr e, c\<lparr>k_wsched := s\<rparr>))"

text \<open>A channel whose reads, or writes, fail only because a signal handler ran.\<close>

definition rd_only_eintr :: "chan \<Rightarrow> bool" where
  "rd_only_eintr c \<longleftrightarrow> (\<forall>ev \<in> set (k_rsched c). \<forall>e. ev = RdFail e \<longrightarrow> e = EINTR)"

definition wr_only_eintr :: "chan \<Rightarrow> bool" where
  "wr_only_eintr c \<longleftrightarrow>
     (\<forall>ev \<in> set (k_wsched c). \<forall>e. ev = WrFail e \<or> ev = WrZero e \<longrightarrow> e = EINTR)"

section \<open>Interfaces\<close>

text \<open>
  A source of bytes: \<open>rd n s\<close> takes at most \<open>n\<close> bytes from the front of \<open>stream s\<close> and
  returns 0 only at the end of the stream. \<open>ok\<close> is the source's invariant, \<open>clean\<close> the
  states in which every failure can be retried, and \<open>budget\<close> bounds the failures to come.
\<close>

locale byte_source =
  fixes rd :: "nat \<Rightarrow> 's \<Rightarrow> (errno + nat) \<times> bytes \<times> 's"
    and stream :: "'s \<Rightarrow> bytes"
    and ok :: "'s \<Rightarrow> bool"
    and clean :: "'s \<Rightarrow> bool"
    and retry :: "errno \<Rightarrow> bool"
    and budget :: "'s \<Rightarrow> nat"
  assumes rd_ok: "ok s \<Longrightarrow> rd n s = (r, bs, s') \<Longrightarrow> ok s'"
    and rd_conserve: "ok s \<Longrightarrow> rd n s = (r, bs, s') \<Longrightarrow> bs @ stream s' = stream s"
    and rd_count: "ok s \<Longrightarrow> rd n s = (Inr k, bs, s') \<Longrightarrow> k = length bs \<and> k \<le> n"
    and rd_fail: "ok s \<Longrightarrow> rd n s = (Inl e, bs, s') \<Longrightarrow> bs = []"
    and rd_eof: "ok s \<Longrightarrow> 0 < n \<Longrightarrow> rd n s = (Inr 0, bs, s') \<Longrightarrow> stream s = []"
    and rd_clean: "ok s \<Longrightarrow> clean s \<Longrightarrow> rd n s = (r, bs, s') \<Longrightarrow> clean s'"
    and rd_retry: "ok s \<Longrightarrow> clean s \<Longrightarrow> rd n s = (Inl e, bs, s') \<Longrightarrow> retry e"
    and rd_budget: "ok s \<Longrightarrow> rd n s = (Inl e, bs, s') \<Longrightarrow> budget s' < budget s"
    and rd_budget_le: "ok s \<Longrightarrow> rd n s = (Inr k, bs, s') \<Longrightarrow> budget s' \<le> budget s"

text \<open>
  The read-fully loop over a source, as \<open>rio_readn\<close> and \<open>rio_readnb\<close> both write it:
  \<open>loop nleft acc s\<close> still wants \<open>nleft\<close> bytes and has stored \<open>acc\<close>.
\<close>

locale read_fully = byte_source +
  fixes loop :: "nat \<Rightarrow> bytes \<Rightarrow> 's \<Rightarrow> (errno + nat) \<times> bytes \<times> 's"
  assumes loop_unfold:
    "loop nleft acc s =
       (if nleft = 0 then (Inr (length acc), acc, s)
        else case rd nleft s of
               (Inl e, bs, s') \<Rightarrow> if retry e then loop nleft acc s' else (Inl e, acc, s')
             | (Inr k, bs, s') \<Rightarrow>
                 if k = 0 then (Inr (length acc), acc, s') else loop (nleft - k) (acc @ bs) s')"
begin

lemma loop_0 [simp]: "loop 0 acc s = (Inr (length acc), acc, s)"
  by (subst loop_unfold) simp

lemma loop_inv:
  assumes "ok s" and "loop nleft acc s = (r, bs, s')"
  shows "ok s' \<and> bs @ stream s' = acc @ stream s \<and> length bs \<le> length acc + nleft
     \<and> (\<forall>k. r = Inr k \<longrightarrow> k = length bs)"
  using assms
proof (induction "nleft + budget s" arbitrary: nleft acc s rule: less_induct)
  case less
  show ?case
  proof (cases "nleft = 0")
    case True
    with less.prems show ?thesis by auto
  next
    case False
    obtain q ds t where q: "rd nleft s = (q, ds, t)" by (cases "rd nleft s")
    note t = rd_ok [OF less.prems(1) q] rd_conserve [OF less.prems(1) q]
    show ?thesis
    proof (cases q)
      case (Inl e)
      with q have ds: "ds = []" and b: "budget t < budget s"
        using rd_fail rd_budget less.prems(1) by blast+
      with Inl q False less.prems(2) t less.hyps [of nleft t acc] show ?thesis
        by (auto simp: loop_unfold [of nleft acc s] split: if_splits)
    next
      case (Inr k)
      with q have k: "k = length ds" "k \<le> nleft" and b: "budget t \<le> budget s"
        using rd_count rd_budget_le less.prems(1) by blast+
      show ?thesis
      proof (cases "k = 0")
        case True
        with Inr q False less.prems(2) t k show ?thesis
          by (auto simp: loop_unfold [of nleft acc s])
      next
        case k0: False
        with Inr q False less.prems(2) have "loop (nleft - k) (acc @ ds) t = (r, bs, s')"
          by (simp add: loop_unfold [of nleft acc s])
        moreover have "nleft - k + budget t < nleft + budget s"
          using k0 k(2) b False by linarith
        ultimately show ?thesis
          using less.hyps [of "nleft - k" t "acc @ ds"] t k by fastforce
      qed
    qed
  qed
qed

lemma loop_full:
  assumes "ok s" and "clean s"
  shows "\<exists>s'. loop nleft acc s =
      (Inr (length (acc @ take nleft (stream s))), acc @ take nleft (stream s), s')
    \<and> ok s' \<and> clean s' \<and> stream s' = drop nleft (stream s)"
  using assms
proof (induction "nleft + budget s" arbitrary: nleft acc s rule: less_induct)
  case less
  show ?case
  proof (cases "nleft = 0")
    case True
    with less.prems show ?thesis by simp
  next
    case False
    obtain q ds t where q: "rd nleft s = (q, ds, t)" by (cases "rd nleft s")
    note t = rd_ok [OF less.prems(1) q] rd_conserve [OF less.prems(1) q]
      rd_clean [OF less.prems q]
    show ?thesis
    proof (cases q)
      case (Inl e)
      with q have "ds = []" and b: "budget t < budget s" and "retry e"
        using rd_fail rd_budget rd_retry less.prems by blast+
      with Inl q False t less.hyps [of nleft t acc] show ?thesis
        by (auto simp: loop_unfold [of nleft acc s])
    next
      case (Inr k)
      with q have k: "k = length ds" "k \<le> nleft" and b: "budget t \<le> budget s"
        using rd_count rd_budget_le less.prems(1) by blast+
      show ?thesis
      proof (cases "k = 0")
        case True
        with Inr q False less.prems(1) have "stream s = []" using rd_eof by blast
        with True Inr q False t k show ?thesis
          by (auto simp: loop_unfold [of nleft acc s])
      next
        case k0: False
        with k(2) b False have "nleft - k + budget t < nleft + budget s" by linarith
        with less.hyps [of "nleft - k" t "acc @ ds"] t obtain s' where
          "loop (nleft - k) (acc @ ds) t =
             (Inr (length ((acc @ ds) @ take (nleft - k) (stream t))),
              (acc @ ds) @ take (nleft - k) (stream t), s')"
          and s': "ok s'" "clean s'" "stream s' = drop (nleft - k) (stream t)" by blast
        moreover have "stream s = ds @ stream t" using t by simp
        moreover have "loop nleft acc s = loop (nleft - k) (acc @ ds) t"
          using Inr q False k0 by (simp add: loop_unfold [of nleft acc s])
        ultimately show ?thesis using k by simp
      qed
    qed
  qed
qed

end

text \<open>
  A sink of bytes: \<open>wr bs s\<close> accepts a non-empty prefix of \<open>bs\<close> behind \<open>out s\<close>, or
  accepts nothing and says why.
\<close>

locale byte_sink =
  fixes wr :: "bytes \<Rightarrow> 's \<Rightarrow> wr_res \<times> 's"
    and out :: "'s \<Rightarrow> bytes"
    and calm :: "'s \<Rightarrow> bool"
    and again :: "wr_res \<Rightarrow> bool"
    and budget :: "'s \<Rightarrow> nat"
  assumes wr_wrote: "wr bs s = (Wrote k, s') \<Longrightarrow>
      out s' = out s @ take k bs \<and> k \<le> length bs \<and> (bs \<noteq> [] \<longrightarrow> 0 < k) \<and> budget s' \<le> budget s"
    and wr_none: "wr bs s = (r, s') \<Longrightarrow> (\<And>k. r \<noteq> Wrote k) \<Longrightarrow>
      out s' = out s \<and> budget s' < budget s"
    and wr_calm: "calm s \<Longrightarrow> wr bs s = (r, s') \<Longrightarrow> calm s' \<and> ((\<exists>k. r = Wrote k) \<or> again r)"

text \<open>
  The write-fully loop over a sink: \<open>again r\<close> says that the loop calls \<open>wr\<close> again after the
  fruitless answer \<open>r\<close>; any other fruitless answer ends the loop, which then yields \<open>errno\<close>.
\<close>

locale write_fully = byte_sink +
  fixes loop :: "bytes \<Rightarrow> 's \<Rightarrow> errno option \<times> 's"
  assumes wloop_unfold:
    "loop bs s =
       (if bs = [] then (None, s)
        else case wr bs s of (r, s') \<Rightarrow>
               (case r of Wrote k \<Rightarrow> loop (drop k bs) s'
                | _ \<Rightarrow> if again r then loop bs s' else (wr_errno r, s')))"
begin

lemma wloop_Nil [simp]: "loop [] s = (None, s)"
  by (subst wloop_unfold) simp

lemma wloop_prefix:
  assumes "loop bs s = (r, s')"
  shows "\<exists>k \<le> length bs. out s' = out s @ take k bs \<and> (r = None \<longrightarrow> k = length bs)
     \<and> (r \<noteq> None \<longrightarrow> k < length bs \<and> (\<exists>x. \<not> again x \<and> wr_errno x = r))"
  using assms
proof (induction "length bs + budget s" arbitrary: bs s rule: less_induct)
  case less
  show ?case
  proof (cases "bs = []")
    case True
    with less.prems show ?thesis by auto
  next
    case False
    obtain q t where q: "wr bs s = (q, t)" by (cases "wr bs s")
    show ?thesis
    proof (cases "\<exists>k. q = Wrote k")
      case True
      then obtain k where k: "q = Wrote k" by blast
      with q False have t: "out t = out s @ take k bs" "k \<le> length bs" "0 < k" "budget t \<le> budget s"
        using wr_wrote by blast+
      from k q False less.prems have "loop (drop k bs) t = (r, s')"
        by (simp add: wloop_unfold [of bs s])
      moreover have "length (drop k bs) + budget t < length bs + budget s"
        using t by simp
      ultimately obtain j where j: "j \<le> length (drop k bs)" "out s' = out t @ take j (drop k bs)"
        "r = None \<longrightarrow> j = length (drop k bs)"
        "r \<noteq> None \<longrightarrow> j < length (drop k bs) \<and> (\<exists>x. \<not> again x \<and> wr_errno x = r)"
        using less.hyps by blast
      with t have "out s' = out s @ take (k + j) bs" by (simp add: take_add)
      with j t(2) show ?thesis by (intro exI [of _ "k + j"]) auto
    next
      case no: False
      then have t: "out t = out s" "budget t < budget s" using wr_none [OF q] by blast+
      show ?thesis
      proof (cases "again q")
        case True
        with no q False less.prems have "loop bs t = (r, s')"
          by (cases q) (auto simp: wloop_unfold [of bs s])
        with less.hyps [of bs t] t show ?thesis by simp
      next
        case stop: False
        with no q False less.prems have "r = wr_errno q" "r \<noteq> None" "s' = t"
          by (cases q; auto simp: wloop_unfold [of bs s])+
        with t stop False show ?thesis by (intro exI [of _ 0]) auto
      qed
    qed
  qed
qed

lemma wloop_calm:
  assumes "calm s"
  shows "\<exists>s'. loop bs s = (None, s') \<and> out s' = out s @ bs \<and> calm s'"
  using assms
proof (induction "length bs + budget s" arbitrary: bs s rule: less_induct)
  case less
  show ?case
  proof (cases "bs = []")
    case True
    with less.prems show ?thesis by auto
  next
    case False
    obtain q t where q: "wr bs s = (q, t)" by (cases "wr bs s")
    with less.prems have calm: "calm t" "(\<exists>k. q = Wrote k) \<or> again q" using wr_calm by blast+
    show ?thesis
    proof (cases "\<exists>k. q = Wrote k")
      case True
      then obtain k where k: "q = Wrote k" by blast
      with q False have t: "out t = out s @ take k bs" "k \<le> length bs" "0 < k" "budget t \<le> budget s"
        using wr_wrote by blast+
      then have "length (drop k bs) + budget t < length bs + budget s" by simp
      from less.hyps [OF this calm(1)] t k q False show ?thesis
        by (simp add: wloop_unfold [of bs s])
    next
      case no: False
      then have t: "out t = out s" "budget t < budget s" using wr_none [OF q] by blast+
      with less.hyps [of bs t] calm no q False show ?thesis
        by (cases q) (auto simp: wloop_unfold [of bs s])
    qed
  qed
qed

end

section \<open>The channel is a byte source\<close>

lemma give_stream [kio_simps]:
  "give m c = (r, bs, c') \<Longrightarrow> bs @ k_in c' = k_in c \<and> r = Inr (length bs) \<and> length bs \<le> m
     \<and> k_rsched c' = k_rsched c \<and> (0 < m \<longrightarrow> bs = [] \<longrightarrow> k_in c = [])
     \<and> k_out c' = k_out c \<and> k_wsched c' = k_wsched c"
  by (auto simp: give_def Let_def)

lemma kread_cases:
  assumes "kread n c = (r, bs, c')"
  obtains (fail) e s where "k_rsched c = RdFail e # s" "r = Inl e" "bs = []" "c' = c\<lparr>k_rsched := s\<rparr>"
  | (give) "r = Inr (length bs)" "bs @ k_in c' = k_in c" "length bs \<le> n"
      "0 < n \<Longrightarrow> bs = [] \<Longrightarrow> k_in c = []" "k_rsched c' = tl (k_rsched c)"
      "k_out c' = k_out c" "k_wsched c' = k_wsched c"
proof (cases "k_rsched c")
  case Nil
  with assms have "give n c = (r, bs, c')" by (simp add: kread_def)
  from give_stream [OF this] Nil show ?thesis by (intro give) auto
next
  case (Cons ev s)
  show ?thesis
  proof (cases ev)
    case (RdGive m)
    with Cons assms have "give (min n (Suc m)) (c\<lparr>k_rsched := s\<rparr>) = (r, bs, c')"
      by (simp add: kread_def)
    from give_stream [OF this] Cons show ?thesis by (intro give) auto
  next
    case (RdFail e)
    with Cons assms show ?thesis by (intro fail) (auto simp: kread_def)
  qed
qed

lemma rd_only_eintr_tl:
  "rd_only_eintr c \<Longrightarrow> set (k_rsched c') \<subseteq> set (k_rsched c) \<Longrightarrow> rd_only_eintr c'"
  by (auto simp: rd_only_eintr_def)

interpretation ks: byte_source kread k_in "\<lambda>_. True" rd_only_eintr "\<lambda>e. e = EINTR"
  "\<lambda>c. length (k_rsched c)"
proof (unfold_locales, goal_cases)
  case (1 s n r bs s') show ?case by simp
next
  case (2 s n r bs s') then show ?case by (auto elim!: kread_cases)
next
  case (3 s n k bs s') then show ?case by (auto elim!: kread_cases)
next
  case (4 s n e bs s') then show ?case by (auto elim!: kread_cases)
next
  case (5 s n bs s') then show ?case by (auto elim!: kread_cases)
next
  case (6 s n r bs s') then show ?case
    by (elim kread_cases)
       (auto intro!: rd_only_eintr_tl [of s], metis list.sel(2) list.set_sel(2))
next
  case (7 s n e bs s') then show ?case by (elim kread_cases) (auto simp: rd_only_eintr_def)
next
  case (8 s n e bs s') then show ?case by (auto elim!: kread_cases)
next
  case (9 s n k bs s') then show ?case by (auto elim!: kread_cases)
qed

text \<open>The two facts in the orientation in which termination goals present them.\<close>

lemma kread_Inl_less: "(Inl e, bs, c') = kread n c \<Longrightarrow> length (k_rsched c') < length (k_rsched c)"
  by (metis ks.rd_budget)

lemma kread_Inr_le: "(Inr k, bs, c') = kread n c \<Longrightarrow> length (k_rsched c') \<le> length (k_rsched c)"
  by (metis ks.rd_budget_le)

section \<open>The channel is a byte sink\<close>

text \<open>What a write leaves alone: the reading side.\<close>

lemma kwrite_reads [kio_simps]:
  "kwrite bs c = (r, c') \<Longrightarrow> k_in c' = k_in c \<and> k_rsched c' = k_rsched c"
  by (auto simp: kwrite_def split: list.splits wr_ev.splits)

definition wr_again :: "wr_res \<Rightarrow> bool" where
  "wr_again r \<longleftrightarrow> r = WrErr EINTR \<or> r = WroteZero EINTR"

lemma kwrite_sink:
  assumes "\<And>ev e c. calm c \<Longrightarrow> ev \<in> set (k_wsched c) \<Longrightarrow>
      (ev = WrFail e \<longrightarrow> again (WrErr e)) \<and> (ev = WrZero e \<longrightarrow> again (WroteZero e))"
    and "\<And>c c'. calm c \<Longrightarrow> set (k_wsched c') \<subseteq> set (k_wsched c) \<Longrightarrow> calm c'"
  shows "byte_sink kwrite k_out calm again (\<lambda>c. length (k_wsched c))"
proof (unfold_locales, goal_cases)
  case (1 bs s k s')
  then show ?case by (auto simp: kwrite_def min_def split: list.splits wr_ev.splits)
next
  case (2 bs s r s')
  then show ?case by (auto simp: kwrite_def split: list.splits wr_ev.splits)
next
  case (3 s bs r s')
  show ?case
  proof (cases "k_wsched s")
    case Nil
    with 3 show ?thesis using assms(2) [of s s'] by (auto simp: kwrite_def)
  next
    case (Cons ev evs)
    with 3 have "set (k_wsched s') \<subseteq> set (k_wsched s)"
      by (auto simp: kwrite_def split: wr_ev.splits)
    with 3 Cons assms(1) [of s ev] show ?thesis using assms(2) [of s s']
      by (auto simp: kwrite_def split: wr_ev.splits)
  qed
qed

interpretation kw: byte_sink kwrite k_out wr_only_eintr wr_again "\<lambda>c. length (k_wsched c)"
  by (rule kwrite_sink) (auto simp: wr_only_eintr_def wr_again_def)

end
