(* ===== verification/Rio.thy ===== *)
theory Rio
  imports Kernel_IO
begin

text \<open>
  The robust I/O package, \<open>Chapter10/rio/rio.c\<close> and \<open>rio.h\<close>. The descriptor a function
  works on is modelled by the channel behind it. Every function returns the C return value
  (\<open>Inl e\<close> for -1 with \<open>errno = e\<close>), the bytes it has stored at the start of the caller's
  buffer, and the new state. The lemmas show that no byte is lost, duplicated or reordered
  whatever short counts and interruptions the kernel answers with, and that a call which fails loses only what it had read itself.
\<close>

section \<open>State\<close>

definition RIO_BUFSIZE :: nat where "RIO_BUFSIZE = 8192"

text \<open>\<open>rio_bufptr\<close> is kept as an offset into \<open>rio_buf\<close>.\<close>

record rio_t =
  rio_fd :: int
  rio_cnt :: int
  rio_bufptr :: nat
  rio_buf :: bytes

section \<open>Unbuffered reads and writes\<close>

function rio_readn_loop :: "nat \<Rightarrow> bytes \<Rightarrow> chan \<Rightarrow> (errno + nat) \<times> bytes \<times> chan" where
  "rio_readn_loop nleft acc c =
     (if nleft = 0 then (Inr (length acc), acc, c)
      else case kread nleft c of
             (Inl e, bs, c') \<Rightarrow>
               if e = EINTR then rio_readn_loop nleft acc c' else (Inl e, acc, c')
           | (Inr nread, bs, c') \<Rightarrow>
               if nread = 0 then (Inr (length acc), acc, c')
               else rio_readn_loop (nleft - nread) (acc @ bs) c')"
  by pat_completeness auto
termination
  by (relation "measure (\<lambda>(nleft, acc, c). nleft + length (k_rsched c))")
     (auto dest!: kread_Inl_less kread_Inr_le)

definition rio_readn :: "chan \<Rightarrow> nat \<Rightarrow> (errno + nat) \<times> bytes \<times> chan" where
  "rio_readn c n = rio_readn_loop n [] c"

function rio_writen_loop :: "bytes \<Rightarrow> nat \<Rightarrow> chan \<Rightarrow> (errno + nat) \<times> chan" where
  "rio_writen_loop bufp n c =
     (if bufp = [] then (Inr n, c)
      else case kwrite bufp c of
             (Wrote nwritten, c') \<Rightarrow> rio_writen_loop (drop nwritten bufp) n c'
           | (WroteZero e, c') \<Rightarrow>
               if e = EINTR then rio_writen_loop bufp n c' else (Inl e, c')
           | (WrErr e, c') \<Rightarrow>
               if e = EINTR then rio_writen_loop bufp n c' else (Inl e, c'))"
  by pat_completeness auto
termination
  by (relation "measure (\<lambda>(bufp, n, c). length bufp + length (k_wsched c))")
     (auto simp: kwrite_def split: list.splits wr_ev.splits)

definition rio_writen :: "chan \<Rightarrow> bytes \<Rightarrow> (errno + nat) \<times> chan" where
  "rio_writen c usrbuf = rio_writen_loop usrbuf (length usrbuf) c"

section \<open>Buffered reads\<close>

definition rio_initb :: "rio_t \<Rightarrow> int \<Rightarrow> rio_t" where
  "rio_initb rp fd = rp\<lparr>rio_fd := fd, rio_cnt := 0, rio_bufptr := 0\<rparr>"

text \<open>
  The refill loop of \<open>rio_read\<close>: \<open>None\<close> when the buffer has bytes, \<open>Some\<close> of the value
  \<open>rio_read\<close> returns when the loop returns from it.
\<close>

function rio_fill :: "rio_t \<Rightarrow> chan \<Rightarrow> (errno + nat) option \<times> rio_t \<times> chan" where
  "rio_fill rp c =
     (if 0 < rio_cnt rp then (None, rp, c)
      else case kread RIO_BUFSIZE c of
             (Inl e, bs, c') \<Rightarrow>
               if e \<noteq> EINTR then (Some (Inl e), rp\<lparr>rio_cnt := -1\<rparr>, c')
               else rio_fill (rp\<lparr>rio_cnt := -1\<rparr>) c'
           | (Inr n, bs, c') \<Rightarrow>
               if n = 0 then (Some (Inr 0), rp\<lparr>rio_cnt := 0\<rparr>, c')
               else rio_fill (rp\<lparr>rio_cnt := int n, rio_buf := overlay bs (rio_buf rp),
                                 rio_bufptr := 0\<rparr>) c')"
  by pat_completeness auto
termination
  by (relation "measure (\<lambda>(rp, c). 2 * length (k_rsched c) + (if rio_cnt rp \<le> 0 then 1 else 0))")
     (auto dest!: kread_Inl_less kread_Inr_le)

definition rio_read :: "nat \<Rightarrow> rio_t \<times> chan \<Rightarrow> (errno + nat) \<times> bytes \<times> rio_t \<times> chan" where
  "rio_read n rc =
     (case rio_fill (fst rc) (snd rc) of
        (Some r, rp, c) \<Rightarrow> (r, [], rp, c)
      | (None, rp, c) \<Rightarrow>
          let cnt = (if rio_cnt rp < int n then rio_cnt rp else c_int (int n));
              bs = take (nat cnt) (drop (rio_bufptr rp) (rio_buf rp))
          in (Inr (nat cnt), bs,
              rp\<lparr>rio_bufptr := rio_bufptr rp + nat cnt, rio_cnt := rio_cnt rp - cnt\<rparr>, c))"

text \<open>
  The loop of \<open>rio_readlineb\<close>; \<open>acc\<close> is what has been stored through \<open>bufp\<close>. The
  terminating NUL is stored on the two paths that reach the end of the function only.
\<close>

function rio_readlineb_loop ::
  "nat \<Rightarrow> nat \<Rightarrow> bytes \<Rightarrow> rio_t \<times> chan \<Rightarrow> (errno + nat) \<times> bytes \<times> rio_t \<times> chan" where
  "rio_readlineb_loop maxlen n acc rc =
     (if n < maxlen then
        case rio_read 1 rc of
          (Inr k, bs, rc') \<Rightarrow>
            if k = 1 then
              (if bs = [LF] then (Inr n, acc @ bs @ [NUL], rc')
               else rio_readlineb_loop maxlen (n + 1) (acc @ bs) rc')
            else if k = 0 then
              (if n = 1 then (Inr 0, acc, rc') else (Inr (n - 1), acc @ [NUL], rc'))
            else (Inl (EOTHER 0), acc, rc')
        | (Inl e, bs, rc') \<Rightarrow> (Inl e, acc, rc')
      else (Inr (n - 1), acc @ [NUL], rc))"
  by pat_completeness auto
termination
  by (relation "measure (\<lambda>(maxlen, n, acc, rc). maxlen - n)") auto

definition rio_readlineb ::
  "nat \<Rightarrow> rio_t \<times> chan \<Rightarrow> (errno + nat) \<times> bytes \<times> rio_t \<times> chan" where
  "rio_readlineb maxlen rc = rio_readlineb_loop maxlen 1 [] rc"

function rio_readnb_loop ::
  "nat \<Rightarrow> bytes \<Rightarrow> rio_t \<times> chan \<Rightarrow> (errno + nat) \<times> bytes \<times> rio_t \<times> chan" where
  "rio_readnb_loop nleft acc rc =
     (if nleft = 0 then (Inr (length acc), acc, rc)
      else case rio_read nleft rc of
             (Inl e, bs, rc') \<Rightarrow> (Inl e, acc, rc')
           | (Inr nread, bs, rc') \<Rightarrow>
               if nread = 0 then (Inr (length acc), acc, rc')
               else rio_readnb_loop (nleft - nread) (acc @ bs) rc')"
  by pat_completeness auto
termination
  by (relation "measure (\<lambda>(nleft, acc, rc). nleft)") auto

definition rio_readnb ::
  "nat \<Rightarrow> rio_t \<times> chan \<Rightarrow> (errno + nat) \<times> bytes \<times> rio_t \<times> chan" where
  "rio_readnb n rc = rio_readnb_loop n [] rc"

declare rio_readn_loop.simps [simp del] rio_writen_loop.simps [simp del]
  rio_fill.simps [simp del] rio_readlineb_loop.simps [simp del] rio_readnb_loop.simps [simp del]

section \<open>What the buffer holds\<close>

text \<open>
  \<open>rio_inv\<close>: the array has its size and the unread bytes lie inside it. \<open>rio_stream\<close> is what
  a reader of the buffer will still see: the unread bytes of the buffer, then the channel's.
\<close>

definition rio_inv :: "rio_t \<Rightarrow> bool" where
  "rio_inv rp \<longleftrightarrow> length (rio_buf rp) = RIO_BUFSIZE
     \<and> (0 < rio_cnt rp \<longrightarrow> rio_bufptr rp + nat (rio_cnt rp) \<le> RIO_BUFSIZE)"

definition rio_unread :: "rio_t \<Rightarrow> bytes" where
  "rio_unread rp = take (nat (rio_cnt rp)) (drop (rio_bufptr rp) (rio_buf rp))"

definition rio_stream :: "rio_t \<times> chan \<Rightarrow> bytes" where
  "rio_stream rc = rio_unread (fst rc) @ k_in (snd rc)"

lemma rio_unread_empty [simp]: "rio_cnt rp \<le> 0 \<Longrightarrow> rio_unread rp = []"
  by (simp add: rio_unread_def)

lemma rio_initb_inv: "length (rio_buf rp) = RIO_BUFSIZE \<Longrightarrow> rio_inv (rio_initb rp fd)"
  by (simp add: rio_initb_def rio_inv_def)

lemma rio_initb_stream [simp]: "rio_stream (rio_initb rp fd, c) = k_in c"
  by (simp add: rio_initb_def rio_stream_def rio_unread_def)

lemma rio_fill_props:
  assumes "rio_inv rp" and "rio_fill rp c = (r, rp', c')"
  shows "rio_inv rp' \<and> rio_stream (rp', c') = rio_stream (rp, c)
     \<and> (r = None \<longrightarrow> 0 < rio_cnt rp') \<and> (\<forall>x. r = Some x \<longrightarrow> rio_cnt rp' \<le> 0)
     \<and> (\<forall>k. r = Some (Inr k) \<longrightarrow> k = 0 \<and> rio_stream (rp, c) = [])
     \<and> (\<forall>e. r = Some (Inl e) \<longrightarrow> e \<noteq> EINTR \<and> RdFail e \<in> set (k_rsched c)
              \<and> length (k_rsched c') < length (k_rsched c))
     \<and> length (k_rsched c') \<le> length (k_rsched c) \<and> set (k_rsched c') \<subseteq> set (k_rsched c)
     \<and> k_out c' = k_out c \<and> k_wsched c' = k_wsched c \<and> rio_fd rp' = rio_fd rp"
  using assms
proof (induction rp c rule: rio_fill.induct)
  case (1 rp c)
  show ?case
  proof (cases "0 < rio_cnt rp")
    case True
    with "1.prems" show ?thesis by (auto simp: rio_fill.simps [of rp c])
  next
    case False
    obtain q bs d where q: "kread RIO_BUFSIZE c = (q, bs, d)"
      by (cases "kread RIO_BUFSIZE c")
    note prems = "1.prems" and hyps = "1.IH"
    from q show ?thesis
    proof (cases rule: kread_cases)
      case (fail e s)
      let ?rp = "rp\<lparr>rio_cnt := -1\<rparr>"
      have inv: "rio_inv ?rp" using prems by (simp add: rio_inv_def)
      show ?thesis
      proof (cases "e = EINTR")
        case True
        with fail False q prems have "rio_fill ?rp d = (r, rp', c')"
          by (simp add: rio_fill.simps [of rp c])
        with hyps(1) [OF False q [symmetric]] fail True inv show ?thesis
          using False by (auto simp: rio_stream_def intro: le_SucI less_SucI)
      next
        case no: False
        with fail False q prems have "r = Some (Inl e)" "rp' = ?rp" "c' = d"
          by (simp_all add: rio_fill.simps [of rp c])
        with fail no inv False show ?thesis by (auto simp: rio_stream_def)
      qed
    next
      case give
      have sz: "0 < RIO_BUFSIZE" by (simp add: RIO_BUFSIZE_def)
      have sched: "set (k_rsched d) \<subseteq> set (k_rsched c)" "length (k_rsched d) \<le> length (k_rsched c)"
        using give(5) by (cases "k_rsched c"; auto)+
      show ?thesis
      proof (cases "bs = []")
        case True
        with give False q prems have "r = Some (Inr 0)" "rp' = rp\<lparr>rio_cnt := 0\<rparr>" "c' = d"
          by (simp_all add: rio_fill.simps [of rp c])
        with True give False sz prems sched show ?thesis by (auto simp: rio_stream_def rio_inv_def)
      next
        case nonempty: False
        let ?rp = "rp\<lparr>rio_cnt := int (length bs), rio_buf := overlay bs (rio_buf rp), rio_bufptr := 0\<rparr>"
        from nonempty give False q prems have "rio_fill ?rp d = (r, rp', c')"
          by (simp add: rio_fill.simps [of rp c])
        then have "r = None" "rp' = ?rp" "c' = d"
          using nonempty by (simp_all add: rio_fill.simps [of ?rp d])
        with nonempty give False prems sched show ?thesis
          by (auto simp: rio_stream_def rio_inv_def rio_unread_def)
      qed
    qed
  qed
qed

lemma rio_read_cases:
  assumes "rio_inv (fst s)" and "rio_read n s = (r, bs, s')"
  obtains (fail) e where "r = Inl e" "bs = []" "e \<noteq> EINTR" "RdFail e \<in> set (k_rsched (snd s))"
      "length (k_rsched (snd s')) < length (k_rsched (snd s))" "rio_stream s' = rio_stream s"
  | (eof) "r = Inr 0" "bs = []" "rio_stream s = []" "rio_stream s' = []"
  | (data) "r = Inr (length bs)" "length bs \<le> n" "bs @ rio_stream s' = rio_stream s"
      "0 < n \<longrightarrow> bs \<noteq> []"
proof -
  obtain q rp c where q: "rio_fill (fst s) (snd s) = (q, rp, c)"
    by (cases "rio_fill (fst s) (snd s)")
  note props = rio_fill_props [OF assms(1) q]
  show ?thesis
  proof (cases q)
    case (Some x)
    with assms(2) q have "r = x" "bs = []" "s' = (rp, c)" by (auto simp: rio_read_def)
    with Some props fail eof show ?thesis by (cases x) auto
  next
    case None
    define cnt where "cnt = min (rio_cnt rp) (int n)"
    have bound: "0 < rio_cnt rp" "rio_bufptr rp + nat (rio_cnt rp) \<le> RIO_BUFSIZE"
      "length (rio_buf rp) = RIO_BUFSIZE"
      using props None by (auto simp: rio_inv_def)
    have "(if rio_cnt rp < int n then rio_cnt rp else c_int (int n)) = cnt"
      using bound by (auto simp: c_int_id RIO_BUFSIZE_def cnt_def)
    with None assms(2) q have eqs: "r = Inr (nat cnt)"
      "bs = take (nat cnt) (drop (rio_bufptr rp) (rio_buf rp))"
      "s' = (rp\<lparr>rio_bufptr := rio_bufptr rp + nat cnt, rio_cnt := rio_cnt rp - cnt\<rparr>, c)"
      by (simp_all add: rio_read_def Let_def)
    have range: "0 \<le> cnt" "cnt \<le> rio_cnt rp" "cnt \<le> int n" "0 < n \<Longrightarrow> 0 < cnt"
      using bound by (auto simp: cnt_def)
    have len: "length bs = nat cnt" using eqs(2) bound range by auto
    have "take (nat cnt) (rio_unread rp) = bs"
      using eqs(2) range by (simp add: rio_unread_def min_def)
    moreover have "rio_unread (fst s') = drop (nat cnt) (rio_unread rp)"
      using eqs(3) range bound
      by (simp add: rio_unread_def drop_take nat_diff_distrib add.commute)
    ultimately have "bs @ rio_unread (fst s') = rio_unread rp"
      by (metis append_take_drop_id)
    moreover have "rio_unread rp @ k_in c = rio_stream s" using props by (simp add: rio_stream_def)
    ultimately have "bs @ rio_stream s' = rio_stream s"
      using eqs(3) by (simp add: rio_stream_def) (metis append_assoc)
    moreover have "0 < n \<longrightarrow> bs \<noteq> []"
      using len range(4) by auto
    moreover have "length bs \<le> n" using len range by simp
    ultimately show ?thesis using eqs(1) len data by simp
  qed
qed

lemma rio_read_frame:
  assumes "rio_inv (fst s)" and "rio_read n s = (r, bs, s')"
  shows "rio_inv (fst s') \<and> set (k_rsched (snd s')) \<subseteq> set (k_rsched (snd s))
     \<and> length (k_rsched (snd s')) \<le> length (k_rsched (snd s))
     \<and> k_out (snd s') = k_out (snd s) \<and> k_wsched (snd s') = k_wsched (snd s)
     \<and> rio_fd (fst s') = rio_fd (fst s)"
proof -
  obtain q rp c where q: "rio_fill (fst s) (snd s) = (q, rp, c)"
    by (cases "rio_fill (fst s) (snd s)")
  note props = rio_fill_props [OF assms(1) q]
  have "0 < rio_cnt rp \<Longrightarrow> rio_cnt rp \<le> 8192"
    using props by (auto simp: rio_inv_def RIO_BUFSIZE_def)
  then have "c_int (int n) = int n" if "\<not> rio_cnt rp < int n" "0 < rio_cnt rp"
    using that by (simp add: c_int_id)
  with assms(2) q props show ?thesis
    by (cases q) (auto simp: rio_read_def Let_def rio_inv_def nat_diff_distrib)
qed

interpretation rb: byte_source rio_read rio_stream "\<lambda>s. rio_inv (fst s)" "\<lambda>s. rd_only_eintr (snd s)"
  "\<lambda>_. False" "\<lambda>s. length (k_rsched (snd s))"
proof (unfold_locales, goal_cases)
  case (1 s n r bs s') then show ?case using rio_read_frame by blast
next
  case (2 s n r bs s') then show ?case by (auto elim!: rio_read_cases)
next
  case (3 s n k bs s') then show ?case by (auto elim!: rio_read_cases)
next
  case (4 s n e bs s') then show ?case by (auto elim!: rio_read_cases)
next
  case (5 s n bs s') then show ?case by (auto elim!: rio_read_cases)
next
  case (6 s n r bs s')
  then show ?case using rio_read_frame [of s n r bs s'] rd_only_eintr_tl [of "snd s" "snd s'"] by blast
next
  case (7 s n e bs s') then show ?case by (auto elim!: rio_read_cases simp: rd_only_eintr_def)
next
  case (8 s n e bs s') then show ?case by (auto elim!: rio_read_cases)
next
  case (9 s n k bs s') then show ?case using rio_read_frame by blast
qed

interpretation rn: read_fully kread k_in "\<lambda>_. True" rd_only_eintr "\<lambda>e. e = EINTR"
  "\<lambda>c. length (k_rsched c)" rio_readn_loop
  by unfold_locales (subst rio_readn_loop.simps, simp split: sum.splits prod.splits)

interpretation rnb: read_fully rio_read rio_stream "\<lambda>s. rio_inv (fst s)"
  "\<lambda>s. rd_only_eintr (snd s)" "\<lambda>_. False" "\<lambda>s. length (k_rsched (snd s))" rio_readnb_loop
  by unfold_locales (subst rio_readnb_loop.simps, simp split: sum.splits prod.splits)

text \<open>The writing loop, with its answer reduced to whether and how it stopped early.\<close>

fun writen_stop :: "(errno + nat) \<times> chan \<Rightarrow> errno option \<times> chan" where
  "writen_stop (Inl e, c) = (Some e, c)"
| "writen_stop (Inr n, c) = (None, c)"

lemma rio_writen_loop_Nil [simp]: "rio_writen_loop [] n c = (Inr n, c)"
  by (simp add: rio_writen_loop.simps)

lemma rio_writen_loop_ret: "fst (rio_writen_loop bs n c) = Inr k \<Longrightarrow> k = n"
proof (induction bs n c rule: rio_writen_loop.induct)
  case (1 bufp n c)
  then show ?case
    by (subst (asm) (2) rio_writen_loop.simps)
       (auto split: if_splits prod.splits wr_res.splits)
qed

lemma rio_writen_loop_reads:
  "rio_writen_loop bs n c = (r, c') \<Longrightarrow> k_in c' = k_in c \<and> k_rsched c' = k_rsched c"
proof (induction bs n c rule: rio_writen_loop.induct)
  case (1 bufp n c)
  then show ?case
    by (subst (asm) (4) rio_writen_loop.simps)
       (auto split: if_splits prod.splits wr_res.splits dest!: kwrite_reads)
qed

interpretation rw: write_fully kwrite k_out wr_only_eintr wr_again "\<lambda>c. length (k_wsched c)"
  "\<lambda>bs c. writen_stop (rio_writen_loop bs n c)" for n
  by unfold_locales
     (subst rio_writen_loop.simps, auto simp: wr_again_def split: prod.splits wr_res.splits)

section \<open>Reading lines\<close>

text \<open>The reference: at most \<open>m\<close> bytes, up to and including the first newline.\<close>

fun line_take :: "nat \<Rightarrow> bytes \<Rightarrow> bytes" where
  "line_take 0 xs = []"
| "line_take (Suc m) [] = []"
| "line_take (Suc m) (x # xs) = (if x = LF then [x] else x # line_take m xs)"

lemma line_take_Nil [simp]: "line_take m [] = []"
  by (cases m) auto

lemma line_take_prefix: "take (length (line_take m xs)) xs = line_take m xs"
  by (induction m xs rule: line_take.induct) auto

lemma line_take_append_drop: "line_take m xs @ drop (length (line_take m xs)) xs = xs"
  by (metis append_take_drop_id line_take_prefix)

lemma length_line_take: "length (line_take m xs) \<le> m"
  by (induction m xs rule: line_take.induct) auto

lemma line_take_eq_Nil: "line_take m xs = [] \<longleftrightarrow> m = 0 \<or> xs = []"
  by (cases "(m, xs)" rule: line_take.cases) auto

lemma line_take_line: "LF \<notin> set l \<Longrightarrow> length l < m \<Longrightarrow> line_take m (l @ LF # rest) = l @ [LF]"
proof (induction l arbitrary: m)
  case Nil then show ?case by (cases m) auto
next
  case (Cons x l) then show ?case by (cases m) auto
qed

text \<open>
  The bytes a call has taken from the stream: those it returns (all it stored but the terminating NUL), or those it had read when it failed,
  which are lost to a caller that gets only -1.
\<close>

fun consumed :: "errno + nat \<Rightarrow> bytes \<Rightarrow> bytes" where
  "consumed (Inr k) bs = take k bs"
| "consumed (Inl e) bs = bs"

lemma rio_readlineb_loop_inv:
  assumes "rio_inv (fst s)" and "rio_readlineb_loop m (Suc (length acc)) acc s = (r, bs, s')"
  shows "rio_inv (fst s') \<and> consumed r bs @ rio_stream s' = acc @ rio_stream s
     \<and> length bs \<le> max (Suc (length acc)) m
     \<and> k_out (snd s') = k_out (snd s) \<and> k_wsched (snd s') = k_wsched (snd s)"
  using assms
proof (induction "m - Suc (length acc)" arbitrary: acc s rule: less_induct)
  case less
  show ?case
  proof (cases "Suc (length acc) < m")
    case False
    with less.prems show ?thesis by (auto simp: rio_readlineb_loop.simps)
  next
    case True
    obtain q ds t where q: "rio_read 1 s = (q, ds, t)" by (cases "rio_read 1 s")
    note frame = rio_read_frame [OF less.prems(1) q]
    from less.prems(1) q show ?thesis
    proof (cases rule: rio_read_cases)
      case (fail e)
      with True q less.prems(2) frame show ?thesis
        by (auto simp: rio_readlineb_loop.simps [of m "Suc (length acc)"])
    next
      case eof
      with True q less.prems(2) frame show ?thesis
        by (auto simp: rio_readlineb_loop.simps [of m "Suc (length acc)"] split: if_splits)
    next
      case data
      then obtain x where x: "ds = [x]" by (cases ds) auto
      show ?thesis
      proof (cases "x = LF")
        case nl: True
        with data x True q less.prems(2) frame show ?thesis
          by (auto simp: rio_readlineb_loop.simps [of m "Suc (length acc)"])
      next
        case False
        with data x True q less.prems(2)
        have "rio_readlineb_loop m (Suc (length (acc @ [x]))) (acc @ [x]) t = (r, bs, s')"
          by (simp add: rio_readlineb_loop.simps [of m "Suc (length acc)"])
        moreover have "m - Suc (length (acc @ [x])) < m - Suc (length acc)" using True by simp
        ultimately have "rio_inv (fst s') \<and> consumed r bs @ rio_stream s' = (acc @ [x]) @ rio_stream t
          \<and> length bs \<le> max (Suc (length (acc @ [x]))) m
          \<and> k_out (snd s') = k_out (snd t) \<and> k_wsched (snd s') = k_wsched (snd t)"
          using less.hyps [of "acc @ [x]" t] frame by blast
        with data x frame True show ?thesis by auto
      qed
    qed
  qed
qed

lemma rio_readlineb_loop_clean:
  assumes "rio_inv (fst s)" and "rd_only_eintr (snd s)" and "0 < length acc \<or> rio_stream s \<noteq> []"
    and "l = acc @ line_take (m - Suc (length acc)) (rio_stream s)"
  shows "\<exists>s'. rio_readlineb_loop m (Suc (length acc)) acc s = (Inr (length l), l @ [NUL], s')
     \<and> rio_inv (fst s') \<and> rd_only_eintr (snd s')
     \<and> rio_stream s' = drop (length l - length acc) (rio_stream s)"
  using assms
proof (induction "m - Suc (length acc)" arbitrary: acc s l rule: less_induct)
  case less
  show ?case
  proof (cases "Suc (length acc) < m")
    case False
    with less.prems show ?thesis by (auto simp: rio_readlineb_loop.simps)
  next
    case True
    then obtain j where j: "m - Suc (length acc) = Suc j" by (metis Suc_diff_Suc)
    obtain q ds t where q: "rio_read 1 s = (q, ds, t)" by (cases "rio_read 1 s")
    note t = rb.rd_ok [OF less.prems(1) q] rb.rd_clean [OF less.prems(1,2) q]
    from less.prems(1) q show ?thesis
    proof (cases rule: rio_read_cases)
      case (fail e)
      with rb.rd_retry [OF less.prems(1,2)] q show ?thesis by blast
    next
      case eof
      with True q less.prems t show ?thesis
        by (auto simp: rio_readlineb_loop.simps [of m "Suc (length acc)"])
    next
      case data
      then obtain x where x: "ds = [x]" by (cases ds) auto
      with data have st: "rio_stream s = x # rio_stream t" by simp
      show ?thesis
      proof (cases "x = LF")
        case nl: True
        with data x True q less.prems t st j show ?thesis
          by (auto simp: rio_readlineb_loop.simps [of m "Suc (length acc)"])
      next
        case False
        have "m - Suc (length (acc @ [x])) < m - Suc (length acc)" using True by simp
        moreover have "l = (acc @ [x]) @ line_take (m - Suc (length (acc @ [x]))) (rio_stream t)"
          using less.prems(4) st j False by auto (metis Suc_inject Suc_diff_Suc True)
        ultimately obtain s' where
          "rio_readlineb_loop m (Suc (length (acc @ [x]))) (acc @ [x]) t = (Inr (length l), l @ [NUL], s')"
          and s': "rio_inv (fst s')" "rd_only_eintr (snd s')"
            "rio_stream s' = drop (length l - length (acc @ [x])) (rio_stream t)"
          using less.hyps [of "acc @ [x]" t l] t by auto
        moreover have "drop (length l - length acc) (rio_stream s)
            = drop (length l - length (acc @ [x])) (rio_stream t)"
          using less.prems(4) st j False by simp
        ultimately show ?thesis
          using data x True q False by (auto simp: rio_readlineb_loop.simps [of m "Suc (length acc)"])
      qed
    qed
  qed
qed

lemma rio_readlineb_inv:
  assumes "rio_inv (fst s)" and "rio_readlineb m s = (r, bs, s')"
  shows "rio_inv (fst s') \<and> consumed r bs @ rio_stream s' = rio_stream s \<and> length bs \<le> max 1 m
     \<and> k_out (snd s') = k_out (snd s) \<and> k_wsched (snd s') = k_wsched (snd s)"
  using rio_readlineb_loop_inv [of s m "[]" r bs s'] assms by (simp add: rio_readlineb_def)

lemma rio_readlineb_clean:
  assumes "rio_inv (fst s)" and "rd_only_eintr (snd s)" and "1 < m"
    and l: "l = line_take (m - 1) (rio_stream s)"
  shows "\<exists>s'. rio_readlineb m s = (Inr (length l), if l = [] then [] else l @ [NUL], s')
     \<and> rio_inv (fst s') \<and> rd_only_eintr (snd s') \<and> rio_stream s' = drop (length l) (rio_stream s)"
proof (cases "rio_stream s = []")
  case False
  with assms line_take_eq_Nil [of "m - 1"] show ?thesis
    using rio_readlineb_loop_clean [of s "[]" l m] by (simp add: rio_readlineb_def)
next
  case True
  obtain q ds t where q: "rio_read 1 s = (q, ds, t)" by (cases "rio_read 1 s")
  note t = rb.rd_ok [OF assms(1) q] rb.rd_clean [OF assms(1,2) q]
  from assms(1) q show ?thesis
  proof (cases rule: rio_read_cases)
    case (fail e)
    with rb.rd_retry [OF assms(1,2)] q show ?thesis by blast
  next
    case eof
    with True q t assms(3) l show ?thesis
      by (cases t) (simp add: rio_readlineb_def rio_readlineb_loop.simps [of m "Suc 0"])
  next
    case data
    with True show ?thesis by simp
  qed
qed

lemma rio_readnb_inv:
  assumes "rio_inv (fst s)" and "rio_readnb n s = (r, bs, s')"
  shows "rio_inv (fst s') \<and> bs @ rio_stream s' = rio_stream s \<and> length bs \<le> n
     \<and> (\<forall>k. r = Inr k \<longrightarrow> k = length bs)"
  using rnb.loop_inv [of s n "[]" r bs s'] assms by (simp add: rio_readnb_def)

lemma rio_readnb_clean:
  assumes "rio_inv (fst s)" and "rd_only_eintr (snd s)"
  shows "\<exists>s'. rio_readnb n s = (Inr (length (take n (rio_stream s))), take n (rio_stream s), s')
     \<and> rio_inv (fst s') \<and> rd_only_eintr (snd s') \<and> rio_stream s' = drop n (rio_stream s)"
  using rnb.loop_full [of s n "[]"] assms by (simp add: rio_readnb_def)

lemma rio_readnb_frame:
  assumes "rio_inv (fst s)" and "rio_readnb_loop n acc s = (r, bs, s')"
  shows "k_out (snd s') = k_out (snd s) \<and> k_wsched (snd s') = k_wsched (snd s)"
  using assms
proof (induction n arbitrary: acc s rule: less_induct)
  case (less n)
  obtain q ds t where q: "rio_read n s = (q, ds, t)" by (cases "rio_read n s")
  note frame = rio_read_frame [OF less.prems(1) q]
  show ?case
  proof (cases "n = 0 \<or> (\<exists>e. q = Inl e) \<or> q = Inr 0")
    case True
    with less.prems q frame show ?thesis
      by (auto simp: rio_readnb_loop.simps [of n acc s] split: if_splits)
  next
    case False
    then obtain k where "q = Inr k" "0 < k" "0 < n" by (cases q) auto
    with less.prems(2) q less.IH [of "n - k" t "acc @ ds"] frame show ?thesis
      by (auto simp: rio_readnb_loop.simps [of n acc s])
  qed
qed

lemma rio_writen_cases:
  assumes "rio_writen c bs = (r, c')"
  shows "k_in c' = k_in c \<and> k_rsched c' = k_rsched c
    \<and> (\<exists>k \<le> length bs. k_out c' = k_out c @ take k bs
         \<and> (\<forall>n. r = Inr n \<longrightarrow> n = length bs \<and> k = length bs)
         \<and> (\<forall>e. r = Inl e \<longrightarrow> e \<noteq> EINTR \<and> k < length bs))"
proof -
  have loop: "rio_writen_loop bs (length bs) c = (r, c')"
    using assms by (simp add: rio_writen_def)
  obtain k where k: "k \<le> length bs" "k_out c' = k_out c @ take k bs"
    "fst (writen_stop (r, c')) = None \<longrightarrow> k = length bs"
    "fst (writen_stop (r, c')) \<noteq> None \<longrightarrow>
       k < length bs \<and> (\<exists>x. \<not> wr_again x \<and> wr_errno x = fst (writen_stop (r, c')))"
    using rw.wloop_prefix [where n = "length bs" and bs = bs and s = c] loop
    by (cases r) auto
  have "n = length bs" if "r = Inr n" for n
    using rio_writen_loop_ret [of bs "length bs" c n] loop that by simp
  moreover have "e \<noteq> EINTR \<and> k < length bs" if e: "r = Inl e" for e
  proof -
    from k(4) e obtain x where x: "k < length bs" "\<not> wr_again x" "wr_errno x = Some e" by auto
    then show ?thesis by (cases x) (auto simp: wr_again_def)
  qed
  ultimately show ?thesis using k rio_writen_loop_reads [OF loop]
    by (intro conjI exI [of _ k]) (cases r; auto)+
qed

lemma rio_writen_calm:
  assumes "wr_only_eintr c"
  shows "\<exists>c'. rio_writen c bs = (Inr (length bs), c') \<and> k_out c' = k_out c @ bs \<and> wr_only_eintr c'
     \<and> k_in c' = k_in c \<and> k_rsched c' = k_rsched c"
proof -
  obtain r c' where rc: "rio_writen c bs = (r, c')" by (cases "rio_writen c bs")
  obtain s' where s': "writen_stop (r, c') = (None, s')" "k_out s' = k_out c @ bs" "wr_only_eintr s'"
    using rw.wloop_calm [OF assms, where n = "length bs" and bs = bs] rc by (auto simp: rio_writen_def)
  then have "s' = c'" and "\<exists>n. r = Inr n" by (cases r; auto)+
  with rio_writen_cases [OF rc] rc s' show ?thesis by auto
qed

section \<open>Properties\<close>

text \<open>
  reading \<open>n\<close> bytes through the buffer. If reads fail only by interruption, \<open>rio_readnb\<close>
  returns exactly the next \<open>n\<close> bytes of the stream, or all that is left of it, however the
  kernel cuts its answers, and leaves the rest of the stream.
\<close>

lemma rio_readnb_exact:
  assumes "rio_inv rp" and "rd_only_eintr c"
  shows "\<exists>rp' c'. rio_readnb n (rp, c) =
           (Inr (min (length (rio_stream (rp, c))) n), take n (rio_stream (rp, c)), rp', c')
     \<and> rio_stream (rp', c') = drop n (rio_stream (rp, c)) \<and> rio_inv rp' \<and> rd_only_eintr c'"
  using rio_readnb_clean [of "(rp, c)" n] assms by auto

text \<open>
  reading a line. If reads fail only by interruption, \<open>rio_readlineb\<close> stores the bytes up to
  and including the first newline, at most \<open>maxlen - 1\<close> of them, followed by a NUL, and returns
  their number; at end of file it returns 0 and stores nothing. The stream keeps the rest.
\<close>

lemma rio_readlineb_exact:
  assumes "rio_inv rp" and "rd_only_eintr c" and "1 < maxlen"
    and "l = line_take (maxlen - 1) (rio_stream (rp, c))"
  shows "\<exists>rp' c'. rio_readlineb maxlen (rp, c) =
           (Inr (length l), if l = [] then [] else l @ [NUL], rp', c')
     \<and> rio_stream (rp', c') = drop (length l) (rio_stream (rp, c)) \<and> rio_inv rp' \<and> rd_only_eintr c'"
  using rio_readlineb_clean [of "(rp, c)" maxlen l] assms by auto

text \<open>
  A session: any interleaving of \<open>rio_readlineb\<close> and \<open>rio_readnb\<close> calls on one buffer. A call that returns a count gives the caller
  its bytes; a call that returns -1 gives none, and what it had read is lost.
\<close>

datatype rio_call = ReadLine nat | ReadN nat
datatype rio_part = Got bytes | Lost bytes

fun part_bytes :: "rio_part \<Rightarrow> bytes" where
  "part_bytes (Got bs) = bs"
| "part_bytes (Lost bs) = bs"

fun is_lost :: "rio_part \<Rightarrow> bool" where
  "is_lost (Got bs) = False"
| "is_lost (Lost bs) = True"

fun rio_do :: "rio_call \<Rightarrow> rio_t \<times> chan \<Rightarrow> (errno + nat) \<times> bytes \<times> rio_t \<times> chan" where
  "rio_do (ReadLine m) s = rio_readlineb m s"
| "rio_do (ReadN n) s = rio_readnb n s"

fun rio_part_of :: "errno + nat \<Rightarrow> bytes \<Rightarrow> rio_part" where
  "rio_part_of (Inr k) bs = Got (take k bs)"
| "rio_part_of (Inl e) bs = Lost bs"

fun rio_session :: "rio_call list \<Rightarrow> rio_t \<times> chan \<Rightarrow> rio_part list \<times> rio_t \<times> chan" where
  "rio_session [] s = ([], s)"
| "rio_session (x # xs) s =
     (case rio_do x s of (r, bs, s') \<Rightarrow>
        case rio_session xs s' of (ps, t) \<Rightarrow> (rio_part_of r bs # ps, t))"

text \<open>What a call may give or lose: a line call no more than one line, and a failed call less than was asked for.\<close>

fun part_ok :: "rio_call \<Rightarrow> rio_part \<Rightarrow> bool" where
  "part_ok (ReadN n) (Got bs) \<longleftrightarrow> length bs \<le> n"
| "part_ok (ReadN n) (Lost bs) \<longleftrightarrow> length bs < n"
| "part_ok (ReadLine m) (Got bs) \<longleftrightarrow> length bs \<le> m - 1 \<and> LF \<notin> set (butlast bs)"
| "part_ok (ReadLine m) (Lost bs) \<longleftrightarrow> length bs < m - 1 \<and> LF \<notin> set bs"

text \<open>The read errors other than interruptions that are still to come.\<close>

fun rd_fatal :: "rd_ev \<Rightarrow> bool" where
  "rd_fatal (RdFail e) = (e \<noteq> EINTR)"
| "rd_fatal (RdGive k) = False"

definition rd_errors :: "chan \<Rightarrow> nat" where
  "rd_errors c = length (filter rd_fatal (k_rsched c))"

lemma rd_errors_eintr: "rd_only_eintr c \<Longrightarrow> rd_errors c = 0"
proof -
  have "rd_fatal ev \<Longrightarrow> \<exists>e. ev = RdFail e \<and> e \<noteq> EINTR" for ev by (cases ev) auto
  then show "rd_only_eintr c \<Longrightarrow> rd_errors c = 0" by (fastforce simp: rd_errors_def rd_only_eintr_def filter_empty_conv)
qed

lemma rio_fill_errors:
  "rio_fill rp c = (r, rp', c') \<Longrightarrow> rd_errors c' + (if \<exists>e. r = Some (Inl e) then 1 else 0) \<le> rd_errors c"
proof (induction rp c rule: rio_fill.induct)
  case (1 rp c)
  show ?case
  proof (cases "0 < rio_cnt rp")
    case True
    with "1.prems" show ?thesis by (auto simp: rio_fill.simps [of rp c])
  next
    case False
    obtain q bs d where q: "kread RIO_BUFSIZE c = (q, bs, d)" by (cases "kread RIO_BUFSIZE c")
    from q show ?thesis
    proof (cases rule: kread_cases)
      case (fail e s)
      then have "rd_errors c = rd_errors d + (if e = EINTR then 0 else 1)" by (simp add: rd_errors_def)
      with "1.IH"(1) [OF False q [symmetric]] fail False q "1.prems" show ?thesis
        by (auto simp: rio_fill.simps [of rp c] split: if_splits)
    next
      case give
      have "length (filter rd_fatal (tl xs)) \<le> length (filter rd_fatal xs)" for xs by (cases xs) simp_all
      then have "rd_errors d \<le> rd_errors c" using give(5) by (simp add: rd_errors_def)
      moreover have "c' = d \<and> (\<forall>e. r \<noteq> Some (Inl e))"
        using give(1) False q "1.prems"
          rio_fill.simps [of "rp\<lparr>rio_cnt := int (length bs), rio_buf := overlay bs (rio_buf rp), rio_bufptr := 0\<rparr>" d]
        by (auto simp: rio_fill.simps [of rp c] split: if_splits)
      ultimately show ?thesis by auto
    qed
  qed
qed

lemma rio_read_errors: "rio_read n s = (r, bs, s') \<Longrightarrow> rd_errors (snd s') + (if isl r then 1 else 0) \<le> rd_errors (snd s)"
proof -
  obtain q rp c where q: "rio_fill (fst s) (snd s) = (q, rp, c)" by (cases "rio_fill (fst s) (snd s)")
  from rio_fill_errors [OF q] q show "rio_read n s = (r, bs, s') \<Longrightarrow> ?thesis"
    by (cases q; cases "the q") (auto simp: rio_read_def Let_def)
qed

lemma rio_readnb_part:
  assumes "rio_inv (fst s)" "rio_readnb_loop n acc s = (r, bs, s')"
  shows "rd_errors (snd s') + (if isl r then 1 else 0) \<le> rd_errors (snd s)
    \<and> (if isl r then length bs < length acc + n else length bs \<le> length acc + n)"
  using assms
proof (induction n arbitrary: acc s rule: less_induct)
  case (less n)
  obtain q ds t where q: "rio_read n s = (q, ds, t)" by (cases "rio_read n s")
  note err = rio_read_errors [OF q]
  show ?case
  proof (cases "n = 0 \<or> (\<exists>e. q = Inl e) \<or> q = Inr 0")
    case True
    with less.prems q err show ?thesis by (auto simp: rio_readnb_loop.simps [of n acc s] split: if_splits)
  next
    case False
    then obtain k where k: "q = Inr k" "0 < k" "0 < n" by (cases q) auto
    then have "k = length ds \<and> length ds \<le> n" using rio_read_cases [OF less.prems(1) q] by auto
    with k less.prems q less.IH [of "n - k" t "acc @ ds"] rio_read_frame [OF less.prems(1) q] err show ?thesis
      by (auto simp: rio_readnb_loop.simps [of n acc s] split: if_splits)
  qed
qed

lemma rio_readlineb_part:
  assumes "rio_inv (fst s)" "LF \<notin> set acc" "rio_readlineb_loop m (Suc (length acc)) acc s = (r, bs, s')"
  shows "rd_errors (snd s') + (if isl r then 1 else 0) \<le> rd_errors (snd s)
    \<and> (case r of Inl e \<Rightarrow> length bs < m - 1 \<and> LF \<notin> set bs
       | Inr k \<Rightarrow> length (take k bs) \<le> max (length acc) (m - 1) \<and> LF \<notin> set (butlast (take k bs)))"
  using assms
proof (induction "m - Suc (length acc)" arbitrary: acc s rule: less_induct)
  case less
  have butl: "LF \<notin> set (butlast acc)" using less.prems(2) by (auto dest: in_set_butlastD)
  show ?case
  proof (cases "Suc (length acc) < m")
    case False
    with less.prems butl show ?thesis by (auto simp: rio_readlineb_loop.simps)
  next
    case True
    obtain q ds t where q: "rio_read 1 s = (q, ds, t)" by (cases "rio_read 1 s")
    note err = rio_read_errors [OF q] and inv = rio_read_frame [OF less.prems(1) q]
    show ?thesis
    proof (cases "q = Inr 1 \<and> (\<exists>x. ds = [x] \<and> x \<noteq> LF)")
      case no: False
      from less.prems(1) q show ?thesis
      proof (cases rule: rio_read_cases)
        case data
        with no have "ds = [LF]" "q = Inr 1" by (cases ds; auto)+
        with True q less.prems(2,3) err show ?thesis
          by (auto simp: rio_readlineb_loop.simps [of m "Suc (length acc)"])
      qed (use True q less.prems(2,3) err butl in \<open>auto simp: rio_readlineb_loop.simps [of m "Suc (length acc)"] split: if_splits\<close>)
    next
      case yes: True
      then obtain x where x: "q = Inr 1" "ds = [x]" "x \<noteq> LF" by blast
      then have "rio_readlineb_loop m (Suc (length (acc @ [x]))) (acc @ [x]) t = (r, bs, s')"
        using True q less.prems(3) by (simp add: rio_readlineb_loop.simps [of m "Suc (length acc)"])
      moreover have "m - Suc (length (acc @ [x])) < m - Suc (length acc)" using True by simp
      moreover have "LF \<notin> set (acc @ [x])" using less.prems(2) x(3) by simp
      ultimately have "rd_errors (snd s') + (if isl r then 1 else 0) \<le> rd_errors (snd t)
        \<and> (case r of Inl e \<Rightarrow> length bs < m - 1 \<and> LF \<notin> set bs
           | Inr k \<Rightarrow> length (take k bs) \<le> max (length (acc @ [x])) (m - 1) \<and> LF \<notin> set (butlast (take k bs)))"
        using less.hyps [of "acc @ [x]" t] inv by blast
      then show ?thesis using err x(1) True by (auto split: sum.splits)
    qed
  qed
qed

lemma rio_do_part:
  assumes "rio_inv (fst s)" "rio_do x s = (r, bs, s')"
  shows "rio_inv (fst s') \<and> part_bytes (rio_part_of r bs) @ rio_stream s' = rio_stream s \<and> part_ok x (rio_part_of r bs)
    \<and> rd_errors (snd s') + (if is_lost (rio_part_of r bs) then 1 else 0) \<le> rd_errors (snd s)"
proof (cases x)
  case (ReadLine m)
  then have r: "rio_readlineb m s = (r, bs, s')" using assms(2) by simp
  show ?thesis
    using rio_readlineb_inv [OF assms(1) r] rio_readlineb_part [of s "[]" m r bs s'] assms(1) r ReadLine
    by (cases r) (auto simp: rio_readlineb_def)
next
  case (ReadN n)
  then have r: "rio_readnb n s = (r, bs, s')" using assms(2) by simp
  show ?thesis
    using rio_readnb_inv [OF assms(1) r] rio_readnb_part [of s n "[]" r bs s'] assms(1) r ReadN
    by (cases r) (auto simp: rio_readnb_def)
qed

text \<open>
  C31: Any interleaving of line and block reads on one buffer takes the bytes of the stream in order, each once: what the calls
  have taken, followed by what can still be read, is the stream the session started with, and the buffer stays well formed, whatever
  the kernel answers. A call that returns gives the caller at most the count asked for, and a line call at most one line. A call fails only
  on a read error other than an interruption, one call for each such error at most; the bytes it had read, fewer than were asked for and without the
  end of a line, are lost to the caller. So where reads fail only by interruption no call fails, and the caller gets every byte.
\<close>

theorem rio_session_conserves:
  assumes "rio_inv rp" and "rio_session calls (rp, c) = (ps, rp', c')"
  shows "concat (map part_bytes ps) @ rio_stream (rp', c') = rio_stream (rp, c) \<and> rio_inv rp'
    \<and> list_all2 part_ok calls ps
    \<and> length (filter is_lost ps) + rd_errors c' \<le> rd_errors c
    \<and> (rd_only_eintr c \<longrightarrow> (\<forall>p \<in> set ps. \<not> is_lost p))"
proof -
  have session: "rio_inv (fst s) \<Longrightarrow> rio_session calls s = (ps, t) \<Longrightarrow>
      concat (map part_bytes ps) @ rio_stream t = rio_stream s \<and> rio_inv (fst t) \<and> list_all2 part_ok calls ps
      \<and> length (filter is_lost ps) + rd_errors (snd t) \<le> rd_errors (snd s)" for s t
  proof (induction calls arbitrary: s ps)
    case (Cons x xs)
    obtain r bs s1 where d: "rio_do x s = (r, bs, s1)" by (cases "rio_do x s")
    obtain qs where e: "rio_session xs s1 = (qs, t)" "ps = rio_part_of r bs # qs" using Cons.prems(2) d by (auto split: prod.splits)
    note p = rio_do_part [OF Cons.prems(1) d]
    show ?case using Cons.IH [of s1 qs] p e by auto
  qed simp
  note s = session [of "(rp, c)" "(rp', c')"]
  moreover have "rd_only_eintr c \<Longrightarrow> filter is_lost ps = []" using s assms rd_errors_eintr [of c] by simp
  ultimately show ?thesis using assms by (auto simp: filter_empty_conv)
qed

text \<open>
  \<open>rio_readlineb\<close> never stores more than \<open>maxlen\<close> bytes in the caller's buffer, the
  terminating NUL included.
\<close>

lemma rio_readlineb_bound:
  assumes "rio_inv rp" and "1 \<le> maxlen" and "rio_readlineb maxlen (rp, c) = (r, bs, rc)"
  shows "length bs \<le> maxlen"
  using rio_readlineb_inv [of "(rp, c)" maxlen r bs rc] assms by simp

text \<open>
  \<open>rio_writen\<close> either writes the whole buffer, in order, and returns its length, or fails with
  an error that is not an interruption after writing a proper prefix; if writes fail only by
  interruption it writes everything. It never touches the reading side.
\<close>

lemma rio_writen_result:
  assumes "rio_writen c bs = (r, c')"
  shows "(r = Inr (length bs) \<and> k_out c' = k_out c @ bs
       \<or> (\<exists>e k. r = Inl e \<and> e \<noteq> EINTR \<and> k < length bs \<and> k_out c' = k_out c @ take k bs))
     \<and> (wr_only_eintr c \<longrightarrow> r = Inr (length bs))
     \<and> k_in c' = k_in c \<and> k_rsched c' = k_rsched c"
  using rio_writen_cases [OF assms] rio_writen_calm [of c bs] assms by (cases r) auto

text \<open>
  \<open>rio_readn\<close> over the bare descriptor: with interruptions only, exactly the next \<open>n\<close> bytes,
  or all that is left.
\<close>

lemma rio_readn_exact:
  assumes "rd_only_eintr c"
  shows "\<exists>c'. rio_readn c n = (Inr (min (length (k_in c)) n), take n (k_in c), c')
     \<and> k_in c' = drop n (k_in c) \<and> rd_only_eintr c'"
  using rn.loop_full [of c n "[]"] assms by (auto simp: rio_readn_def)

section \<open>Witnesses\<close>

definition demo_rio :: rio_t where
  "demo_rio = rio_initb \<lparr>rio_fd = 0, rio_cnt = 0, rio_bufptr = 0, rio_buf = replicate RIO_BUFSIZE NUL\<rparr> 3"

definition demo_chan :: chan where
  "demo_chan = \<lparr>k_in = ''ab'' @ [LF] @ ''cd'', k_rsched = [RdGive 0, RdFail EINTR, RdGive 1],
                k_out = [], k_wsched = [WrTake 0, WrFail EINTR]\<rparr>"

lemma demo_ok: "rio_inv demo_rio" "rd_only_eintr demo_chan" "wr_only_eintr demo_chan"
  "rio_stream (demo_rio, demo_chan) = ''ab'' @ [LF] @ ''cd''"
  by (simp_all add: demo_rio_def demo_chan_def rio_initb_inv rd_only_eintr_def wr_only_eintr_def)

lemma rio_readnb_exact_witness:
  "\<exists>rp' c'. rio_readnb 4 (demo_rio, demo_chan) = (Inr 4, ''ab'' @ [LF] @ ''c'', rp', c')
     \<and> rio_stream (rp', c') = ''d''"
  using rio_readnb_exact [OF demo_ok(1,2), of 4] by (auto simp: demo_ok)

lemma rio_readlineb_exact_witness:
  "\<exists>rp' c'. rio_readlineb 8192 (demo_rio, demo_chan) = (Inr 3, ''ab'' @ [LF, NUL], rp', c')
     \<and> rio_stream (rp', c') = ''cd''"
  using rio_readlineb_exact [OF demo_ok(1,2), of 8192 "''ab'' @ [LF]"]
  by (auto simp: demo_ok line_take_line [of "''ab''" 8191, simplified])

theorem rio_session_conserves_witness:
  "\<exists>ps rp' c'. rio_session [ReadLine 100, ReadN 1] (demo_rio, demo_chan) = (ps, rp', c')
     \<and> concat (map part_bytes ps) @ rio_stream (rp', c') = ''ab'' @ [LF] @ ''cd'' \<and> (\<forall>p \<in> set ps. \<not> is_lost p)"
proof -
  obtain ps rp' c' where s: "rio_session [ReadLine 100, ReadN 1] (demo_rio, demo_chan) = (ps, rp', c')" by (metis surj_pair)
  show ?thesis using rio_session_conserves [OF demo_ok(1) s] s demo_ok(2,4) by auto
qed

lemma rio_readlineb_bound_witness:
  "\<exists>r bs rc. rio_readlineb 2 (demo_rio, demo_chan) = (r, bs, rc) \<and> length bs \<le> 2"
  using rio_readlineb_bound [OF demo_ok(1), of 2 demo_chan] by (metis one_le_numeral surj_pair)

lemma rio_writen_result_witness:
  "\<exists>c'. rio_writen demo_chan ''xyz'' = (Inr 3, c') \<and> k_out c' = ''xyz''"
proof -
  obtain r c' where rc: "rio_writen demo_chan ''xyz'' = (r, c')" by (cases "rio_writen demo_chan ''xyz''")
  from rio_writen_result [OF rc] demo_ok(3) show ?thesis
    using rc by (auto simp: demo_chan_def)
qed

lemma rio_readn_exact_witness:
  "\<exists>c'. rio_readn demo_chan 4 = (Inr 4, ''ab'' @ [LF] @ ''c'', c') \<and> k_in c' = ''d''"
  using rio_readn_exact [OF demo_ok(2), of 4] by (auto simp: demo_chan_def)

end
