(* ===== verification/C_Text.thy ===== *)
theory C_Text
  imports CS_Prelude "HOL-Library.Sublist"
begin

text \<open>
  The parts of the C library the sources use on strings: decimal conversion
  (\<open>printf\<close>'s \<open>%d\<close>, \<open>%ld\<close>; \<open>atol\<close>, \<open>atoi\<close>), searching (\<open>strchr\<close>, \<open>strrchr\<close>,
  \<open>strstr\<close>, \<open>memmem\<close>, \<open>memchr\<close>) and comparison without case. A pointer into a string is
  an offset, a null pointer is \<open>None\<close>. The lemmas give the round trip of printing and reading
  a number and characterise the searches by their first occurrence.
\<close>

section \<open>Decimal numbers\<close>

definition digit_char :: "nat \<Rightarrow> char" where
  "digit_char d = char_of (48 + d)"

definition isdigit :: "char \<Rightarrow> bool" where
  "isdigit c \<longleftrightarrow> 48 \<le> (of_char c :: nat) \<and> (of_char c :: nat) \<le> 57"

definition digit_val :: "char \<Rightarrow> nat" where
  "digit_val c = of_char c - 48"

fun dec_nat :: "nat \<Rightarrow> bytes" where
  "dec_nat n = (if n < 10 then [digit_char n] else dec_nat (n div 10) @ [digit_char (n mod 10)])"

definition dec_int :: "int \<Rightarrow> bytes" where
  "dec_int x = (if x < 0 then CHR ''-'' # dec_nat (nat (- x)) else dec_nat (nat x))"

definition digits_val :: "bytes \<Rightarrow> nat" where
  "digits_val ds = foldl (\<lambda>a c. 10 * a + digit_val c) 0 ds"

definition isspace :: "char \<Rightarrow> bool" where
  "isspace c \<longleftrightarrow> c = CHR '' '' \<or> (9 \<le> (of_char c :: nat) \<and> (of_char c :: nat) \<le> 13)"

text \<open>
  \<open>atol\<close> skips white space, takes an optional sign and the digits that follow, and stops at
  the first other character; a value out of range is cut to the end of the range, as \<open>strtol\<close>
  does. \<open>atoi\<close> is its conversion to \<open>int\<close>.
\<close>

definition atol :: "bytes \<Rightarrow> int" where
  "atol s =
     (let t = dropWhile isspace s;
          neg = (t \<noteq> [] \<and> hd t = CHR ''-'');
          u = (if t \<noteq> [] \<and> (hd t = CHR ''-'' \<or> hd t = CHR ''+'') then tl t else t);
          v = int (digits_val (takeWhile isdigit u))
      in max LONG_MIN (min LONG_MAX (if neg then - v else v)))"

definition atoi :: "bytes \<Rightarrow> int" where
  "atoi s = c_int (atol s)"

section \<open>Searching\<close>

fun memmem :: "bytes \<Rightarrow> bytes \<Rightarrow> nat option" where
  "memmem hay pat =
     (if prefix pat hay then Some 0
      else case hay of [] \<Rightarrow> None | c # rest \<Rightarrow> map_option Suc (memmem rest pat))"

abbreviation strstr :: "bytes \<Rightarrow> bytes \<Rightarrow> nat option" where
  "strstr \<equiv> memmem"

fun strchr :: "bytes \<Rightarrow> char \<Rightarrow> nat option" where
  "strchr [] c = None"
| "strchr (x # xs) c = (if x = c then Some 0 else map_option Suc (strchr xs c))"

fun strrchr :: "bytes \<Rightarrow> char \<Rightarrow> nat option" where
  "strrchr [] c = None"
| "strrchr (x # xs) c =
     (case strrchr xs c of Some i \<Rightarrow> Some (Suc i) | None \<Rightarrow> if x = c then Some 0 else None)"

section \<open>Comparison without case\<close>

definition to_lower :: "char \<Rightarrow> char" where
  "to_lower c = (if 65 \<le> (of_char c :: nat) \<and> (of_char c :: nat) \<le> 90 then char_of ((of_char c :: nat) + 32) else c)"

definition to_upper :: "char \<Rightarrow> char" where
  "to_upper c = (if 97 \<le> (of_char c :: nat) \<and> (of_char c :: nat) \<le> 122 then char_of ((of_char c :: nat) - 32) else c)"

definition strcaseeq :: "bytes \<Rightarrow> bytes \<Rightarrow> bool" where
  "strcaseeq s t \<longleftrightarrow> map to_lower s = map to_lower t"

text \<open>\<open>!strncasecmp(s, t, n)\<close> on NUL-free strings: the first \<open>n\<close> characters agree.\<close>

definition strncaseeq :: "bytes \<Rightarrow> bytes \<Rightarrow> nat \<Rightarrow> bool" where
  "strncaseeq s t n \<longleftrightarrow> map to_lower (take n s) = map to_lower (take n t)"

section \<open>Lemmas on decimal numbers\<close>

declare dec_nat.simps [simp del] memmem.simps [simp del]

lemma of_char_digit_char: "d < 10 \<Longrightarrow> (of_char (digit_char d) :: nat) = 48 + d"
  by (simp add: digit_char_def)

lemma digit_val_digit_char [simp]: "d < 10 \<Longrightarrow> digit_val (digit_char d) = d"
  by (simp add: digit_val_def of_char_digit_char)

lemma isdigit_digit_char [simp]: "d < 10 \<Longrightarrow> isdigit (digit_char d)"
  by (simp add: isdigit_def of_char_digit_char)

lemma digits_val_snoc [simp]: "digits_val (ds @ [c]) = 10 * digits_val ds + digit_val c"
  by (simp add: digits_val_def)

lemma digits_val_Nil [simp]: "digits_val [] = 0"
  by (simp add: digits_val_def)

lemma dec_nat_digits: "\<forall>c \<in> set (dec_nat n). isdigit c"
proof (induction n rule: dec_nat.induct)
  case (1 n)
  then show ?case by (subst dec_nat.simps) auto
qed

lemma dec_nat_nonempty [simp]: "dec_nat n \<noteq> []"
  by (subst dec_nat.simps) simp

lemma digits_val_dec_nat [simp]: "digits_val (dec_nat n) = n"
proof (induction n rule: dec_nat.induct)
  case (1 n)
  show ?case
  proof (cases "n < 10")
    case True
    then show ?thesis using digits_val_snoc [of "[]" "digit_char n"] by (subst dec_nat.simps) simp
  next
    case False
    with 1 show ?thesis by (subst dec_nat.simps) simp
  qed
qed

lemma length_dec_nat: "n < 10 ^ k \<Longrightarrow> 0 < k \<Longrightarrow> length (dec_nat n) \<le> k"
proof (induction n arbitrary: k rule: dec_nat.induct)
  case (1 n)
  show ?case
  proof (cases "n < 10")
    case True
    with "1.prems" show ?thesis by (subst dec_nat.simps) simp
  next
    case False
    with "1.prems" obtain j where j: "k = Suc j" "0 < j" by (cases k) (auto, cases "k - 1", auto)
    with "1.prems"(1) have "n div 10 < 10 ^ j" by auto
    with "1.IH" False j show ?thesis by (subst dec_nat.simps) simp
  qed
qed

lemma isdigit_not: "isdigit c \<Longrightarrow> c \<noteq> NUL \<and> c \<noteq> CHR ''-'' \<and> c \<noteq> CHR ''+'' \<and> \<not> isspace c"
  by (auto simp: isdigit_def isspace_def)

lemma NUL_notin_dec_nat [simp]: "NUL \<notin> set (dec_nat n)"
  using dec_nat_digits isdigit_not by blast

lemma NUL_notin_dec_int [simp]: "NUL \<notin> set (dec_int x)"
  by (auto simp: dec_int_def)

lemma takeWhile_dec_nat:
  assumes "rest = [] \<or> \<not> isdigit (hd rest)"
  shows "takeWhile isdigit (dec_nat n @ rest) = dec_nat n"
proof (cases rest)
  case Nil
  then show ?thesis using dec_nat_digits by (simp add: takeWhile_eq_all_conv)
next
  case (Cons c r)
  with assms show ?thesis using takeWhile_append_stop [OF dec_nat_digits] by simp
qed

lemma dec_nat_Cons: "\<exists>c ds. dec_nat n = c # ds \<and> isdigit c"
  using dec_nat_digits [of n] dec_nat_nonempty [of n] by (cases "dec_nat n") auto

lemma atol_nat:
  assumes "int n \<le> LONG_MAX" and "rest = [] \<or> \<not> isdigit (hd rest)"
  shows "atol (dec_nat n @ rest) = int n"
proof -
  obtain c ds where c: "dec_nat n = c # ds" "isdigit c" using dec_nat_Cons by blast
  then have "dropWhile isspace (dec_nat n @ rest) = dec_nat n @ rest"
    using isdigit_not [of c] by simp
  moreover have "digits_val (c # ds) = n" using c digits_val_dec_nat [of n] by simp
  ultimately show ?thesis
    using c assms isdigit_not [of c] takeWhile_dec_nat [OF assms(2), of n]
    by (simp add: atol_def Let_def LONG_MIN_def)
qed

text \<open>Reading back what was printed, whatever non-digit follows it.\<close>

lemma atol_dec_int:
  assumes "LONG_MIN \<le> x" and "x \<le> LONG_MAX" and "rest = [] \<or> \<not> isdigit (hd rest)"
  shows "atol (dec_int x @ rest) = x"
proof (cases "x < 0")
  case True
  have "\<not> isspace CHR ''-''" by (simp add: isspace_def)
  with True assms takeWhile_dec_nat [OF assms(3), of "nat (- x)"] show ?thesis
    by (simp add: atol_def Let_def dec_int_def LONG_MIN_def LONG_MAX_def)
next
  case False
  with assms atol_nat [of "nat x" rest] show ?thesis by (simp add: dec_int_def)
qed

lemma atol_blanks: "(\<forall>c \<in> set ws. isspace c) \<Longrightarrow> atol (ws @ s) = atol s"
  by (simp add: atol_def)

lemma length_dec_int: "LONG_MIN \<le> x \<Longrightarrow> x \<le> LONG_MAX \<Longrightarrow> length (dec_int x) \<le> 20"
  using length_dec_nat [of "nat (- x)" 19] length_dec_nat [of "nat x" 19]
  by (auto simp: dec_int_def LONG_MIN_def LONG_MAX_def nat_less_iff)

section \<open>Lemmas on searching\<close>

lemma memmem_SomeD:
  "memmem hay pat = Some i \<Longrightarrow>
     i + length pat \<le> length hay \<and> take (length pat) (drop i hay) = pat
     \<and> (\<forall>j < i. \<not> prefix pat (drop j hay))"
proof (induction hay arbitrary: i)
  case Nil
  then show ?case by (auto simp: memmem.simps split: if_splits)
next
  case (Cons c hay)
  show ?case
  proof (cases "prefix pat (c # hay)")
    case True
    then have "length pat \<le> length (c # hay)" by (rule prefix_length_le)
    with True Cons.prems show ?thesis by (auto simp: memmem.simps prefix_def)
  next
    case False
    with Cons.prems obtain j where j: "memmem hay pat = Some j" "i = Suc j"
      by (auto simp: memmem.simps [of "c # hay"])
    have "\<not> prefix pat (drop k (c # hay))" if "k < i" for k
      using that False Cons.IH [OF j(1)] j(2) by (cases k) auto
    with Cons.IH [OF j(1)] j(2) show ?thesis by simp
  qed
qed

lemma memmem_NoneD: "memmem hay pat = None \<Longrightarrow> \<not> prefix pat (drop j hay)"
proof (induction hay arbitrary: j)
  case Nil
  then show ?case by (auto simp: memmem.simps split: if_splits)
next
  case (Cons c hay)
  then show ?case by (cases j) (auto simp: memmem.simps [of "c # hay"] split: if_splits)
qed

lemma memmem_eqI:
  assumes "prefix pat (drop i hay)" and "\<forall>j < i. \<not> prefix pat (drop j hay)" and "i \<le> length hay"
  shows "memmem hay pat = Some i"
proof (cases "memmem hay pat")
  case None
  with memmem_NoneD assms(1) show ?thesis by blast
next
  case (Some k)
  then have k: "k + length pat \<le> length hay" "take (length pat) (drop k hay) = pat"
    "\<forall>j < k. \<not> prefix pat (drop j hay)"
    using memmem_SomeD [OF Some] by auto
  from k(2) have "prefix pat (drop k hay)" by (metis take_is_prefix)
  with k(3) assms(1,2) have "k = i" using linorder_neqE_nat by metis
  with Some show ?thesis by simp
qed

lemma strchr_SomeD: "strchr s c = Some i \<Longrightarrow> i < length s \<and> s ! i = c \<and> c \<notin> set (take i s)"
  by (induction s arbitrary: i) (auto split: if_splits)

lemma strchr_None: "strchr s c = None \<longleftrightarrow> c \<notin> set s"
  by (induction s) auto

lemma strchr_append: "c \<notin> set s \<Longrightarrow> strchr (s @ c # t) c = Some (length s)"
  by (induction s) auto

lemma strrchr_None: "strrchr s c = None \<longleftrightarrow> c \<notin> set s"
  by (induction s) (auto split: option.splits)

lemma strrchr_SomeD: "strrchr s c = Some i \<Longrightarrow> i < length s \<and> s ! i = c \<and> c \<notin> set (drop (Suc i) s)"
  by (induction s arbitrary: i) (auto simp: strrchr_None split: option.splits if_splits)

lemma strrchr_append: "c \<notin> set t \<Longrightarrow> strrchr (s @ c # t) c = Some (length s)"
proof (induction s)
  case Nil
  then show ?case by (simp add: strrchr_None [THEN iffD2])
qed auto

end
