(* ===== verification/Sio.thy ===== *)
theory Sio
  imports C_Text Kernel_IO "HOL-Library.Monad_Syntax"
begin

text \<open>
  The async-signal-safe output of \<open>Chapter8/8.5-8.6/shell/csapp.c\<close> (the copies in
  \<open>sync/csapp.c\<close> and \<open>waitsig/csapp.c\<close> are the same text). Arrays are updated in place;
  \<open>None\<close> stands for undefined behaviour: an access outside the array or an overflow of
  \<open>long\<close>. The theorems show that \<open>sio_ltoa\<close> prints the decimal numeral of every \<open>long\<close> but
  \<open>LONG_MIN\<close> inside the 128 bytes \<open>sio_putl\<close> gives it.
\<close>

section \<open>Model\<close>

definition peek :: "bytes \<Rightarrow> nat \<Rightarrow> byte option" where
  "peek s i = (if i < length s then Some (s ! i) else None)"

definition poke :: "bytes \<Rightarrow> nat \<Rightarrow> byte \<Rightarrow> bytes option" where
  "poke s i c = (if i < length s then Some (s[i := c]) else None)"

function sio_strlen_loop :: "bytes \<Rightarrow> nat \<Rightarrow> nat option" where
  "sio_strlen_loop s i =
     (case peek s i of None \<Rightarrow> None
      | Some c \<Rightarrow> if c \<noteq> NUL then sio_strlen_loop s (i + 1) else Some i)"
  by pat_completeness auto
termination
  by (relation "measure (\<lambda>(s, i). length s - i)") (auto simp: peek_def split: if_splits)

definition sio_strlen :: "bytes \<Rightarrow> nat option" where
  "sio_strlen s = sio_strlen_loop s 0"

function sio_reverse_loop :: "bytes \<Rightarrow> nat \<Rightarrow> nat \<Rightarrow> bytes option" where
  "sio_reverse_loop s i j =
     (if i < j then
        do { a \<leftarrow> peek s i; b \<leftarrow> peek s j;
             s1 \<leftarrow> poke s i b; s2 \<leftarrow> poke s1 j a;
             sio_reverse_loop s2 (i + 1) (j - 1) }
      else Some s)"
  by pat_completeness auto
termination
  by (relation "measure (\<lambda>(s, i, j). j - i)") auto

text \<open>\<open>len - 1\<close> is computed in \<open>size_t\<close>: it wraps at 0.\<close>

definition sio_reverse :: "bytes \<Rightarrow> nat \<Rightarrow> bytes option" where
  "sio_reverse s len = sio_reverse_loop s 0 ((len + 2 ^ 64 - 1) mod 2 ^ 64)"

text \<open>The \<open>do ... while\<close> loop; \<open>v\<close> is not negative here.\<close>

function sio_digits :: "int \<Rightarrow> nat \<Rightarrow> bytes \<Rightarrow> (nat \<times> bytes) option" where
  "sio_digits v i s =
     do { s' \<leftarrow> poke s i (digit_char (nat (v mod 10)));
          if 0 < v div 10 then sio_digits (v div 10) (i + 1) s' else Some (i + 1, s') }"
  by pat_completeness auto
termination
  by (relation "measure (\<lambda>(v, i, s). nat v)") auto

definition sio_ltoa :: "int \<Rightarrow> bytes \<Rightarrow> bytes option" where
  "sio_ltoa v s =
     do { let neg = v < 0;
          v1 \<leftarrow> (if neg then (if - v \<le> LONG_MAX then Some (- v) else None) else Some v);
          (i, s1) \<leftarrow> sio_digits v1 0 s;
          (i2, s2) \<leftarrow> (if neg then do { s' \<leftarrow> poke s1 i (CHR ''-''); Some (i + 1, s') } else Some (i, s1));
          s3 \<leftarrow> poke s2 i2 NUL;
          sio_reverse s3 i2 }"

definition sio_puts :: "bytes \<Rightarrow> chan \<Rightarrow> (wr_res \<times> chan) option" where
  "sio_puts s out = do { n \<leftarrow> sio_strlen s; Some (kwrite (take n s) out) }"

text \<open>The local array of \<open>sio_putl\<close> holds whatever the stack held: the argument \<open>s\<close>.\<close>

definition sio_putl :: "bytes \<Rightarrow> int \<Rightarrow> chan \<Rightarrow> (wr_res \<times> chan) option" where
  "sio_putl s v out = do { s' \<leftarrow> sio_ltoa v s; sio_puts s' out }"

text \<open>\<open>sio_error\<close> prints and leaves with status 1: the exit status and the channel.\<close>

definition sio_error :: "bytes \<Rightarrow> chan \<Rightarrow> (nat \<times> chan) option" where
  "sio_error s out = do { (r, out') \<leftarrow> sio_puts s out; Some (1, out') }"

declare sio_strlen_loop.simps [simp del] sio_reverse_loop.simps [simp del] sio_digits.simps [simp del]

section \<open>Strings\<close>

lemma sio_strlen_loop_eq:
  assumes "NUL \<in> set (drop i s)"
  shows "sio_strlen_loop s i = Some (i + length (cstr (drop i s)))"
  using assms
proof (induction s i rule: sio_strlen_loop.induct)
  case (1 s i)
  then have i: "i < length s" by (metis drop_eq_Nil empty_iff list.set(1) not_le)
  then have d: "drop i s = s ! i # drop (Suc i) s" by (simp add: Cons_nth_drop_Suc)
  show ?case
  proof (cases "s ! i = NUL")
    case True
    with i d show ?thesis by (subst sio_strlen_loop.simps) (simp add: peek_def cstr_def)
  next
    case False
    with "1.prems" d have "NUL \<in> set (drop (i + 1) s)" by auto
    with 1 False i d show ?thesis
      by (subst sio_strlen_loop.simps) (simp add: peek_def cstr_def)
  qed
qed

lemma sio_strlen_eq: "NUL \<in> set s \<Longrightarrow> sio_strlen s = Some (length (cstr s))"
  using sio_strlen_loop_eq [of 0 s] by (simp add: sio_strlen_def)

lemma take_length_cstr [simp]: "take (length (cstr s)) s = cstr s"
  by (simp add: cstr_def takeWhile_eq_take [symmetric])

lemma sio_puts_eq: "NUL \<in> set s \<Longrightarrow> sio_puts s out = Some (kwrite (cstr s) out)"
  by (simp add: sio_puts_def sio_strlen_eq)

section \<open>In-place reversal\<close>

lemma sio_reverse_loop_eq:
  "i \<le> Suc j \<Longrightarrow> j < length s \<Longrightarrow>
     sio_reverse_loop s i j = Some (take i s @ rev (take (Suc j - i) (drop i s)) @ drop (Suc j) s)"
proof (induction s i j rule: sio_reverse_loop.induct)
  case (1 s i j)
  show ?case
  proof (cases "i < j")
    case False
    with "1.prems" have "i = j \<or> i = Suc j" by auto
    then show ?thesis
      using "1.prems" False
      by (subst sio_reverse_loop.simps)
         (auto simp: Cons_nth_drop_Suc [symmetric] take_Suc_conv_app_nth [symmetric] id_take_nth_drop [symmetric])
  next
    case True
    let ?t = "s[i := s ! j, j := s ! i]"
    have "sio_reverse_loop ?t (i + 1) (j - 1) =
        Some (take (i + 1) ?t @ rev (take (Suc (j - 1) - (i + 1)) (drop (i + 1) ?t)) @ drop (Suc (j - 1)) ?t)"
      using "1.IH" [OF True, of "s ! i" "s ! j" "s[i := s ! j]" ?t] True "1.prems"
      by (simp add: peek_def poke_def)
    moreover have "sio_reverse_loop s i j = sio_reverse_loop ?t (i + 1) (j - 1)"
      using True "1.prems" by (subst sio_reverse_loop.simps) (simp add: peek_def poke_def)
    moreover have "take (i + 1) ?t = take i s @ [s ! j]"
      using True "1.prems" by (simp add: take_Suc_conv_app_nth)
    moreover have "drop (Suc (j - 1)) ?t = s ! i # drop (Suc j) s"
      using True "1.prems" by (simp add: Cons_nth_drop_Suc [of j ?t, symmetric])
    moreover have "take (Suc (j - 1) - (i + 1)) (drop (i + 1) ?t) = take (j - Suc i) (drop (Suc i) s)"
      using True "1.prems" by (simp add: drop_update_swap)
    moreover have "take (Suc j - i) (drop i s) = s ! i # take (j - Suc i) (drop (Suc i) s) @ [s ! j]"
    proof -
      have "take (Suc j - i) (drop i s) = s ! i # take (j - i) (drop (Suc i) s)"
        using True "1.prems" by (simp add: Cons_nth_drop_Suc [of i s, symmetric] Suc_diff_le)
      also have "take (j - i) (drop (Suc i) s) = take (j - Suc i) (drop (Suc i) s) @ [s ! j]"
        using True "1.prems" take_Suc_conv_app_nth [of "j - Suc i" "drop (Suc i) s"]
        by (simp add: Suc_diff_Suc)
      finally show ?thesis .
    qed
    ultimately show ?thesis by simp
  qed
qed

lemma sio_reverse_eq:
  assumes "0 < len" "len \<le> length s" "length s < 2 ^ 64"
  shows "sio_reverse s len = Some (rev (take len s) @ drop len s)"
proof -
  have "(len + 2 ^ 64 - 1) mod 2 ^ 64 = (len - 1 + 2 ^ 64) mod 2 ^ 64"
    using assms(1) by (intro arg_cong [of _ _ "\<lambda>x. x mod 2 ^ 64"]) linarith
  also have "\<dots> = (len - 1) mod 2 ^ 64" by simp
  also have "\<dots> = len - 1" using assms by (intro mod_less) linarith
  finally have "(len + 2 ^ 64 - 1) mod 2 ^ 64 = len - 1" .
  then show ?thesis
    using assms sio_reverse_loop_eq [of 0 "len - 1" s] by (simp add: sio_reverse_def)
qed

section \<open>Digits\<close>

lemma poke_split: "i < length s \<Longrightarrow> poke s i c = Some (take i s @ c # drop (Suc i) s)"
  by (simp add: poke_def upd_conv_take_nth_drop)

lemma sio_digits_eq:
  "0 \<le> v \<Longrightarrow> i + length (dec_nat (nat v)) \<le> length s \<Longrightarrow>
     sio_digits v i s = Some (i + length (dec_nat (nat v)),
       take i s @ rev (dec_nat (nat v)) @ drop (i + length (dec_nat (nat v))) s)"
proof (induction v i s rule: sio_digits.induct)
  case (1 v i s)
  have d: "nat (v mod 10) = nat v mod 10" "nat (v div 10) = nat v div 10"
    using "1.prems"(1) by (simp_all add: nat_mod_distrib nat_div_distrib)
  have i: "i < length s"
    using "1.prems"(2) dec_nat_nonempty [of "nat v"] by (cases "dec_nat (nat v)") auto
  let ?s = "take i s @ digit_char (nat v mod 10) # drop (Suc i) s"
  have p: "poke s i (digit_char (nat (v mod 10))) = Some ?s"
    using i d by (simp add: poke_split)
  show ?case
  proof (cases "0 < v div 10")
    case False
    then have "nat v < 10" using "1.prems"(1) by linarith
    then have "dec_nat (nat v) = [digit_char (nat v)]" by (subst dec_nat.simps) simp
    with False p \<open>nat v < 10\<close> show ?thesis
      by (subst sio_digits.simps) simp
  next
    case True
    then have "\<not> nat v < 10" by linarith
    then have e: "dec_nat (nat v) = dec_nat (nat v div 10) @ [digit_char (nat v mod 10)]"
      by (subst dec_nat.simps) simp
    have "i + length (dec_nat (nat v div 10)) \<le> length s - Suc 0" using "1.prems"(2) e by auto
    then have "sio_digits (v div 10) (i + 1) ?s =
        Some (i + 1 + length (dec_nat (nat v div 10)), take (i + 1) ?s @ rev (dec_nat (nat v div 10)) @
          drop (i + 1 + length (dec_nat (nat v div 10))) ?s)"
      using "1.IH" [OF p True] True "1.prems"(2) e d i by simp
    then show ?thesis
      using p True e i by (subst sio_digits.simps) (simp add: drop_Cons' add.commute)
  qed
qed

lemma sio_ltoa_eq:
  assumes "LONG_MIN < v" "v \<le> LONG_MAX" "length (dec_int v) < length s" "length s < 2 ^ 64"
  shows "sio_ltoa v s = Some (overlay (dec_int v @ [NUL]) s)"
proof -
  let ?d = "dec_nat (nat \<bar>v\<bar>)"
  have l: "length ?d < length s" "v < 0 \<Longrightarrow> Suc (length ?d) < length s"
    using assms(3) by (auto simp: dec_int_def abs_if split: if_splits)
  have r: "- v \<le> LONG_MAX" using assms(1) by (simp add: LONG_MIN_def LONG_MAX_def)
  have g: "sio_digits \<bar>v\<bar> 0 s = Some (length ?d, rev ?d @ drop (length ?d) s)"
    using sio_digits_eq [of "\<bar>v\<bar>" 0 s] l(1) by simp
  show ?thesis
  proof (cases "v < 0")
    case True
    let ?t = "rev ?d @ CHR ''-'' # drop (Suc (length ?d)) s"
    have "poke (rev ?d @ drop (length ?d) s) (length ?d) (CHR ''-'') = Some ?t"
      using l by (subst poke_split) auto
    moreover have "poke ?t (Suc (length ?d)) NUL = Some (rev ?d @ CHR ''-'' # NUL # drop (Suc (Suc (length ?d))) s)"
      using l(2) [OF True] by (subst poke_split) auto
    ultimately show ?thesis
      using True g r l(2) assms(4)
      by (simp add: sio_ltoa_def sio_reverse_eq overlay_def dec_int_def abs_if)
  next
    case False
    have "poke (rev ?d @ drop (length ?d) s) (length ?d) NUL = Some (rev ?d @ NUL # drop (Suc (length ?d)) s)"
      using l by (subst poke_split) auto
    then show ?thesis
      using False g l(1) assms(4)
      by (simp add: sio_ltoa_def sio_reverse_eq overlay_def dec_int_def abs_if)
  qed
qed

section \<open>Properties\<close>

text \<open>
  \<open>sio_putl\<close> formats every \<open>long\<close> except \<open>LONG_MIN\<close> inside its 128-byte array with no
  access outside it, whatever the array held before: the call makes one \<open>write\<close> of exactly the
  decimal numeral, and \<open>atol\<close> reads the value back from the string left in the array.
\<close>

lemma sio_putl_correct:
  assumes "LONG_MIN < v" "v \<le> LONG_MAX" "length s = 128"
  shows "sio_putl s v out = Some (kwrite (dec_int v) out)
     \<and> (\<exists>s'. sio_ltoa v s = Some s' \<and> length s' = 128 \<and> cstr s' = dec_int v \<and> atol (cstr s') = v)"
proof -
  have "length (dec_int v) \<le> 20" using assms by (simp add: length_dec_int)
  then have e: "sio_ltoa v s = Some (overlay (dec_int v @ [NUL]) s)" and "length (dec_int v) < 128"
    using assms by (auto intro!: sio_ltoa_eq)
  moreover have "cstr (overlay (dec_int v @ [NUL]) s) = dec_int v"
    by (simp add: cstr_overlay_NUL)
  moreover have "atol (dec_int v) = v" using assms atol_dec_int [of v "[]"] by simp
  moreover have "NUL \<in> set (overlay (dec_int v @ [NUL]) s)" by (simp add: overlay_def)
  ultimately show ?thesis
    using assms(3) by (auto simp: sio_putl_def sio_puts_eq)
qed

lemma sio_putl_correct_witness:
  "sio_putl (replicate 128 (CHR ''x'')) (- 120) \<lparr>k_in = [], k_rsched = [], k_out = ''pid '', k_wsched = []\<rparr>
     = Some (Wrote 4, \<lparr>k_in = [], k_rsched = [], k_out = ''pid -120'', k_wsched = []\<rparr>)"
proof -
  have "dec_int (- 120) = ''-120''"
    by code_simp
  then show ?thesis
    using sio_putl_correct [of "- 120" "replicate 128 (CHR ''x'')" "\<lparr>k_in = [], k_rsched = [], k_out = ''pid '', k_wsched = []\<rparr>"]
    by (simp add: LONG_MIN_def LONG_MAX_def kwrite_def)
qed

text \<open>
  The one value \<open>sio_ltoa\<close> cannot print is \<open>LONG_MIN\<close>: its negation overflows \<open>long\<close>
  before the first digit is produced, however large the array is.
\<close>

lemma sio_ltoa_undefined: "sio_ltoa LONG_MIN s = None"
  by (simp add: sio_ltoa_def LONG_MIN_def LONG_MAX_def)

end
