(* ===== verification/Shell_Parse.thy ===== *)
theory Shell_Parse
  imports C_Text
begin

text \<open>
  \<open>parseline\<close> and \<open>builtin_command\<close> of the two shells (\<open>Chapter8/8.3-8.4/shell/main.c\<close>
  and \<open>8.5-8.6/shell/main.c\<close> have the same \<open>parseline\<close>). The command line is the C string in
  the buffer; an entry of \<open>argv\<close> is the string its pointer designates, which later steps of the
  loop do not touch. \<open>None\<close> stands for undefined behaviour: an empty buffer, whose last character
  is at index -1, or a store beyond \<open>argv[MAXARGS - 1]\<close>.
\<close>

section \<open>Model\<close>

definition MAXARGS :: nat where "MAXARGS = 128"

abbreviation BLANK :: byte where "BLANK \<equiv> CHR '' ''"

definition skip_blanks :: "bytes \<Rightarrow> bytes" where
  "skip_blanks buf = dropWhile (\<lambda>c. c = BLANK) buf"

function parse_args :: "bytes \<Rightarrow> bytes list \<Rightarrow> bytes list" where
  "parse_args buf argv =
     (case strchr buf BLANK of
        None \<Rightarrow> argv
      | Some delim \<Rightarrow> parse_args (skip_blanks (drop (delim + 1) buf)) (argv @ [take delim buf]))"
  by pat_completeness auto
termination
proof (relation "measure (\<lambda>(buf, argv). length buf)", goal_cases)
  case (2 buf argv delim)
  then have "buf \<noteq> []" by auto
  then show ?case
    using length_dropWhile_le [of "\<lambda>c. c = BLANK" "drop (delim + 1) buf"]
    by (auto simp: skip_blanks_def intro: le_less_trans)
qed simp

definition parseline :: "bytes \<Rightarrow> (bool \<times> bytes list) option" where
  "parseline buf =
     (if buf = [] then None
      else let buf1 = buf[length buf - 1 := BLANK];
               argv = parse_args (skip_blanks buf1) []
           in if MAXARGS \<le> length argv then None
              else if argv = [] then Some (True, [])
              else let bg = (last argv \<noteq> [] \<and> hd (last argv) = CHR ''&'')
                   in Some (bg, if bg then butlast argv else argv))"

text \<open>
  \<open>builtin_command\<close> of \<open>8.5-8.6/shell/main.c\<close>: leave the shell, list the jobs, do nothing, or
  let \<open>eval\<close> run a program. The earlier shell has no \<open>jobs\<close>.
\<close>

datatype builtin = Quit | Jobs | Ignore | NotBuiltin

definition builtin_command :: "bytes list \<Rightarrow> builtin" where
  "builtin_command argv =
     (if hd argv = ''quit'' then Quit
      else if hd argv = ''jobs'' then Jobs
      else if hd argv = ''&'' then Ignore
      else NotBuiltin)"

definition builtin_command_84 :: "bytes list \<Rightarrow> builtin" where
  "builtin_command_84 argv =
     (if hd argv = ''quit'' then Quit else if hd argv = ''&'' then Ignore else NotBuiltin)"

text \<open>A line made of words, each followed by one or more blanks, after leading blanks.\<close>

definition words_text :: "(bytes \<times> nat) list \<Rightarrow> bytes" where
  "words_text wks = concat (map (\<lambda>(w, k). w @ replicate (Suc k) BLANK) wks)"

definition is_word :: "bytes \<Rightarrow> bool" where
  "is_word w \<longleftrightarrow> w \<noteq> [] \<and> BLANK \<notin> set w"

declare parse_args.simps [simp del]

section \<open>Lemmas\<close>

lemma skip_blanks_replicate [simp]: "skip_blanks (replicate n BLANK @ s) = skip_blanks s"
  by (induction n) (auto simp: skip_blanks_def)

lemma skip_blanks_words: "\<forall>(w, k) \<in> set wks. is_word w \<Longrightarrow> skip_blanks (words_text wks) = words_text wks"
proof (cases wks)
  case (Cons wk rest)
  moreover assume "\<forall>(w, k) \<in> set wks. is_word w"
  ultimately show ?thesis
    by (cases wk; cases "fst wk") (auto simp: words_text_def skip_blanks_def is_word_def)
qed (simp add: words_text_def skip_blanks_def)

lemma parse_args_words:
  "\<forall>(w, k) \<in> set wks. is_word w \<Longrightarrow> parse_args (words_text wks) argv = argv @ map fst wks"
proof (induction wks arbitrary: argv)
  case Nil
  then show ?case by (subst parse_args.simps) (simp add: words_text_def)
next
  case (Cons wk wks)
  obtain w k where wk: "wk = (w, k)" by (cases wk)
  have w: "is_word w" "\<forall>(w, k) \<in> set wks. is_word w" using Cons.prems wk by auto
  have t: "words_text (wk # wks) = w @ BLANK # replicate k BLANK @ words_text wks"
    by (simp add: wk words_text_def)
  have "strchr (words_text (wk # wks)) BLANK = Some (length w)"
    using w t by (auto simp: is_word_def strchr_append)
  then show ?case
    using Cons.IH [OF w(2)] t wk
    by (subst parse_args.simps) (simp add: skip_blanks_words [OF w(2)])
qed

lemma last_words_text:
  assumes "t = replicate n BLANK @ words_text wks" "t \<noteq> []"
  shows "(butlast t @ [c])[length t - 1 := BLANK] = t"
proof -
  have "last t = BLANK"
  proof (cases wks rule: rev_cases)
    case Nil
    with assms show ?thesis by (cases n) (auto simp: words_text_def)
  next
    case (snoc ys y)
    then show ?thesis using assms by (cases y) (auto simp: words_text_def)
  qed
  moreover have "(butlast t @ [c])[length t - 1 := BLANK] = butlast t @ [BLANK]"
    using assms(2) by (simp add: list_update_append)
  ultimately show ?thesis using assms(2) append_butlast_last_id [of t] by simp
qed

section \<open>Properties\<close>

text \<open>
  C30: A command line made of any words separated and preceded by any number of blanks is split
  into exactly those words; a last word that begins with an ampersand is dropped and makes the
  command a background one; a blank line gives no words. With \<open>MAXARGS\<close> words or more the
  argument array overflows: nothing in \<open>parseline\<close> checks the count.
\<close>

theorem parseline_words:
  assumes "\<forall>(w, k) \<in> set wks. is_word w"
    and "t = replicate n BLANK @ words_text wks" and "t \<noteq> []"
  shows "parseline (butlast t @ [LF]) =
     (if MAXARGS \<le> length wks then None
      else if wks = [] then Some (True, [])
      else if hd (fst (last wks)) = CHR ''&'' then Some (True, butlast (map fst wks))
      else Some (False, map fst wks))"
proof -
  have "skip_blanks t = words_text wks"
    using assms(2) skip_blanks_words [OF assms(1)] by simp
  then have "parse_args (skip_blanks t) [] = map fst wks"
    using parse_args_words [OF assms(1), of "[]"] by simp
  moreover have "wks \<noteq> [] \<Longrightarrow> fst (last wks) \<noteq> []"
    using assms(1) last_in_set [of wks] by (fastforce simp: is_word_def)
  ultimately show ?thesis
    using last_words_text [OF assms(2,3), of LF] assms(3)
    by (simp add: parseline_def last_map)
qed

theorem parseline_words_witness:
  "parseline (''  /bin/sleep 5  &'' @ [LF]) = Some (True, [''/bin/sleep'', ''5''])"
  using parseline_words [of "[(''/bin/sleep'', 0), (''5'', 1), (''&'', 0)]" "''  /bin/sleep 5  & ''" 2]
  by (simp add: is_word_def words_text_def MAXARGS_def numeral_2_eq_2)

end
