(* ===== verification/Job_Tables.thy ===== *)
theory Job_Tables
  imports CS_Prelude
begin

text \<open>
  The two job tables of Chapter 8: the slot array of \<open>8.5-8.6/shell/main.c\<close> and the compact
  array of \<open>8.5-8.6/sync/joblist.c\<close>, which fills a hole with its last element. The interface
  \<open>job_table\<close> states what both promise (a finite map from process ids of at most \<open>MAXJOBS\<close>
  entries); its lemmas are proved once and hold for both through the two interpretations at the
  end. A \<open>pid_t\<close> is a natural number: neither table ever holds a negative one.
\<close>

type_synonym pid = nat

definition MAXJOBS :: nat where "MAXJOBS = 16"

section \<open>The slot table of the shell\<close>

record job_t =
  job_pid :: pid
  job_bg :: int
  job_cmdline :: bytes

definition init_jobs :: "job_t list \<Rightarrow> job_t list" where
  "init_jobs js = map (\<lambda>j. j\<lparr>job_pid := 0\<rparr>) js"

text \<open>The result says whether a free slot was found; without one the table is left alone.\<close>

fun add_job :: "pid \<Rightarrow> int \<Rightarrow> bytes \<Rightarrow> job_t list \<Rightarrow> bool \<times> job_t list" where
  "add_job pid bg cmdline [] = (False, [])"
| "add_job pid bg cmdline (j # js) =
     (if job_pid j = 0 then (True, j\<lparr>job_pid := pid, job_bg := bg, job_cmdline := cmdline\<rparr> # js)
      else (case add_job pid bg cmdline js of (ok, js') \<Rightarrow> (ok, j # js')))"

fun delete_job :: "pid \<Rightarrow> job_t list \<Rightarrow> int \<times> job_t list" where
  "delete_job pid [] = (- 1, [])"
| "delete_job pid (j # js) =
     (if job_pid j = pid then (job_bg j, j\<lparr>job_pid := 0\<rparr> # js)
      else (case delete_job pid js of (r, js') \<Rightarrow> (r, j # js')))"

text \<open>What \<open>list_jobs\<close> prints, one entry per line: pid, background flag and command line.\<close>

definition list_jobs :: "job_t list \<Rightarrow> (pid \<times> bool \<times> bytes) list" where
  "list_jobs js = [(job_pid j, job_bg j \<noteq> 0, job_cmdline j). j \<leftarrow> js, job_pid j \<noteq> 0]"

text \<open>The return value of \<open>delete_job\<close>: the background flag, or -1.\<close>

definition bg_or_miss :: "(int \<times> bytes) option \<Rightarrow> int" where
  "bg_or_miss x = (case x of None \<Rightarrow> - 1 | Some (b, c) \<Rightarrow> b)"

fun slot_tab :: "job_t list \<Rightarrow> pid \<Rightarrow> (int \<times> bytes) option" where
  "slot_tab [] p = None"
| "slot_tab (j # js) p =
     (if job_pid j = p \<and> p \<noteq> 0 then Some (job_bg j, job_cmdline j) else slot_tab js p)"

definition slots_ok :: "job_t list \<Rightarrow> bool" where
  "slots_ok js \<longleftrightarrow> length js = MAXJOBS \<and> distinct (filter (\<lambda>p. p \<noteq> 0) (map job_pid js))"

section \<open>The compact table of \<open>joblist.c\<close>\<close>

record joblist =
  jl_jobs :: "pid list"
  njobs :: nat

definition initjobs :: joblist where
  "initjobs = \<lparr>jl_jobs = replicate MAXJOBS 0, njobs = 0\<rparr>"

definition jobs_remaining :: "joblist \<Rightarrow> nat" where
  "jobs_remaining st = njobs st"

text \<open>The result says whether the job was recorded; the source returns silently when it is not.\<close>

definition addjob :: "pid \<Rightarrow> joblist \<Rightarrow> bool \<times> joblist" where
  "addjob pid st =
     (if MAXJOBS \<le> njobs st then (False, st)
      else (True, st\<lparr>jl_jobs := (jl_jobs st)[njobs st := pid], njobs := njobs st + 1\<rparr>))"

text \<open>The result says whether the job was found; if not, the source prints its BUG message.\<close>

definition deletejob :: "pid \<Rightarrow> joblist \<Rightarrow> bool \<times> joblist" where
  "deletejob pid st =
     (case find (\<lambda>i. jl_jobs st ! i = pid) [0..<njobs st] of
        None \<Rightarrow> (False, st)
      | Some i \<Rightarrow>
          (let n = njobs st - 1
           in (True, st\<lparr>njobs := n, jl_jobs := (jl_jobs st)[i := jl_jobs st ! n]\<rparr>)))"

definition list_tab :: "joblist \<Rightarrow> pid \<Rightarrow> unit option" where
  "list_tab st p = (if p \<in> set (take (njobs st) (jl_jobs st)) then Some () else None)"

definition joblist_ok :: "joblist \<Rightarrow> bool" where
  "joblist_ok st \<longleftrightarrow> length (jl_jobs st) = MAXJOBS \<and> njobs st \<le> MAXJOBS
     \<and> distinct (take (njobs st) (jl_jobs st))"

section \<open>The interface\<close>

datatype 'v job_op = Add pid 'v | Del pid

text \<open>A run of operations on a table, and the finite map it should produce.\<close>

fun job_run :: "(pid \<Rightarrow> 'v \<Rightarrow> 't \<Rightarrow> bool \<times> 't) \<Rightarrow> (pid \<Rightarrow> 't \<Rightarrow> 'r \<times> 't) \<Rightarrow> 'v job_op list \<Rightarrow> 't \<Rightarrow> 't" where
  "job_run add del [] t = t"
| "job_run add del (Add p v # ops) t = job_run add del ops (snd (add p v t))"
| "job_run add del (Del p # ops) t = job_run add del ops (snd (del p t))"

fun job_spec :: "'v job_op list \<Rightarrow> (pid \<rightharpoonup> 'v) \<Rightarrow> (pid \<rightharpoonup> 'v)" where
  "job_spec [] m = m"
| "job_spec (Add p v # ops) m = job_spec ops (if card (dom m) < MAXJOBS then m(p \<mapsto> v) else m)"
| "job_spec (Del p # ops) m = job_spec ops (m(p := None))"

text \<open>Process ids are positive, and none is added while it is still in the table.\<close>

fun fresh_ops :: "'v job_op list \<Rightarrow> (pid \<rightharpoonup> 'v) \<Rightarrow> bool" where
  "fresh_ops [] m = True"
| "fresh_ops (Add p v # ops) m \<longleftrightarrow>
     0 < p \<and> m p = None \<and> fresh_ops ops (if card (dom m) < MAXJOBS then m(p \<mapsto> v) else m)"
| "fresh_ops (Del p # ops) m \<longleftrightarrow> 0 < p \<and> fresh_ops ops (m(p := None))"

text \<open>\<open>res\<close> is how a deletion reports what it found under the process id.\<close>

locale job_table =
  fixes empty_tab :: 't
    and add :: "pid \<Rightarrow> 'v \<Rightarrow> 't \<Rightarrow> bool \<times> 't"
    and del :: "pid \<Rightarrow> 't \<Rightarrow> 'r \<times> 't"
    and res :: "'v option \<Rightarrow> 'r"
    and tab :: "'t \<Rightarrow> pid \<Rightarrow> 'v option"
    and ok :: "'t \<Rightarrow> bool"
  assumes empty_ok: "ok empty_tab"
    and empty_none: "tab empty_tab p = None"
    and tab_card: "ok t \<Longrightarrow> finite (dom (tab t)) \<and> card (dom (tab t)) \<le> MAXJOBS"
    and add_room: "ok t \<Longrightarrow> 0 < p \<Longrightarrow> tab t p = None \<Longrightarrow> card (dom (tab t)) < MAXJOBS \<Longrightarrow>
      fst (add p v t) \<and> tab (snd (add p v t)) = (tab t)(p \<mapsto> v) \<and> ok (snd (add p v t))"
    and add_full: "ok t \<Longrightarrow> card (dom (tab t)) = MAXJOBS \<Longrightarrow> add p v t = (False, t)"
    and del_tab: "ok t \<Longrightarrow> 0 < p \<Longrightarrow>
      fst (del p t) = res (tab t p) \<and> tab (snd (del p t)) = (tab t)(p := None) \<and> ok (snd (del p t))"
begin

lemma add_del:
  assumes "ok t" "0 < p" "tab t p = None" "card (dom (tab t)) < MAXJOBS"
  shows "fst (del p (snd (add p v t))) = res (Some v)"
    and "tab (snd (del p (snd (add p v t)))) = tab t"
  using add_room [OF assms, of v] del_tab [of "snd (add p v t)" p] assms
  by (auto simp: fun_upd_idem)

lemma del_twice:
  "ok t \<Longrightarrow> 0 < p \<Longrightarrow> fst (del p (snd (del p t))) = res None"
  using del_tab [of t p] del_tab [of "snd (del p t)" p] by simp

lemma add_flag:
  assumes "ok t" "0 < p" "tab t p = None"
  shows "fst (add p v t) \<longleftrightarrow> card (dom (tab t)) < MAXJOBS"
  using assms tab_card [of t] add_room [of t p v] add_full [of t p v] by (auto simp: le_less)

lemma add_ok:
  assumes "ok t" "0 < p" "tab t p = None"
  shows "ok (snd (add p v t))"
    and "tab (snd (add p v t)) = (if fst (add p v t) then (tab t)(p \<mapsto> v) else tab t)"
  using assms tab_card [of t] add_room [of t p v] add_full [of t p v] by (auto simp: le_less)

lemma run_refines:
  "ok t \<Longrightarrow> fresh_ops ops (tab t) \<Longrightarrow> tab (job_run add del ops t) = job_spec ops (tab t) \<and> ok (job_run add del ops t)"
proof (induction ops arbitrary: t)
  case Nil
  then show ?case by simp
next
  case (Cons op ops)
  show ?case
  proof (cases op)
    case (Add p v)
    with Cons.prems have a: "ok (snd (add p v t))"
      "tab (snd (add p v t)) = (if card (dom (tab t)) < MAXJOBS then (tab t)(p \<mapsto> v) else tab t)"
      using add_ok [of t p v] add_flag [of t p v] by auto
    with Cons.prems Add Cons.IH [OF a(1)] show ?thesis by simp
  next
    case (Del p)
    with Cons.prems have d: "ok (snd (del p t))" "tab (snd (del p t)) = (tab t)(p := None)"
      using del_tab [of t p] by auto
    from Cons.prems Del have "fresh_ops ops (tab (snd (del p t)))" unfolding d(2) by simp
    from Cons.IH [OF d(1) this] Del show ?thesis unfolding d(2)
      by (simp only: job_run.simps job_spec.simps simp_thms)
  qed
qed

end

section \<open>The slot table implements the interface\<close>

lemma slot_tab_dom: "dom (slot_tab js) = set (map job_pid js) - {0}"
proof (induction js)
  case Nil
  then show ?case by auto
next
  case (Cons j js)
  have "dom (slot_tab (j # js)) = (if job_pid j = 0 then {} else {job_pid j}) \<union> dom (slot_tab js)"
    by (auto simp: dom_def)
  with Cons show ?case by (auto simp del: slot_tab.simps)
qed

lemma slot_tab_0 [simp]: "slot_tab js 0 = None"
  by (induction js) auto

lemma slot_card:
  assumes "slots_ok js"
  shows "card (dom (slot_tab js)) = length (filter (\<lambda>p. p \<noteq> 0) (map job_pid js))"
proof -
  have "dom (slot_tab js) = set (filter (\<lambda>p. p \<noteq> 0) (map job_pid js))"
    by (auto simp: slot_tab_dom)
  with assms show ?thesis by (metis slots_ok_def distinct_card)
qed

lemma length_add_job [simp]: "length (snd (add_job p b c js)) = length js"
  by (induction js) (auto split: prod.splits)

lemma length_delete_job [simp]: "length (snd (delete_job p js)) = length js"
  by (induction js) (auto split: prod.splits)

lemma add_job_flag: "fst (add_job p b c js) \<longleftrightarrow> 0 \<in> set (map job_pid js)"
  by (induction js) (auto split: prod.splits)

lemma add_job_noroom: "0 \<notin> set (map job_pid js) \<Longrightarrow> add_job p b c js = (False, js)"
  by (induction js) (auto split: prod.splits)

lemma add_job_tab:
  "0 < p \<Longrightarrow> slot_tab js p = None \<Longrightarrow> fst (add_job p b c js) \<Longrightarrow>
     slot_tab (snd (add_job p b c js)) = (slot_tab js)(p \<mapsto> (b, c))"
  by (induction js) (auto split: prod.splits if_splits)

lemma add_job_pids:
  "x \<in> set (snd (add_job p b c js)) \<Longrightarrow> job_pid x = p \<or> job_pid x \<in> job_pid ` set js"
  by (induction js) (auto split: prod.splits if_splits)

lemma add_job_distinct:
  "0 < p \<Longrightarrow> p \<notin> set (map job_pid js) \<Longrightarrow> distinct (filter (\<lambda>p. p \<noteq> 0) (map job_pid js)) \<Longrightarrow>
     distinct (filter (\<lambda>p. p \<noteq> 0) (map job_pid (snd (add_job p b c js))))"
proof (induction js)
  case (Cons j js)
  then show ?case
    using add_job_pids [of _ p b c js] by (fastforce split: prod.splits)
qed simp

lemma slot_tab_notin: "p \<notin> set (map job_pid js) \<Longrightarrow> slot_tab js p = None"
  by (induction js) auto

lemma delete_job_notin: "p \<notin> set (map job_pid js) \<Longrightarrow> delete_job p js = (- 1, js)"
  by (induction js) auto

lemma delete_job_tab:
  "0 < p \<Longrightarrow> distinct (filter (\<lambda>p. p \<noteq> 0) (map job_pid js)) \<Longrightarrow>
     slot_tab (snd (delete_job p js)) = (slot_tab js)(p := None)
     \<and> fst (delete_job p js) = bg_or_miss (slot_tab js p)"
  by (induction js) (auto split: prod.splits option.splits if_splits simp: slot_tab_notin bg_or_miss_def)

lemma delete_job_pids:
  "x \<in> set (snd (delete_job p js)) \<Longrightarrow> job_pid x = 0 \<or> job_pid x \<in> job_pid ` set js"
  by (induction js) (auto split: prod.splits if_splits)

lemma delete_job_distinct:
  "distinct (filter (\<lambda>p. p \<noteq> 0) (map job_pid js)) \<Longrightarrow>
     distinct (filter (\<lambda>p. p \<noteq> 0) (map job_pid (snd (delete_job p js))))"
proof (induction js)
  case (Cons j js)
  then show ?case
    using delete_job_pids [of _ p js] by (fastforce split: prod.splits if_splits)
qed simp

lemma slots_room:
  "slots_ok js \<Longrightarrow> 0 \<in> set (map job_pid js) \<longleftrightarrow> card (dom (slot_tab js)) < MAXJOBS"
proof -
  assume ok: "slots_ok js"
  have "length (filter (\<lambda>p. p \<noteq> 0) (map job_pid js)) < length js
      \<longleftrightarrow> (\<exists>p \<in> set (map job_pid js). p = 0)"
    using length_filter_less [of _ "map job_pid js" "\<lambda>p. p \<noteq> 0"]
      filter_True [of "map job_pid js" "\<lambda>p. p \<noteq> 0"]
    by (metis length_map less_irrefl)
  with ok slot_card [OF ok] show ?thesis by (auto simp: slots_ok_def)
qed

interpretation slots: job_table "replicate MAXJOBS \<lparr>job_pid = 0, job_bg = 0, job_cmdline = []\<rparr>"
  "\<lambda>p v. add_job p (fst v) (snd v)" delete_job bg_or_miss slot_tab slots_ok
proof (unfold_locales, goal_cases)
  case 1
  show ?case by (simp add: slots_ok_def)
next
  case (2 p)
  have "slot_tab (replicate n \<lparr>job_pid = 0, job_bg = 0, job_cmdline = []\<rparr>) p = None" for n
    by (induction n) auto
  then show ?case .
next
  case (3 t)
  then show ?case
    using slot_card [OF 3] length_filter_le [of "\<lambda>p. p \<noteq> 0" "map job_pid t"]
    by (simp add: slots_ok_def slot_tab_dom)
next
  case (4 t p v)
  then have f: "fst (add_job p (fst v) (snd v) t)" using slots_room [of t] by (simp add: add_job_flag)
  have "p \<notin> dom (slot_tab t)" using 4 by auto
  then have "p \<notin> set (map job_pid t)" using 4 by (simp add: slot_tab_dom)
  with 4 f show ?case
    using add_job_tab [of p t "fst v" "snd v"] add_job_distinct [of p t "fst v" "snd v"]
    by (auto simp: slots_ok_def)
next
  case (5 t p v)
  then show ?case using slots_room [of t] by (auto intro: add_job_noroom)
next
  case (6 t p)
  then show ?case
    using delete_job_tab [of p t] delete_job_distinct [of t p] by (auto simp: slots_ok_def)
qed

section \<open>The compact table implements the interface\<close>

lemma set_swap_last:
  assumes "i < length xs" "distinct xs"
  shows "set ((butlast xs)[i := last xs]) = set xs - {xs ! i} \<and> distinct ((butlast xs)[i := last xs])"
proof -
  obtain ys z where xs: "xs = ys @ [z]" using assms(1) by (cases xs rule: rev_cases) auto
  show ?thesis
  proof (cases "i < length ys")
    case True
    with xs assms(2) have "set (ys[i := z]) = insert z (set ys - {ys ! i})"
      by (simp add: set_update_distinct)
    with True xs assms(2) show ?thesis by (auto simp: nth_append distinct_list_update)
  next
    case False
    with xs assms show ?thesis by (auto simp: nth_append list_update_beyond)
  qed
qed

lemma addjob_props:
  assumes "joblist_ok st" "njobs st < MAXJOBS" "p \<notin> set (take (njobs st) (jl_jobs st))"
  shows "take (njobs (snd (addjob p st))) (jl_jobs (snd (addjob p st))) = take (njobs st) (jl_jobs st) @ [p]"
    and "joblist_ok (snd (addjob p st))"
  using assms by (auto simp: addjob_def joblist_ok_def take_Suc_conv_app_nth)

lemma deletejob_props:
  assumes "joblist_ok st"
  shows "fst (deletejob p st) \<longleftrightarrow> p \<in> set (take (njobs st) (jl_jobs st))"
    and "set (take (njobs (snd (deletejob p st))) (jl_jobs (snd (deletejob p st))))
       = set (take (njobs st) (jl_jobs st)) - {p}"
    and "joblist_ok (snd (deletejob p st))"
proof -
  let ?xs = "take (njobs st) (jl_jobs st)"
  have l: "length ?xs = njobs st" and d: "distinct ?xs" using assms by (auto simp: joblist_ok_def)
  have "(fst (deletejob p st) \<longleftrightarrow> p \<in> set ?xs)
      \<and> set (take (njobs (snd (deletejob p st))) (jl_jobs (snd (deletejob p st)))) = set ?xs - {p}
      \<and> joblist_ok (snd (deletejob p st))"
  proof (cases "find (\<lambda>i. jl_jobs st ! i = p) [0..<njobs st]")
    case None
    then have "p \<notin> set ?xs" using l by (auto simp: find_None_iff in_set_conv_nth)
    with None assms show ?thesis by (simp add: deletejob_def)
  next
    case (Some i)
    then have i: "i < njobs st" "?xs ! i = p" by (auto simp: find_Some_iff)
    have e: "take (njobs st - 1) ((jl_jobs st)[i := jl_jobs st ! (njobs st - 1)]) = (butlast ?xs)[i := last ?xs]"
    proof -
      have "last ?xs = jl_jobs st ! (njobs st - 1)"
        using i l last_conv_nth [of ?xs] by (cases "?xs = []") auto
      then show ?thesis using assms by (simp add: joblist_ok_def butlast_take take_update_swap)
    qed
    have "set ((butlast ?xs)[i := last ?xs]) = set ?xs - {p} \<and> distinct ((butlast ?xs)[i := last ?xs])"
      using set_swap_last [of i ?xs] i l d by simp
    moreover have "p \<in> set ?xs" using i l by (metis nth_mem)
    moreover have "deletejob p st = (True, st\<lparr>njobs := njobs st - 1, jl_jobs := (jl_jobs st)[i := jl_jobs st ! (njobs st - 1)]\<rparr>)"
      using Some by (simp add: deletejob_def Let_def)
    moreover have "njobs st - 1 \<le> MAXJOBS" "length ((jl_jobs st)[i := jl_jobs st ! (njobs st - 1)]) = MAXJOBS"
      using assms by (auto simp: joblist_ok_def)
    ultimately show ?thesis using e by (simp add: joblist_ok_def)
  qed
  then show "fst (deletejob p st) \<longleftrightarrow> p \<in> set ?xs"
    and "set (take (njobs (snd (deletejob p st))) (jl_jobs (snd (deletejob p st)))) = set ?xs - {p}"
    and "joblist_ok (snd (deletejob p st))" by blast+
qed

lemma list_tab_dom: "dom (list_tab st) = set (take (njobs st) (jl_jobs st))"
  by (auto simp: list_tab_def dom_def)

lemma list_tab_card: "joblist_ok st \<Longrightarrow> card (dom (list_tab st)) = njobs st"
  by (simp add: list_tab_dom joblist_ok_def distinct_card)

interpretation compact: job_table initjobs "\<lambda>p u. addjob p" deletejob "\<lambda>x. x \<noteq> None" list_tab joblist_ok
proof (unfold_locales, goal_cases)
  case 1
  show ?case by (simp add: joblist_ok_def initjobs_def)
next
  case (2 p)
  show ?case by (simp add: list_tab_def initjobs_def)
next
  case (3 t)
  then show ?case using list_tab_card [OF 3] by (simp add: list_tab_dom joblist_ok_def)
next
  case (4 t p v)
  then have n: "njobs t < MAXJOBS" "p \<notin> set (take (njobs t) (jl_jobs t))"
    by (auto simp: list_tab_card list_tab_def split: if_splits)
  with 4 addjob_props [of t p] show ?case
    by (auto simp: list_tab_def fun_eq_iff addjob_def)
next
  case (5 t p v)
  then show ?case by (simp add: list_tab_card addjob_def)
next
  case (6 t p)
  then show ?case using deletejob_props [of t p] by (auto simp: list_tab_def fun_eq_iff)
qed

section \<open>Properties\<close>

text \<open>
  C28: The slot table of the shell is a finite map: after any sequence of \<open>add_job\<close> and
  \<open>delete_job\<close> calls with positive process ids, none added while it is present, it holds exactly
  the jobs added and not deleted since, except those offered while all \<open>MAXJOBS\<close> slots were taken;
  a deletion reports the background flag of the entry, or -1 if there is none.
\<close>

theorem slot_table_refines:
  assumes "fresh_ops ops Map.empty" "0 < p"
    and "js = job_run (\<lambda>p v. add_job p (fst v) (snd v)) delete_job ops
           (init_jobs (replicate MAXJOBS \<lparr>job_pid = 0, job_bg = 0, job_cmdline = []\<rparr>))"
  shows "slot_tab js = job_spec ops Map.empty
     \<and> fst (delete_job p js) = bg_or_miss (job_spec ops Map.empty p)"
proof -
  have e: "slot_tab (replicate MAXJOBS \<lparr>job_pid = 0, job_bg = 0, job_cmdline = []\<rparr>) = Map.empty"
    using slots.empty_none by (simp add: fun_eq_iff)
  have "slot_tab js = job_spec ops Map.empty \<and> slots_ok js"
    using slots.run_refines [OF slots.empty_ok, of ops] assms(1,3) e by (simp add: init_jobs_def)
  then show ?thesis using slots.del_tab [of js p] assms(2) by simp
qed

theorem slot_table_refines_witness:
  "fst (delete_job 7 (snd (delete_job 5 (snd (add_job 7 0 ''b'' (snd (add_job 5 1 ''a''
     (init_jobs (replicate MAXJOBS \<lparr>job_pid = 0, job_bg = 0, job_cmdline = []\<rparr>))))))))) = 0"
  using slot_table_refines [of "[Add 5 (1, ''a''), Add 7 (0, ''b''), Del 5]" 7, OF _ _ refl]
  by (simp add: MAXJOBS_def bg_or_miss_def)

text \<open>
  C29: The compact table of \<open>joblist.c\<close> keeps the same set of process ids as the abstract map under
  any such sequence, although a deletion moves the last entry into the hole: \<open>jobs_remaining\<close> is
  the number of jobs, and \<open>deletejob\<close> finds exactly the jobs that are present.
\<close>

theorem compact_table_refines:
  assumes "fresh_ops (ops :: unit job_op list) Map.empty" "0 < p"
    and "st = job_run (\<lambda>p u. addjob p) deletejob ops initjobs"
  shows "set (take (njobs st) (jl_jobs st)) = dom (job_spec ops Map.empty)
     \<and> jobs_remaining st = card (dom (job_spec ops Map.empty))
     \<and> (fst (deletejob p st) \<longleftrightarrow> p \<in> dom (job_spec ops Map.empty))"
proof -
  have e: "list_tab initjobs = Map.empty" using compact.empty_none by (simp add: fun_eq_iff)
  have r: "list_tab st = job_spec ops Map.empty" "joblist_ok st"
    using compact.run_refines [OF compact.empty_ok, of ops] assms(1,3) e by simp_all
  then show ?thesis
    using list_tab_dom [of st] list_tab_card [of st] compact.del_tab [of st p] assms(2)
    by (auto simp: jobs_remaining_def)
qed

theorem compact_table_refines_witness:
  "jobs_remaining (snd (deletejob 3 (snd (addjob 9 (snd (addjob 3 initjobs)))))) = 1"
  using compact_table_refines [of "[Add 3 (), Add 9 (), Del 3]" 9, OF _ _ refl]
  by (simp add: MAXJOBS_def)

end
