(* ===== verification/Processes.thy ===== *)
theory Processes
  imports CS_Prelude Job_Tables
begin

text \<open>
  The kernel's view of a parent process in Chapter 8: its children that still run, the ones that
  have terminated and wait to be reaped, its signal mask, its pending signals, and the mask that
  is to be restored when the running \<open>SIGCHLD\<close> handler returns. A signal is pending or not:
  signals do not queue. The functions are the system calls and kernel actions the programs use;
  \<open>kernel_ok\<close> is what they keep.
\<close>

section \<open>Model\<close>

datatype signal = SIGCHLD | SIGINT | SIGOTHER nat

datatype how = SIG_BLOCK | SIG_UNBLOCK | SIG_SETMASK

record kproc =
  live :: "pid set"
  zombies :: "pid set"
  mask :: "signal set"
  pending :: "signal set"
  saved :: "signal set option"

definition children :: "kproc \<Rightarrow> pid set" where
  "children k = live k \<union> zombies k"

definition sigprocmask :: "how \<Rightarrow> signal set \<Rightarrow> kproc \<Rightarrow> kproc" where
  "sigprocmask how ss k =
     (case how of
        SIG_BLOCK \<Rightarrow> k\<lparr>mask := mask k \<union> ss\<rparr>
      | SIG_UNBLOCK \<Rightarrow> k\<lparr>mask := mask k - ss\<rparr>
      | SIG_SETMASK \<Rightarrow> k\<lparr>mask := ss\<rparr>)"

text \<open>\<open>fork\<close> in the parent: the kernel picks a process id that no child of it has.\<close>

definition fork_ok :: "pid \<Rightarrow> kproc \<Rightarrow> bool" where
  "fork_ok p k \<longleftrightarrow> 0 < p \<and> p \<notin> children k"

definition k_fork :: "pid \<Rightarrow> kproc \<Rightarrow> kproc" where
  "k_fork p k = k\<lparr>live := insert p (live k)\<rparr>"

text \<open>A child terminates: it becomes a zombie and \<open>SIGCHLD\<close> becomes pending.\<close>

definition k_exit :: "pid \<Rightarrow> kproc \<Rightarrow> kproc" where
  "k_exit p k = k\<lparr>live := live k - {p}, zombies := insert p (zombies k), pending := insert SIGCHLD (pending k)\<rparr>"

text \<open>\<open>waitpid\<close> returns the zombie \<open>p\<close>.\<close>

definition k_reap :: "pid \<Rightarrow> kproc \<Rightarrow> kproc" where
  "k_reap p k = k\<lparr>zombies := zombies k - {p}\<rparr>"

text \<open>
  Delivery of \<open>SIGCHLD\<close> while the mask in force is \<open>m\<close>: the current mask outside a
  \<open>sigsuspend\<close>, the mask given to \<open>sigsuspend\<close> inside it. The handler runs with \<open>SIGCHLD\<close>
  added to it; its return restores the mask the process had before.
\<close>

definition deliverable :: "signal set \<Rightarrow> kproc \<Rightarrow> bool" where
  "deliverable m k \<longleftrightarrow> saved k = None \<and> SIGCHLD \<in> pending k \<and> SIGCHLD \<notin> m"

definition k_deliver :: "signal set \<Rightarrow> kproc \<Rightarrow> kproc" where
  "k_deliver m k = k\<lparr>saved := Some (mask k), mask := insert SIGCHLD m, pending := pending k - {SIGCHLD}\<rparr>"

definition k_return :: "kproc \<Rightarrow> kproc" where
  "k_return k = (case saved k of None \<Rightarrow> k | Some m \<Rightarrow> k\<lparr>mask := m, saved := None\<rparr>)"

definition in_handler :: "kproc \<Rightarrow> bool" where
  "in_handler k \<longleftrightarrow> saved k \<noteq> None"

text \<open>The mask of the main flow, whether or not the handler has interrupted it.\<close>

definition main_mask :: "kproc \<Rightarrow> signal set" where
  "main_mask k = (case saved k of None \<Rightarrow> mask k | Some m \<Rightarrow> m)"

section \<open>What the kernel keeps\<close>

text \<open>
  No child is counted twice, ids are positive, and a zombie is never forgotten: either its
  \<open>SIGCHLD\<close> is still pending or the handler, which reaps in a loop, is running.
\<close>

definition kernel_ok :: "kproc \<Rightarrow> bool" where
  "kernel_ok k \<longleftrightarrow> live k \<inter> zombies k = {} \<and> 0 \<notin> children k \<and> finite (children k)
     \<and> (zombies k \<noteq> {} \<longrightarrow> SIGCHLD \<in> pending k \<or> in_handler k)
     \<and> (in_handler k \<longrightarrow> SIGCHLD \<in> mask k)"

lemmas kproc_defs = children_def sigprocmask_def k_fork_def k_exit_def k_reap_def k_deliver_def
  k_return_def in_handler_def deliverable_def fork_ok_def

lemma kernel_ok_fork: "kernel_ok k \<Longrightarrow> fork_ok p k \<Longrightarrow> kernel_ok (k_fork p k)"
  by (auto simp: kernel_ok_def kproc_defs)

lemma kernel_ok_exit: "kernel_ok k \<Longrightarrow> p \<in> live k \<Longrightarrow> kernel_ok (k_exit p k)"
  by (auto simp: kernel_ok_def kproc_defs)

lemma kernel_ok_reap: "kernel_ok k \<Longrightarrow> kernel_ok (k_reap p k)"
  by (auto simp: kernel_ok_def kproc_defs)

lemma kernel_ok_deliver: "kernel_ok k \<Longrightarrow> kernel_ok (k_deliver m k)"
  by (auto simp: kernel_ok_def kproc_defs)

lemma kernel_ok_return: "kernel_ok k \<Longrightarrow> zombies k = {} \<Longrightarrow> kernel_ok (k_return k)"
  by (auto simp: kernel_ok_def kproc_defs split: option.splits)

lemma kernel_ok_mask: "kernel_ok k \<Longrightarrow> \<not> in_handler k \<Longrightarrow> kernel_ok (sigprocmask h m k)"
  by (auto simp: kernel_ok_def kproc_defs split: how.splits)

lemmas kernel_ok_intros = kernel_ok_fork kernel_ok_exit kernel_ok_reap kernel_ok_deliver
  kernel_ok_return kernel_ok_mask

lemma children_simps [simp]:
  "children (k_fork p k) = insert p (children k)"
  "p \<in> live k \<Longrightarrow> children (k_exit p k) = children k"
  "children (k_deliver m k) = children k"
  "children (k_return k) = children k"
  "children (sigprocmask h m k) = children k"
  by (auto simp: kproc_defs split: option.splits how.splits)

lemma children_reap [simp]: "kernel_ok k \<Longrightarrow> p \<in> zombies k \<Longrightarrow> children (k_reap p k) = children k - {p}"
  by (auto simp: kernel_ok_def kproc_defs)

lemma in_handler_simps [simp]:
  "in_handler (k_fork p k) = in_handler k" "in_handler (k_exit p k) = in_handler k"
  "in_handler (k_reap p k) = in_handler k" "in_handler (k_deliver m k)"
  "\<not> in_handler (k_return k)" "in_handler (sigprocmask h m k) = in_handler k"
  by (auto simp: kproc_defs split: option.splits how.splits)

lemma main_mask_simps [simp]:
  "main_mask (k_fork p k) = main_mask k" "main_mask (k_exit p k) = main_mask k"
  "main_mask (k_reap p k) = main_mask k" "main_mask (k_return k) = main_mask k"
  "\<not> in_handler k \<Longrightarrow> main_mask (k_deliver m k) = main_mask k"
  "\<not> in_handler k \<Longrightarrow> main_mask k = mask k"
  by (auto simp: main_mask_def kproc_defs split: option.splits)

lemma mask_simps [simp]:
  "mask (sigprocmask SIG_BLOCK m k) = mask k \<union> m" "mask (sigprocmask SIG_SETMASK m k) = m"
  by (simp_all add: sigprocmask_def)

lemma setmask_restore [simp]: "sigprocmask SIG_SETMASK (mask k) (sigprocmask SIG_BLOCK m k) = k"
  by (simp add: sigprocmask_def)

lemma zombies_simps [simp]:
  "zombies (k_fork p k) = zombies k" "zombies (k_exit p k) = insert p (zombies k)"
  "zombies (k_reap p k) = zombies k - {p}" "zombies (k_deliver m k) = zombies k"
  "zombies (k_return k) = zombies k" "zombies (sigprocmask h m k) = zombies k"
  by (auto simp: kproc_defs split: option.splits how.splits)

lemma live_simps [simp]:
  "live (k_fork p k) = insert p (live k)" "live (k_exit p k) = live k - {p}"
  "live (k_reap p k) = live k" "live (k_deliver m k) = live k"
  "live (k_return k) = live k" "live (sigprocmask h m k) = live k"
  by (auto simp: kproc_defs split: option.splits how.splits)

lemma pending_simps [simp]:
  "pending (k_fork p k) = pending k" "pending (k_exit p k) = insert SIGCHLD (pending k)"
  "pending (k_reap p k) = pending k" "pending (k_deliver m k) = pending k - {SIGCHLD}"
  "pending (k_return k) = pending k" "pending (sigprocmask h m k) = pending k"
  by (auto simp: kproc_defs split: option.splits how.splits)

end
