(* ===== verification/Signal_Shell.thy ===== *)
theory Signal_Shell
  imports Shell_Parse Processes
begin

text \<open>
  The shell of \<open>Chapter8/8.5-8.6/shell/main.c\<close> as a state machine: the main flow (\<open>main\<close> and
  \<open>eval\<close>) with its program counter, the \<open>SIGCHLD\<close> handler that may interrupt it wherever the
  signal is not blocked, and the children that terminate at any moment. Each step of the main flow
  is one system call or one access to the shared job table, in the order of the source. The
  relation covers the lines \<open>parseline\<close> can split; the text printed is kept as a list of
  messages.
\<close>

section \<open>Model\<close>

datatype pc =
    Prompt
  | Blocked bool bytes
  | Forked pid bool bytes
  | AllBlocked pid bool bytes
  | Added pid bool bytes
  | Lowered pid bool bytes
  | Wait pid
  | Exited nat

datatype msg = TableFull | JobLine pid bool bytes | BgStarted pid bytes | BgDone pid

record shell =
  sh_k :: kproc
  sh_jobs :: "job_t list"
  fg_done :: bool
  sh_prev :: "signal set"
  sh_pc :: pc
  sh_out :: "msg list"

definition sh_init :: "shell" where
  "sh_init = \<lparr>sh_k = \<lparr>live = {}, zombies = {}, mask = {}, pending = {}, saved = None\<rparr>,
     sh_jobs = init_jobs (replicate MAXJOBS \<lparr>job_pid = 0, job_bg = 0, job_cmdline = []\<rparr>),
     fg_done = False, sh_prev = {}, sh_pc = Prompt, sh_out = []\<rparr>"

text \<open>The front of \<open>eval\<close>: what the parsed line leads to.\<close>

definition sh_eval :: "bool \<Rightarrow> bytes list \<Rightarrow> bytes \<Rightarrow> shell \<Rightarrow> shell" where
  "sh_eval bg argv cmdline s =
     (if argv = [] then s
      else case builtin_command argv of
             Quit \<Rightarrow> s\<lparr>sh_pc := Exited 0\<rparr>
           | Jobs \<Rightarrow>
               (let k1 = sigprocmask SIG_BLOCK UNIV (sh_k s);
                    out = sh_out s @ map (\<lambda>(p, b, c). JobLine p b c) (list_jobs (sh_jobs s));
                    k2 = sigprocmask SIG_SETMASK (mask (sh_k s)) k1
                in s\<lparr>sh_k := k2, sh_out := out\<rparr>)
           | Ignore \<Rightarrow> s
           | NotBuiltin \<Rightarrow>
               s\<lparr>sh_prev := mask (sh_k s), sh_k := sigprocmask SIG_BLOCK {SIGCHLD} (sh_k s),
                 sh_pc := Blocked bg cmdline\<rparr>)"

definition sh_fork :: "pid \<Rightarrow> bool \<Rightarrow> bytes \<Rightarrow> shell \<Rightarrow> shell" where
  "sh_fork p bg cmdline s = s\<lparr>sh_k := k_fork p (sh_k s), sh_pc := Forked p bg cmdline\<rparr>"

definition sh_block_all :: "pid \<Rightarrow> bool \<Rightarrow> bytes \<Rightarrow> shell \<Rightarrow> shell" where
  "sh_block_all p bg cmdline s =
     s\<lparr>sh_k := sigprocmask SIG_BLOCK UNIV (sh_k s), sh_pc := AllBlocked p bg cmdline\<rparr>"

definition sh_add :: "pid \<Rightarrow> bool \<Rightarrow> bytes \<Rightarrow> shell \<Rightarrow> shell" where
  "sh_add p bg cmdline s =
     (case add_job p (if bg then 1 else 0) cmdline (sh_jobs s) of (stored, js) \<Rightarrow>
        s\<lparr>sh_jobs := js, sh_out := (if stored then sh_out s else sh_out s @ [TableFull]),
          sh_pc := Added p bg cmdline\<rparr>)"

definition sh_lower :: "pid \<Rightarrow> bool \<Rightarrow> bytes \<Rightarrow> shell \<Rightarrow> shell" where
  "sh_lower p bg cmdline s =
     s\<lparr>sh_k := sigprocmask SIG_SETMASK {SIGCHLD} (sh_k s), sh_pc := Lowered p bg cmdline\<rparr>"

definition sh_foreground :: "pid \<Rightarrow> shell \<Rightarrow> shell" where
  "sh_foreground p s = s\<lparr>fg_done := False, sh_pc := Wait p\<rparr>"

definition sh_background :: "pid \<Rightarrow> bytes \<Rightarrow> shell \<Rightarrow> shell" where
  "sh_background p cmdline s =
     s\<lparr>sh_out := sh_out s @ [BgStarted p cmdline],
       sh_k := sigprocmask SIG_SETMASK (sh_prev s) (sh_k s), sh_pc := Prompt\<rparr>"

definition sh_waited :: "shell \<Rightarrow> shell" where
  "sh_waited s = s\<lparr>sh_k := sigprocmask SIG_SETMASK (sh_prev s) (sh_k s), sh_pc := Prompt\<rparr>"

text \<open>One turn of the loop of \<open>sigchld_handler\<close>, for the zombie \<open>p\<close> that \<open>waitpid\<close> returned.\<close>

definition sh_reap :: "pid \<Rightarrow> shell \<Rightarrow> shell" where
  "sh_reap p s =
     (let k1 = k_reap p (sh_k s);
          k2 = sigprocmask SIG_BLOCK UNIV k1;
          k3 = sigprocmask SIG_SETMASK (mask k1) k2
      in case delete_job p (sh_jobs s) of (bg, js) \<Rightarrow>
           s\<lparr>sh_k := k3, sh_jobs := js, fg_done := (bg = 0 \<or> fg_done s),
             sh_out := (if bg = 1 then sh_out s @ [BgDone p] else sh_out s)\<rparr>)"

inductive sh_step :: "shell \<Rightarrow> shell \<Rightarrow> bool" where
  eof: "sh_pc s = Prompt \<Longrightarrow> \<not> in_handler (sh_k s) \<Longrightarrow> sh_step s (s\<lparr>sh_pc := Exited 0\<rparr>)"
| line: "sh_pc s = Prompt \<Longrightarrow> \<not> in_handler (sh_k s) \<Longrightarrow> parseline cmdline = Some (bg, argv) \<Longrightarrow>
    sh_step s (sh_eval bg argv cmdline s)"
| fork: "sh_pc s = Blocked bg cmdline \<Longrightarrow> \<not> in_handler (sh_k s) \<Longrightarrow> fork_ok p (sh_k s) \<Longrightarrow>
    sh_step s (sh_fork p bg cmdline s)"
| fork_error: "sh_pc s = Blocked bg cmdline \<Longrightarrow> \<not> in_handler (sh_k s) \<Longrightarrow>
    sh_step s (s\<lparr>sh_pc := Exited 1\<rparr>)"
| block_all: "sh_pc s = Forked p bg cmdline \<Longrightarrow> \<not> in_handler (sh_k s) \<Longrightarrow>
    sh_step s (sh_block_all p bg cmdline s)"
| add: "sh_pc s = AllBlocked p bg cmdline \<Longrightarrow> \<not> in_handler (sh_k s) \<Longrightarrow>
    sh_step s (sh_add p bg cmdline s)"
| lower: "sh_pc s = Added p bg cmdline \<Longrightarrow> \<not> in_handler (sh_k s) \<Longrightarrow>
    sh_step s (sh_lower p bg cmdline s)"
| foreground: "sh_pc s = Lowered p False cmdline \<Longrightarrow> \<not> in_handler (sh_k s) \<Longrightarrow>
    sh_step s (sh_foreground p s)"
| background: "sh_pc s = Lowered p True cmdline \<Longrightarrow> \<not> in_handler (sh_k s) \<Longrightarrow>
    sh_step s (sh_background p cmdline s)"
| waited: "sh_pc s = Wait p \<Longrightarrow> \<not> in_handler (sh_k s) \<Longrightarrow> fg_done s \<Longrightarrow> sh_step s (sh_waited s)"
| suspend: "sh_pc s = Wait p \<Longrightarrow> \<not> fg_done s \<Longrightarrow> deliverable (sh_prev s) (sh_k s) \<Longrightarrow>
    sh_step s (s\<lparr>sh_k := k_deliver (sh_prev s) (sh_k s)\<rparr>)"
| deliver: "\<forall>n. sh_pc s \<noteq> Exited n \<Longrightarrow> deliverable (mask (sh_k s)) (sh_k s) \<Longrightarrow>
    sh_step s (s\<lparr>sh_k := k_deliver (mask (sh_k s)) (sh_k s)\<rparr>)"
| reap: "in_handler (sh_k s) \<Longrightarrow> p \<in> zombies (sh_k s) \<Longrightarrow> sh_step s (sh_reap p s)"
| handler_return: "in_handler (sh_k s) \<Longrightarrow> zombies (sh_k s) = {} \<Longrightarrow>
    sh_step s (s\<lparr>sh_k := k_return (sh_k s)\<rparr>)"
| child_exit: "p \<in> live (sh_k s) \<Longrightarrow> sh_step s (s\<lparr>sh_k := k_exit p (sh_k s)\<rparr>)"

abbreviation sh_steps :: "shell \<Rightarrow> shell \<Rightarrow> bool" where
  "sh_steps \<equiv> sh_step\<^sup>*\<^sup>*"

text \<open>The states the shell can reach.\<close>

definition sh_reachable :: "shell \<Rightarrow> bool" where
  "sh_reachable s \<longleftrightarrow> sh_steps sh_init s"

section \<open>Invariant\<close>

text \<open>A child that is forked and not yet offered to the table.\<close>

fun newborn :: "pc \<Rightarrow> pid set" where
  "newborn (Forked p bg c) = {p}"
| "newborn (AllBlocked p bg c) = {p}"
| "newborn _ = {}"

text \<open>The foreground job the main flow is concerned with.\<close>

fun fg_pid :: "pc \<Rightarrow> pid set" where
  "fg_pid (Added p bg c) = (if bg then {} else {p})"
| "fg_pid (Lowered p bg c) = (if bg then {} else {p})"
| "fg_pid (Wait p) = {p}"
| "fg_pid _ = {}"

definition fg_jobs :: "job_t list \<Rightarrow> pid set" where
  "fg_jobs js = {p. \<exists>c. slot_tab js p = Some (0, c)}"

text \<open>The masks: \<open>SIGCHLD\<close> is blocked exactly from before \<open>fork\<close> to the end of \<open>eval\<close>.\<close>

definition masks_ok :: "shell \<Rightarrow> bool" where
  "masks_ok s \<longleftrightarrow> (SIGCHLD \<in> main_mask (sh_k s) \<longleftrightarrow> sh_pc s \<noteq> Prompt)
     \<and> (sh_pc s \<noteq> Prompt \<longrightarrow> SIGCHLD \<notin> sh_prev s)
     \<and> (in_handler (sh_k s) \<longrightarrow> sh_pc s = Prompt \<or> (\<exists>p. sh_pc s = Wait p))"

text \<open>The table: every entry is a child, and every child has an entry unless the table was full.\<close>

definition table_ok :: "shell \<Rightarrow> bool" where
  "table_ok s \<longleftrightarrow> slots_ok (sh_jobs s)
     \<and> dom (slot_tab (sh_jobs s)) \<subseteq> children (sh_k s) - newborn (sh_pc s)
     \<and> newborn (sh_pc s) \<subseteq> children (sh_k s)
     \<and> (\<forall>(b, c) \<in> ran (slot_tab (sh_jobs s)). b = 0 \<or> b = 1)
     \<and> (TableFull \<notin> set (sh_out s) \<longrightarrow>
          children (sh_k s) = dom (slot_tab (sh_jobs s)) \<union> newborn (sh_pc s))"

text \<open>The foreground job: recorded until the handler sets \<open>fg_done\<close>.\<close>

definition fg_ok :: "shell \<Rightarrow> bool" where
  "fg_ok s \<longleftrightarrow> fg_jobs (sh_jobs s) \<subseteq> fg_pid (sh_pc s)
     \<and> fg_pid (sh_pc s) \<inter> dom (slot_tab (sh_jobs s)) \<subseteq> fg_jobs (sh_jobs s)
     \<and> (\<forall>p. sh_pc s = Wait p \<longrightarrow> fg_done s \<longrightarrow> fg_jobs (sh_jobs s) = {})
     \<and> (TableFull \<notin> set (sh_out s) \<longrightarrow>
          fg_pid (sh_pc s) \<subseteq> fg_jobs (sh_jobs s) \<or> (\<exists>p. sh_pc s = Wait p \<and> fg_done s))"

definition sh_inv :: "shell \<Rightarrow> bool" where
  "sh_inv s \<longleftrightarrow> (\<exists>n. sh_pc s = Exited n) \<or> kernel_ok (sh_k s) \<and> masks_ok s \<and> table_ok s \<and> fg_ok s"

lemma fg_jobs_delete:
  assumes "slots_ok js" "0 < p"
  shows "fg_jobs (snd (delete_job p js)) = fg_jobs js - {p}"
  using slots.del_tab [OF assms] by (auto simp: fg_jobs_def)

lemma delete_job_fg:
  assumes "slots_ok js" "0 < p"
  shows "fst (delete_job p js) = 0 \<longleftrightarrow> p \<in> fg_jobs js"
  using slots.del_tab [OF assms] by (auto simp: fg_jobs_def bg_or_miss_def split: option.splits)

lemma sh_reap_fields:
  "sh_pc (sh_reap p s) = sh_pc s" "sh_prev (sh_reap p s) = sh_prev s"
  "sh_jobs (sh_reap p s) = snd (delete_job p (sh_jobs s))"
  "fg_done (sh_reap p s) \<longleftrightarrow> fst (delete_job p (sh_jobs s)) = 0 \<or> fg_done s"
  "TableFull \<in> set (sh_out (sh_reap p s)) \<longleftrightarrow> TableFull \<in> set (sh_out s)"
  "sh_k (sh_reap p s) = k_reap p (sh_k s)"
  by (auto simp: sh_reap_def Let_def sigprocmask_def k_reap_def split: prod.splits)

lemma sh_inv_init: "sh_inv sh_init"
  using slots.empty_ok slots.empty_none
  by (simp add: sh_inv_def sh_init_def init_jobs_def kernel_ok_def masks_ok_def table_ok_def fg_ok_def
      main_mask_def kproc_defs fg_jobs_def dom_def ran_def)

lemma sh_inv_reap:
  assumes "sh_inv s" "in_handler (sh_k s)" "p \<in> zombies (sh_k s)"
  shows "sh_inv (sh_reap p s)"
proof (cases "\<exists>n. sh_pc s = Exited n")
  case True
  then show ?thesis by (simp add: sh_inv_def sh_reap_fields)
next
  case False
  with assms(1) have i: "kernel_ok (sh_k s)" "masks_ok s" "table_ok s" "fg_ok s"
    by (auto simp: sh_inv_def)
  have p: "0 < p" using i(1) assms(3) by (auto simp: kernel_ok_def children_def)
  have j: "slots_ok (sh_jobs s)" using i(3) by (simp add: table_ok_def)
  note d = slots.del_tab [OF j p]
  have nb: "newborn (sh_pc s) = {}" using i(2) assms(2) by (auto simp: masks_ok_def)
  have "kernel_ok (k_reap p (sh_k s))" using i(1) by (rule kernel_ok_reap)
  moreover have "masks_ok (sh_reap p s)"
    using i(2) by (simp add: masks_ok_def sh_reap_fields)
  moreover have "ran (slot_tab (sh_jobs (sh_reap p s))) \<subseteq> ran (slot_tab (sh_jobs s))"
    using d by (auto simp: sh_reap_fields ran_def)
  then have "table_ok (sh_reap p s)"
    using i(3) d nb children_reap [OF i(1) assms(3)] by (auto simp: table_ok_def sh_reap_fields)
  moreover have "fg_ok (sh_reap p s)"
  proof -
    have f: "fg_jobs (sh_jobs (sh_reap p s)) = fg_jobs (sh_jobs s) - {p}"
      "fg_done (sh_reap p s) \<longleftrightarrow> p \<in> fg_jobs (sh_jobs s) \<or> fg_done s"
      using fg_jobs_delete [OF j p] delete_job_fg [OF j p] by (simp_all add: sh_reap_fields)
    have f': "dom (slot_tab (sh_jobs (sh_reap p s))) = dom (slot_tab (sh_jobs s)) - {p}"
      using d by (simp add: sh_reap_fields)
    from i(2) assms(2) consider "sh_pc s = Prompt" | q where "sh_pc s = Wait q"
      by (auto simp: masks_ok_def)
    then show ?thesis
    proof cases
      case 1
      then show ?thesis using i(4) f by (simp add: fg_ok_def sh_reap_fields(1))
    next
      case 2
      then show ?thesis using i(4) unfolding fg_ok_def f f' sh_reap_fields(1,5) by auto
    qed
  qed
  ultimately show ?thesis by (simp add: sh_inv_def sh_reap_fields)
qed

lemma sh_inv_add:
  assumes "sh_inv s" "sh_pc s = AllBlocked p bg c" "\<not> in_handler (sh_k s)"
  shows "sh_inv (sh_add p bg c s)"
proof -
  have i: "kernel_ok (sh_k s)" "masks_ok s" "table_ok s" "fg_ok s"
    using assms by (auto simp: sh_inv_def)
  have "p \<in> children (sh_k s)" using i(3) assms(2) by (simp add: table_ok_def)
  then have p: "0 < p" using i(1) by (cases p) (simp_all add: kernel_ok_def)
  have j: "slots_ok (sh_jobs s)" and n: "slot_tab (sh_jobs s) p = None"
    using i(3) assms(2) by (auto simp: table_ok_def)
  let ?v = "(if bg then 1 else 0, c)"
  obtain ok js where a: "add_job p (if bg then 1 else 0) c (sh_jobs s) = (ok, js)" by fastforce
  have r: "slots_ok js" "slot_tab js = (if ok then (slot_tab (sh_jobs s))(p \<mapsto> ?v) else slot_tab (sh_jobs s))"
    using slots.add_ok [OF j p n, of ?v] a by auto
  have "ran (slot_tab js) \<subseteq> insert ?v (ran (slot_tab (sh_jobs s)))"
    using r(2) by (auto simp: ran_def split: if_splits)
  then have "\<forall>(b, c) \<in> ran (slot_tab js). b = 0 \<or> b = 1"
    using i(3) by (fastforce simp: table_ok_def split: if_splits)
  then show ?thesis
    using i assms(2,3) a r n
    by (auto simp: sh_inv_def sh_add_def masks_ok_def table_ok_def fg_ok_def fg_jobs_def split: if_splits)
qed

lemma sh_inv_step: "sh_step s s' \<Longrightarrow> sh_inv s \<Longrightarrow> sh_inv s'"
proof (induction rule: sh_step.induct)
  case (line s cmdline bg argv)
  then show ?case
    by (auto simp: sh_eval_def sh_inv_def masks_ok_def table_ok_def fg_ok_def Let_def
        intro!: kernel_ok_mask split: builtin.splits)
next
  case (fork s bg c p)
  then show ?case
    by (auto simp: sh_fork_def sh_inv_def masks_ok_def table_ok_def fg_ok_def fork_ok_def
        intro!: kernel_ok_fork)
next
  case (block_all s p bg c)
  then show ?case
    by (auto simp: sh_block_all_def sh_inv_def masks_ok_def table_ok_def fg_ok_def intro!: kernel_ok_mask)
next
  case (add s p bg c)
  then show ?case by (intro sh_inv_add)
next
  case (lower s p bg c)
  then show ?case
    by (auto simp: sh_lower_def sh_inv_def masks_ok_def table_ok_def fg_ok_def intro!: kernel_ok_mask)
next
  case (foreground s p c)
  then show ?case
    by (auto simp: sh_foreground_def sh_inv_def masks_ok_def table_ok_def fg_ok_def)
next
  case (background s p c)
  then show ?case
    by (auto simp: sh_background_def sh_inv_def masks_ok_def table_ok_def fg_ok_def intro!: kernel_ok_mask)
next
  case (waited s p)
  then show ?case
    by (auto simp: sh_waited_def sh_inv_def masks_ok_def table_ok_def fg_ok_def intro!: kernel_ok_mask)
next
  case (suspend s p)
  then have "\<not> in_handler (sh_k s)" by (simp add: deliverable_def in_handler_def)
  with suspend show ?case
    by (auto simp: sh_inv_def masks_ok_def table_ok_def fg_ok_def intro!: kernel_ok_deliver)
next
  case (deliver s)
  then have "\<not> in_handler (sh_k s)" by (simp add: deliverable_def in_handler_def)
  with deliver show ?case
    by (auto simp: sh_inv_def masks_ok_def table_ok_def fg_ok_def deliverable_def intro!: kernel_ok_deliver)
next
  case (reap s p)
  then show ?case by (intro sh_inv_reap)
next
  case (handler_return s)
  then show ?case
    by (auto simp: sh_inv_def masks_ok_def table_ok_def fg_ok_def intro!: kernel_ok_return)
next
  case (child_exit p s)
  then show ?case
    by (auto simp: sh_inv_def masks_ok_def table_ok_def fg_ok_def intro!: kernel_ok_exit)
qed (auto simp: sh_inv_def)

lemma sh_inv_steps: "sh_steps s s' \<Longrightarrow> sh_inv s \<Longrightarrow> sh_inv s'"
  by (induction rule: rtranclp_induct) (auto intro: sh_inv_step)

lemma sh_reachable_inv: "sh_reachable s \<Longrightarrow> sh_inv s"
  unfolding sh_reachable_def using sh_inv_steps sh_inv_init by blast

section \<open>Runs\<close>

lemma handler_drains:
  assumes "sh_inv s" "\<forall>n. sh_pc s \<noteq> Exited n" "in_handler (sh_k s)"
  shows "\<exists>s'. sh_steps s s' \<and> \<not> in_handler (sh_k s') \<and> zombies (sh_k s') = {}
     \<and> live (sh_k s') = live (sh_k s) \<and> sh_pc s' = sh_pc s
     \<and> (TableFull \<in> set (sh_out s') \<longleftrightarrow> TableFull \<in> set (sh_out s))"
  using assms
proof (induction "card (zombies (sh_k s))" arbitrary: s rule: less_induct)
  case less
  show ?case
  proof (cases "zombies (sh_k s) = {}")
    case True
    let ?s = "s\<lparr>sh_k := k_return (sh_k s)\<rparr>"
    have "sh_step s ?s" using less.prems(3) True by (rule handler_return)
    moreover have "zombies (k_return (sh_k s)) = {}" "live (k_return (sh_k s)) = live (sh_k s)"
      using True by (auto simp: k_return_def split: option.splits)
    ultimately show ?thesis by (intro exI [of _ ?s]) auto
  next
    case False
    then obtain p where p: "p \<in> zombies (sh_k s)" by auto
    have fin: "finite (zombies (sh_k s))"
      using less.prems(1,2) by (auto simp: sh_inv_def kernel_ok_def children_def)
    have st: "sh_step s (sh_reap p s)" using less.prems(3) p by (rule reap)
    have "zombies (sh_k (sh_reap p s)) = zombies (sh_k s) - {p}"
      "live (sh_k (sh_reap p s)) = live (sh_k s)" "in_handler (sh_k (sh_reap p s))"
      using less.prems(3) by (simp_all add: sh_reap_fields k_reap_def in_handler_def)
    moreover have "card (zombies (sh_k s) - {p}) < card (zombies (sh_k s))"
      using fin p by (rule card_Diff1_less)
    moreover have "sh_inv (sh_reap p s)" using less.prems(1,3) p by (intro sh_inv_reap)
    ultimately show ?thesis
      using less.hyps [of "sh_reap p s"] less.prems(2) st
      by (auto simp: sh_reap_fields intro: converse_rtranclp_into_rtranclp)
  qed
qed

text \<open>A command that is not built in, up to the point where the job is in the table.\<close>

definition launched :: "pid \<Rightarrow> bool \<Rightarrow> bytes \<Rightarrow> shell \<Rightarrow> shell" where
  "launched p bg c s =
     (let s1 = s\<lparr>sh_prev := mask (sh_k s), sh_k := sigprocmask SIG_BLOCK {SIGCHLD} (sh_k s), sh_pc := Blocked bg c\<rparr>
      in sh_lower p bg c (sh_add p bg c (sh_block_all p bg c (sh_fork p bg c s1))))"

lemma launched_fields:
  "sh_pc (launched p bg c s) = Lowered p bg c"
  "sh_jobs (launched p bg c s) = snd (add_job p (if bg then 1 else 0) c (sh_jobs s))"
  "sh_out (launched p bg c s) =
     (if fst (add_job p (if bg then 1 else 0) c (sh_jobs s)) then sh_out s else sh_out s @ [TableFull])"
  "live (sh_k (launched p bg c s)) = insert p (live (sh_k s))"
  "zombies (sh_k (launched p bg c s)) = zombies (sh_k s)"
  "pending (sh_k (launched p bg c s)) = pending (sh_k s)"
  "saved (sh_k (launched p bg c s)) = saved (sh_k s)"
  by (cases "add_job p (if bg then 1 else 0) c (sh_jobs s)";
      simp add: launched_def sh_fork_def sh_block_all_def sh_add_def sh_lower_def sigprocmask_def k_fork_def Let_def)+

lemma launch_steps:
  assumes "sh_pc s = Prompt" "\<not> in_handler (sh_k s)" "fork_ok p (sh_k s)"
    and "parseline c = Some (bg, argv)" "argv \<noteq> []" "builtin_command argv = NotBuiltin"
  shows "sh_steps s (launched p bg c s)"
proof -
  let ?s1 = "s\<lparr>sh_prev := mask (sh_k s), sh_k := sigprocmask SIG_BLOCK {SIGCHLD} (sh_k s), sh_pc := Blocked bg c\<rparr>"
  let ?s2 = "sh_fork p bg c ?s1" let ?s3 = "sh_block_all p bg c ?s2" let ?s4 = "sh_add p bg c ?s3"
  have "sh_steps s ?s1" using line [OF assms(1,2,4)] assms(5,6) by (simp add: sh_eval_def r_into_rtranclp)
  also have "sh_step ?s1 ?s2" using assms by (intro fork) (simp_all add: fork_ok_def)
  also (rtranclp.rtrancl_into_rtrancl) have "sh_step ?s2 ?s3" using assms(2) by (intro block_all) (simp_all add: sh_fork_def)
  also (rtranclp.rtrancl_into_rtrancl) have "sh_step ?s3 ?s4" using assms(2) by (intro add) (simp_all add: sh_fork_def sh_block_all_def)
  also (rtranclp.rtrancl_into_rtrancl) have "sh_step ?s4 (launched p bg c s)"
    unfolding launched_def Let_def using assms(2)
    by (intro lower) (auto simp: sh_fork_def sh_block_all_def sh_add_def split: prod.splits)
  finally (rtranclp.rtrancl_into_rtrancl) show ?thesis .
qed

definition bg_line :: bytes where "bg_line = ''/bin/sleep &'' @ [LF]"
definition fg_line :: bytes where "fg_line = ''/bin/sleep'' @ [LF]"

lemma demo_lines:
  "parseline bg_line = Some (True, [''/bin/sleep''])" "parseline fg_line = Some (False, [''/bin/sleep''])"
  "builtin_command [''/bin/sleep''] = NotBuiltin"
  by code_simp+

text \<open>A shell at its prompt with the background children 1 to \<open>n\<close> running.\<close>

definition n_background :: "nat \<Rightarrow> shell \<Rightarrow> bool" where
  "n_background n s \<longleftrightarrow> sh_reachable s \<and> sh_pc s = Prompt \<and> live (sh_k s) = {1..n}
     \<and> zombies (sh_k s) = {} \<and> pending (sh_k s) = {} \<and> saved (sh_k s) = None \<and> TableFull \<notin> set (sh_out s)"

lemma n_background_dom:
  assumes "n_background n s"
  shows "dom (slot_tab (sh_jobs s)) = {1..n}" "slots_ok (sh_jobs s)"
  using sh_reachable_inv [of s] assms
  by (auto simp: n_background_def sh_inv_def table_ok_def children_def)

lemma n_background_launch:
  assumes "n_background n s" "c = (if bg then bg_line else fg_line)"
  shows "sh_reachable (launched (Suc n) bg c s)"
    and "fst (add_job (Suc n) b c (sh_jobs s)) \<longleftrightarrow> n < MAXJOBS"
    and "slot_tab (sh_jobs s) (Suc n) = None"
proof -
  have "fork_ok (Suc n) (sh_k s)" using assms(1) by (simp add: n_background_def fork_ok_def children_def)
  then have "sh_steps s (launched (Suc n) bg c s)"
    using assms demo_lines by (intro launch_steps [where argv = "[''/bin/sleep'']"])
      (auto simp: n_background_def in_handler_def)
  then show "sh_reachable (launched (Suc n) bg c s)"
    using assms(1) by (auto simp: n_background_def sh_reachable_def)
  show n: "slot_tab (sh_jobs s) (Suc n) = None"
    using n_background_dom(1) [OF assms(1)] domIff [of "Suc n" "slot_tab (sh_jobs s)"]
    by (metis atLeastAtMost_iff not_less_eq_eq order_refl)
  show "fst (add_job (Suc n) b c (sh_jobs s)) \<longleftrightarrow> n < MAXJOBS"
    using slots.add_flag [OF n_background_dom(2) [OF assms(1)] _ n, of "(b, c)"] n_background_dom(1) [OF assms(1)]
    by simp
qed

lemma n_background_exists: "n \<le> MAXJOBS \<Longrightarrow> \<exists>s. n_background n s"
proof (induction n)
  case 0
  have "n_background 0 sh_init" by (simp add: n_background_def sh_reachable_def) (simp add: sh_init_def)
  then show ?case by blast
next
  case (Suc n)
  then obtain s where s: "n_background n s" by auto
  let ?t = "launched (Suc n) True bg_line s"
  let ?u = "sh_background (Suc n) bg_line ?t"
  have "\<not> in_handler (sh_k ?t)" using s by (simp add: in_handler_def launched_fields n_background_def)
  then have "sh_step ?t ?u" by (intro background) (simp_all add: launched_fields)
  then have "sh_reachable ?u"
    using n_background_launch(1) [OF s, of _ True] by (auto simp: sh_reachable_def intro: rtranclp.rtrancl_into_rtrancl)
  moreover have "fst (add_job (Suc n) 1 bg_line (sh_jobs s))"
    using n_background_launch(2) [OF s, of bg_line True 1] Suc.prems by simp
  ultimately have "n_background (Suc n) ?u"
    using s by (auto simp: n_background_def sh_background_def sigprocmask_def launched_fields)
  then show ?case by blast
qed

lemma n_background_forked:
  assumes "n_background n s"
  shows "\<exists>t. sh_reachable t \<and> sh_pc t = Forked (Suc n) False fg_line \<and> (0 \<in> set (map job_pid (sh_jobs t)) \<longleftrightarrow> n < MAXJOBS)"
proof -
  let ?s1 = "s\<lparr>sh_prev := mask (sh_k s), sh_k := sigprocmask SIG_BLOCK {SIGCHLD} (sh_k s), sh_pc := Blocked False fg_line\<rparr>"
  let ?s2 = "sh_fork (Suc n) False fg_line ?s1"
  have h: "\<not> in_handler (sh_k s)" "sh_pc s = Prompt" using assms by (simp_all add: in_handler_def n_background_def)
  have "sh_step s ?s1" using line [OF h(2,1) demo_lines(2)] demo_lines(3) by (simp add: sh_eval_def)
  moreover have "sh_step ?s1 ?s2"
    using assms h by (intro fork) (auto simp: fork_ok_def n_background_def children_def)
  ultimately have "sh_reachable ?s2"
    using assms unfolding n_background_def sh_reachable_def by (meson rtranclp.rtrancl_into_rtrancl)
  moreover have "0 \<in> set (map job_pid (sh_jobs s)) \<longleftrightarrow> n < MAXJOBS"
    using slots_room n_background_dom [OF assms] by simp
  ultimately show ?thesis by (intro exI [of _ ?s2]) (simp add: sh_fork_def)
qed

section \<open>A foreground command from its fork on\<close>

text \<open>
  What is left to do: the calls of the main flow, and for every child its termination, its signal, one run of the handler
  and its reaping.
\<close>

fun calls_left :: "pc \<Rightarrow> nat" where
  "calls_left (Forked p bg c) = 4"
| "calls_left (AllBlocked p bg c) = 3"
| "calls_left (Added p bg c) = 2"
| "calls_left (Lowered p bg c) = 1"
| "calls_left _ = 0"

definition sh_work :: "shell \<Rightarrow> nat" where
  "sh_work s = calls_left (sh_pc s) + 4 * card (live (sh_k s)) + card (zombies (sh_k s))
     + (if SIGCHLD \<in> pending (sh_k s) then 2 else 0) + (if in_handler (sh_k s) then 1 else 0)"

text \<open>The points from the fork of the foreground job \<open>p\<close> to the end of its wait.\<close>

definition fg_points :: "pid \<Rightarrow> bytes \<Rightarrow> pc set" where
  "fg_points p c = {Forked p False c, AllBlocked p False c, Added p False c, Lowered p False c, Wait p}"

text \<open>A step at one of these points goes to another one with less work left, or it is the end of the wait.\<close>

lemma fg_step:
  assumes "sh_step s t" "sh_inv s" "sh_pc s \<in> fg_points p c"
  shows "sh_inv t \<and> (sh_pc t \<in> fg_points p c \<and> sh_work t < sh_work s
     \<or> sh_pc s = Wait p \<and> fg_done s \<and> sh_pc t = Prompt \<and> children (sh_k t) = children (sh_k s))"
proof -
  have fin: "finite (live (sh_k s))" "finite (zombies (sh_k s))" "live (sh_k s) \<inter> zombies (sh_k s) = {}"
    using assms(2,3) by (auto simp: sh_inv_def kernel_ok_def children_def fg_points_def)
  have "sh_inv t" using assms(1,2) by (rule sh_inv_step)
  moreover have "sh_pc t \<in> fg_points p c \<and> sh_work t < sh_work s
     \<or> sh_pc s = Wait p \<and> fg_done s \<and> sh_pc t = Prompt \<and> children (sh_k t) = children (sh_k s)"
    using assms(1)
  proof (cases rule: sh_step.cases)
    case (reap q)
    moreover have "card (zombies (sh_k s) - {q}) < card (zombies (sh_k s))" using fin(2) reap(3) by (rule card_Diff1_less)
    ultimately show ?thesis using assms(3) by (simp add: sh_work_def sh_reap_fields)
  next
    case (child_exit q)
    have "0 < card (live (sh_k s))" using fin(1) child_exit(2) by (auto simp: card_gt_0_iff)
    moreover have "card (live (sh_k s) - {q}) = card (live (sh_k s)) - 1" using child_exit(2) by (rule card_Diff_singleton)
    moreover have "card (insert q (zombies (sh_k s))) \<le> card (zombies (sh_k s)) + 1" using fin(2) by (simp add: card_insert_if)
    ultimately have "sh_work t < sh_work s" using child_exit by (simp add: sh_work_def)
    then show ?thesis using child_exit(1) assms(3) by simp
  next
    case (add q bg d)
    then show ?thesis using assms(3) by (auto simp: fg_points_def sh_work_def sh_add_def split: prod.splits)
  qed (use assms(3) in \<open>auto simp: fg_points_def sh_work_def sh_block_all_def sh_lower_def sh_foreground_def sh_waited_def deliverable_def
      in_handler_def [symmetric]\<close>)
  ultimately show ?thesis by blast
qed

text \<open>Before the job is added the table does not change; afterwards the job is in it, or not, as the slots decided.\<close>

definition fg_recorded :: "pid \<Rightarrow> shell \<Rightarrow> bool" where
  "fg_recorded p s \<longleftrightarrow> (if newborn (sh_pc s) = {} then p \<in> dom (slot_tab (sh_jobs s)) \<or> sh_pc s = Wait p \<and> fg_done s \<and> p \<notin> children (sh_k s)
     else 0 \<in> set (map job_pid (sh_jobs s)))"

definition fg_lost :: "pid \<Rightarrow> shell \<Rightarrow> bool" where
  "fg_lost p s \<longleftrightarrow> (if newborn (sh_pc s) = {} then slot_tab (sh_jobs s) p = None \<and> (sh_pc s = Wait p \<longrightarrow> \<not> fg_done s)
     else 0 \<notin> set (map job_pid (sh_jobs s)))"

lemma fg_newborn:
  assumes "sh_inv s" "sh_pc s \<in> fg_points p c" "newborn (sh_pc s) \<noteq> {}"
  shows "0 < p" "slots_ok (sh_jobs s)" "slot_tab (sh_jobs s) p = None" "\<not> in_handler (sh_k s)"
proof -
  have i: "kernel_ok (sh_k s)" "masks_ok s" "table_ok s" using assms(1,2) by (auto simp: sh_inv_def fg_points_def)
  have n: "newborn (sh_pc s) = {p}" using assms(2,3) by (auto simp: fg_points_def)
  then have "p \<in> children (sh_k s)" using i(3) by (simp add: table_ok_def)
  then show "0 < p" using i(1) by (cases p) (simp_all add: kernel_ok_def)
  show "slots_ok (sh_jobs s)" using i(3) by (simp add: table_ok_def)
  show "slot_tab (sh_jobs s) p = None" using i(3) n by (auto simp: table_ok_def)
  show "\<not> in_handler (sh_k s)" using i(2) n by (auto simp: masks_ok_def)
qed

lemma fg_recorded_step:
  assumes "sh_step s t" "sh_inv s" "sh_pc s \<in> fg_points p c" "sh_pc t \<in> fg_points p c" "fg_recorded p s"
  shows "fg_recorded p t"
  using assms(1)
proof (cases rule: sh_step.cases)
  case (add q bg d)
  then have q: "q = p" using assms(3) by (auto simp: fg_points_def)
  have n: "0 < p" "slots_ok (sh_jobs s)" "slot_tab (sh_jobs s) p = None"
    using fg_newborn [OF assms(2,3)] add(2) by simp_all
  have "fst (add_job p (if bg then 1 else 0) d (sh_jobs s))"
    using assms(5) add(2) unfolding add_job_flag by (simp add: fg_recorded_def)
  then show ?thesis using add q slots.add_ok(2) [OF n(2,1,3), of "(if bg then 1 else 0, d)"]
    by (auto simp: fg_recorded_def sh_add_def split: prod.splits)
next
  case (reap q)
  then have w: "sh_pc s = Wait p" using assms(2,3) by (auto simp: sh_inv_def masks_ok_def fg_points_def)
  then have i: "kernel_ok (sh_k s)" "table_ok s" "fg_ok s" using assms(2) by (auto simp: sh_inv_def)
  have q: "0 < q" using i(1) reap(3) by (cases q) (auto simp: kernel_ok_def children_def)
  have j: "slots_ok (sh_jobs s)" using i(2) by (simp add: table_ok_def)
  have c: "children (sh_k t) = children (sh_k s) - {q}" using reap(1) i(1) reap(3) by (simp add: sh_reap_fields)
  have d: "dom (slot_tab (sh_jobs t)) = dom (slot_tab (sh_jobs s)) - {q}"
    using slots.del_tab [OF j q] reap(1) by (simp add: sh_reap_fields)
  have f: "fg_done t \<longleftrightarrow> q \<in> fg_jobs (sh_jobs s) \<or> fg_done s" using delete_job_fg [OF j q] reap(1) by (simp add: sh_reap_fields)
  have "p \<in> dom (slot_tab (sh_jobs s)) \<Longrightarrow> p \<in> fg_jobs (sh_jobs s)" using i(3) w by (auto simp: fg_ok_def)
  moreover have "sh_pc t = Wait p" using reap(1) w by (simp add: sh_reap_fields)
  ultimately show ?thesis using assms(5) w c d f by (auto simp: fg_recorded_def)
qed (use assms(3-5) in \<open>auto simp: fg_recorded_def fg_points_def sh_block_all_def sh_lower_def sh_foreground_def sh_waited_def\<close>)

lemma hang_step:
  assumes "sh_step s s'" "sh_inv s" "sh_pc s = Wait p" "\<not> fg_done s" "slot_tab (sh_jobs s) p = None"
  shows "sh_pc s' = Wait p \<and> \<not> fg_done s' \<and> slot_tab (sh_jobs s') p = None"
  using assms
proof (cases rule: sh_step.cases)
  case (reap q)
  have k: "kernel_ok (sh_k s)" "table_ok s" "fg_ok s" using assms(2,3) by (simp_all add: sh_inv_def)
  have "q \<in> children (sh_k s)" using reap by (simp add: children_def)
  then have q: "0 < q" using k(1) by (cases q) (simp_all add: kernel_ok_def)
  have j: "slots_ok (sh_jobs s)" using k(2) by (simp add: table_ok_def)
  have "fg_jobs (sh_jobs s) \<subseteq> {p}" "p \<notin> fg_jobs (sh_jobs s)"
    using k(3) assms(3,5) by (simp_all add: fg_ok_def fg_jobs_def)
  then have f: "fg_jobs (sh_jobs s) = {}" by blast
  note i = j q f
  show ?thesis
    using assms(3-5) reap slots.del_tab [OF i(1,2)] delete_job_fg [OF i(1,2)] i(3)
    by (auto simp: sh_reap_fields)
qed (auto simp: deliverable_def)

lemma fg_lost_step:
  assumes "sh_step s t" "sh_inv s" "sh_pc s \<in> fg_points p c" "fg_lost p s"
  shows "sh_pc t \<in> fg_points p c \<and> fg_lost p t"
proof -
  have "sh_pc t \<in> fg_points p c"
    using fg_step [OF assms(1-3)] assms(4) by (auto simp: fg_lost_def fg_points_def)
  moreover from assms(1) have "fg_lost p t"
  proof (cases rule: sh_step.cases)
    case (add q bg d)
    then have q: "q = p" using assms(3) by (auto simp: fg_points_def)
    have n: "slot_tab (sh_jobs s) p = None" using fg_newborn [OF assms(2,3)] add(2) by simp
    have "add_job p (if bg then 1 else 0) d (sh_jobs s) = (False, sh_jobs s)"
      using assms(4) add(2) by (intro add_job_noroom) (simp add: fg_lost_def)
    then show ?thesis using add q n by (simp add: fg_lost_def sh_add_def)
  next
    case (reap q)
    then have w: "sh_pc s = Wait p" using assms(2,3) by (auto simp: sh_inv_def masks_ok_def fg_points_def)
    then show ?thesis using hang_step [OF assms(1,2) w] assms(4) by (auto simp: fg_lost_def)
  qed (use assms(3,4) in \<open>auto simp: fg_lost_def fg_points_def sh_block_all_def sh_lower_def sh_foreground_def sh_waited_def\<close>)
  ultimately show ?thesis by blast
qed

text \<open>The shell is never stuck before its wait, nor in it while its foreground child is recorded.\<close>

lemma fg_moves:
  assumes "sh_inv s" "sh_pc s \<in> fg_points p c" "sh_pc s \<noteq> Wait p"
  shows "\<exists>t. sh_step s t \<and> live (sh_k s) \<subseteq> live (sh_k t)"
proof -
  have "\<not> in_handler (sh_k s)" using assms by (auto simp: sh_inv_def masks_ok_def fg_points_def)
  then show ?thesis
    using assms(2,3) block_all [of s p False c] add [of s p False c] lower [of s p False c] foreground [of s p c]
    by (auto simp: fg_points_def sh_block_all_def sh_add_def sh_lower_def sh_foreground_def split: prod.splits)
qed

lemma fg_ready:
  assumes "sh_inv s" "sh_pc s \<in> fg_points p c" "fg_recorded p s"
  shows "\<exists>t. sh_step s t \<and> live (sh_k s) - {p} \<subseteq> live (sh_k t)"
proof -
  have i: "kernel_ok (sh_k s)" "masks_ok s" "table_ok s" using assms(1,2) by (auto simp: sh_inv_def fg_points_def)
  show ?thesis
  proof (cases "sh_pc s = Wait p")
    case False
    then show ?thesis using fg_moves [OF assms(1,2)] by blast
  next
    case w: True
    consider "in_handler (sh_k s)" "zombies (sh_k s) = {}" | q where "in_handler (sh_k s)" "q \<in> zombies (sh_k s)"
      | "\<not> in_handler (sh_k s)" "fg_done s" | "\<not> in_handler (sh_k s)" "\<not> fg_done s" "p \<in> live (sh_k s)"
      | "\<not> in_handler (sh_k s)" "\<not> fg_done s" "p \<in> zombies (sh_k s)"
      using assms(3) w i(3) by (auto simp: fg_recorded_def table_ok_def children_def)
    then show ?thesis
    proof cases
      case 1
      then show ?thesis using handler_return [of s] by auto
    next
      case (2 q)
      then have "sh_step s (sh_reap q s)" by (rule reap)
      then show ?thesis by (intro exI [of _ "sh_reap q s"]) (simp add: sh_reap_fields)
    next
      case 3
      then show ?thesis using waited [OF w] by (intro exI [of _ "sh_waited s"]) (simp add: sh_waited_def)
    next
      case 4
      then show ?thesis using child_exit [of p s] by auto
    next
      case 5
      then have "deliverable (sh_prev s) (sh_k s)"
        using i(1,2) w by (auto simp: kernel_ok_def masks_ok_def deliverable_def in_handler_def)
      then show ?thesis using suspend [OF w 5(2)] by auto
    qed
  qed
qed

section \<open>Properties\<close>

lemma handler_finds_entry:
  assumes "sh_inv s" "\<forall>n. sh_pc s \<noteq> Exited n" "TableFull \<notin> set (sh_out s)"
    and "in_handler (sh_k s)" "p \<in> zombies (sh_k s)"
  shows "\<exists>b c. slot_tab (sh_jobs s) p = Some (b, c) \<and> (b = 0 \<or> b = 1)
     \<and> fst (delete_job p (sh_jobs s)) = b"
proof -
  have i: "kernel_ok (sh_k s)" "masks_ok s" "table_ok s" using assms(1,2) by (auto simp: sh_inv_def)
  have c: "p \<in> children (sh_k s)" using assms(5) by (simp add: children_def)
  then have p: "0 < p" using i(1) by (cases p) (simp_all add: kernel_ok_def)
  have "newborn (sh_pc s) = {}" using i(2) assms(4) by (auto simp: masks_ok_def)
  with i(3) assms(3) c have "p \<in> dom (slot_tab (sh_jobs s))" by (auto simp: table_ok_def)
  then obtain b d where e: "slot_tab (sh_jobs s) p = Some (b, d)" by auto
  then have "(b, d) \<in> ran (slot_tab (sh_jobs s))" by (rule ranI)
  then have "b = 0 \<or> b = 1" using i(3) by (fastforce simp: table_ok_def)
  with e p i(3) slots.del_tab [of "sh_jobs s" p] show ?thesis
    by (auto simp: table_ok_def bg_or_miss_def)
qed

text \<open>
  C1: No race between \<open>add_job\<close> and the handler. As long as the table was never full, every child
  the handler reaps, whenever it terminated, is in the job table: \<open>delete_job\<close> never returns -1,
  and the flag it returns is the one the job was started with.
\<close>

theorem no_missing_job:
  assumes "sh_reachable s" "\<forall>n. sh_pc s \<noteq> Exited n" "TableFull \<notin> set (sh_out s)"
    and "in_handler (sh_k s)" "p \<in> zombies (sh_k s)"
  shows "fst (delete_job p (sh_jobs s)) \<noteq> - 1
     \<and> (\<exists>b c. slot_tab (sh_jobs s) p = Some (b, c) \<and> fst (delete_job p (sh_jobs s)) = b)"
  using handler_finds_entry [OF sh_reachable_inv [OF assms(1)] assms(2-5)] by auto

theorem no_missing_job_witness:
  "\<exists>s. sh_reachable s \<and> 1 \<in> zombies (sh_k s) \<and> in_handler (sh_k s)
     \<and> fst (delete_job 1 (sh_jobs s)) \<noteq> - 1"
proof -
  obtain s where s: "n_background 1 s" using n_background_exists [of 1] by (auto simp: MAXJOBS_def)
  let ?t = "s\<lparr>sh_k := k_exit 1 (sh_k s)\<rparr>"
  have m: "SIGCHLD \<notin> mask (sh_k s)"
    using sh_reachable_inv [of s] s by (auto simp: n_background_def sh_inv_def masks_ok_def main_mask_def)
  let ?u = "?t\<lparr>sh_k := k_deliver (mask (sh_k ?t)) (sh_k ?t)\<rparr>"
  have "sh_step s ?t" using s by (intro child_exit) (simp add: n_background_def)
  moreover have "sh_step ?t ?u" using s m
    by (intro deliver) (auto simp: n_background_def deliverable_def k_exit_def)
  ultimately have r: "sh_reachable ?u"
    using s unfolding n_background_def sh_reachable_def by (metis rtranclp.rtrancl_into_rtrancl)
  have "fst (delete_job 1 (sh_jobs ?u)) \<noteq> - 1
      \<and> (\<exists>b c. slot_tab (sh_jobs ?u) 1 = Some (b, c) \<and> fst (delete_job 1 (sh_jobs ?u)) = b)"
    by (rule no_missing_job [OF r]) (use s in \<open>auto simp: n_background_def k_deliver_def k_exit_def in_handler_def\<close>)
  then show ?thesis
    using r by (intro exI [of _ ?u]) (auto simp: k_deliver_def k_exit_def in_handler_def)
qed

text \<open>
  C2: No lost wake-up. From the fork of a foreground command \<open>p\<close> on, if the table has a free slot, every run comes to the next
  prompt after finitely many steps, however the terminations, the merged signals and the handler fall between them, and it does not
  come to a prompt before \<open>p\<close> has terminated and been reaped. Until then the shell always has a step of its own to do, unless it
  waits for \<open>p\<close> to terminate; no other child needs to.
\<close>

theorem foreground_wait:
  assumes "sh_reachable s" "sh_pc s = Forked p False c" "\<exists>j \<in> set (sh_jobs s). job_pid j = 0"
  shows "always_until sh_step (\<lambda>t u. live (sh_k t) - {p} \<subseteq> live (sh_k u)) (\<lambda>t. sh_pc t \<noteq> Prompt)
     (\<lambda>t. sh_pc t = Prompt \<and> p \<notin> children (sh_k t)) s"
proof (rule always_until_measure [where I = "\<lambda>t. sh_inv t \<and> sh_pc t \<in> fg_points p c \<and> fg_recorded p t" and m = sh_work])
  show "sh_inv s \<and> sh_pc s \<in> fg_points p c \<and> fg_recorded p s"
    using sh_reachable_inv [OF assms(1)] assms(2,3) by (force simp: fg_points_def fg_recorded_def)
next
  fix t assume "sh_inv t \<and> sh_pc t \<in> fg_points p c \<and> fg_recorded p t"
  then show "sh_pc t \<noteq> Prompt \<and> (\<exists>u. sh_step t u \<and> live (sh_k t) - {p} \<subseteq> live (sh_k u))"
    using fg_ready [of t p c] by (auto simp: fg_points_def)
next
  fix t u assume t: "sh_inv t \<and> sh_pc t \<in> fg_points p c \<and> fg_recorded p t" and st: "sh_step t u"
  have reaped: "p \<notin> children (sh_k t)" if "sh_pc t = Wait p" "fg_done t"
    using that t by (auto simp: sh_inv_def fg_ok_def fg_jobs_def fg_recorded_def)
  show "sh_pc u = Prompt \<and> p \<notin> children (sh_k u) \<or> (sh_inv u \<and> sh_pc u \<in> fg_points p c \<and> fg_recorded p u) \<and> sh_work u < sh_work t"
    using fg_step [OF st, of p c] fg_recorded_step [OF st, of p c] t reaped by auto
qed

theorem foreground_wait_witness:
  "\<exists>s. sh_reachable s \<and> sh_pc s = Forked 3 False fg_line
     \<and> always_until sh_step (\<lambda>t u. live (sh_k t) - {3} \<subseteq> live (sh_k u)) (\<lambda>t. sh_pc t \<noteq> Prompt)
         (\<lambda>t. sh_pc t = Prompt \<and> 3 \<notin> children (sh_k t)) s"
proof -
  obtain s where s: "sh_reachable s" "sh_pc s = Forked 3 False fg_line" "\<exists>j \<in> set (sh_jobs s). job_pid j = 0"
  proof -
    obtain t where "n_background 2 t" using n_background_exists [of 2] by (auto simp: MAXJOBS_def)
    then show ?thesis using n_background_forked [of 2 t] that by (force simp: MAXJOBS_def)
  qed
  show ?thesis using foreground_wait [OF s] s(1,2) by blast
qed

text \<open>
  C27: A foreground command started while all \<open>MAXJOBS\<close> slots are taken hangs the shell. From the fork on every run comes to the
  wait loop and none ever leaves it: the job is not recorded, so the handler that reaps it cannot tell that it was the foreground
  job, and \<open>fg_done\<close> is never set.
\<close>

theorem full_table_hangs:
  assumes "sh_reachable s" "sh_pc s = Forked p False c" "\<forall>j \<in> set (sh_jobs s). job_pid j \<noteq> 0"
  shows "always_until sh_step (\<lambda>t u. live (sh_k t) \<subseteq> live (sh_k u)) (\<lambda>t. sh_pc t \<noteq> Prompt) (\<lambda>t. sh_pc t = Wait p) s
     \<and> (\<forall>s'. sh_steps s s' \<longrightarrow> sh_pc s' \<in> {Forked p False c, AllBlocked p False c, Added p False c, Lowered p False c, Wait p})
     \<and> (\<forall>s' s''. sh_steps s s' \<longrightarrow> sh_pc s' = Wait p \<longrightarrow> sh_steps s' s'' \<longrightarrow> sh_pc s'' = Wait p)"
proof -
  have s: "sh_inv s \<and> sh_pc s \<in> fg_points p c \<and> fg_lost p s"
    using sh_reachable_inv [OF assms(1)] assms(2,3) by (auto simp: fg_points_def fg_lost_def)
  have run: "sh_inv u \<and> sh_pc u \<in> fg_points p c \<and> fg_lost p u"
    if "sh_steps t u" "sh_inv t \<and> sh_pc t \<in> fg_points p c \<and> fg_lost p t" for t u
    using that by (induction rule: rtranclp_induct) (use fg_lost_step sh_inv_step in blast)+
  have "sh_pc u = Wait p" if "sh_steps t u" "sh_inv t \<and> sh_pc t \<in> fg_points p c \<and> fg_lost p t" "sh_pc t = Wait p" for t u
    using that
  proof (induction rule: rtranclp_induct)
    case (step u v)
    then have "sh_inv u" "sh_pc u = Wait p" "\<not> fg_done u" "slot_tab (sh_jobs u) p = None"
      using run [of t u] by (auto simp: fg_lost_def)
    then show ?case using hang_step [OF step.hyps(2)] by blast
  qed
  moreover have "always_until sh_step (\<lambda>t u. live (sh_k t) \<subseteq> live (sh_k u)) (\<lambda>t. sh_pc t \<noteq> Prompt) (\<lambda>t. sh_pc t = Wait p) s"
  proof (rule always_until_measure [where I = "\<lambda>t. sh_inv t \<and> sh_pc t \<in> fg_points p c \<and> fg_lost p t" and m = sh_work, OF s])
    fix t assume t: "sh_inv t \<and> sh_pc t \<in> fg_points p c \<and> fg_lost p t" "sh_pc t \<noteq> Wait p"
    then show "sh_pc t \<noteq> Prompt \<and> (\<exists>u. sh_step t u \<and> live (sh_k t) \<subseteq> live (sh_k u))"
      using fg_moves [of t p c] by (auto simp: fg_points_def)
  next
    fix t u assume t: "sh_inv t \<and> sh_pc t \<in> fg_points p c \<and> fg_lost p t" "sh_pc t \<noteq> Wait p" "sh_step t u"
    then show "sh_pc u = Wait p \<or> (sh_inv u \<and> sh_pc u \<in> fg_points p c \<and> fg_lost p u) \<and> sh_work u < sh_work t"
      using fg_step [OF t(3), of p c] fg_lost_step [OF t(3), of p c] by blast
  qed
  ultimately show ?thesis using run [OF _ s] unfolding fg_points_def by blast
qed

theorem full_table_hangs_witness:
  "\<exists>s. sh_reachable s \<and> sh_pc s = Forked 17 False fg_line
     \<and> (\<forall>s'. sh_steps s s' \<longrightarrow> sh_pc s' \<in> {Forked 17 False fg_line, AllBlocked 17 False fg_line, Added 17 False fg_line, Lowered 17 False fg_line, Wait 17})"
proof -
  obtain s where s: "sh_reachable s" "sh_pc s = Forked 17 False fg_line" "\<forall>j \<in> set (sh_jobs s). job_pid j \<noteq> 0"
  proof -
    obtain t where "n_background 16 t" using n_background_exists [of 16] by (auto simp: MAXJOBS_def)
    then show ?thesis using n_background_forked [of 16 t] that by (force simp: MAXJOBS_def)
  qed
  show ?thesis using full_table_hangs [OF s] s(1,2) by blast
qed

text \<open>
  C3: No zombie is left behind at the prompt, foreground or background: whenever a terminated child
  has not been reaped, the handler is running or its delivery is enabled, and from there the handler
  reaps all of them.
\<close>

theorem prompt_reaps_zombies:
  assumes "sh_reachable s" "sh_pc s = Prompt"
  shows "(zombies (sh_k s) \<noteq> {} \<longrightarrow> in_handler (sh_k s) \<or> deliverable (mask (sh_k s)) (sh_k s))
     \<and> (\<exists>s'. sh_steps s s' \<and> zombies (sh_k s') = {} \<and> live (sh_k s') = live (sh_k s) \<and> sh_pc s' = Prompt)"
proof -
  have i: "sh_inv s" using assms(1) by (rule sh_reachable_inv)
  then have d: "zombies (sh_k s) \<noteq> {} \<longrightarrow> in_handler (sh_k s) \<or> deliverable (mask (sh_k s)) (sh_k s)"
    using assms(2) by (auto simp: sh_inv_def kernel_ok_def masks_ok_def deliverable_def main_mask_def in_handler_def)
  show ?thesis
  proof (cases "in_handler (sh_k s) \<or> zombies (sh_k s) = {}")
    case True
    then show ?thesis using d handler_drains [OF i] assms(2) by auto
  next
    case False
    let ?u = "s\<lparr>sh_k := k_deliver (mask (sh_k s)) (sh_k s)\<rparr>"
    have st: "sh_step s ?u" using d False assms(2) by (intro deliver) auto
    have "live (k_deliver (mask (sh_k s)) (sh_k s)) = live (sh_k s)" by (simp add: k_deliver_def)
    then show ?thesis
      using handler_drains [OF sh_inv_step [OF st i]] st d assms(2)
      by (auto intro: converse_rtranclp_into_rtranclp)
  qed
qed

theorem prompt_reaps_zombies_witness:
  "\<exists>s s'. sh_reachable s \<and> zombies (sh_k s) = {1} \<and> sh_steps s s' \<and> zombies (sh_k s') = {}"
proof -
  obtain t where t: "n_background 1 t" using n_background_exists [of 1] by (auto simp: MAXJOBS_def)
  let ?s = "t\<lparr>sh_k := k_exit 1 (sh_k t)\<rparr>"
  have "sh_step t ?s" using t by (intro child_exit) (simp add: n_background_def)
  then have r: "sh_reachable ?s"
    using t unfolding n_background_def sh_reachable_def by (metis rtranclp.rtrancl_into_rtrancl)
  have z: "zombies (sh_k ?s) = {1}" "sh_pc ?s = Prompt" using t by (auto simp: n_background_def k_exit_def)
  show ?thesis using prompt_reaps_zombies [OF r z(2)] r z(1) by blast
qed

end
