(* ===== verification/Signal_Sync.thy ===== *)
theory Signal_Sync
  imports Processes
begin

text \<open>
  The two demonstrations of Chapter 8 that synchronise with a \<open>SIGCHLD\<close> handler:
  \<open>8.5-8.6/sync/procmask.c\<close>, which blocks the signal around \<open>fork\<close> and \<open>addjob\<close>, and
  \<open>8.5-8.6/waitsig/waitforsignal.c\<close>, which waits for each child with \<open>sigsuspend\<close>. Both are
  step relations over the process state of \<open>Processes\<close>; a step is one system call or one access
  to shared data.
\<close>

section \<open>Model of \<open>procmask.c\<close>\<close>

datatype pm_pc =
    PmLoop nat
  | PmBlocked nat
  | PmForked nat pid
  | PmAllBlocked nat pid
  | PmAdded nat pid
  | PmExit nat

datatype pm_msg = AddLine pid nat | DelLine pid | BugLine pid

record procmask =
  pm_k :: kproc
  pm_jobs :: joblist
  pm_prev :: "signal set"
  pm_pc :: pm_pc
  pm_out :: "pm_msg list"

definition pm_init :: procmask where
  "pm_init = \<lparr>pm_k = \<lparr>live = {}, zombies = {}, mask = {}, pending = {}, saved = None\<rparr>,
     pm_jobs = initjobs, pm_prev = {}, pm_pc = PmLoop 0, pm_out = []\<rparr>"

definition pm_add :: "nat \<Rightarrow> pid \<Rightarrow> procmask \<Rightarrow> procmask" where
  "pm_add i p s =
     (case addjob p (pm_jobs s) of (ok, js) \<Rightarrow>
        s\<lparr>pm_jobs := js, pm_pc := PmAdded i p,
          pm_out := pm_out s @ (if ok then [AddLine p (njobs js)] else [])\<rparr>)"

text \<open>One turn of the handler's loop: the blocking \<open>waitpid\<close> returned the child \<open>p\<close>.\<close>

definition pm_reap :: "pid \<Rightarrow> procmask \<Rightarrow> procmask" where
  "pm_reap p s =
     (let k1 = k_reap p (pm_k s);
          k2 = sigprocmask SIG_BLOCK UNIV k1;
          k3 = sigprocmask SIG_SETMASK (mask k1) k2
      in case deletejob p (pm_jobs s) of (found, js) \<Rightarrow>
           s\<lparr>pm_k := k3, pm_jobs := js, pm_out := pm_out s @ [if found then DelLine p else BugLine p]\<rparr>)"

text \<open>
  The handler returns when \<open>waitpid\<close> fails with \<open>ECHILD\<close>: with no child left. While children
  run and none is a zombie it stays blocked in \<open>waitpid\<close>.
\<close>

inductive pm_step :: "procmask \<Rightarrow> procmask \<Rightarrow> bool" where
  pm_block: "pm_pc s = PmLoop i \<Longrightarrow> i < 5 \<Longrightarrow> \<not> in_handler (pm_k s) \<Longrightarrow>
    pm_step s (s\<lparr>pm_prev := mask (pm_k s), pm_k := sigprocmask SIG_BLOCK {SIGCHLD} (pm_k s), pm_pc := PmBlocked i\<rparr>)"
| pm_fork: "pm_pc s = PmBlocked i \<Longrightarrow> \<not> in_handler (pm_k s) \<Longrightarrow> fork_ok p (pm_k s) \<Longrightarrow>
    pm_step s (s\<lparr>pm_k := k_fork p (pm_k s), pm_pc := PmForked i p\<rparr>)"
| pm_fork_error: "pm_pc s = PmBlocked i \<Longrightarrow> \<not> in_handler (pm_k s) \<Longrightarrow> pm_step s (s\<lparr>pm_pc := PmExit 1\<rparr>)"
| pm_block_all: "pm_pc s = PmForked i p \<Longrightarrow> \<not> in_handler (pm_k s) \<Longrightarrow>
    pm_step s (s\<lparr>pm_k := sigprocmask SIG_BLOCK UNIV (pm_k s), pm_pc := PmAllBlocked i p\<rparr>)"
| pm_addjob: "pm_pc s = PmAllBlocked i p \<Longrightarrow> \<not> in_handler (pm_k s) \<Longrightarrow> pm_step s (pm_add i p s)"
| pm_unblock: "pm_pc s = PmAdded i p \<Longrightarrow> \<not> in_handler (pm_k s) \<Longrightarrow>
    pm_step s (s\<lparr>pm_k := sigprocmask SIG_SETMASK (pm_prev s) (pm_k s), pm_pc := PmLoop (i + 1)\<rparr>)"
| pm_sleep: "pm_pc s = PmLoop 5 \<Longrightarrow> \<not> in_handler (pm_k s) \<Longrightarrow> 0 < jobs_remaining (pm_jobs s) \<Longrightarrow> pm_step s s"
| pm_exit: "pm_pc s = PmLoop 5 \<Longrightarrow> \<not> in_handler (pm_k s) \<Longrightarrow> jobs_remaining (pm_jobs s) = 0 \<Longrightarrow>
    pm_step s (s\<lparr>pm_pc := PmExit 0\<rparr>)"
| pm_deliver: "\<forall>n. pm_pc s \<noteq> PmExit n \<Longrightarrow> deliverable (mask (pm_k s)) (pm_k s) \<Longrightarrow>
    pm_step s (s\<lparr>pm_k := k_deliver (mask (pm_k s)) (pm_k s)\<rparr>)"
| pm_reaped: "\<forall>n. pm_pc s \<noteq> PmExit n \<Longrightarrow> in_handler (pm_k s) \<Longrightarrow> p \<in> zombies (pm_k s) \<Longrightarrow> pm_step s (pm_reap p s)"
| pm_return: "in_handler (pm_k s) \<Longrightarrow> children (pm_k s) = {} \<Longrightarrow>
    pm_step s (s\<lparr>pm_k := k_return (pm_k s)\<rparr>)"
| pm_child_exit: "p \<in> live (pm_k s) \<Longrightarrow> pm_step s (s\<lparr>pm_k := k_exit p (pm_k s)\<rparr>)"

section \<open>Model of \<open>waitforsignal.c\<close>\<close>

datatype ws_pc =
    WsLoop nat
  | WsBlocked nat
  | WsForked nat pid
  | WsWait nat pid
  | WsPrint nat pid
  | WsExit nat

text \<open>
  \<open>ws_pid\<close> is the variable the handler writes; the process id in the program counter is the one
  \<open>fork\<close> returned, which the source does not keep. Outside the loop \<open>ws_pid\<close> may hold -1 if
  \<open>waitpid\<close> fails, so it is an integer.
\<close>

record waitsig =
  ws_k :: kproc
  ws_pid :: int
  ws_prev :: "signal set"
  ws_pc :: ws_pc
  ws_out :: "(nat \<times> int) list"

definition ws_init :: waitsig where
  "ws_init = \<lparr>ws_k = \<lparr>live = {}, zombies = {}, mask = {}, pending = {}, saved = None\<rparr>,
     ws_pid = 0, ws_prev = {}, ws_pc = WsLoop 0, ws_out = []\<rparr>"

text \<open>
  The handler is one blocking \<open>waitpid\<close>: it returns a zombie, or -1 when there is no child.
\<close>

inductive ws_step :: "waitsig \<Rightarrow> waitsig \<Rightarrow> bool" where
  ws_block: "ws_pc s = WsLoop i \<Longrightarrow> i < 5 \<Longrightarrow> \<not> in_handler (ws_k s) \<Longrightarrow>
    ws_step s (s\<lparr>ws_prev := mask (ws_k s), ws_k := sigprocmask SIG_BLOCK {SIGCHLD} (ws_k s), ws_pc := WsBlocked i\<rparr>)"
| ws_fork: "ws_pc s = WsBlocked i \<Longrightarrow> \<not> in_handler (ws_k s) \<Longrightarrow> fork_ok p (ws_k s) \<Longrightarrow>
    ws_step s (s\<lparr>ws_k := k_fork p (ws_k s), ws_pc := WsForked i p\<rparr>)"
| ws_fork_error: "ws_pc s = WsBlocked i \<Longrightarrow> \<not> in_handler (ws_k s) \<Longrightarrow> ws_step s (s\<lparr>ws_pc := WsExit 1\<rparr>)"
| ws_clear: "ws_pc s = WsForked i p \<Longrightarrow> \<not> in_handler (ws_k s) \<Longrightarrow>
    ws_step s (s\<lparr>ws_pid := 0, ws_pc := WsWait i p\<rparr>)"
| ws_suspend: "ws_pc s = WsWait i p \<Longrightarrow> ws_pid s = 0 \<Longrightarrow> deliverable (ws_prev s) (ws_k s) \<Longrightarrow>
    ws_step s (s\<lparr>ws_k := k_deliver (ws_prev s) (ws_k s)\<rparr>)"
| ws_sigint: "ws_pc s = WsWait i p \<Longrightarrow> ws_pid s = 0 \<Longrightarrow> \<not> in_handler (ws_k s) \<Longrightarrow> ws_step s s"
| ws_restore: "ws_pc s = WsWait i p \<Longrightarrow> ws_pid s \<noteq> 0 \<Longrightarrow> \<not> in_handler (ws_k s) \<Longrightarrow>
    ws_step s (s\<lparr>ws_k := sigprocmask SIG_SETMASK (ws_prev s) (ws_k s), ws_pc := WsPrint i p\<rparr>)"
| ws_print: "ws_pc s = WsPrint i p \<Longrightarrow> \<not> in_handler (ws_k s) \<Longrightarrow>
    ws_step s (s\<lparr>ws_out := ws_out s @ [(i + 1, ws_pid s)], ws_pc := WsLoop (i + 1)\<rparr>)"
| ws_exit: "ws_pc s = WsLoop 5 \<Longrightarrow> \<not> in_handler (ws_k s) \<Longrightarrow> ws_step s (s\<lparr>ws_pc := WsExit 0\<rparr>)"
| ws_deliver: "\<forall>n. ws_pc s \<noteq> WsExit n \<Longrightarrow> deliverable (mask (ws_k s)) (ws_k s) \<Longrightarrow>
    ws_step s (s\<lparr>ws_k := k_deliver (mask (ws_k s)) (ws_k s)\<rparr>)"
| ws_reap: "in_handler (ws_k s) \<Longrightarrow> p \<in> zombies (ws_k s) \<Longrightarrow>
    ws_step s (s\<lparr>ws_pid := int p, ws_k := k_return (k_reap p (ws_k s))\<rparr>)"
| ws_nochild: "in_handler (ws_k s) \<Longrightarrow> children (ws_k s) = {} \<Longrightarrow>
    ws_step s (s\<lparr>ws_pid := - 1, ws_k := k_return (ws_k s)\<rparr>)"
| ws_child_exit: "p \<in> live (ws_k s) \<Longrightarrow> ws_step s (s\<lparr>ws_k := k_exit p (ws_k s)\<rparr>)"

section \<open>Invariant of \<open>procmask.c\<close>\<close>

fun pm_newborn :: "pm_pc \<Rightarrow> pid set" where
  "pm_newborn (PmForked i p) = {p}"
| "pm_newborn (PmAllBlocked i p) = {p}"
| "pm_newborn _ = {}"

fun pm_count :: "pm_pc \<Rightarrow> nat" where
  "pm_count (PmLoop i) = i"
| "pm_count (PmBlocked i) = i"
| "pm_count (PmForked i p) = i"
| "pm_count (PmAllBlocked i p) = i"
| "pm_count (PmAdded i p) = Suc i"
| "pm_count (PmExit n) = 5"

fun pm_bound :: "pm_pc \<Rightarrow> bool" where
  "pm_bound (PmLoop i) = (i \<le> 5)"
| "pm_bound (PmBlocked i) = (i < 5)"
| "pm_bound (PmForked i p) = (i < 5)"
| "pm_bound (PmAllBlocked i p) = (i < 5)"
| "pm_bound (PmAdded i p) = (i < 5)"
| "pm_bound (PmExit n) = True"

definition pm_inv :: "procmask \<Rightarrow> bool" where
  "pm_inv s \<longleftrightarrow> kernel_ok (pm_k s) \<and> joblist_ok (pm_jobs s)
     \<and> children (pm_k s) = dom (list_tab (pm_jobs s)) \<union> pm_newborn (pm_pc s)
     \<and> dom (list_tab (pm_jobs s)) \<inter> pm_newborn (pm_pc s) = {}
     \<and> njobs (pm_jobs s) \<le> pm_count (pm_pc s) \<and> pm_bound (pm_pc s)
     \<and> (in_handler (pm_k s) \<longrightarrow> (\<exists>i. pm_pc s = PmLoop i))
     \<and> ((\<forall>n. pm_pc s \<noteq> PmExit n) \<longrightarrow> (SIGCHLD \<in> main_mask (pm_k s) \<longleftrightarrow> (\<forall>i. pm_pc s \<noteq> PmLoop i)))
     \<and> ((\<forall>n. pm_pc s \<noteq> PmExit n) \<longrightarrow> (\<forall>i. pm_pc s \<noteq> PmLoop i) \<longrightarrow> SIGCHLD \<notin> pm_prev s)
     \<and> (pm_pc s = PmExit 0 \<longrightarrow> children (pm_k s) = {})
     \<and> (\<forall>p. BugLine p \<notin> set (pm_out s))"

lemma pm_inv_init: "pm_inv pm_init"
  using compact.empty_ok compact.empty_none
  by (simp add: pm_inv_def pm_init_def kernel_ok_def kproc_defs main_mask_def dom_def initjobs_def)

lemma pm_inv_reap:
  assumes "pm_inv s" "\<forall>n. pm_pc s \<noteq> PmExit n" "in_handler (pm_k s)" "p \<in> zombies (pm_k s)"
  shows "pm_inv (pm_reap p s)"
proof -
  have k: "kernel_ok (pm_k s)" and j: "joblist_ok (pm_jobs s)" using assms(1) by (simp_all add: pm_inv_def)
  obtain i where i: "pm_pc s = PmLoop i" using assms(1,3) by (auto simp: pm_inv_def)
  have c: "p \<in> children (pm_k s)" using assms(4) by (simp add: children_def)
  then have p: "0 < p" using k by (cases p) (simp_all add: kernel_ok_def)
  obtain js where d: "deletejob p (pm_jobs s) = (True, js)"
    and js: "joblist_ok js" "dom (list_tab js) = dom (list_tab (pm_jobs s)) - {p}"
    using compact.del_tab [OF j p] c assms(1) i by (cases "deletejob p (pm_jobs s)") (auto simp: pm_inv_def)
  have "njobs js \<le> njobs (pm_jobs s)"
    using list_tab_card [OF js(1)] list_tab_card [OF j] js(2) by (metis card_Diff1_le)
  moreover have "pm_k (pm_reap p s) = k_reap p (pm_k s)"
    by (simp add: pm_reap_def Let_def d)
  ultimately show ?thesis
    using assms i d js children_reap [OF k assms(4)] kernel_ok_reap [OF k]
    by (auto simp: pm_inv_def pm_reap_def Let_def)
qed

lemma pm_inv_add:
  assumes "pm_inv s" "pm_pc s = PmAllBlocked i p"
  shows "pm_inv (pm_add i p s)"
proof -
  have j: "joblist_ok (pm_jobs s)" and n: "list_tab (pm_jobs s) p = None" and c: "p \<in> children (pm_k s)"
    using assms by (auto simp: pm_inv_def)
  have "kernel_ok (pm_k s)" using assms(1) by (simp add: pm_inv_def)
  then have "0 < p" using c by (cases p) (simp_all add: kernel_ok_def)
  moreover have "njobs (pm_jobs s) < MAXJOBS" using assms by (simp add: pm_inv_def MAXJOBS_def)
  ultimately have r: "fst (addjob p (pm_jobs s))" "joblist_ok (snd (addjob p (pm_jobs s)))"
    "list_tab (snd (addjob p (pm_jobs s))) = (list_tab (pm_jobs s))(p \<mapsto> ())"
    using compact.add_room [OF j _ n] list_tab_card [OF j] by auto
  moreover have "njobs (snd (addjob p (pm_jobs s))) \<le> Suc (njobs (pm_jobs s))" by (simp add: addjob_def)
  ultimately show ?thesis
    using assms by (cases "addjob p (pm_jobs s)") (auto simp: pm_inv_def pm_add_def)
qed

lemma pm_inv_step: "pm_step s s' \<Longrightarrow> pm_inv s \<Longrightarrow> pm_inv s'"
proof (induction rule: pm_step.induct)
  case (pm_exit s)
  then have "dom (list_tab (pm_jobs s)) = {}"
    using list_tab_card [of "pm_jobs s"] by (auto simp: pm_inv_def jobs_remaining_def list_tab_dom)
  with pm_exit show ?case by (auto simp: pm_inv_def)
next
  case (pm_addjob s i p)
  then show ?case by (intro pm_inv_add)
next
  case (pm_reaped s p)
  then show ?case by (intro pm_inv_reap)
next
  case (pm_block s i)
  then show ?case by (auto simp: pm_inv_def intro!: kernel_ok_mask)
next
  case (pm_fork s i p)
  then show ?case by (auto simp: pm_inv_def fork_ok_def intro!: kernel_ok_fork)
next
  case (pm_block_all s i p)
  then show ?case by (auto simp: pm_inv_def intro!: kernel_ok_mask)
next
  case (pm_unblock s i p)
  then show ?case by (auto simp: pm_inv_def intro!: kernel_ok_mask)
next
  case (pm_deliver s)
  then have "\<not> in_handler (pm_k s)" by (simp add: deliverable_def in_handler_def)
  with pm_deliver show ?case by (auto simp: pm_inv_def deliverable_def intro!: kernel_ok_deliver)
next
  case (pm_return s)
  then have "zombies (pm_k s) = {}" by (simp add: children_def)
  with pm_return show ?case by (auto simp: pm_inv_def intro!: kernel_ok_return)
next
  case (pm_child_exit p s)
  then have "children (pm_k s) \<noteq> {}" by (auto simp: children_def)
  with pm_child_exit show ?case by (auto simp: pm_inv_def intro!: kernel_ok_exit)
qed (auto simp: pm_inv_def)

lemma pm_inv_steps: "pm_step\<^sup>*\<^sup>* pm_init s \<Longrightarrow> pm_inv s"
  by (induction rule: rtranclp_induct) (auto intro: pm_inv_step pm_inv_init)

section \<open>Invariant of \<open>waitforsignal.c\<close>\<close>

text \<open>
  There is at most one child at a time, the one the current iteration forked; \<open>SIGCHLD\<close> is pending
  only while it is a zombie, and the handler runs only while there is one.
\<close>

fun ws_child :: "ws_pc \<Rightarrow> int \<Rightarrow> pid set" where
  "ws_child (WsForked i p) v = {p}"
| "ws_child (WsWait i p) v = (if v = 0 then {p} else {})"
| "ws_child _ v = {}"

fun ws_blocked :: "ws_pc \<Rightarrow> bool" where
  "ws_blocked (WsLoop i) = False"
| "ws_blocked (WsPrint i p) = False"
| "ws_blocked _ = True"

definition ws_inv :: "waitsig \<Rightarrow> bool" where
  "ws_inv s \<longleftrightarrow> (\<exists>n. ws_pc s = WsExit n) \<or>
     kernel_ok (ws_k s)
     \<and> children (ws_k s) = ws_child (ws_pc s) (ws_pid s)
     \<and> (SIGCHLD \<in> pending (ws_k s) \<longrightarrow> zombies (ws_k s) \<noteq> {})
     \<and> (in_handler (ws_k s) \<longrightarrow> zombies (ws_k s) \<noteq> {} \<and> (\<exists>i p. ws_pc s = WsWait i p) \<and> SIGCHLD \<notin> pending (ws_k s))
     \<and> (SIGCHLD \<in> main_mask (ws_k s) \<longleftrightarrow> ws_blocked (ws_pc s))
     \<and> (ws_blocked (ws_pc s) \<longrightarrow> SIGCHLD \<notin> ws_prev s)
     \<and> (\<forall>i p. ws_pc s = WsWait i p \<longrightarrow> ws_pid s = 0 \<or> ws_pid s = int p)
     \<and> (\<forall>i p. ws_pc s = WsPrint i p \<longrightarrow> ws_pid s = int p)"

lemma disjoint_singleton:
  assumes "A \<union> B = {q}" "A \<inter> B = {}" "p \<in> B"
  shows "p = q \<and> B = {q} \<and> A = {}"
proof -
  have "A \<subseteq> {q}" "B \<subseteq> {q}" using assms(1) by (metis Un_upper1, metis Un_upper2)
  then show ?thesis using assms(2,3) by blast
qed

lemma ws_inv_init: "ws_inv ws_init"
  by (simp add: ws_inv_def ws_init_def kernel_ok_def kproc_defs main_mask_def)

lemma ws_inv_step: "ws_step s s' \<Longrightarrow> ws_inv s \<Longrightarrow> ws_inv s'"
proof (induction rule: ws_step.induct)
  case (ws_reap s p)
  show ?case
  proof (cases "\<exists>n. ws_pc s = WsExit n")
    case False
    with ws_reap obtain i q where s: "ws_pc s = WsWait i q" "kernel_ok (ws_k s)" by (auto simp: ws_inv_def)
    from ws_reap s have c: "live (ws_k s) \<union> zombies (ws_k s) = (if ws_pid s = 0 then {q} else {})"
      "live (ws_k s) \<inter> zombies (ws_k s) = {}"
      by (auto simp: ws_inv_def children_def kernel_ok_def)
    have "ws_pid s = 0" using c(1) ws_reap(2) by (auto split: if_splits)
    moreover from this have "p = q" "zombies (ws_k s) = {p}" "live (ws_k s) = {}"
      using c ws_reap(2) disjoint_singleton [of "live (ws_k s)" "zombies (ws_k s)" q p] by auto
    moreover have "0 < p" using s ws_reap by (cases p) (auto simp: kernel_ok_def children_def)
    ultimately show ?thesis
      using s ws_reap kernel_ok_return [of "k_reap p (ws_k s)"] kernel_ok_reap [of "ws_k s" p]
      by (auto simp: ws_inv_def k_reap_def k_return_def children_def in_handler_def main_mask_def)
  qed (auto simp: ws_inv_def)
next
  case (ws_nochild s)
  then show ?case by (auto simp: ws_inv_def children_def)
next
  case (ws_block s i)
  then show ?case
    by (auto simp: ws_inv_def intro!: kernel_ok_mask)
next
  case (ws_fork s i p)
  then show ?case by (auto simp: ws_inv_def fork_ok_def intro!: kernel_ok_fork)
next
  case (ws_clear s i p)
  then show ?case by (auto simp: ws_inv_def)
next
  case (ws_suspend s i p)
  then have "\<not> in_handler (ws_k s)" by (simp add: deliverable_def in_handler_def)
  with ws_suspend show ?case
    by (auto simp: ws_inv_def deliverable_def intro!: kernel_ok_deliver)
next
  case (ws_restore s i p)
  then show ?case by (auto simp: ws_inv_def intro!: kernel_ok_mask)
next
  case (ws_deliver s)
  then have "\<not> in_handler (ws_k s)" by (simp add: deliverable_def in_handler_def)
  with ws_deliver show ?case
    by (cases "ws_pc s") (auto simp: ws_inv_def deliverable_def children_def)
next
  case (ws_child_exit p s)
  show ?case
  proof (cases "\<exists>n. ws_pc s = WsExit n")
    case False
    with ws_child_exit have "\<not> in_handler (ws_k s)"
      using disjoint_singleton [of "live (ws_k s)" "zombies (ws_k s)"]
      by (auto simp: ws_inv_def kernel_ok_def children_def split: if_splits)
    with False ws_child_exit show ?thesis by (auto simp: ws_inv_def intro!: kernel_ok_exit)
  qed (auto simp: ws_inv_def)
qed (auto simp: ws_inv_def)

lemma ws_inv_steps: "ws_step\<^sup>*\<^sup>* ws_init s \<Longrightarrow> ws_inv s"
  by (induction rule: rtranclp_induct) (auto intro: ws_inv_step ws_inv_init)

section \<open>Properties\<close>

text \<open>
  C38: In \<open>procmask.c\<close> the handler never deletes a job before it was added: the message that reports
  the race is never printed, whenever the children terminate. The program exits normally only after
  all its children have been reaped, and a terminated child is never stranded: between the
  iterations, and while the program waits for the table to empty, its signal can be delivered.
\<close>

theorem procmask_no_race:
  assumes "pm_step\<^sup>*\<^sup>* pm_init s"
  shows "BugLine p \<notin> set (pm_out s)
     \<and> (pm_pc s = PmExit 0 \<longrightarrow> children (pm_k s) = {} \<and> jobs_remaining (pm_jobs s) = 0)
     \<and> (pm_pc s = PmLoop i \<longrightarrow> zombies (pm_k s) \<noteq> {} \<longrightarrow>
          in_handler (pm_k s) \<or> deliverable (mask (pm_k s)) (pm_k s))"
proof -
  have i: "pm_inv s" using assms by (rule pm_inv_steps)
  then have k: "kernel_ok (pm_k s)" "joblist_ok (pm_jobs s)" by (simp_all add: pm_inv_def)
  have "BugLine p \<notin> set (pm_out s)" using i by (simp add: pm_inv_def)
  moreover have "children (pm_k s) = {} \<and> jobs_remaining (pm_jobs s) = 0" if "pm_pc s = PmExit 0"
  proof -
    have c: "children (pm_k s) = {}" "children (pm_k s) = dom (list_tab (pm_jobs s)) \<union> pm_newborn (pm_pc s)"
      using i that unfolding pm_inv_def by blast+
    then show ?thesis using that list_tab_card [OF k(2)] by (simp add: jobs_remaining_def)
  qed
  moreover have "in_handler (pm_k s) \<or> deliverable (mask (pm_k s)) (pm_k s)"
    if "pm_pc s = PmLoop i" "zombies (pm_k s) \<noteq> {}"
  proof -
    have "SIGCHLD \<notin> main_mask (pm_k s)" using i that(1) by (simp add: pm_inv_def)
    then show ?thesis using k(1) that(2)
      by (auto simp: kernel_ok_def deliverable_def main_mask_def in_handler_def)
  qed
  ultimately show ?thesis by blast
qed

definition pm_demo :: procmask where
  "pm_demo = \<lparr>pm_k = \<lparr>live = {}, zombies = {42}, mask = {}, pending = {SIGCHLD}, saved = None\<rparr>,
     pm_jobs = snd (addjob 42 initjobs), pm_prev = {}, pm_pc = PmLoop 1, pm_out = [AddLine 42 1]\<rparr>"

lemma pm_demo_run: "pm_step\<^sup>*\<^sup>* pm_init pm_demo"
proof -
  let ?k = "\<lambda>m. \<lparr>live = {}, zombies = {42}, mask = m, pending = {SIGCHLD}, saved = None\<rparr>"
  let ?s = "\<lambda>m c. pm_init\<lparr>pm_k := ?k m, pm_pc := c\<rparr>"
  have "pm_step\<^sup>*\<^sup>* pm_init (pm_init\<lparr>pm_k := (pm_k pm_init)\<lparr>mask := {SIGCHLD}\<rparr>, pm_pc := PmBlocked 0\<rparr>)"
    (is "pm_step\<^sup>*\<^sup>* _ ?a")
    using pm_block [of pm_init 0] by (auto simp: pm_init_def in_handler_def sigprocmask_def intro!: r_into_rtranclp)
  also have "pm_step ?a (?a\<lparr>pm_k := (pm_k ?a)\<lparr>live := {42}\<rparr>, pm_pc := PmForked 0 42\<rparr>)" (is "pm_step _ ?b")
    using pm_fork [of ?a 0 42] by (simp add: pm_init_def in_handler_def fork_ok_def children_def k_fork_def)
  also (rtranclp.rtrancl_into_rtrancl) have "pm_step ?b (?s {SIGCHLD} (PmForked 0 42))" (is "pm_step _ ?c")
    using pm_child_exit [of 42 ?b] by (simp add: pm_init_def k_exit_def)
  also (rtranclp.rtrancl_into_rtrancl) have "pm_step ?c (?s UNIV (PmAllBlocked 0 42))" (is "pm_step _ ?d")
    using pm_block_all [of ?c 0 42] by (simp add: pm_init_def in_handler_def sigprocmask_def)
  also (rtranclp.rtrancl_into_rtrancl) have "pm_step ?d (pm_add 0 42 ?d)" (is "pm_step _ ?e")
    by (intro pm_addjob) (simp_all add: in_handler_def)
  also (rtranclp.rtrancl_into_rtrancl) have "pm_step ?e pm_demo"
    using pm_unblock [of ?e 0 42]
    by (simp add: pm_add_def pm_init_def pm_demo_def addjob_def initjobs_def MAXJOBS_def in_handler_def sigprocmask_def)
  finally (rtranclp.rtrancl_into_rtrancl) show ?thesis .
qed

theorem procmask_no_race_witness:
  "pm_step\<^sup>*\<^sup>* pm_init pm_demo \<and> zombies (pm_k pm_demo) = {42} \<and> deliverable (mask (pm_k pm_demo)) (pm_k pm_demo)"
  using procmask_no_race [OF pm_demo_run, of 42 1] pm_demo_run
  by (auto simp: pm_demo_def in_handler_def)

text \<open>
  In \<open>waitforsignal.c\<close> the wait of an iteration ends only with the child of that iteration
  reaped, and its process id is what the program prints; when the child has terminated the wait
  does end, because its signal is pending and \<open>sigsuspend\<close> admits it. The handler's \<open>waitpid\<close> never
  fails, so the loop is never left with -1.
\<close>

lemma waitsig_correct:
  assumes "ws_step\<^sup>*\<^sup>* ws_init s"
  shows "(ws_pc s = WsPrint i p \<longrightarrow> ws_pid s = int p \<and> p \<notin> children (ws_k s))
     \<and> (ws_pc s = WsWait i p \<longrightarrow> ws_pid s = 0 \<longrightarrow> p \<notin> live (ws_k s) \<longrightarrow>
          in_handler (ws_k s) \<and> p \<in> zombies (ws_k s) \<or> deliverable (ws_prev s) (ws_k s))
     \<and> (ws_pc s = WsWait i p \<longrightarrow> in_handler (ws_k s) \<longrightarrow> children (ws_k s) \<noteq> {})"
proof -
  have "ws_inv s" using assms by (rule ws_inv_steps)
  then show ?thesis
    by (auto simp: ws_inv_def kernel_ok_def deliverable_def in_handler_def children_def)
qed

definition ws_demo :: waitsig where
  "ws_demo = \<lparr>ws_k = \<lparr>live = {}, zombies = {7}, mask = {SIGCHLD}, pending = {SIGCHLD}, saved = None\<rparr>,
     ws_pid = 0, ws_prev = {}, ws_pc = WsWait 0 7, ws_out = []\<rparr>"

lemma ws_demo_run: "ws_step\<^sup>*\<^sup>* ws_init ws_demo"
proof -
  have "ws_step\<^sup>*\<^sup>* ws_init (ws_init\<lparr>ws_k := (ws_k ws_init)\<lparr>mask := {SIGCHLD}\<rparr>, ws_pc := WsBlocked 0\<rparr>)"
    (is "ws_step\<^sup>*\<^sup>* _ ?a")
    using ws_block [of ws_init 0] by (auto simp: ws_init_def in_handler_def sigprocmask_def intro!: r_into_rtranclp)
  also have "ws_step ?a (?a\<lparr>ws_k := (ws_k ?a)\<lparr>live := {7}\<rparr>, ws_pc := WsForked 0 7\<rparr>)" (is "ws_step _ ?b")
    using ws_fork [of ?a 0 7] by (simp add: ws_init_def in_handler_def fork_ok_def children_def k_fork_def)
  also (rtranclp.rtrancl_into_rtrancl) have "ws_step ?b (ws_demo\<lparr>ws_pc := WsForked 0 7\<rparr>)" (is "ws_step _ ?c")
    using ws_child_exit [of 7 ?b] by (simp add: ws_init_def ws_demo_def k_exit_def)
  also (rtranclp.rtrancl_into_rtrancl) have "ws_step ?c ws_demo"
    using ws_clear [of ?c 0 7] by (simp add: ws_demo_def in_handler_def)
  finally (rtranclp.rtrancl_into_rtrancl) show ?thesis .
qed

lemma waitsig_correct_witness:
  "ws_step\<^sup>*\<^sup>* ws_init ws_demo \<and> deliverable (ws_prev ws_demo) (ws_k ws_demo)"
  using waitsig_correct [OF ws_demo_run, of 0 7] ws_demo_run by (auto simp: ws_demo_def in_handler_def)

end
