(* ===== verification/Epoll_ET.thy ===== *)
theory Epoll_ET
  imports Kernel_IO
begin

text \<open>
  The edge-triggered echo server \<open>Chapter12/12.2/experiments/epoll_et_echo_server.c\<close>: a
  non-blocking connection with its output buffer, the functions that fill and empty the buffer,
  and the event loop with the set of registered connections. The socket is a channel whose read
  and write schedules may answer \<open>EAGAIN\<close> at any point. \<open>None\<close> stands for a call that does not
  return (the capacity loop) or touches a connection that was freed. \<open>alloc n\<close> is what
  \<open>realloc\<close> of a block to \<open>n\<close> bytes finds in the bytes it adds, or \<open>None\<close> when it fails.
  Messages for the terminal are left out.
\<close>

section \<open>Connections\<close>

definition READ_BUFFER_SIZE :: nat where "READ_BUFFER_SIZE = 8192"
definition INITIAL_OUTPUT_CAPACITY :: nat where "INITIAL_OUTPUT_CAPACITY = 4096"
definition MAX_OUTPUT_CAPACITY :: nat where "MAX_OUTPUT_CAPACITY = 1024 * 1024"

record connection =
  conn_sock :: chan
  output_mem :: bytes
  output_capacity :: nat
  output_begin :: nat
  output_end :: nat
  peer_eof :: bool

text \<open>Subtraction in \<open>size_t\<close> wraps around.\<close>

definition size_sub :: "nat \<Rightarrow> nat \<Rightarrow> nat" where
  "size_sub a b = (if b \<le> a then a - b else 2 ^ 64 + a - b)"

definition pending_output :: "connection \<Rightarrow> nat" where
  "pending_output conn = size_sub (output_end conn) (output_begin conn)"

datatype epev = EPOLLIN | EPOLLOUT | EPOLLRDHUP | EPOLLHUP | EPOLLERR | EPOLLET

definition connection_events :: "connection \<Rightarrow> epev set" where
  "connection_events conn =
     {EPOLLET} \<union> (if \<not> peer_eof conn then {EPOLLIN, EPOLLRDHUP} else {})
       \<union> (if 0 < pending_output conn then {EPOLLOUT} else {})"

section \<open>The output buffer\<close>

text \<open>The capacity loop; nothing in its text ends it when \<open>required\<close> exceeds the maximum.\<close>

partial_function (option) grow_capacity :: "nat \<Rightarrow> nat \<Rightarrow> nat option" where
  "grow_capacity capacity required =
     (if capacity < required then
        (if MAX_OUTPUT_CAPACITY div 2 < capacity then grow_capacity MAX_OUTPUT_CAPACITY required
         else grow_capacity (capacity * 2) required)
      else Some capacity)"

definition compact_output :: "connection \<Rightarrow> nat \<Rightarrow> connection" where
  "compact_output conn length1 =
     (if 0 < output_begin conn \<and> output_capacity conn < output_end conn + length1 then
        conn\<lparr>output_mem := overlay (take (pending_output conn) (drop (output_begin conn) (output_mem conn))) (output_mem conn),
             output_begin := 0, output_end := pending_output conn\<rparr>
      else conn)"

text \<open>\<open>memcpy\<close> of \<open>data\<close> to \<open>output + output_end\<close>.\<close>

definition store_output :: "connection \<Rightarrow> bytes \<Rightarrow> connection" where
  "store_output conn data =
     conn\<lparr>output_mem := take (output_end conn) (output_mem conn) @ data @ drop (output_end conn + length data) (output_mem conn),
          output_end := output_end conn + length data\<rparr>"

definition append_output :: "(nat \<Rightarrow> bytes option) \<Rightarrow> connection \<Rightarrow> bytes \<Rightarrow> ((errno + unit) \<times> connection) option" where
  "append_output alloc conn data =
     (if size_sub MAX_OUTPUT_CAPACITY (pending_output conn) < length data then Some (Inl ENOBUFS, conn)
      else let conn1 = compact_output conn (length data);
               required = output_end conn1 + length data
           in if output_capacity conn1 < required then
                case grow_capacity (if output_capacity conn1 = 0 then INITIAL_OUTPUT_CAPACITY
                                    else output_capacity conn1) required of
                  None \<Rightarrow> None
                | Some capacity \<Rightarrow>
                    (case alloc (capacity - output_capacity conn1) of
                       None \<Rightarrow> Some (Inl ENOMEM, conn1)
                     | Some mem \<Rightarrow>
                         Some (Inr (), store_output (conn1\<lparr>output_mem := output_mem conn1 @ mem, output_capacity := capacity\<rparr>) data))
              else Some (Inr (), store_output conn1 data))"

text \<open>The result is 0 or -1 (\<open>False\<close>).\<close>

function flush_output :: "connection \<Rightarrow> bool \<times> connection" where
  "flush_output conn =
     (if 0 < pending_output conn then
        (case kwrite (take (pending_output conn) (drop (output_begin conn) (output_mem conn))) (conn_sock conn) of
           (Wrote n, s) \<Rightarrow>
             if 0 < n then flush_output (conn\<lparr>output_begin := output_begin conn + n, conn_sock := s\<rparr>)
             else (False, conn\<lparr>conn_sock := s\<rparr>)
         | (WrErr e, s) \<Rightarrow>
             if e = EINTR then flush_output (conn\<lparr>conn_sock := s\<rparr>)
             else if e = EAGAIN then (True, conn\<lparr>conn_sock := s\<rparr>)
             else (False, conn\<lparr>conn_sock := s\<rparr>)
         | (WroteZero e, s) \<Rightarrow> (False, conn\<lparr>conn_sock := s\<rparr>))
      else (True, conn\<lparr>output_begin := 0, output_end := 0\<rparr>))"
  by pat_completeness auto
termination
proof (relation "measure (\<lambda>c. (length (output_mem c) - output_begin c) + length (k_wsched (conn_sock c)))", goal_cases)
  case (2 conn r s n)
  then have "kwrite (take (pending_output conn) (drop (output_begin conn) (output_mem conn))) (conn_sock conn) = (Wrote n, s)"
    by metis
  from kw.wr_wrote [OF this] 2 show ?case by auto
next
  case (3 conn r s e)
  then have "kwrite (take (pending_output conn) (drop (output_begin conn) (output_mem conn))) (conn_sock conn) = (WrErr e, s)"
    by metis
  from kw.wr_none [OF this] show ?case by auto
qed simp

declare flush_output.simps [simp del]

definition conn_ok :: "connection \<Rightarrow> bool" where
  "conn_ok conn \<longleftrightarrow> output_begin conn \<le> output_end conn \<and> output_end conn \<le> output_capacity conn
     \<and> output_capacity conn \<le> MAX_OUTPUT_CAPACITY \<and> length (output_mem conn) = output_capacity conn"

text \<open>The bytes read and not yet written back, oldest first.\<close>

definition queue :: "connection \<Rightarrow> bytes" where
  "queue conn = take (output_end conn - output_begin conn) (drop (output_begin conn) (output_mem conn))"

definition alloc_ok :: "(nat \<Rightarrow> bytes option) \<Rightarrow> bool" where
  "alloc_ok alloc \<longleftrightarrow> (\<forall>n m. alloc n = Some m \<longrightarrow> length m = n)"

lemma pending_output_queue: "conn_ok conn \<Longrightarrow> pending_output conn = length (queue conn)"
  by (auto simp: pending_output_def size_sub_def queue_def conn_ok_def)

lemma length_queue_max: "conn_ok conn \<Longrightarrow> length (queue conn) \<le> MAX_OUTPUT_CAPACITY"
  by (auto simp: queue_def conn_ok_def)

section \<open>Appending\<close>

lemma grow_capacity_Some:
  assumes "required \<le> MAX_OUTPUT_CAPACITY" "0 < capacity" "capacity \<le> MAX_OUTPUT_CAPACITY"
  shows "\<exists>c. grow_capacity capacity required = Some c \<and> required \<le> c \<and> capacity \<le> c \<and> c \<le> MAX_OUTPUT_CAPACITY"
  using assms(2,3)
proof (induction "MAX_OUTPUT_CAPACITY - capacity" arbitrary: capacity rule: less_induct)
  case less
  show ?case
  proof (cases "capacity < required")
    case False
    with less.prems show ?thesis by (subst grow_capacity.simps) simp
  next
    case True
    then have c: "capacity < MAX_OUTPUT_CAPACITY" using assms(1) by simp
    let ?c = "if MAX_OUTPUT_CAPACITY div 2 < capacity then MAX_OUTPUT_CAPACITY else capacity * 2"
    have "MAX_OUTPUT_CAPACITY - ?c < MAX_OUTPUT_CAPACITY - capacity" "0 < ?c" "?c \<le> MAX_OUTPUT_CAPACITY"
      "capacity \<le> ?c" using c less.prems by auto
    with less.hyps [of ?c] obtain c where "grow_capacity ?c required = Some c" "required \<le> c" "?c \<le> c"
      "c \<le> MAX_OUTPUT_CAPACITY" by blast
    with True \<open>capacity \<le> ?c\<close> show ?thesis by (subst grow_capacity.simps) (auto split: if_splits)
  qed
qed

lemma compact_output_props:
  assumes "conn_ok conn"
  shows "conn_ok (compact_output conn n) \<and> queue (compact_output conn n) = queue conn
     \<and> output_capacity (compact_output conn n) = output_capacity conn
     \<and> conn_sock (compact_output conn n) = conn_sock conn \<and> peer_eof (compact_output conn n) = peer_eof conn"
proof (cases "0 < output_begin conn \<and> output_capacity conn < output_end conn + n")
  case True
  then show ?thesis
    using assms by (auto simp: compact_output_def pending_output_queue) (auto simp: conn_ok_def queue_def overlay_def)
next
  case False
  then show ?thesis using assms by (auto simp: compact_output_def)
qed

lemma compact_output_required:
  assumes "conn_ok conn" "length (queue conn) + n \<le> MAX_OUTPUT_CAPACITY"
    and "output_capacity conn < output_end (compact_output conn n) + n"
  shows "output_end (compact_output conn n) + n \<le> MAX_OUTPUT_CAPACITY"
  using assms by (auto simp: compact_output_def pending_output_queue conn_ok_def queue_def split: if_splits)

lemma store_output_props:
  assumes "conn_ok conn" "output_end conn + length data \<le> output_capacity conn"
  shows "conn_ok (store_output conn data)" "queue (store_output conn data) = queue conn @ data"
proof -
  show "conn_ok (store_output conn data)" using assms by (auto simp: conn_ok_def store_output_def)
  have "drop (output_begin conn) (take (output_end conn) (output_mem conn)) = queue conn"
    by (simp add: queue_def drop_take)
  then show "queue (store_output conn data) = queue conn @ data"
    using assms by (simp add: queue_def store_output_def conn_ok_def)
qed

lemma append_output_cases:
  assumes "conn_ok conn" "alloc_ok alloc"
  obtains (full) "MAX_OUTPUT_CAPACITY < length (queue conn) + length data"
      "append_output alloc conn data = Some (Inl ENOBUFS, conn)"
  | (nomem) conn' where "append_output alloc conn data = Some (Inl ENOMEM, conn')"
      "conn_ok conn'" "queue conn' = queue conn" "conn_sock conn' = conn_sock conn" "peer_eof conn' = peer_eof conn"
      "length (queue conn) + length data \<le> MAX_OUTPUT_CAPACITY" "\<exists>n. alloc n = None"
  | (stored) conn' where "append_output alloc conn data = Some (Inr (), conn')"
      "conn_ok conn'" "queue conn' = queue conn @ data" "conn_sock conn' = conn_sock conn" "peer_eof conn' = peer_eof conn"
      "length (queue conn) + length data \<le> MAX_OUTPUT_CAPACITY"
proof (cases "MAX_OUTPUT_CAPACITY < length (queue conn) + length data")
  case True
  then show ?thesis
    using assms(1) length_queue_max [OF assms(1)]
    by (intro full) (auto simp: append_output_def pending_output_queue size_sub_def)
next
  case False
  then have room: "length (queue conn) + length data \<le> MAX_OUTPUT_CAPACITY" by simp
  then have no: "\<not> size_sub MAX_OUTPUT_CAPACITY (pending_output conn) < length data"
    using assms(1) by (simp add: pending_output_queue size_sub_def)
  let ?c = "compact_output conn (length data)"
  note c = compact_output_props [OF assms(1), of "length data"]
  show ?thesis
  proof (cases "output_capacity ?c < output_end ?c + length data")
    case fits: False
    then show ?thesis
      using c no room store_output_props [of ?c data]
      by (intro stored [of "store_output ?c data"]) (auto simp: append_output_def Let_def store_output_def)
  next
    case grow: True
    have r: "output_end ?c + length data \<le> MAX_OUTPUT_CAPACITY"
      using compact_output_required [OF assms(1) room] grow c by simp
    let ?k = "if output_capacity ?c = 0 then INITIAL_OUTPUT_CAPACITY else output_capacity ?c"
    have "0 < ?k" "?k \<le> MAX_OUTPUT_CAPACITY"
      using c by (auto simp: conn_ok_def INITIAL_OUTPUT_CAPACITY_def MAX_OUTPUT_CAPACITY_def)
    then obtain cap where cap: "grow_capacity ?k (output_end ?c + length data) = Some cap"
      "output_end ?c + length data \<le> cap" "cap \<le> MAX_OUTPUT_CAPACITY" "?k \<le> cap"
      using grow_capacity_Some [OF r] by blast
    show ?thesis
    proof (cases "alloc (cap - output_capacity ?c)")
      case None
      then show ?thesis
        using no grow cap c room by (intro nomem [of ?c]) (auto simp: append_output_def Let_def)
    next
      case (Some mem)
      let ?d = "?c\<lparr>output_mem := output_mem ?c @ mem, output_capacity := cap\<rparr>"
      have l: "length mem = cap - output_capacity ?c" using Some assms(2) by (simp add: alloc_ok_def)
      have d: "conn_ok ?d" "queue ?d = queue ?c"
        using c l cap grow by (auto simp: conn_ok_def queue_def split: if_splits)
      have "append_output alloc conn data = Some (Inr (), store_output ?d data)"
        using no grow cap Some by (simp add: append_output_def Let_def)
      then show ?thesis
        using d c cap room store_output_props [of ?d data]
        by (intro stored [of "store_output ?d data"]) (auto simp: store_output_def)
    qed
  qed
qed

section \<open>Flushing and draining\<close>

lemma flush_output_reads:
  "flush_output conn = (r, conn') \<Longrightarrow> k_in (conn_sock conn') = k_in (conn_sock conn)
     \<and> k_rsched (conn_sock conn') = k_rsched (conn_sock conn) \<and> peer_eof conn' = peer_eof conn"
proof (induction conn rule: flush_output.induct)
  case (1 conn)
  obtain q s where q: "kwrite (take (pending_output conn) (drop (output_begin conn) (output_mem conn))) (conn_sock conn) = (q, s)"
    by fastforce
  note w = kwrite_reads [OF q]
  show ?case
    using "1.prems" "1.IH" [OF _ q [symmetric]] w
    by (subst (asm) flush_output.simps) (auto simp: q split: if_splits wr_res.splits)
qed

lemma append_output_sock:
  "append_output alloc conn data = Some (r, conn') \<Longrightarrow> conn_sock conn' = conn_sock conn"
  by (auto simp: append_output_def compact_output_def store_output_def Let_def split: if_splits option.splits)

function drain_input :: "(nat \<Rightarrow> bytes option) \<Rightarrow> connection \<Rightarrow> (bool \<times> connection) option" where
  "drain_input alloc conn =
     (case kread READ_BUFFER_SIZE (conn_sock conn) of
        (Inr n, bs, s) \<Rightarrow>
          if 0 < n then
            (case append_output alloc (conn\<lparr>conn_sock := s\<rparr>) bs of
               None \<Rightarrow> None
             | Some (Inl e, conn2) \<Rightarrow> Some (False, conn2)
             | Some (Inr u, conn2) \<Rightarrow>
                 (case flush_output conn2 of (ok, conn3) \<Rightarrow>
                    if ok then drain_input alloc conn3 else Some (False, conn3)))
          else Some (True, conn\<lparr>conn_sock := s, peer_eof := True\<rparr>)
      | (Inl e, bs, s) \<Rightarrow>
          if e = EINTR then drain_input alloc (conn\<lparr>conn_sock := s\<rparr>)
          else if e = EAGAIN then Some (True, conn\<lparr>conn_sock := s\<rparr>)
          else Some (False, conn\<lparr>conn_sock := s\<rparr>))"
  by pat_completeness auto
termination
proof (relation "measure (\<lambda>(a, c). length (k_in (conn_sock c)) + length (k_rsched (conn_sock c)))", goal_cases)
  case (2 alloc conn x y e bs s)
  then have "kread READ_BUFFER_SIZE (conn_sock conn) = (Inl e, bs, s)" by metis
  then show ?case by (elim kread_cases) auto
next
  case (3 alloc conn r rest n bs s ar p conn2 u ok conn3)
  then have r: "kread READ_BUFFER_SIZE (conn_sock conn) = (Inr n, bs, s)"
    and a: "append_output alloc (conn\<lparr>conn_sock := s\<rparr>) bs = Some (Inr u, conn2)"
    and f: "flush_output conn2 = (ok, conn3)" by metis+
  have "length (k_in s) < length (k_in (conn_sock conn)) \<and> length (k_rsched s) \<le> length (k_rsched (conn_sock conn))"
    using r \<open>0 < n\<close>
  proof (elim kread_cases)
    assume "Inr n = (Inr (length bs) :: errno + nat)" "bs @ k_in s = k_in (conn_sock conn)"
      "k_rsched s = tl (k_rsched (conn_sock conn))" "0 < n"
    then show ?thesis by (metis (no_types, lifting) diff_le_self length_append length_tl
          less_add_same_cancel2 sum.inject(2))
  qed simp
  with append_output_sock [OF a] flush_output_reads [OF f] show ?case by simp
qed simp

declare drain_input.simps [simp del]

lemma flush_output_props:
  "flush_output conn = (r, conn') \<Longrightarrow> conn_ok conn \<Longrightarrow>
     conn_ok conn' \<and> k_out (conn_sock conn') @ queue conn' = k_out (conn_sock conn) @ queue conn
     \<and> (r \<longrightarrow> queue conn' \<noteq> [] \<longrightarrow> WrFail EAGAIN \<in> set (k_wsched (conn_sock conn)))
     \<and> set (k_wsched (conn_sock conn')) \<subseteq> set (k_wsched (conn_sock conn))"
proof (induction conn rule: flush_output.induct)
  case (1 conn)
  have p: "take (pending_output conn) (drop (output_begin conn) (output_mem conn)) = queue conn"
    using "1.prems"(2) by (auto simp: pending_output_def size_sub_def queue_def conn_ok_def)
  obtain q s where q: "kwrite (queue conn) (conn_sock conn) = (q, s)" by fastforce
  show ?case
  proof (cases "queue conn = []")
    case True
    then have "flush_output conn = (True, conn\<lparr>output_begin := 0, output_end := 0\<rparr>)"
      using "1.prems"(2) by (subst flush_output.simps) (simp add: pending_output_queue)
    with "1.prems" True show ?thesis by (auto simp: conn_ok_def queue_def)
  next
    case False
    then have pos: "0 < pending_output conn" using "1.prems"(2) by (simp add: pending_output_queue)
    note IH = "1.IH" [OF pos q [folded p, symmetric]]
    show ?thesis
    proof (cases q)
      case (Wrote n)
      then have w: "k_out s = k_out (conn_sock conn) @ take n (queue conn)" "n \<le> length (queue conn)" "0 < n"
        using kw.wr_wrote q False by blast+
      let ?c = "conn\<lparr>output_begin := output_begin conn + n, conn_sock := s\<rparr>"
      have c: "conn_ok ?c" "queue ?c = drop n (queue conn)"
        using w "1.prems"(2) by (auto simp: conn_ok_def queue_def drop_take add.commute)
      have "flush_output ?c = (r, conn')"
        using "1.prems"(1) pos p q Wrote w by (subst (asm) flush_output.simps) simp
      moreover have "set (k_wsched s) \<subseteq> set (k_wsched (conn_sock conn))"
        using q by (auto simp: kwrite_def split: list.splits wr_ev.splits)
      ultimately show ?thesis using IH(1) [OF Wrote w(3)] c w by auto
    next
      case (WroteZero e)
      then have w: "k_out s = k_out (conn_sock conn)" using kw.wr_none [OF q] by simp
      have "set (k_wsched s) \<subseteq> set (k_wsched (conn_sock conn))"
        using q by (auto simp: kwrite_def split: list.splits wr_ev.splits)
      with w "1.prems" pos p q WroteZero show ?thesis
        by (subst (asm) flush_output.simps) (auto simp: conn_ok_def queue_def)
    next
      case (WrErr e)
      then have w: "k_out s = k_out (conn_sock conn)" using kw.wr_none [OF q] by simp
      have ev: "set (k_wsched s) \<subseteq> set (k_wsched (conn_sock conn))" "WrFail e \<in> set (k_wsched (conn_sock conn))"
        using q WrErr by (auto simp: kwrite_def split: list.splits wr_ev.splits)
      have c: "conn_ok (conn\<lparr>conn_sock := s\<rparr>)" "queue (conn\<lparr>conn_sock := s\<rparr>) = queue conn"
        using "1.prems"(2) by (auto simp: conn_ok_def queue_def)
      show ?thesis
      proof (cases "e = EINTR")
        case True
        then have "flush_output (conn\<lparr>conn_sock := s\<rparr>) = (r, conn')"
          using "1.prems"(1) pos p q WrErr by (subst (asm) flush_output.simps) simp
        then show ?thesis using IH(2) [OF WrErr True] c w ev by auto
      next
        case no: False
        then show ?thesis
          using "1.prems"(1) pos p q WrErr w ev c by (subst (asm) flush_output.simps) (auto split: if_splits)
      qed
    qed
  qed
qed

section \<open>The event loop\<close>

text \<open>What an event does to its connection: it stays registered, or it is closed (after a failure or not).\<close>

datatype outcome = Kept connection | Closed bool connection

text \<open>\<open>mod_ok\<close>: whether \<open>modify_connection\<close> succeeds.\<close>

definition handle_conn :: "(nat \<Rightarrow> bytes option) \<Rightarrow> epev set \<Rightarrow> bool \<Rightarrow> connection \<Rightarrow> outcome option" where
  "handle_conn alloc ready mod_ok conn =
     (if EPOLLERR \<in> ready then Some (Closed True conn)
      else case (if ready \<inter> {EPOLLIN, EPOLLRDHUP, EPOLLHUP} \<noteq> {} then drain_input alloc conn else Some (True, conn)) of
             None \<Rightarrow> None
           | Some (ok1, c1) \<Rightarrow>
               (case (if ok1 \<and> EPOLLOUT \<in> ready then flush_output c1 else (ok1, c1)) of (ok2, c2) \<Rightarrow>
                  if \<not> ok2 \<or> peer_eof c2 \<and> pending_output c2 = 0 then Some (Closed (\<not> ok2) c2)
                  else if mod_ok then Some (Kept c2)
                  else Some (Closed True c2)))"

text \<open>
  The server: the connections it has allocated, by pointer, the events each is registered for, and
  the next pointer of \<open>calloc\<close>.
\<close>

record et_server =
  et_conns :: "nat \<Rightarrow> connection option"
  et_interest :: "nat \<Rightarrow> epev set option"
  et_next :: nat

definition new_connection :: "chan \<Rightarrow> connection" where
  "new_connection sock = \<lparr>conn_sock = sock, output_mem = [], output_capacity = 0, output_begin = 0,
     output_end = 0, peer_eof = False\<rparr>"

text \<open>
  The answers of \<open>accept4\<close>: a new socket for which \<open>calloc\<close> and then \<open>add_connection\<close> succeed or
  not, or an error; after them the queue is empty and \<open>accept4\<close> fails with \<open>EAGAIN\<close>.
\<close>

datatype acc_ev = AccConn chan bool | AccNoMem | AccFail errno

fun drain_accept_queue :: "acc_ev list \<Rightarrow> et_server \<Rightarrow> bool \<times> et_server" where
  "drain_accept_queue [] s = (True, s)"
| "drain_accept_queue (AccConn sock add_ok # evs) s =
     (let conn = new_connection sock; p = et_next s; s1 = s\<lparr>et_next := p + 1\<rparr>
      in drain_accept_queue evs
           (if add_ok then s1\<lparr>et_conns := (et_conns s1)(p \<mapsto> conn),
                              et_interest := (et_interest s1)(p \<mapsto> connection_events conn)\<rparr>
            else s1))"
| "drain_accept_queue (AccNoMem # evs) s = drain_accept_queue evs s"
| "drain_accept_queue (AccFail e # evs) s =
     (if e = EINTR then drain_accept_queue evs s
      else if e = EAGAIN then (True, s)
      else (False, s))"

definition close_connection :: "nat \<Rightarrow> et_server \<Rightarrow> et_server" where
  "close_connection p s = s\<lparr>et_conns := (et_conns s)(p := None), et_interest := (et_interest s)(p := None)\<rparr>"

definition modify_connection :: "nat \<Rightarrow> connection \<Rightarrow> et_server \<Rightarrow> et_server" where
  "modify_connection p conn s =
     s\<lparr>et_conns := (et_conns s)(p \<mapsto> conn), et_interest := (et_interest s)(p \<mapsto> connection_events conn)\<rparr>"

record et_event =
  ev_ptr :: "nat option"
  ev_ready :: "epev set"
  ev_accepts :: "acc_ev list"
  ev_mod_ok :: bool

text \<open>One pass over the events of an \<open>epoll_wait\<close>; the result says whether the server goes on.\<close>

fun et_batch :: "(nat \<Rightarrow> bytes option) \<Rightarrow> et_event list \<Rightarrow> et_server \<Rightarrow> (bool \<times> et_server) option" where
  "et_batch alloc [] s = Some (True, s)"
| "et_batch alloc (ev # evs) s =
     (case ev_ptr ev of
        None \<Rightarrow>
          if ev_ready ev \<inter> {EPOLLERR, EPOLLHUP} \<noteq> {} then Some (False, s)
          else if EPOLLIN \<in> ev_ready ev then
            (case drain_accept_queue (ev_accepts ev) s of (ok, s1) \<Rightarrow>
               if ok then et_batch alloc evs s1 else Some (False, s1))
          else et_batch alloc evs s
      | Some p \<Rightarrow>
          (case et_conns s p of
             None \<Rightarrow> None
           | Some conn \<Rightarrow>
               (case handle_conn alloc (ev_ready ev) (ev_mod_ok ev) conn of
                  None \<Rightarrow> None
                | Some (Kept conn') \<Rightarrow> et_batch alloc evs (modify_connection p conn' s)
                | Some (Closed failed conn') \<Rightarrow> et_batch alloc evs (close_connection p s))))"

datatype wait_res = WaitFail errno | WaitEvents "et_event list"

text \<open>The outer loop over the answers of \<open>epoll_wait\<close>, as long as it is given any.\<close>

fun et_main :: "(nat \<Rightarrow> bytes option) \<Rightarrow> wait_res list \<Rightarrow> et_server \<Rightarrow> (bool \<times> et_server) option" where
  "et_main alloc [] s = Some (True, s)"
| "et_main alloc (WaitFail e # ws) s = (if e = EINTR then et_main alloc ws s else Some (False, s))"
| "et_main alloc (WaitEvents evs # ws) s =
     (case et_batch alloc evs s of
        None \<Rightarrow> None
      | Some (running, s') \<Rightarrow> if running then et_main alloc ws s' else Some (False, s'))"

section \<open>Conservation of bytes\<close>

text \<open>What was written back, what waits in the buffer, and what is still to be read.\<close>

definition flow :: "connection \<Rightarrow> bytes" where
  "flow conn = k_out (conn_sock conn) @ queue conn @ k_in (conn_sock conn)"

definition drained :: "connection \<Rightarrow> connection \<Rightarrow> bool" where
  "drained conn conn' \<longleftrightarrow>
     peer_eof conn' \<or> (\<exists>xs. k_rsched (conn_sock conn) = xs @ RdFail EAGAIN # k_rsched (conn_sock conn'))"

lemma drained_step:
  assumes "drained c c'" "k_rsched (conn_sock conn) = ys @ k_rsched (conn_sock c)"
  shows "drained conn c'"
  using assms by (auto simp: drained_def)

lemma kread_split: "kread n c = (r, bs, c') \<Longrightarrow> \<exists>ys. k_rsched c = ys @ k_rsched c'"
  by (elim kread_cases) (auto, metis append_Nil append_Cons list.collapse list.sel(2))

lemma drain_input_props:
  assumes "conn_ok conn" "alloc_ok alloc"
  shows "\<exists>ok conn' lost. drain_input alloc conn = Some (ok, conn') \<and> conn_ok conn'
     \<and> k_out (conn_sock conn') @ queue conn' @ lost @ k_in (conn_sock conn') = flow conn
     \<and> (ok \<longrightarrow> lost = [] \<and> drained conn conn' \<and> (peer_eof conn' \<longrightarrow> peer_eof conn \<or> k_in (conn_sock conn') = []))"
  using assms
proof (induction alloc conn rule: drain_input.induct)
  case (1 alloc conn)
  obtain r bs s where r: "kread READ_BUFFER_SIZE (conn_sock conn) = (r, bs, s)" by (cases "kread READ_BUFFER_SIZE (conn_sock conn)")
  let ?c = "conn\<lparr>conn_sock := s\<rparr>"
  have c: "conn_ok ?c" "queue ?c = queue conn" using "1.prems"(1) by (auto simp: conn_ok_def queue_def)
  obtain ys where ys: "k_rsched (conn_sock conn) = ys @ k_rsched s" using kread_split [OF r] by blast
  show ?case
  proof (cases r)
    case (Inl e)
    with r have s: "k_rsched (conn_sock conn) = RdFail e # k_rsched s" "k_in s = k_in (conn_sock conn)"
      "k_out s = k_out (conn_sock conn)" by (auto elim!: kread_cases)
    then have fl: "flow ?c = flow conn" using c by (simp add: flow_def)
    show ?thesis
    proof (cases "e = EINTR")
      case True
      have d: "drain_input alloc conn = drain_input alloc ?c"
        using r Inl True by (subst drain_input.simps) simp
      obtain ok c' lost where i: "drain_input alloc ?c = Some (ok, c')" "conn_ok c'"
        "k_out (conn_sock c') @ queue c' @ lost @ k_in (conn_sock c') = flow ?c"
        "ok \<longrightarrow> lost = [] \<and> drained ?c c' \<and> (peer_eof c' \<longrightarrow> peer_eof ?c \<or> k_in (conn_sock c') = [])"
        using "1.IH"(1) [OF r [symmetric] Inl refl True c(1) "1.prems"(2)] by blast
      with fl d drained_step [of ?c c' conn ys] ys show ?thesis by auto
    next
      case False
      then have "drain_input alloc conn = Some (e = EAGAIN, ?c)"
        using r Inl by (subst drain_input.simps) simp
      with c s fl show ?thesis by (auto simp: flow_def drained_def intro!: exI [of _ "[]"])
    qed
  next
    case (Inr n)
    with r have s: "n = length bs" "bs @ k_in s = k_in (conn_sock conn)" "k_out s = k_out (conn_sock conn)"
      "n = 0 \<longrightarrow> k_in (conn_sock conn) = []"
      by (auto elim!: kread_cases simp: READ_BUFFER_SIZE_def)
    show ?thesis
    proof (cases "0 < n")
      case False
      then have "drain_input alloc conn = Some (True, ?c\<lparr>peer_eof := True\<rparr>)"
        using r Inr by (subst drain_input.simps) simp
      moreover have "queue (?c\<lparr>peer_eof := True\<rparr>) = queue conn" "conn_ok (?c\<lparr>peer_eof := True\<rparr>)"
        using "1.prems"(1) by (auto simp: conn_ok_def queue_def)
      ultimately show ?thesis using s False by (auto simp: flow_def drained_def intro!: exI [of _ "[]"])
    next
      case True
      show ?thesis
      proof (rule append_output_cases [OF c(1) "1.prems"(2), of bs], goal_cases)
        case 1
        then have "drain_input alloc conn = Some (False, ?c)" using r Inr True by (subst drain_input.simps) simp
        with c s show ?case by (intro exI [of _ False] exI [of _ ?c] exI [of _ bs]) (auto simp: flow_def)
      next
        case (2 c2)
        then have "drain_input alloc conn = Some (False, c2)" using r Inr True by (subst drain_input.simps) simp
        with 2 c s show ?case by (intro exI [of _ False] exI [of _ c2] exI [of _ bs]) (auto simp: flow_def)
      next
        case (3 c2)
        obtain ok3 c3 where f: "flush_output c2 = (ok3, c3)" by fastforce
        note p = flush_output_props [OF f 3(2)] flush_output_reads [OF f]
        have "k_out (conn_sock c3) @ queue c3 = k_out (conn_sock conn) @ queue conn @ bs"
          using p 3 c s by simp
        then have fl: "flow c3 = flow conn" using p 3 s unfolding flow_def by (metis append_assoc connection.select_convs(1) connection.surjective connection.update_convs(1))
        show ?case
        proof (cases ok3)
          case False
          then have "drain_input alloc conn = Some (False, c3)"
            using r Inr True 3(1) f by (subst drain_input.simps) simp
          with p fl show ?thesis by (intro exI [of _ False] exI [of _ c3] exI [of _ "[]"]) (auto simp: flow_def)
        next
          case ok: True
          have d: "drain_input alloc conn = drain_input alloc c3"
            using r Inr True 3(1) f ok by (subst drain_input.simps) simp
          obtain ok c' lost where i: "drain_input alloc c3 = Some (ok, c')" "conn_ok c'"
            "k_out (conn_sock c') @ queue c' @ lost @ k_in (conn_sock c') = flow c3"
            "ok \<longrightarrow> lost = [] \<and> drained c3 c' \<and> (peer_eof c' \<longrightarrow> peer_eof c3 \<or> k_in (conn_sock c') = [])"
            using "1.IH"(2) [OF r [symmetric] Inr refl True 3(1) refl refl f [symmetric] ok _ "1.prems"(2)] p by blast
          moreover have "k_rsched (conn_sock conn) = ys @ k_rsched (conn_sock c3)" "peer_eof c3 = peer_eof conn"
            using ys p 3(4,5) by simp_all
          ultimately show ?thesis using fl d drained_step [of c3 c' conn ys] by auto
        qed
      qed
    qed
  qed
qed

lemma kread_len: "kread n c = (r, bs, c') \<Longrightarrow> length (k_in c') \<le> length (k_in c)"
  by (elim kread_cases) (auto, metis le_add2 length_append)

lemma drain_input_len:
  "drain_input alloc conn = Some (ok, c') \<Longrightarrow> length (k_in (conn_sock c')) \<le> length (k_in (conn_sock conn))"
proof (induction alloc conn rule: drain_input.induct)
  case (1 alloc conn)
  obtain r bs s where r: "kread READ_BUFFER_SIZE (conn_sock conn) = (r, bs, s)"
    by (cases "kread READ_BUFFER_SIZE (conn_sock conn)")
  note l = kread_len [OF r]
  show ?case
  proof (cases r)
    case (Inl e)
    with "1.prems" "1.IH"(1) [OF r [symmetric] Inl refl] r l show ?thesis
      by (subst (asm) drain_input.simps) (auto split: if_splits)
  next
    case (Inr n)
    show ?thesis
    proof (cases "append_output alloc (conn\<lparr>conn_sock := s\<rparr>) bs")
      case None
      with "1.prems" Inr r l show ?thesis by (subst (asm) drain_input.simps) (auto split: if_splits)
    next
      case (Some x)
      obtain q c2 where x: "x = (q, c2)" by (cases x)
      obtain ok3 c3 where f: "flush_output c2 = (ok3, c3)" by fastforce
      have s: "conn_sock c2 = s" "k_in (conn_sock c3) = k_in s"
        using append_output_sock [of alloc _ bs q c2] Some x flush_output_reads [OF f] by auto
      show ?thesis
        using "1.prems" "1.IH"(2) [OF r [symmetric] Inr refl _ Some x [symmetric] _ f [symmetric]] Some x f r Inr l s
        by (subst (asm) drain_input.simps) (auto split: if_splits sum.splits)
    qed
  qed
qed

lemma handle_conn_props:
  assumes "conn_ok conn" "alloc_ok alloc" "peer_eof conn \<longrightarrow> k_in (conn_sock conn) = []"
  shows "\<exists>r. handle_conn alloc ready mod_ok conn = Some r \<and>
     (case r of
        Kept c' \<Rightarrow> conn_ok c' \<and> flow c' = flow conn \<and> (peer_eof c' \<longrightarrow> k_in (conn_sock c') = [] \<and> queue c' \<noteq> [])
      | Closed failed c' \<Rightarrow>
          (\<exists>lost. k_out (conn_sock c') @ queue c' @ lost @ k_in (conn_sock c') = flow conn)
          \<and> (\<not> failed \<longrightarrow> k_out (conn_sock c') = flow conn))"
proof (cases "EPOLLERR \<in> ready")
  case True
  then show ?thesis by (auto simp: handle_conn_def flow_def intro!: exI [of _ "[]"])
next
  case False
  let ?d = "if ready \<inter> {EPOLLIN, EPOLLRDHUP, EPOLLHUP} \<noteq> {} then drain_input alloc conn else Some (True, conn)"
  obtain ok1 c1 lost where c1: "?d = Some (ok1, c1)" "conn_ok c1"
    "k_out (conn_sock c1) @ queue c1 @ lost @ k_in (conn_sock c1) = flow conn"
    "ok1 \<longrightarrow> lost = [] \<and> (peer_eof c1 \<longrightarrow> k_in (conn_sock c1) = [])"
  proof (cases "ready \<inter> {EPOLLIN, EPOLLRDHUP, EPOLLHUP} \<noteq> {}")
    case True
    obtain ok c' lost where d: "drain_input alloc conn = Some (ok, c')" "conn_ok c'"
      "k_out (conn_sock c') @ queue c' @ lost @ k_in (conn_sock c') = flow conn"
      "ok \<longrightarrow> lost = [] \<and> drained conn c' \<and> (peer_eof c' \<longrightarrow> peer_eof conn \<or> k_in (conn_sock c') = [])"
      using drain_input_props [OF assms(1,2)] by blast
    have "ok \<longrightarrow> lost = [] \<and> (peer_eof c' \<longrightarrow> k_in (conn_sock c') = [])"
      using d(3,4) assms(3) drain_input_len [OF d(1)] by auto
    then show ?thesis using that d True by simp
  next
    case no: False
    then show ?thesis using that [of True conn "[]"] assms by (auto simp: flow_def)
  qed
  let ?f = "if ok1 \<and> EPOLLOUT \<in> ready then flush_output c1 else (ok1, c1)"
  obtain ok2 c2 where f: "?f = (ok2, c2)" by fastforce
  have c2: "conn_ok c2" "k_out (conn_sock c2) @ queue c2 = k_out (conn_sock c1) @ queue c1"
    "k_in (conn_sock c2) = k_in (conn_sock c1)" "peer_eof c2 = peer_eof c1" "ok2 \<longrightarrow> ok1"
    using f c1(2) flush_output_props [of c1 ok2 c2] flush_output_reads [of c1 ok2 c2] by (auto split: if_splits)
  have fl: "k_out (conn_sock c2) @ queue c2 @ lost @ k_in (conn_sock c2) = flow conn"
    using c1(3) c2(2,3) by (metis append_assoc)
  have h: "handle_conn alloc ready mod_ok conn =
      (if \<not> ok2 \<or> peer_eof c2 \<and> pending_output c2 = 0 then Some (Closed (\<not> ok2) c2)
       else if mod_ok then Some (Kept c2) else Some (Closed True c2))"
    unfolding handle_conn_def c1(1) using False f by simp
  show ?thesis
  proof (cases "\<not> ok2 \<or> peer_eof c2 \<and> pending_output c2 = 0 \<or> \<not> mod_ok")
    case True
    then show ?thesis using h fl c1(4) c2 pending_output_queue [OF c2(1)] by auto
  next
    case False
    then show ?thesis using h fl c1(4) c2 pending_output_queue [OF c2(1)] by (auto simp: flow_def)
  qed
qed

text \<open>The life of one connection under a sequence of events.\<close>

fun conn_run :: "(nat \<Rightarrow> bytes option) \<Rightarrow> (epev set \<times> bool) list \<Rightarrow> connection \<Rightarrow> outcome option" where
  "conn_run alloc [] conn = Some (Kept conn)"
| "conn_run alloc ((ready, mod_ok) # evs) conn =
     (case handle_conn alloc ready mod_ok conn of
        None \<Rightarrow> None
      | Some (Kept conn') \<Rightarrow> conn_run alloc evs conn'
      | Some (Closed failed conn') \<Rightarrow> Some (Closed failed conn'))"

definition conn_result :: "connection \<Rightarrow> outcome \<Rightarrow> bool" where
  "conn_result conn r \<longleftrightarrow>
     (case r of
        Kept c' \<Rightarrow> conn_ok c' \<and> flow c' = flow conn
      | Closed failed c' \<Rightarrow>
          (\<exists>lost. k_out (conn_sock c') @ queue c' @ lost @ k_in (conn_sock c') = flow conn)
          \<and> (\<not> failed \<longrightarrow> k_out (conn_sock c') = flow conn))"

lemma conn_result_flow: "flow c = flow conn \<Longrightarrow> conn_result c r \<longleftrightarrow> conn_result conn r"
  by (cases r) (simp_all add: conn_result_def)

lemma handle_conn_result:
  assumes "conn_ok conn" "alloc_ok alloc" "peer_eof conn \<longrightarrow> k_in (conn_sock conn) = []"
  obtains r where "handle_conn alloc ready mod_ok conn = Some r" "conn_result conn r"
    "\<And>c'. r = Kept c' \<Longrightarrow> peer_eof c' \<Longrightarrow> k_in (conn_sock c') = [] \<and> queue c' \<noteq> []"
proof -
  obtain r where "handle_conn alloc ready mod_ok conn = Some r" and r: "case r of
        Kept c' \<Rightarrow> conn_ok c' \<and> flow c' = flow conn \<and> (peer_eof c' \<longrightarrow> k_in (conn_sock c') = [] \<and> queue c' \<noteq> [])
      | Closed failed c' \<Rightarrow>
          (\<exists>lost. k_out (conn_sock c') @ queue c' @ lost @ k_in (conn_sock c') = flow conn)
          \<and> (\<not> failed \<longrightarrow> k_out (conn_sock c') = flow conn)"
    using handle_conn_props [OF assms, of ready mod_ok] by blast
  then show ?thesis by (intro that [of r]) (cases r; simp add: conn_result_def)+
qed

lemma conn_run_props:
  assumes "conn_ok conn" "alloc_ok alloc" "peer_eof conn \<longrightarrow> k_in (conn_sock conn) = []"
  shows "\<exists>r. conn_run alloc evs conn = Some r \<and> conn_result conn r"
  using assms
proof (induction evs arbitrary: conn)
  case Nil
  then show ?case by (simp add: conn_result_def)
next
  case (Cons ev evs)
  obtain ready mod_ok where ev: "ev = (ready, mod_ok)" by (cases ev)
  obtain r where r: "handle_conn alloc ready mod_ok conn = Some r" and q: "conn_result conn r"
    "\<And>c'. r = Kept c' \<Longrightarrow> peer_eof c' \<Longrightarrow> k_in (conn_sock c') = [] \<and> queue c' \<noteq> []"
    using handle_conn_result [OF Cons.prems, of ready mod_ok] by blast
  show ?case
  proof (cases r)
    case (Kept c')
    then have c': "conn_ok c'" "flow c' = flow conn" using q(1) by (simp_all add: conn_result_def)
    with Cons.IH [OF c'(1) Cons.prems(2)] q(2) Kept obtain u where
      "conn_run alloc evs c' = Some u" "conn_result conn u"
      by (auto simp: conn_result_flow [OF c'(2)])
    with Kept r ev show ?thesis by simp
  next
    case (Closed failed c')
    with r q ev show ?thesis by simp
  qed
qed

lemma new_connection_ok [simp]: "conn_ok (new_connection sock)" "queue (new_connection sock) = []"
  "conn_sock (new_connection sock) = sock" "\<not> peer_eof (new_connection sock)"
  by (simp_all add: new_connection_def conn_ok_def queue_def)

section \<open>The registered connections\<close>

definition server_ok :: "et_server \<Rightarrow> bool" where
  "server_ok s \<longleftrightarrow> (\<forall>p \<ge> et_next s. et_conns s p = None)
     \<and> (\<forall>p conn. et_conns s p = Some conn \<longrightarrow> conn_ok conn \<and> (peer_eof conn \<longrightarrow> k_in (conn_sock conn) = []))
     \<and> et_interest s = (\<lambda>p. map_option connection_events (et_conns s p))"

lemma server_ok_new:
  assumes "server_ok s"
  shows "server_ok (s\<lparr>et_next := et_next s + 1, et_conns := (et_conns s)(et_next s \<mapsto> new_connection sock),
      et_interest := (et_interest s)(et_next s \<mapsto> connection_events (new_connection sock))\<rparr>)"
  using assms by (auto simp: server_ok_def)

lemma drain_accept_queue_props:
  "server_ok s \<Longrightarrow> drain_accept_queue evs s = (ok, s') \<Longrightarrow>
     server_ok s' \<and> (\<forall>p < et_next s. et_conns s' p = et_conns s p) \<and> et_next s \<le> et_next s'"
proof (induction evs s rule: drain_accept_queue.induct)
  case (2 sock add_ok evs s)
  have o: "server_ok (s\<lparr>et_next := et_next s + 1\<rparr>)" using "2.prems"(1) by (auto simp: server_ok_def)
  show ?case
    using "2.IH" [OF refl refl refl] "2.prems" o server_ok_new [OF "2.prems"(1), of sock]
    by (cases add_ok) (fastforce simp: Let_def)+
qed (auto split: if_splits)

lemma server_ok_close: "server_ok s \<Longrightarrow> server_ok (close_connection p s)"
  by (auto simp: server_ok_def close_connection_def fun_eq_iff split: if_splits)

lemma server_ok_modify:
  "server_ok s \<Longrightarrow> p < et_next s \<Longrightarrow> conn_ok conn \<Longrightarrow> peer_eof conn \<longrightarrow> k_in (conn_sock conn) = [] \<Longrightarrow>
     server_ok (modify_connection p conn s)"
  by (auto simp: server_ok_def modify_connection_def fun_eq_iff split: if_splits)

definition batch_ptrs :: "et_event list \<Rightarrow> nat list" where
  "batch_ptrs evs = [p. ev \<leftarrow> evs, Some p \<leftarrow> [ev_ptr ev]]"

lemma batch_ptrs_simps [simp]:
  "batch_ptrs [] = []"
  "batch_ptrs (ev # evs) = (case ev_ptr ev of None \<Rightarrow> batch_ptrs evs | Some p \<Rightarrow> p # batch_ptrs evs)"
  by (auto simp: batch_ptrs_def split: option.splits)

lemma et_batch_props:
  assumes "alloc_ok alloc" "server_ok s" "distinct (batch_ptrs evs)"
    and "\<forall>p \<in> set (batch_ptrs evs). et_conns s p \<noteq> None"
  shows "\<exists>running s'. et_batch alloc evs s = Some (running, s') \<and> server_ok s'"
  using assms(2-4)
proof (induction evs arbitrary: s)
  case Nil
  then show ?case by (auto intro: exI [of _ True])
next
  case (Cons ev evs)
  have below: "p < et_next s" if "et_conns s p \<noteq> None" for p
    using that Cons.prems(1) by (auto simp: server_ok_def) (metis linorder_not_le option.distinct(1))
  show ?case
  proof (cases "ev_ptr ev")
    case None
    obtain ok s1 where d: "drain_accept_queue (ev_accepts ev) s = (ok, s1)" by fastforce
    note p = drain_accept_queue_props [OF Cons.prems(1) d]
    have "\<forall>p \<in> set (batch_ptrs evs). et_conns s1 p \<noteq> None"
      using Cons.prems(3) None p below by auto
    with Cons.IH [of s1] Cons.IH [of s] Cons.prems None d p show ?thesis by auto
  next
    case (Some p)
    then obtain conn where conn: "et_conns s p = Some conn" using Cons.prems(3) by auto
    then have c: "conn_ok conn" "peer_eof conn \<longrightarrow> k_in (conn_sock conn) = []"
      using Cons.prems(1) by (auto simp: server_ok_def)
    obtain r where r: "handle_conn alloc (ev_ready ev) (ev_mod_ok ev) conn = Some r" "conn_result conn r"
      "\<And>c'. r = Kept c' \<Longrightarrow> peer_eof c' \<Longrightarrow> k_in (conn_sock c') = [] \<and> queue c' \<noteq> []"
      using handle_conn_result [OF c(1) assms(1) c(2), of "ev_ready ev" "ev_mod_ok ev"] by blast
    have others: "p \<notin> set (batch_ptrs evs)" "distinct (batch_ptrs evs)" using Cons.prems(2) Some by auto
    show ?thesis
    proof (cases r)
      case (Kept c')
      then have "server_ok (modify_connection p c' s)"
        using server_ok_modify [OF Cons.prems(1)] below conn r(2,3) by (simp add: conn_result_def)
      moreover have "\<forall>q \<in> set (batch_ptrs evs). et_conns (modify_connection p c' s) q \<noteq> None"
        using Cons.prems(3) Some by (auto simp: modify_connection_def)
      ultimately show ?thesis using Cons.IH others Some conn r Kept by simp
    next
      case (Closed failed c')
      have "\<forall>q \<in> set (batch_ptrs evs). et_conns (close_connection p s) q \<noteq> None"
        using Cons.prems(3) Some others by (auto simp: close_connection_def)
      with Closed show ?thesis using Cons.IH [OF server_ok_close [OF Cons.prems(1)]] others Some conn r by simp
    qed
  qed
qed

section \<open>Properties\<close>

text \<open>
  C10: \<open>append_output\<close> always returns (its capacity loop ends), keeps the buffer well formed within
  one megabyte, and is an enqueue: on success the data stand behind what was pending, on failure the
  pending bytes are untouched. It refuses exactly when the limit would be exceeded, and fails
  otherwise only if \<open>realloc\<close> does.
\<close>

theorem append_output_enqueues:
  assumes "conn_ok conn" "alloc_ok alloc"
  shows "\<exists>r conn'. append_output alloc conn data = Some (r, conn') \<and> conn_ok conn'
     \<and> queue conn' = (if r = Inr () then queue conn @ data else queue conn)
     \<and> (r = Inl ENOBUFS \<longleftrightarrow> MAX_OUTPUT_CAPACITY < length (queue conn) + length data)
     \<and> ((\<forall>n. alloc n \<noteq> None) \<longrightarrow> r = Inr () \<or> r = Inl ENOBUFS)"
proof (rule append_output_cases [OF assms, of data], goal_cases)
  case 1
  then show ?case using assms(1) by simp
next
  case (2 conn')
  then show ?case by auto
next
  case (3 conn')
  then show ?case by auto
qed

definition demo_sock :: chan where
  "demo_sock = \<lparr>k_in = ''abcde'', k_rsched = [RdGive 1, RdFail EINTR, RdGive 0, RdFail EAGAIN],
     k_out = [], k_wsched = [WrTake 0, WrFail EAGAIN]\<rparr>"

definition demo_alloc :: "nat \<Rightarrow> bytes option" where
  "demo_alloc n = Some (replicate n NUL)"

lemma demo_alloc_ok: "alloc_ok demo_alloc"
  by (simp add: alloc_ok_def demo_alloc_def)

theorem append_output_enqueues_witness:
  "\<exists>conn'. append_output demo_alloc (new_connection demo_sock) ''xyz'' = Some (Inr (), conn') \<and> queue conn' = ''xyz''"
  using append_output_enqueues [OF new_connection_ok(1) demo_alloc_ok, of demo_sock "''xyz''"]
  by (auto simp: MAX_OUTPUT_CAPACITY_def demo_alloc_def)

text \<open>
  \<open>flush_output\<close> writes the pending bytes in order, none lost and none repeated, whatever short
  counts, interruptions and errors \<open>write\<close> returns: what is written together with what stays
  pending is what was there before. It reports success with bytes left only if the socket answered
  \<open>EAGAIN\<close>.
\<close>

lemma flush_output_dequeues:
  assumes "conn_ok conn" "flush_output conn = (ok, conn')"
  shows "conn_ok conn' \<and> k_out (conn_sock conn') @ queue conn' = k_out (conn_sock conn) @ queue conn
     \<and> (ok \<longrightarrow> queue conn' \<noteq> [] \<longrightarrow> WrFail EAGAIN \<in> set (k_wsched (conn_sock conn)))"
  using flush_output_props [OF assms(2,1)] by blast

definition demo_conn :: connection where
  "demo_conn = \<lparr>conn_sock = demo_sock, output_mem = ''..hello..'', output_capacity = 9, output_begin = 2,
     output_end = 7, peer_eof = False\<rparr>"

lemma flush_output_dequeues_witness:
  "queue demo_conn = ''hello'' \<and> k_out (conn_sock (snd (flush_output demo_conn))) = ''h''
     \<and> queue (snd (flush_output demo_conn)) = ''ello''"
proof -
  have c: "conn_ok demo_conn" "queue demo_conn = ''hello''"
    by (simp_all add: demo_conn_def conn_ok_def queue_def MAX_OUTPUT_CAPACITY_def)
  have o: "k_out (conn_sock (snd (flush_output demo_conn))) = ''h''"
    by (simp add: flush_output.simps demo_conn_def demo_sock_def pending_output_def size_sub_def kwrite_def)
  have "k_out (conn_sock (snd (flush_output demo_conn))) @ queue (snd (flush_output demo_conn)) = ''hello''"
    using flush_output_dequeues [OF c(1) surjective_pairing] c(2)
    by (simp add: demo_conn_def demo_sock_def)
  with c o show ?thesis by simp
qed

text \<open>
  C9: \<open>drain_input\<close> satisfies the contract of edge-triggered notification: it always returns, and
  when it returns success it has read until \<open>EAGAIN\<close> or end of file, and every byte it read is
  either written back or pending, in order.
\<close>

theorem drain_input_drains:
  assumes "conn_ok conn" "alloc_ok alloc"
  shows "\<exists>ok conn'. drain_input alloc conn = Some (ok, conn') \<and> conn_ok conn'
     \<and> (ok \<longrightarrow> k_out (conn_sock conn') @ queue conn' @ k_in (conn_sock conn')
            = k_out (conn_sock conn) @ queue conn @ k_in (conn_sock conn)
          \<and> (peer_eof conn' \<or> (\<exists>xs. k_rsched (conn_sock conn) = xs @ RdFail EAGAIN # k_rsched (conn_sock conn'))))"
  using drain_input_props [OF assms] unfolding flow_def drained_def by fastforce

theorem drain_input_drains_witness:
  "\<exists>ok conn'. drain_input demo_alloc (new_connection demo_sock) = Some (ok, conn')
     \<and> (ok \<longrightarrow> k_out (conn_sock conn') @ queue conn' @ k_in (conn_sock conn') = ''abcde'')"
  using drain_input_drains [OF new_connection_ok(1) demo_alloc_ok, of demo_sock]
  by (auto simp: demo_sock_def)

text \<open>
  C4: Echo. Over the whole life of a connection, under any sequence of events and any behaviour of
  the socket, what has been sent back is a prefix of what the client sent; while the connection is
  open nothing is missing (sent, pending and unread bytes together are the client's bytes), and a
  connection that is closed without a failure has sent back everything.
\<close>

theorem et_echo_exact:
  assumes "alloc_ok alloc" "k_out sock = []"
  shows "\<exists>r. conn_run alloc evs (new_connection sock) = Some r \<and>
     (case r of
        Kept c \<Rightarrow> k_out (conn_sock c) @ queue c @ k_in (conn_sock c) = k_in sock
      | Closed failed c \<Rightarrow>
          (\<exists>rest. k_out (conn_sock c) @ rest = k_in sock) \<and> (\<not> failed \<longrightarrow> k_out (conn_sock c) = k_in sock))"
proof -
  obtain r where r: "conn_run alloc evs (new_connection sock) = Some r" "conn_result (new_connection sock) r"
    using conn_run_props [OF new_connection_ok(1) assms(1)] by fastforce
  have f: "flow (new_connection sock) = k_in sock" using assms(2) by (simp add: flow_def)
  show ?thesis
  proof (cases r)
    case (Kept c)
    with r f show ?thesis by (simp add: conn_result_def flow_def)
  next
    case (Closed failed c)
    with r f show ?thesis by (simp add: conn_result_def) blast
  qed
qed

theorem et_echo_exact_witness:
  "\<exists>r. conn_run demo_alloc [({EPOLLIN}, True), ({EPOLLOUT}, True), ({EPOLLIN, EPOLLOUT}, True)]
         (new_connection demo_sock) = Some r"
  using et_echo_exact [OF demo_alloc_ok, of demo_sock "[({EPOLLIN}, True), ({EPOLLOUT}, True), ({EPOLLIN, EPOLLOUT}, True)]"]
  by (auto simp: demo_sock_def)

text \<open>
  C8: The event loop never touches a freed connection: if the events of one \<open>epoll_wait\<close> name
  distinct registered connections, the whole batch is processed even though handling an event may
  close its connection and accepting may allocate new ones. Afterwards every connection is
  registered for exactly the events it needs: output readiness if and only if bytes are pending.
\<close>

theorem et_batch_safe:
  assumes "alloc_ok alloc" "server_ok s" "distinct (batch_ptrs evs)"
    and "\<forall>p \<in> set (batch_ptrs evs). et_conns s p \<noteq> None"
  shows "\<exists>running s'. et_batch alloc evs s = Some (running, s') \<and> server_ok s'
     \<and> (\<forall>p conn. et_conns s' p = Some conn \<longrightarrow>
          (\<exists>i. et_interest s' p = Some i \<and> (EPOLLOUT \<in> i \<longleftrightarrow> queue conn \<noteq> []) \<and> (EPOLLIN \<in> i \<longleftrightarrow> \<not> peer_eof conn)))"
proof -
  obtain running s' where s': "et_batch alloc evs s = Some (running, s')" "server_ok s'"
    using et_batch_props [OF assms] by blast
  moreover have "\<exists>i. et_interest s' p = Some i \<and> (EPOLLOUT \<in> i \<longleftrightarrow> queue conn \<noteq> []) \<and> (EPOLLIN \<in> i \<longleftrightarrow> \<not> peer_eof conn)"
    if "et_conns s' p = Some conn" for p conn
    using that s'(2) pending_output_queue [of conn] by (auto simp: server_ok_def connection_events_def)
  ultimately show ?thesis by blast
qed

definition demo_server :: et_server where
  "demo_server = \<lparr>et_conns = [0 \<mapsto> new_connection demo_sock],
     et_interest = [0 \<mapsto> connection_events (new_connection demo_sock)], et_next = 1\<rparr>"

theorem et_batch_safe_witness:
  "\<exists>running s'. et_batch demo_alloc
      [\<lparr>ev_ptr = None, ev_ready = {EPOLLIN}, ev_accepts = [AccConn demo_sock True, AccNoMem], ev_mod_ok = True\<rparr>,
       \<lparr>ev_ptr = Some 0, ev_ready = {EPOLLIN}, ev_accepts = [], ev_mod_ok = True\<rparr>] demo_server
     = Some (running, s') \<and> server_ok s'"
proof -
  have "server_ok demo_server" by (auto simp: server_ok_def demo_server_def fun_eq_iff split: if_splits)
  then show ?thesis
    using et_batch_safe [OF demo_alloc_ok, of demo_server
      "[\<lparr>ev_ptr = None, ev_ready = {EPOLLIN}, ev_accepts = [AccConn demo_sock True, AccNoMem], ev_mod_ok = True\<rparr>,
       \<lparr>ev_ptr = Some 0, ev_ready = {EPOLLIN}, ev_accepts = [], ev_mod_ok = True\<rparr>]"]
    by (fastforce simp: demo_server_def)
qed

end
