(* ===== verification/Tiny_Text.thy ===== *)
theory Tiny_Text
  imports C_Text
begin

text \<open>
  The text processing of \<open>Chapter11/tiny_web/tiny.c\<close>: the request line, one header line, the URI,
  the upload path, the MIME type, the multipart body, and the texts of the responses; and the CGI
  program \<open>cgi-bin/adder.c\<close>. Strings are C strings (no NUL inside). \<open>None\<close> stands for undefined
  behaviour: text that does not fit the array \<open>sprintf\<close>, \<open>strcpy\<close> or \<open>strcat\<close> stores it in, an
  index -1, or a null pointer.
\<close>

section \<open>Requests\<close>

definition MAXLINE :: nat where "MAXLINE = 8192"
definition MAXBUF :: nat where "MAXBUF = 8192"
definition UPLOAD_DIR :: bytes where "UPLOAD_DIR = ''./uploads''"
definition MAX_UPLOAD :: int where "MAX_UPLOAD = 64 * 1024 * 1024"

text \<open>
  \<open>sscanf(buf, "%s %s %s", method, uri, version)\<close>: a field that the line does not have keeps the
  string its array held before, the second argument.
\<close>

fun scan_fields :: "bytes \<Rightarrow> bytes list \<Rightarrow> bytes list" where
  "scan_fields s [] = []"
| "scan_fields s (old # olds) =
     (let t = dropWhile isspace s; w = takeWhile (\<lambda>c. \<not> isspace c) t
      in if w = [] then old # olds else w # scan_fields (drop (length w) t) olds)"

text \<open>One header line: the new \<open>content_length\<close> and \<open>content_type\<close>.\<close>

definition header_line :: "bytes \<Rightarrow> int \<times> bytes \<Rightarrow> int \<times> bytes" where
  "header_line buf ctx =
     (if strncaseeq buf ''Content-Length:'' 15 then (atol (drop 15 buf), snd ctx)
      else if strncaseeq buf ''Content-Type:'' 13 then
        (fst ctx, takeWhile (\<lambda>c. c \<noteq> CR \<and> c \<noteq> LF)
                    (take (MAXLINE - 1) (dropWhile (\<lambda>c. c = CHR '' '') (drop 13 buf))))
      else ctx)"

text \<open>\<open>parse_uri\<close>: whether the content is static, the file name and the CGI arguments.\<close>

definition parse_uri :: "bytes \<Rightarrow> (bool \<times> bytes \<times> bytes) option" where
  "parse_uri uri =
     (if strstr uri ''cgi-bin'' = None then
        (if uri = [] then None
         else let filename = ''.'' @ uri @ (if last uri = CHR ''/'' then ''home.html'' else [])
              in if length filename < MAXLINE then Some (True, filename, []) else None)
      else
        (let (path, cgiargs) =
               (case strchr uri (CHR ''?'') of
                  Some ptr \<Rightarrow> (take ptr uri, drop (ptr + 1) uri)
                | None \<Rightarrow> (uri, []));
             filename = ''.'' @ path
         in if length filename < MAXLINE then Some (False, filename, cgiargs) else None))"

definition get_filetype :: "bytes \<Rightarrow> bytes" where
  "get_filetype filename =
     (if strstr filename ''.html'' \<noteq> None then ''text/html''
      else if strstr filename ''.gif'' \<noteq> None then ''image/gif''
      else if strstr filename ''.png'' \<noteq> None then ''image/png''
      else if strstr filename ''.jpg'' \<noteq> None then ''image/jpeg''
      else ''text/plain'')"

definition upload_path :: "bytes \<Rightarrow> bytes" where
  "upload_path name =
     (let base = (case strrchr name (CHR ''/'') of Some i \<Rightarrow> drop (i + 1) name | None \<Rightarrow> name);
          base = (if base = [] \<or> base = ''.'' \<or> base = ''..'' then ''upload.bin'' else base)
      in take (MAXLINE - 1) (UPLOAD_DIR @ ''/'' @ base))"

section \<open>Multipart bodies\<close>

text \<open>
  The analysis of a POST body: the file name found in the first part (a C string, empty if there is
  none) and the content to save. Offsets replace the pointers into \<open>body\<close>.
\<close>

definition part_filename :: "bytes \<Rightarrow> bytes" where
  "part_filename hdr =
     (case memmem hdr ''filename=\"'' of
        None \<Rightarrow> []
      | Some fn \<Rightarrow>
          (let rest = drop (fn + 10) hdr
           in case strchr rest (CHR 0x22) of
                None \<Rightarrow> []
              | Some fe \<Rightarrow> if fe < MAXLINE then cstr (take fe rest) else []))"

definition multipart :: "bytes \<Rightarrow> bytes \<Rightarrow> bytes \<times> bytes" where
  "multipart content_type body =
     (case strstr content_type ''boundary='' of
        None \<Rightarrow> ([], body)
      | Some bpos \<Rightarrow>
          (let boundary = take (MAXLINE - 1) (''--'' @ drop (bpos + 9) content_type)
           in case memmem body boundary of
                None \<Rightarrow> ([], body)
              | Some p0 \<Rightarrow>
                  (let p = drop (p0 + length boundary) body
                   in case memmem p (CRLF @ CRLF) of
                        None \<Rightarrow> ([], body)
                      | Some hdr_end \<Rightarrow>
                          (let filename = part_filename (take hdr_end p);
                               cstart = drop (hdr_end + 4) p;
                               sep = take (MAXLINE - 1) (CRLF @ boundary)
                           in case memmem cstart sep of
                                None \<Rightarrow> (filename, body)
                              | Some cend \<Rightarrow> (filename, take cend cstart)))))"

section \<open>Responses\<close>

text \<open>The header block and the body \<open>upload_response\<close> sends.\<close>

definition upload_body :: "bytes \<Rightarrow> int \<Rightarrow> bytes" where
  "upload_body savepath nbytes =
     ''<html><title>Upload</title><body bgcolor=\"ffffff\">'' @ CRLF @
     ''<p>Saved <b>'' @ savepath @ ''</b> ('' @ dec_int nbytes @ '' bytes)'' @ CRLF @
     ''<hr><em>The Tiny Web server</em>'' @ CRLF @ ''</body></html>'' @ CRLF"

definition upload_header :: "bytes \<Rightarrow> bytes \<Rightarrow> bytes" where
  "upload_header status body =
     ''HTTP/1.0 '' @ status @ CRLF @ ''Server: Tiny Web Server'' @ CRLF @ ''Connection: close'' @ CRLF @
     ''Content-length: '' @ dec_int (c_int (int (length body))) @ CRLF @ ''Content-type: text/html'' @ CRLF @ CRLF"

definition static_header :: "bytes \<Rightarrow> int \<Rightarrow> bytes" where
  "static_header filename filesize =
     ''HTTP/1.0 200 OK'' @ CRLF @ ''Server: Tiny Web Server'' @ CRLF @ ''Connection: close'' @ CRLF @
     ''Content-length: '' @ dec_int filesize @ CRLF @ ''Content-type: '' @ get_filetype filename @ CRLF @ CRLF"

definition error_body :: "bytes \<Rightarrow> bytes \<Rightarrow> bytes \<Rightarrow> bytes \<Rightarrow> bytes" where
  "error_body cause errnum shortmsg longmsg =
     ''<html><title>Tiny Error</title>'' @ ''<body bgcolor=\"ffffff\">'' @ CRLF @
     errnum @ '': '' @ shortmsg @ CRLF @ ''<p>'' @ longmsg @ '': '' @ cause @ CRLF @
     ''<hr><em>The Tiny Web server</em>'' @ CRLF"

text \<open>
  The texts \<open>clienterror\<close> sends, one per \<open>rio_writen\<close>; \<open>None\<close> when the page overflows \<open>body\<close>.
\<close>

definition clienterror_texts :: "bytes \<Rightarrow> bytes \<Rightarrow> bytes \<Rightarrow> bytes \<Rightarrow> bytes list option" where
  "clienterror_texts cause errnum shortmsg longmsg =
     (let body = error_body cause errnum shortmsg longmsg
      in if length body < MAXBUF then
           Some [''HTTP/1.0 '' @ errnum @ '' '' @ shortmsg @ CRLF,
                 ''Content-type: text/html'' @ CRLF,
                 ''Content-length: '' @ dec_int (c_int (int (length body))) @ CRLF @ CRLF,
                 body]
         else None)"

section \<open>The CGI program\<close>

text \<open>
  \<open>main\<close> of \<open>adder.c\<close>: the text printed for a value of \<open>QUERY_STRING\<close>. The page shows the string
  \<open>buf\<close> after its ampersand was overwritten. The sum is computed in \<open>int\<close>, where
  overflow is undefined.
\<close>

definition adder_content :: "bytes \<Rightarrow> int \<Rightarrow> int \<Rightarrow> bytes" where
  "adder_content shown n1 n2 =
     ''QUERY_STRING='' @ shown @ ''Welcome to add.com: '' @ ''THE Internet addition portal.'' @ CRLF @ ''<p>'' @
     ''The answer is: '' @ dec_int n1 @ '' + '' @ dec_int n2 @ '' = '' @ dec_int (n1 + n2) @ CRLF @ ''<p>'' @
     ''Thanks for visiting!'' @ CRLF"

definition adder_page :: "bytes \<Rightarrow> bytes option" where
  "adder_page content =
     (if length content < MAXLINE then
        Some (''Connection: close'' @ CRLF @ ''Content-length: '' @ dec_int (int (length content)) @ CRLF @
              ''Content-type: text/html'' @ CRLF @ CRLF @ content)
      else None)"

definition adder :: "bytes option \<Rightarrow> bytes option" where
  "adder query =
     (case query of
        None \<Rightarrow> adder_page (adder_content [] 0 0)
      | Some buf \<Rightarrow>
          (case strchr buf (CHR ''&'') of
             None \<Rightarrow> None
           | Some p \<Rightarrow>
               (let n1 = atoi (take p buf); n2 = atoi (drop (p + 1) buf)
                in if length buf < MAXLINE \<and> - (2 ^ 31) \<le> n1 + n2 \<and> n1 + n2 \<le> INT_MAX then
                     adder_page (adder_content (take p buf) n1 n2)
                   else None)))"

section \<open>Lemmas\<close>

lemma memmem_extend:
  assumes "memmem (a @ pat) pat = Some (length a)"
  shows "memmem (a @ pat @ c) pat = Some (length a)"
proof (rule memmem_eqI)
  show "prefix pat (drop (length a) (a @ pat @ c))" by simp
  show "\<forall>j < length a. \<not> prefix pat (drop j (a @ pat @ c))"
  proof (intro allI impI notI)
    fix j assume j: "j < length a" "prefix pat (drop j (a @ pat @ c))"
    then have "drop j (a @ pat @ c) = drop j (a @ pat) @ c" by simp
    with j(2) have "prefix pat (drop j (a @ pat) @ c)" by simp
    moreover have "prefix (drop j (a @ pat)) (drop j (a @ pat) @ c)" by simp
    moreover have "length pat \<le> length (drop j (a @ pat))" using j(1) by simp
    ultimately have "prefix pat (drop j (a @ pat))" by (rule prefix_length_prefix)
    then show False using memmem_SomeD [OF assms] j(1) by blast
  qed
qed simp

lemma memmem_0: "memmem (pat @ c) pat = Some 0"
  by (simp add: memmem.simps)

lemma part_filename_eq:
  assumes "memmem hdr ''filename=\"'' = Some (length pre)" "hdr = pre @ ''filename=\"'' @ f @ CHR 0x22 # post"
    and "CHR 0x22 \<notin> set f" "NUL \<notin> set f" "length f < MAXLINE"
  shows "part_filename hdr = f"
  using assms strchr_append [of "CHR 0x22" f post] by (simp add: part_filename_def cstr_id)

lemma multipart_eq:
  assumes "strstr ct ''boundary='' = Some bpos" "bd = ''--'' @ drop (bpos + 9) ct" "length bd + 2 < MAXLINE"
    and "memmem (hdr @ CRLF @ CRLF) (CRLF @ CRLF) = Some (length hdr)"
    and "memmem (content @ CRLF @ bd) (CRLF @ bd) = Some (length content)"
  shows "multipart ct (bd @ hdr @ CRLF @ CRLF @ content @ CRLF @ bd @ rest) = (part_filename hdr, content)"
proof -
  have h: "memmem (hdr @ (CRLF @ CRLF) @ (content @ CRLF @ bd @ rest)) (CRLF @ CRLF) = Some (length hdr)"
    by (rule memmem_extend) (use assms(4) in simp)
  have c: "memmem (content @ (CRLF @ bd) @ rest) (CRLF @ bd) = Some (length content)"
    by (rule memmem_extend) (use assms(5) in simp)
  have t: "take (MAXLINE - 1) bd = bd" "take (MAXLINE - 1) (CRLF @ bd) = CRLF @ bd" using assms(3) by simp_all
  have e: "take (MAXLINE - 1) (''--'' @ drop (bpos + 9) ct) = bd" using t(1) unfolding assms(2) .
  show ?thesis
    using assms(1) h c t(2) e memmem_0 [of bd "hdr @ CRLF @ CRLF @ content @ CRLF @ bd @ rest"]
    by (simp add: multipart_def Let_def)
qed

lemma amp_notin_dec_int: "CHR ''&'' \<notin> set (dec_int x)"
  using dec_nat_digits [of "nat x"] dec_nat_digits [of "nat (- x)"]
  by (auto simp: dec_int_def isdigit_def)

lemma multipart_length: "multipart ct body = (f, content) \<Longrightarrow> length content \<le> length body"
  by (auto simp: multipart_def Let_def split: option.splits)

lemma upload_path_base:
  "\<exists>base. upload_path name = UPLOAD_DIR @ ''/'' @ base \<and> base \<noteq> [] \<and> CHR ''/'' \<notin> set base
     \<and> base \<noteq> ''.'' \<and> base \<noteq> ''..'' \<and> length (upload_path name) < MAXLINE"
proof -
  define base0 where "base0 = (case strrchr name (CHR ''/'') of Some i \<Rightarrow> drop (i + 1) name | None \<Rightarrow> name)"
  define base where "base = (if base0 = [] \<or> base0 = ''.'' \<or> base0 = ''..'' then ''upload.bin'' else base0)"
  have s: "CHR ''/'' \<notin> set base0"
    using strrchr_SomeD [of name "CHR ''/''"] strrchr_None [of name "CHR ''/''"]
    by (auto simp: base0_def split: option.splits)
  then have b: "CHR ''/'' \<notin> set base" "base \<noteq> []" "base \<noteq> ''.''" "base \<noteq> ''..''"
    by (auto simp: base_def)
  have u: "upload_path name = UPLOAD_DIR @ ''/'' @ take 8181 base"
    by (simp add: upload_path_def Let_def base_def base0_def UPLOAD_DIR_def MAXLINE_def)
  have "take 8181 base \<noteq> ''.'' \<and> take 8181 base \<noteq> ''..''"
  proof (cases "length base \<le> 8181")
    case False
    then have "length (take 8181 base) = 8181" by simp
    then have "take 8181 base \<noteq> s" if "length s < 3" for s using that by auto
    then show ?thesis by simp
  qed (use b in simp)
  moreover have "CHR ''/'' \<notin> set (take 8181 base)" using b(1) by (meson in_set_takeD)
  ultimately show ?thesis
    using u b(2) by (intro exI [of _ "take 8181 base"]) (auto simp: UPLOAD_DIR_def MAXLINE_def)
qed

section \<open>Properties\<close>

text \<open>
  C11: A multipart upload is decoded exactly. If the body is encoded with the boundary announced in
  the content type, and neither the part header nor the content contains the delimiter that ends it,
  the bytes found are the content and the name is the quoted one, whatever else (NUL bytes
  included) the content holds.
\<close>

theorem multipart_roundtrip:
  assumes "strstr ct ''boundary='' = Some bpos" "bd = ''--'' @ drop (bpos + 9) ct" "length bd + 2 < MAXLINE"
    and "hdr = pre @ ''filename=\"'' @ f @ CHR 0x22 # post" "memmem hdr ''filename=\"'' = Some (length pre)"
    and "CHR 0x22 \<notin> set f" "NUL \<notin> set f" "length f < MAXLINE"
    and "memmem (hdr @ CRLF @ CRLF) (CRLF @ CRLF) = Some (length hdr)"
    and "memmem (content @ CRLF @ bd) (CRLF @ bd) = Some (length content)"
  shows "multipart ct (bd @ hdr @ CRLF @ CRLF @ content @ CRLF @ bd @ rest) = (f, content)"
  using multipart_eq [OF assms(1-3,9,10)] part_filename_eq [OF assms(5,4,6-8)] by simp

theorem multipart_roundtrip_witness:
  "multipart ''multipart/form-data; boundary=XY''
     (''--XY'' @ (CRLF @ ''Content-Disposition: form-data; filename=\"a.bin\"'') @ CRLF @ CRLF @
      [NUL, CHR ''-'', LF] @ CRLF @ ''--XY'' @ ''--'') = (''a.bin'', [NUL, CHR ''-'', LF])"
  by (rule multipart_roundtrip [where bpos = 21 and pre = "CRLF @ ''Content-Disposition: form-data; ''" and post = "[]"])
     (simp_all add: memmem.simps MAXLINE_def)

text \<open>
  The error page of \<open>clienterror\<close> announces its length correctly whenever it fits the array; a
  long enough cause, which a client chooses, makes \<open>sprintf\<close> overflow the array instead.
\<close>

lemma clienterror_length:
  "clienterror_texts cause errnum shortmsg longmsg =
     (if 101 + length errnum + length shortmsg + length longmsg + length cause < MAXBUF then
        Some [''HTTP/1.0 '' @ errnum @ '' '' @ shortmsg @ CRLF, ''Content-type: text/html'' @ CRLF,
              ''Content-length: '' @ dec_nat (length (error_body cause errnum shortmsg longmsg)) @ CRLF @ CRLF,
              error_body cause errnum shortmsg longmsg]
      else None)"
proof -
  let ?n = "length (error_body cause errnum shortmsg longmsg)"
  have l: "?n = 101 + length errnum + length shortmsg + length longmsg + length cause"
    by (simp add: error_body_def)
  have "?n < MAXBUF \<Longrightarrow> dec_int (c_int (int ?n)) = dec_nat ?n"
    by (simp add: c_int_id MAXBUF_def dec_int_def)
  then show ?thesis using l by (simp add: clienterror_texts_def Let_def)
qed

text \<open>
  The CGI adder prints a page with the sum of the two numbers of its query string, whose length
  header is exact; a query string without an ampersand makes it follow a null pointer.
\<close>

lemma adder_correct:
  assumes "- (2 ^ 31) \<le> a" "a \<le> INT_MAX" "- (2 ^ 31) \<le> b" "b \<le> INT_MAX"
    and "- (2 ^ 31) \<le> a + b" "a + b \<le> INT_MAX"
  shows "(\<exists>hd. adder (Some (dec_int a @ ''&'' @ dec_int b)) =
        Some (hd @ ''Content-length: '' @ dec_nat (length (adder_content (dec_int a) a b)) @ CRLF @
              ''Content-type: text/html'' @ CRLF @ CRLF @ adder_content (dec_int a) a b))
     \<and> (CHR ''&'' \<notin> set q \<longrightarrow> adder (Some q) = None)"
proof -
  have r: "LONG_MIN \<le> x \<and> x \<le> LONG_MAX" if "- (2 ^ 31) \<le> x" "x \<le> INT_MAX" for x
    using that by (simp add: LONG_MIN_def LONG_MAX_def INT_MAX_def)
  have at: "atoi (dec_int x) = x" if "- (2 ^ 31) \<le> x" "x \<le> INT_MAX" for x
    using atol_dec_int [of x "[]"] r [OF that] that by (simp add: atoi_def c_int_id INT_MAX_def)
  have len: "length (dec_int a) \<le> 20" "length (dec_int b) \<le> 20" "length (dec_int (a + b)) \<le> 20"
    using length_dec_int r assms by blast+
  have "CHR ''&'' \<notin> set (dec_int a)" by (rule amp_notin_dec_int)
  then have s: "strchr (dec_int a @ ''&'' @ dec_int b) (CHR ''&'') = Some (length (dec_int a))"
    using strchr_append by simp
  have "length (adder_content (dec_int a) a b) < MAXLINE"
    using len by (simp add: adder_content_def MAXLINE_def)
  moreover have "adder (Some (dec_int a @ ''&'' @ dec_int b)) = adder_page (adder_content (dec_int a) a b)"
    using s at assms len by (simp add: adder_def Let_def MAXLINE_def)
  moreover have "dec_int (int n) = dec_nat n" for n by (simp add: dec_int_def)
  moreover have "CHR ''&'' \<notin> set q \<longrightarrow> adder (Some q) = None"
    using strchr_None [of q "CHR ''&''"] by (auto simp: adder_def split: option.split)
  ultimately show ?thesis by (simp add: adder_page_def)
qed

lemma adder_correct_witness:
  "\<exists>hd. adder (Some (dec_int 15000 @ ''&'' @ dec_int 213)) =
        Some (hd @ ''Content-length: '' @ dec_nat (length (adder_content (dec_int 15000) 15000 213)) @ CRLF @
              ''Content-type: text/html'' @ CRLF @ CRLF @ adder_content (dec_int 15000) 15000 213)"
  using adder_correct [of 15000 213] by (simp add: INT_MAX_def)

end
