(* ===== verification/Tiny.thy ===== *)
theory Tiny
  imports Tiny_Text Rio
begin

text \<open>
  The Tiny web server, \<open>Chapter11/tiny_web/tiny.c\<close>: one HTTP transaction on one connection, from
  the request line to the response, over the RIO package and a file system. The result of a transaction is the file system
  and how the transaction ended: it returned, it never ends (\<open>read_requesthdrs\<close> at end of file, a CGI program that stays),
  it reached undefined behaviour (an array that overflows), or it went on in a child process whose \<open>execve\<close> failed. What
  lies outside the program is the environment record: whether a file can be created and how the
  disk answers the writes, whether it can be mapped, whether \<open>malloc\<close>, \<open>fork\<close> and \<open>execve\<close> succeed, what a CGI program prints and does to the
  files, and what the uninitialised arrays of \<open>doit\<close> hold. Log lines on the server's terminal are left out.
\<close>

section \<open>State\<close>

record tfile =
  f_data :: bytes
  f_reg :: bool
  f_rusr :: bool
  f_xusr :: bool

type_synonym files = "bytes \<Rightarrow> tfile option"
type_synonym conn = "rio_t \<times> chan"

text \<open>
  What becomes of \<open>fork\<close> and \<open>execve\<close>: the program that runs prints something, changes the files, and ends or stays for ever.
\<close>

datatype cgi_run = No_fork | No_exec | Cgi bytes "files \<Rightarrow> files" bool

record env =
  e_open :: "bytes \<Rightarrow> wr_ev list option"
  e_map :: "bytes \<Rightarrow> bool"
  e_malloc :: "int \<Rightarrow> bool"
  e_cgi :: "bytes \<Rightarrow> bytes \<Rightarrow> cgi_run"
  e_rio :: rio_t
  e_buf :: bytes
  e_hdrbuf :: bytes
  e_fields :: "bytes list"

text \<open>
  The end of a transaction. In \<open>Child_serves\<close> the parent waits for ever and the child, which has come back from \<open>serve_dynamic\<close>,
  goes on as the server.
\<close>

datatype txn_end = Returned conn | Hung | Undefined | Child_serves conn

text \<open>The end of a function that returns, or overflows an array.\<close>

definition ends :: "conn option \<Rightarrow> txn_end" where
  "ends r = (case r of None \<Rightarrow> Undefined | Some rc \<Rightarrow> Returned rc)"

lemma ends_simps [simp]: "ends None = Undefined" "ends (Some rc) = Returned rc"
  by (simp_all add: ends_def)

text \<open>A file opened with \<open>O_WRONLY | O_CREAT | O_TRUNC\<close>, and what it holds when it is closed.\<close>

definition new_file :: "wr_ev list \<Rightarrow> chan" where
  "new_file sched = \<lparr>k_in = [], k_rsched = [], k_out = [], k_wsched = sched\<rparr>"

definition store_file :: "bytes \<Rightarrow> bytes \<Rightarrow> files \<Rightarrow> files" where
  "store_file path data fs =
     fs(path \<mapsto> (case fs path of
                    None \<Rightarrow> \<lparr>f_data = data, f_reg = True, f_rusr = True, f_xusr = False\<rparr>
                  | Some f \<Rightarrow> f\<lparr>f_data := data\<rparr>))"

section \<open>Responses\<close>

text \<open>\<open>rio_writen\<close> to the client; the sources ignore its result.\<close>

definition send :: "bytes \<Rightarrow> conn \<Rightarrow> conn" where
  "send bs rc = (fst rc, snd (rio_writen (snd rc) bs))"

definition clienterror :: "bytes \<Rightarrow> bytes \<Rightarrow> bytes \<Rightarrow> bytes \<Rightarrow> conn \<Rightarrow> conn option" where
  "clienterror cause errnum shortmsg longmsg rc =
     map_option (\<lambda>texts. fold send texts rc) (clienterror_texts cause errnum shortmsg longmsg)"

definition upload_response :: "bytes \<Rightarrow> bytes \<Rightarrow> int \<Rightarrow> conn \<Rightarrow> conn option" where
  "upload_response status savepath nbytes rc =
     (let body = upload_body savepath nbytes
      in if length body < MAXBUF then Some (send body (send (upload_header status body) rc)) else None)"

text \<open>
  The size goes through an \<open>int\<close>. Where the file cannot be opened or mapped, or the \<open>int\<close> is negative, \<open>mmap\<close> fails, and so
  do the write from and the unmapping of the address it returns: the client gets the headers alone.
\<close>

definition serve_static :: "env \<Rightarrow> bytes \<Rightarrow> tfile \<Rightarrow> conn \<Rightarrow> conn" where
  "serve_static env filename f rc =
     (let filesize = c_int (int (length (f_data f))); rc1 = send (static_header filename filesize) rc
      in if filesize < 0 \<or> \<not> e_map env filename then rc1 else send (take (nat filesize) (f_data f)) rc1)"

text \<open>Without a child \<open>wait\<close> returns at once; a child whose \<open>execve\<close> fails returns from its own \<open>wait\<close>.\<close>

definition serve_dynamic :: "env \<Rightarrow> bytes \<Rightarrow> bytes \<Rightarrow> files \<Rightarrow> conn \<Rightarrow> files \<times> txn_end" where
  "serve_dynamic env filename cgiargs fs rc =
     (let rc1 = send (''Server: Tiny Web Server'' @ CRLF) (send (''HTTP/1.0 200 OK'' @ CRLF) rc)
      in case e_cgi env filename cgiargs of
           No_fork \<Rightarrow> (fs, Returned rc1)
         | No_exec \<Rightarrow> (fs, Child_serves rc1)
         | Cgi printed change exits \<Rightarrow> (change fs, if exits then Returned (send printed rc1) else Hung))"

section \<open>Reading the request\<close>

partial_function (option) requesthdrs_loop :: "bytes \<Rightarrow> int \<times> bytes \<Rightarrow> conn \<Rightarrow> ((int \<times> bytes) \<times> conn) option" where
  "requesthdrs_loop buf ctx rc =
     (if cstr buf = CRLF then Some (ctx, rc)
      else case rio_readlineb MAXLINE rc of (r, bs, rc') \<Rightarrow>
             requesthdrs_loop (overlay bs buf) (header_line (cstr buf) ctx) rc')"

text \<open>\<open>buf\<close> is what the uninitialised array holds on entry.\<close>

definition read_requesthdrs :: "bytes \<Rightarrow> int \<times> bytes \<Rightarrow> conn \<Rightarrow> ((int \<times> bytes) \<times> conn) option" where
  "read_requesthdrs buf ctx rc =
     (case rio_readlineb MAXLINE rc of (r, bs, rc') \<Rightarrow> requesthdrs_loop (overlay bs buf) ctx rc')"

section \<open>Uploads\<close>

text \<open>The copying loop of \<open>serve_put\<close>: what remains to be copied, the connection, the file.\<close>

function put_loop :: "int \<Rightarrow> conn \<Rightarrow> chan \<Rightarrow> int \<times> conn \<times> chan" where
  "put_loop remaining rc out =
     (if 0 < remaining then
        (let want = (if remaining < int MAXBUF then nat remaining else MAXBUF)
         in case rio_readnb want rc of
              (Inl e, bs, rc') \<Rightarrow> (remaining, rc', out)
            | (Inr n, bs, rc') \<Rightarrow>
                if n = 0 then (remaining, rc', out)
                else put_loop (remaining - int n) rc' (snd (rio_writen out bs)))
      else (remaining, rc, out))"
  by pat_completeness auto
termination
  by (relation "measure (\<lambda>(remaining, rc, out). nat remaining)") auto

definition serve_put :: "env \<Rightarrow> bytes \<Rightarrow> int \<Rightarrow> files \<Rightarrow> conn \<Rightarrow> files \<times> txn_end" where
  "serve_put env uri content_length fs rc =
     (if content_length < 0 then
        (fs, ends (clienterror ''PUT'' ''411'' ''Length Required'' ''PUT requires a Content-Length header'' rc))
      else let savepath = upload_path uri
           in case e_open env savepath of
                None \<Rightarrow>
                  (fs, ends (clienterror savepath ''500'' ''Internal Server Error'' ''Tiny couldn't open the file for writing'' rc))
              | Some sched \<Rightarrow>
                  (case put_loop content_length rc (new_file sched) of (remaining, rc', out) \<Rightarrow>
                     (store_file savepath (k_out out) fs,
                      ends (upload_response ''201 Created'' savepath (content_length - remaining) rc'))))"

text \<open>The reading loop of \<open>serve_post\<close>, with the bytes stored in \<open>body\<close> and their count \<open>got\<close>.\<close>

function post_loop :: "int \<Rightarrow> bytes \<Rightarrow> int \<Rightarrow> conn \<Rightarrow> bytes \<times> int \<times> conn" where
  "post_loop content_length body got rc =
     (if got < content_length then
        (case rio_readnb (nat (content_length - got)) rc of
           (Inl e, bs, rc') \<Rightarrow> (body, got, rc')
         | (Inr n, bs, rc') \<Rightarrow>
             if n = 0 then (body, got, rc') else post_loop content_length (body @ bs) (got + int n) rc')
      else (body, got, rc))"
  by pat_completeness auto
termination
  by (relation "measure (\<lambda>(content_length, body, got, rc). nat (content_length - got))") auto

definition serve_post :: "env \<Rightarrow> bytes \<Rightarrow> int \<Rightarrow> bytes \<Rightarrow> files \<Rightarrow> conn \<Rightarrow> files \<times> txn_end" where
  "serve_post env uri content_length content_type fs rc =
     (if content_length < 0 then
        (fs, ends (clienterror ''POST'' ''411'' ''Length Required'' ''POST requires a Content-Length header'' rc))
      else if MAX_UPLOAD < content_length then
        (fs, ends (clienterror ''POST'' ''413'' ''Payload Too Large'' ''Tiny caps POST uploads (see MAX_UPLOAD)'' rc))
      else if \<not> e_malloc env content_length then
        (fs, ends (clienterror ''POST'' ''500'' ''Internal Server Error'' ''out of memory'' rc))
      else case post_loop content_length [] 0 rc of (body, got, rc') \<Rightarrow>
             (case multipart content_type (take (nat got) body) of (filename, content) \<Rightarrow>
                (let savepath = upload_path (if filename \<noteq> [] then filename else uri)
                 in case e_open env savepath of
                      None \<Rightarrow>
                        (fs, ends (clienterror savepath ''500'' ''Internal Server Error'' ''Tiny couldn't open the file for writing'' rc'))
                    | Some sched \<Rightarrow>
                        (store_file savepath (k_out (snd (rio_writen (new_file sched) content))) fs,
                         ends (upload_response ''200 OK'' savepath (int (length content)) rc')))))"

section \<open>One transaction\<close>

definition serve_get :: "env \<Rightarrow> bytes \<Rightarrow> files \<Rightarrow> conn \<Rightarrow> files \<times> txn_end" where
  "serve_get env uri fs rc =
     (case parse_uri uri of
        None \<Rightarrow> (fs, Undefined)
      | Some (is_static, filename, cgiargs) \<Rightarrow>
          (case fs filename of
             None \<Rightarrow> (fs, ends (clienterror filename ''404'' ''Not found'' ''Tiny couldn't find this file'' rc))
           | Some f \<Rightarrow>
               if is_static then
                 (if \<not> f_reg f \<or> \<not> f_rusr f then
                    (fs, ends (clienterror filename ''403'' ''Forbidden'' ''Tiny couldn't read the file'' rc))
                  else (fs, Returned (serve_static env filename f rc)))
               else if \<not> f_reg f \<or> \<not> f_xusr f then
                 (fs, ends (clienterror filename ''403'' ''Forbidden'' ''Tiny couldn't run the CGI program'' rc))
               else serve_dynamic env filename cgiargs fs rc))"

definition doit :: "env \<Rightarrow> files \<Rightarrow> chan \<Rightarrow> files \<times> txn_end" where
  "doit env fs c =
     (case rio_readlineb MAXLINE (rio_initb (e_rio env) 0, c) of (r, bs, rc1) \<Rightarrow>
        if r = Inr 0 then (fs, Returned rc1)
        else let buf = cstr (overlay bs (e_buf env));
                 fields = scan_fields buf (e_fields env);
                 method = fields ! 0; uri = fields ! 1
             in case read_requesthdrs (e_hdrbuf env) (- 1, []) rc1 of
                  None \<Rightarrow> (fs, Hung)
                | Some ((content_length, content_type), rc) \<Rightarrow>
                    if strcaseeq method ''PUT'' then serve_put env uri content_length fs rc
                    else if strcaseeq method ''POST'' then serve_post env uri content_length content_type fs rc
                    else if \<not> strcaseeq method ''GET'' then
                      (fs, ends (clienterror method ''501'' ''Not Implemented'' ''Tiny does not implement this method'' rc))
                    else serve_get env uri fs rc)"

text \<open>
  The serial loop of \<open>main\<close> over the answers of \<open>accept\<close> (\<open>None\<close> is a failure, which is skipped), each connection with
  the environment of its transaction: the file system and the ends of the transactions, oldest first. The server, or the child that
  has taken its place, serves on unless a transaction hangs or is undefined.
\<close>

fun tiny_main :: "(env \<times> chan) option list \<Rightarrow> files \<Rightarrow> files \<times> txn_end list" where
  "tiny_main [] fs = (fs, [])"
| "tiny_main (None # cs) fs = tiny_main cs fs"
| "tiny_main (Some (env, c) # cs) fs =
     (case doit env fs c of (fs1, e) \<Rightarrow>
        if e = Hung \<or> e = Undefined then (fs1, [e])
        else case tiny_main cs fs1 of (fs2, es) \<Rightarrow> (fs2, e # es))"

declare put_loop.simps [simp del] post_loop.simps [simp del]

section \<open>Sending\<close>

text \<open>A connection on which nothing fails but interrupted calls.\<close>

definition calm_conn :: "conn \<Rightarrow> bool" where
  "calm_conn rc \<longleftrightarrow> rio_inv (fst rc) \<and> rd_only_eintr (snd rc) \<and> wr_only_eintr (snd rc)"

lemma send_calm:
  assumes "calm_conn rc"
  shows "calm_conn (send bs rc) \<and> k_out (snd (send bs rc)) = k_out (snd rc) @ bs
     \<and> rio_stream (send bs rc) = rio_stream rc"
proof -
  obtain c' where "rio_writen (snd rc) bs = (Inr (length bs), c')" "k_out c' = k_out (snd rc) @ bs"
    "wr_only_eintr c'" "k_in c' = k_in (snd rc)" "k_rsched c' = k_rsched (snd rc)"
    using rio_writen_calm [of "snd rc" bs] assms by (auto simp: calm_conn_def)
  then show ?thesis
    using assms by (simp add: send_def calm_conn_def rio_stream_def rd_only_eintr_def)
qed

lemma upload_response_calm:
  assumes "calm_conn rc" "length (upload_body path n) < MAXBUF"
  shows "\<exists>rc'. upload_response status path n rc = Some rc' \<and> calm_conn rc'
     \<and> k_out (snd rc') = k_out (snd rc) @ upload_header status (upload_body path n) @ upload_body path n"
  using assms(2) send_calm [OF assms(1), of "upload_header status (upload_body path n)"]
    send_calm [of "send (upload_header status (upload_body path n)) rc" "upload_body path n"]
  by (simp add: upload_response_def Let_def)

section \<open>The request\<close>

definition token :: "bytes \<Rightarrow> bool" where
  "token w \<longleftrightarrow> w \<noteq> [] \<and> (\<forall>c \<in> set w. \<not> isspace c \<and> c \<noteq> NUL)"

definition header_ok :: "bytes \<Rightarrow> bool" where
  "header_ok h \<longleftrightarrow> h \<noteq> [] \<and> LF \<notin> set h \<and> NUL \<notin> set h \<and> length h + 2 < MAXLINE"

definition header_text :: "bytes list \<Rightarrow> bytes" where
  "header_text hs = concat (map (\<lambda>h. h @ CRLF) hs)"

text \<open>What the headers say of the body: the values \<open>read_requesthdrs\<close> leaves.\<close>

definition header_values :: "bytes list \<Rightarrow> int \<times> bytes \<Rightarrow> int \<times> bytes" where
  "header_values hs ctx = foldl (\<lambda>ctx h. header_line (h @ CRLF) ctx) ctx hs"

definition request_line :: "bytes \<Rightarrow> bytes \<Rightarrow> bytes" where
  "request_line method uri = method @ '' '' @ uri @ '' HTTP/1.0''"

lemma header_text_simps [simp]:
  "header_text [] = []" "header_text (h # hs) = h @ CRLF @ header_text hs"
  by (simp_all add: header_text_def)

lemma header_values_simps [simp]:
  "header_values [] ctx = ctx" "header_values (h # hs) ctx = header_values hs (header_line (h @ CRLF) ctx)"
  by (simp_all add: header_values_def)

text \<open>Reading one line that fits the buffer.\<close>

lemma readline_calm:
  assumes "calm_conn rc" "rio_stream rc = l @ CRLF @ rest" "LF \<notin> set l" "NUL \<notin> set l"
    "length l + 2 < MAXLINE"
  shows "\<exists>rc'. rio_readlineb MAXLINE rc = (Inr (length l + 2), l @ CRLF @ [NUL], rc') \<and> calm_conn rc'
     \<and> rio_stream rc' = rest \<and> k_out (snd rc') = k_out (snd rc)
     \<and> cstr (overlay (l @ CRLF @ [NUL]) buf) = l @ CRLF"
proof -
  have t: "line_take (MAXLINE - 1) (rio_stream rc) = l @ CRLF"
    using line_take_line [of "l @ [CR]" "MAXLINE - 1" rest] assms(2,3,5) by simp
  obtain rc' where r: "rio_readlineb MAXLINE rc = (Inr (length (l @ CRLF)), (l @ CRLF) @ [NUL], rc')"
    "rio_inv (fst rc')" "rd_only_eintr (snd rc')" "rio_stream rc' = drop (length (l @ CRLF)) (rio_stream rc)"
    using rio_readlineb_clean [of rc MAXLINE "l @ CRLF"] assms(1) t
    by (auto simp: calm_conn_def MAXLINE_def)
  moreover have "k_out (snd rc') = k_out (snd rc)" "k_wsched (snd rc') = k_wsched (snd rc)"
    using rio_readlineb_inv [OF _ r(1)] assms(1) by (auto simp: calm_conn_def)
  moreover have "cstr (overlay ((l @ CRLF) @ [NUL]) buf) = l @ CRLF"
    using assms(4) by (intro cstr_overlay_NUL) auto
  ultimately show ?thesis
    using assms(1,2) by (auto simp: calm_conn_def wr_only_eintr_def)
qed

lemma readline_eof:
  assumes "calm_conn rc" "rio_stream rc = []"
  shows "\<exists>rc'. rio_readlineb MAXLINE rc = (Inr 0, [], rc') \<and> calm_conn rc' \<and> rio_stream rc' = []"
proof -
  obtain rc' where r: "rio_readlineb MAXLINE rc = (Inr 0, [], rc')" "rio_inv (fst rc')" "rd_only_eintr (snd rc')"
    "rio_stream rc' = []"
    using rio_readlineb_clean [of rc MAXLINE "[]"] assms by (auto simp: calm_conn_def MAXLINE_def)
  then show ?thesis
    using rio_readlineb_inv [OF _ r(1)] assms(1) by (auto simp: calm_conn_def wr_only_eintr_def)
qed

lemma strict_prefix_cut: "strict_prefix t (a @ b) \<Longrightarrow> \<not> prefix a t \<Longrightarrow> strict_prefix t a"
  using prefix_same_cases [of t "a @ b" a] by (auto simp: strict_prefix_def)

lemma strict_prefix_CRLF: "strict_prefix t (l @ CRLF) \<Longrightarrow> prefix t (l @ [CR])"
  using prefix_snoc [of t "l @ [CR]" LF] by (simp add: strict_prefix_def)

text \<open>The last line, without its end.\<close>

lemma readline_part:
  assumes "calm_conn rc" "rio_stream rc \<noteq> []" "LF \<notin> set (rio_stream rc)" "NUL \<notin> set (rio_stream rc)" "length (rio_stream rc) < MAXLINE"
  shows "\<exists>rc'. rio_readlineb MAXLINE rc = (Inr (length (rio_stream rc)), rio_stream rc @ [NUL], rc') \<and> calm_conn rc'
     \<and> rio_stream rc' = [] \<and> cstr (overlay (rio_stream rc @ [NUL]) buf) = rio_stream rc"
proof -
  have all: "line_take m xs = xs" if "LF \<notin> set xs" "length xs \<le> m" for m xs
    using that by (induction m xs rule: line_take.induct) auto
  have t: "line_take (MAXLINE - 1) (rio_stream rc) = rio_stream rc" by (rule all) (use assms(3,5) in simp_all)
  obtain rc' where r: "rio_readlineb MAXLINE rc = (Inr (length (rio_stream rc)), rio_stream rc @ [NUL], rc')"
    "rio_inv (fst rc')" "rd_only_eintr (snd rc')" "rio_stream rc' = []"
    using rio_readlineb_clean [of rc MAXLINE "rio_stream rc"] assms(1,2) t by (auto simp: calm_conn_def MAXLINE_def)
  moreover have "k_wsched (snd rc') = k_wsched (snd rc)" using rio_readlineb_inv [OF _ r(1)] assms(1) by (auto simp: calm_conn_def)
  moreover have "cstr (overlay (rio_stream rc @ [NUL]) buf) = rio_stream rc" using assms(4) by (intro cstr_overlay_NUL) auto
  ultimately show ?thesis using assms(1) by (auto simp: calm_conn_def wr_only_eintr_def)
qed

lemma requesthdrs_loop_step:
  "cstr buf \<noteq> CRLF \<Longrightarrow> requesthdrs_loop buf ctx rc = read_requesthdrs buf (header_line (cstr buf) ctx) rc"
  by (subst requesthdrs_loop.simps) (simp add: read_requesthdrs_def)

lemma requesthdrs_loop_stop: "cstr buf = CRLF \<Longrightarrow> requesthdrs_loop buf ctx rc = Some (ctx, rc)"
  by (subst requesthdrs_loop.simps) simp

lemma read_requesthdrs_calm:
  assumes "calm_conn rc" "rio_stream rc = header_text hs @ CRLF @ body" "\<forall>h \<in> set hs. header_ok h"
  shows "\<exists>rc'. read_requesthdrs buf ctx rc = Some (header_values hs ctx, rc') \<and> calm_conn rc'
     \<and> rio_stream rc' = body \<and> k_out (snd rc') = k_out (snd rc)"
  using assms
proof (induction hs arbitrary: buf ctx rc)
  case Nil
  then obtain rc' where "rio_readlineb MAXLINE rc = (Inr 2, CRLF @ [NUL], rc')" "calm_conn rc'"
    "rio_stream rc' = body" "k_out (snd rc') = k_out (snd rc)" "cstr (overlay (CRLF @ [NUL]) buf) = CRLF"
    using readline_calm [of rc "[]" body buf] by (auto simp: MAXLINE_def)
  then show ?case by (simp add: read_requesthdrs_def requesthdrs_loop_stop)
next
  case (Cons h hs)
  have h: "header_ok h" using Cons.prems(3) by simp
  then obtain rc' where r: "rio_readlineb MAXLINE rc = (Inr (length h + 2), h @ CRLF @ [NUL], rc')"
    "calm_conn rc'" "rio_stream rc' = header_text hs @ CRLF @ body" "k_out (snd rc') = k_out (snd rc)"
    "cstr (overlay (h @ CRLF @ [NUL]) buf) = h @ CRLF"
    using readline_calm [of rc h "header_text hs @ CRLF @ body" buf] Cons.prems(1,2)
    by (auto simp: header_ok_def)
  have "h @ CRLF \<noteq> CRLF" using h by (auto simp: header_ok_def)
  then have "read_requesthdrs buf ctx rc =
      read_requesthdrs (overlay (h @ CRLF @ [NUL]) buf) (header_line (h @ CRLF) ctx) rc'"
    using r(1,5) requesthdrs_loop_step [of "overlay (h @ CRLF @ [NUL]) buf" ctx rc']
    by (simp add: read_requesthdrs_def [of buf])
  then show ?case
    using Cons.IH [OF r(2,3), of "overlay (h @ CRLF @ [NUL]) buf" "header_line (h @ CRLF) ctx"] Cons.prems(3) r(4)
    by auto
qed

text \<open>At end of file the loop reads nothing, finds the same line again, and never ends.\<close>

lemma requesthdrs_loop_eof:
  assumes "calm_conn rc" "rio_stream rc = []" "cstr buf \<noteq> CRLF"
  shows "requesthdrs_loop buf ctx rc = None"
proof (rule ccontr)
  assume "requesthdrs_loop buf ctx rc \<noteq> None"
  then obtain y where y: "requesthdrs_loop buf ctx rc = Some y" by blast
  let ?P = "\<lambda>buf (ctx :: int \<times> bytes) rc (y :: (int \<times> bytes) \<times> conn).
    \<not> (calm_conn rc \<and> rio_stream rc = [] \<and> cstr buf \<noteq> CRLF)"
  have "?P buf ctx rc y"
  proof (rule requesthdrs_loop.raw_induct [where P = ?P, OF _ y], rule notI, elim conjE)
    fix f :: "bytes \<Rightarrow> int \<times> bytes \<Rightarrow> conn \<Rightarrow> ((int \<times> bytes) \<times> conn) option" and buf ctx rc y
    assume IH: "\<And>buf ctx rc y. f buf ctx rc = Some y \<Longrightarrow> ?P buf ctx rc y"
      and s: "(if cstr buf = CRLF then Some (ctx, rc)
        else case rio_readlineb MAXLINE rc of (r, bs, rc') \<Rightarrow> f (overlay bs buf) (header_line (cstr buf) ctx) rc') = Some y"
      and a: "calm_conn rc" "rio_stream rc = []" "cstr buf \<noteq> CRLF"
    obtain rc' where r: "rio_readlineb MAXLINE rc = (Inr 0, [], rc')" "calm_conn rc'" "rio_stream rc' = []"
      using readline_eof [OF a(1,2)] by blast
    with s a have "f buf (header_line (cstr buf) ctx) rc' = Some y" by simp
    from IH [OF this] r a show False by blast
  qed
  with assms show False by blast
qed

lemma read_requesthdrs_eof:
  assumes "calm_conn rc" "rio_stream rc = []" "cstr buf \<noteq> CRLF"
  shows "read_requesthdrs buf ctx rc = None"
proof -
  obtain rc' where "rio_readlineb MAXLINE rc = (Inr 0, [], rc')" "calm_conn rc'" "rio_stream rc' = []"
    using readline_eof [OF assms(1,2)] by blast
  with assms(3) show ?thesis by (simp add: read_requesthdrs_def requesthdrs_loop_eof)
qed

lemma read_requesthdrs_part:
  assumes "calm_conn rc" "rio_stream rc \<noteq> []" "LF \<notin> set (rio_stream rc)" "NUL \<notin> set (rio_stream rc)" "length (rio_stream rc) < MAXLINE"
  shows "read_requesthdrs buf ctx rc = None"
proof -
  let ?p = "rio_stream rc"
  obtain rc' where r: "rio_readlineb MAXLINE rc = (Inr (length ?p), ?p @ [NUL], rc')" "calm_conn rc'" "rio_stream rc' = []"
    "cstr (overlay (?p @ [NUL]) buf) = ?p"
    using readline_part [OF assms] by blast
  moreover have "?p \<noteq> CRLF" using assms(3) by auto
  ultimately show ?thesis by (simp add: read_requesthdrs_def requesthdrs_loop_eof)
qed

text \<open>The client closes its connection somewhere before the blank line.\<close>

lemma read_requesthdrs_truncated:
  assumes "calm_conn rc" "strict_prefix (rio_stream rc) (header_text hs @ CRLF)" "\<forall>h \<in> set hs. header_ok h"
    and "rio_stream rc \<noteq> [] \<or> cstr buf \<noteq> CRLF"
  shows "read_requesthdrs buf ctx rc = None"
  using assms
proof (induction hs arbitrary: buf ctx rc)
  case Nil
  then have "rio_stream rc = [] \<or> rio_stream rc = [CR]" by (auto simp: strict_prefix_def prefix_Cons)
  then show ?case
  proof
    assume "rio_stream rc = []"
    with Nil.prems(1,4) show ?thesis by (intro read_requesthdrs_eof) auto
  next
    assume "rio_stream rc = [CR]"
    with Nil.prems(1) show ?thesis by (intro read_requesthdrs_part) (simp_all add: MAXLINE_def)
  qed
next
  case (Cons h hs)
  have h: "header_ok h" using Cons.prems(3) by simp
  have split: "strict_prefix (rio_stream rc) ((h @ CRLF) @ header_text hs @ CRLF)" using Cons.prems(2) by simp
  show ?case
  proof (cases "prefix (h @ CRLF) (rio_stream rc)")
    case True
    then obtain t where t: "rio_stream rc = h @ CRLF @ t" by (auto elim: prefixE)
    then obtain rc' where r: "rio_readlineb MAXLINE rc = (Inr (length h + 2), h @ CRLF @ [NUL], rc')"
      "calm_conn rc'" "rio_stream rc' = t" "cstr (overlay (h @ CRLF @ [NUL]) buf) = h @ CRLF"
      using readline_calm [of rc h t buf] Cons.prems(1) h by (auto simp: header_ok_def)
    have ne: "h @ CRLF \<noteq> CRLF" using h by (auto simp: header_ok_def)
    then have "read_requesthdrs buf ctx rc =
        read_requesthdrs (overlay (h @ CRLF @ [NUL]) buf) (header_line (h @ CRLF) ctx) rc'"
      using r(1,4) requesthdrs_loop_step [of "overlay (h @ CRLF @ [NUL]) buf" ctx rc']
      by (simp add: read_requesthdrs_def [of buf])
    moreover have "strict_prefix t (header_text hs @ CRLF)" using split t by (simp add: strict_prefix_def)
    ultimately show ?thesis using Cons.IH [OF r(2)] Cons.prems(3) r(3,4) ne by simp
  next
    case False
    then have "strict_prefix (rio_stream rc) (h @ CRLF)"
      by (rule strict_prefix_cut [OF split])
    then have p: "prefix (rio_stream rc) (h @ [CR])" by (rule strict_prefix_CRLF)
    then have "set (rio_stream rc) \<subseteq> set h \<union> {CR}" "length (rio_stream rc) < MAXLINE"
      using set_mono_prefix [OF p] prefix_length_le [OF p] h by (auto simp: header_ok_def)
    then have q: "LF \<notin> set (rio_stream rc)" "NUL \<notin> set (rio_stream rc)" "length (rio_stream rc) < MAXLINE"
      using h by (auto simp: header_ok_def)
    show ?thesis
    proof (cases "rio_stream rc = []")
      case True
      then show ?thesis using Cons.prems(1,4) by (intro read_requesthdrs_eof) auto
    next
      case False
      then show ?thesis using Cons.prems(1) q by (intro read_requesthdrs_part)
    qed
  qed
qed

section \<open>Uploading\<close>

lemma readnb_calm:
  assumes "calm_conn rc"
  shows "\<exists>rc'. rio_readnb n rc = (Inr (length (take n (rio_stream rc))), take n (rio_stream rc), rc')
     \<and> calm_conn rc' \<and> rio_stream rc' = drop n (rio_stream rc) \<and> k_out (snd rc') = k_out (snd rc)"
proof -
  obtain rc' where r: "rio_readnb n rc = (Inr (length (take n (rio_stream rc))), take n (rio_stream rc), rc')"
    "rio_inv (fst rc')" "rd_only_eintr (snd rc')" "rio_stream rc' = drop n (rio_stream rc)"
    using rio_readnb_clean [of rc n] assms by (auto simp: calm_conn_def)
  then have "k_out (snd rc') = k_out (snd rc)" "k_wsched (snd rc') = k_wsched (snd rc)"
    using rio_readnb_frame [of rc n "[]"] assms by (auto simp: rio_readnb_def calm_conn_def)
  with r assms show ?thesis by (auto simp: calm_conn_def wr_only_eintr_def)
qed

lemma put_loop_calm:
  assumes "calm_conn rc" "wr_only_eintr out" "0 \<le> remaining" "saved = take (nat remaining) (rio_stream rc)"
  shows "\<exists>rc' out'. put_loop remaining rc out = (remaining - int (length saved), rc', out') \<and> calm_conn rc'
     \<and> k_out (snd rc') = k_out (snd rc) \<and> k_out out' = k_out out @ saved"
  using assms
proof (induction "nat remaining" arbitrary: remaining rc out saved rule: less_induct)
  case less
  show ?case
  proof (cases "0 < remaining")
    case False
    with less.prems show ?thesis by (subst put_loop.simps) simp
  next
    case True
    define w where "w = (if remaining < int MAXBUF then nat remaining else MAXBUF)"
    define bs where "bs = take w (rio_stream rc)"
    have w: "0 < w" "int w \<le> remaining" using True by (auto simp: MAXBUF_def w_def)
    have step: "put_loop remaining rc out =
        (case rio_readnb w rc of
           (Inl e, bs, rc') \<Rightarrow> (remaining, rc', out)
         | (Inr n, bs, rc') \<Rightarrow>
             if n = 0 then (remaining, rc', out)
             else put_loop (remaining - int n) rc' (snd (rio_writen out bs)))"
      using True by (subst put_loop.simps) (simp add: Let_def w_def)
    obtain rc1 where r: "rio_readnb w rc = (Inr (length bs), bs, rc1)" "calm_conn rc1"
      "rio_stream rc1 = drop w (rio_stream rc)" "k_out (snd rc1) = k_out (snd rc)"
      using readnb_calm [OF less.prems(1), of w] by (auto simp: bs_def)
    show ?thesis
    proof (cases "rio_stream rc = []")
      case nil: True
      then have "put_loop remaining rc out = (remaining, rc1, out)"
        using step r(1) by (simp add: bs_def)
      with r nil less.prems(4) show ?thesis by simp
    next
      case False
      then have n: "bs \<noteq> []" "0 < length bs" using w(1) by (simp_all add: bs_def)
      obtain c' where c': "rio_writen out bs = (Inr (length bs), c')" "k_out c' = k_out out @ bs" "wr_only_eintr c'"
        using rio_writen_calm [OF less.prems(2), of bs] by blast
      have e: "put_loop remaining rc out = put_loop (remaining - int (length bs)) rc1 c'"
        using step r(1) n c'(1) by simp
      have le: "int (length bs) \<le> remaining" using w(2) by (auto simp: bs_def)
      let ?rest = "take (nat (remaining - int (length bs))) (rio_stream rc1)"
      have "saved = bs @ ?rest"
      proof (cases "w \<le> length (rio_stream rc)")
        case long: True
        then have "nat remaining = w + nat (remaining - int w)" using w(2) by (auto simp: nat_diff_distrib)
        with long less.prems(4) r(3) show ?thesis by (simp add: bs_def take_add)
      next
        case short: False
        then show ?thesis using less.prems(4) r(3) w(2) by (auto simp: bs_def)
      qed
      moreover have "nat (remaining - int (length bs)) < nat remaining" using n(2) True le by linarith
      moreover have "0 \<le> remaining - int (length bs)" using le by simp
      ultimately obtain rc' out' where
        "put_loop (remaining - int (length bs)) rc1 c' = (remaining - int (length bs) - int (length ?rest), rc', out')"
        "calm_conn rc'" "k_out (snd rc') = k_out (snd rc1)" "k_out out' = k_out c' @ ?rest"
        using less.hyps [OF _ r(2) c'(3)] by blast
      with e r(4) c'(2) \<open>saved = bs @ ?rest\<close> show ?thesis by (simp add: diff_diff_eq)
    qed
  qed
qed

lemma post_loop_calm:
  assumes "calm_conn rc" "0 \<le> n" "body = take (nat n) (rio_stream rc)"
  shows "\<exists>rc'. post_loop n [] 0 rc = (body, int (length body), rc') \<and> calm_conn rc' \<and> k_out (snd rc') = k_out (snd rc)"
proof -
  obtain rc1 where r: "rio_readnb (nat n) rc = (Inr (length body), body, rc1)" "calm_conn rc1"
    "rio_stream rc1 = drop (nat n) (rio_stream rc)" "k_out (snd rc1) = k_out (snd rc)"
    using readnb_calm [OF assms(1), of "nat n"] assms(3) by blast
  show ?thesis
  proof (cases "0 < n \<and> body \<noteq> []")
    case False
    then have "post_loop n [] 0 rc = (body, int (length body), if 0 < n then rc1 else rc)"
      using r(1) assms(3) by (subst post_loop.simps) auto
    with r assms(1) show ?thesis by auto
  next
    case True
    then have e: "post_loop n [] 0 rc = post_loop n body (int (length body)) rc1"
      using r(1) by (subst post_loop.simps) simp
    obtain rc2 where q: "rio_readnb (nat (n - int (length body))) rc1 =
        (Inr (length (take (nat (n - int (length body))) (rio_stream rc1))), take (nat (n - int (length body))) (rio_stream rc1), rc2)"
      "calm_conn rc2" "k_out (snd rc2) = k_out (snd rc1)"
      using readnb_calm [OF r(2)] by blast
    have "int (length body) < n \<Longrightarrow> rio_stream rc1 = []" using assms(3) r(3) by auto
    then have "post_loop n body (int (length body)) rc1 =
        (body, int (length body), if int (length body) < n then rc2 else rc1)"
      using q(1) by (subst post_loop.simps) auto
    with e r q show ?thesis by auto
  qed
qed

section \<open>One transaction\<close>

lemma scan_request_line:
  assumes "token m" "token u"
  shows "scan_fields (request_line m u @ CRLF) [a, b, c] = [m, u, ''HTTP/1.0'']"
proof -
  have s: "isspace (CHR '' '')" "isspace CR" "isspace LF" by (simp_all add: isspace_def)
  have d: "dropWhile isspace (w @ rest) = w @ rest" "takeWhile (\<lambda>c. \<not> isspace c) (w @ CHR '' '' # rest) = w"
    if "token w" for w rest
    using that s by (cases w, auto simp: token_def takeWhile_append_stop)
  have v: "token ''HTTP/1.0''" by (simp add: token_def isspace_def)
  have "takeWhile (\<lambda>c. \<not> isspace c) (''HTTP/1.0'' @ CRLF) = ''HTTP/1.0''" by (simp add: isspace_def)
  then show ?thesis
    using d [OF assms(1), of "CHR '' '' # u @ '' HTTP/1.0'' @ CRLF"] d [OF assms(1), of "u @ '' HTTP/1.0'' @ CRLF"]
      d [OF assms(2), of "'' HTTP/1.0'' @ CRLF"] d [OF assms(2), of "''HTTP/1.0'' @ CRLF"]
      d(1) [OF v, of CRLF] s assms
    by (auto simp: request_line_def Let_def token_def)
qed

definition env_ok :: "env \<Rightarrow> bool" where
  "env_ok env \<longleftrightarrow> length (rio_buf (e_rio env)) = RIO_BUFSIZE \<and> length (e_fields env) = 3"

text \<open>A channel on which the client has sent a well-formed request.\<close>

definition requests :: "chan \<Rightarrow> bytes \<Rightarrow> bytes \<Rightarrow> bytes list \<Rightarrow> bytes \<Rightarrow> bool" where
  "requests c method uri hs body \<longleftrightarrow> rd_only_eintr c \<and> wr_only_eintr c
     \<and> k_in c = request_line method uri @ CRLF @ header_text hs @ CRLF @ body
     \<and> token method \<and> token uri \<and> length (request_line method uri) + 2 < MAXLINE
     \<and> (\<forall>h \<in> set hs. header_ok h)"

lemma token_plain: "token w \<Longrightarrow> LF \<notin> set w \<and> NUL \<notin> set w"
proof -
  have "isspace LF" by (simp add: isspace_def)
  then show "token w \<Longrightarrow> LF \<notin> set w \<and> NUL \<notin> set w" unfolding token_def by blast
qed

lemma doit_request:
  assumes "env_ok env" "requests c m u hs body" "(content_length, content_type) = header_values hs (- 1, [])"
  obtains rc where "calm_conn rc" "rio_stream rc = body" "k_out (snd rc) = k_out c"
    "doit env fs c =
       (if strcaseeq m ''PUT'' then serve_put env u content_length fs rc
        else if strcaseeq m ''POST'' then serve_post env u content_length content_type fs rc
        else if \<not> strcaseeq m ''GET'' then
          (fs, ends (clienterror m ''501'' ''Not Implemented'' ''Tiny does not implement this method'' rc))
        else serve_get env u fs rc)"
proof -
  let ?rc = "(rio_initb (e_rio env) 0, c)"
  have rq: "rd_only_eintr c" "wr_only_eintr c" "k_in c = request_line m u @ CRLF @ header_text hs @ CRLF @ body"
    "token m" "token u" "length (request_line m u) + 2 < MAXLINE" "\<forall>h \<in> set hs. header_ok h"
    using assms(2) by (simp_all add: requests_def)
  have calm: "calm_conn ?rc" using assms(1) rq by (simp add: calm_conn_def env_ok_def rio_initb_inv)
  have "LF \<notin> set (request_line m u)" "NUL \<notin> set (request_line m u)"
    using token_plain [OF rq(4)] token_plain [OF rq(5)] by (simp_all add: request_line_def)
  then obtain rc1 where r: "rio_readlineb MAXLINE ?rc = (Inr (length (request_line m u) + 2), request_line m u @ CRLF @ [NUL], rc1)"
    "calm_conn rc1" "rio_stream rc1 = header_text hs @ CRLF @ body" "k_out (snd rc1) = k_out c"
    "cstr (overlay (request_line m u @ CRLF @ [NUL]) (e_buf env)) = request_line m u @ CRLF"
    using readline_calm [OF calm, of "request_line m u" "header_text hs @ CRLF @ body" "e_buf env"] rq by auto
  obtain rc where h: "read_requesthdrs (e_hdrbuf env) (- 1, []) rc1 = Some (header_values hs (- 1, []), rc)"
    "calm_conn rc" "rio_stream rc = body" "k_out (snd rc) = k_out (snd rc1)"
    using read_requesthdrs_calm [OF r(2,3) rq(7)] by blast
  obtain f1 f2 f3 where f: "e_fields env = [f1, f2, f3]"
    using assms(1) by (auto simp: env_ok_def length_Suc_conv numeral_3_eq_3)
  have sf: "scan_fields (request_line m u @ CRLF) (e_fields env) = [m, u, ''HTTP/1.0'']"
    unfolding f by (rule scan_request_line [OF rq(4,5)])
  have "doit env fs c =
       (if strcaseeq m ''PUT'' then serve_put env u content_length fs rc
        else if strcaseeq m ''POST'' then serve_post env u content_length content_type fs rc
        else if \<not> strcaseeq m ''GET'' then
          (fs, ends (clienterror m ''501'' ''Not Implemented'' ''Tiny does not implement this method'' rc))
        else serve_get env u fs rc)"
    unfolding doit_def r(1) prod.case Let_def r(5) sf h(1) assms(3) [symmetric] option.case by simp
  moreover have "k_out (snd rc) = k_out c" using h(4) r(4) by simp
  ultimately show ?thesis using that h(2,3) by blast
qed

section \<open>Properties\<close>

lemma atol_range: "LONG_MIN \<le> atol s \<and> atol s \<le> LONG_MAX"
  by (simp add: atol_def Let_def LONG_MIN_def LONG_MAX_def)

lemma header_values_range:
  "LONG_MIN \<le> fst ctx \<and> fst ctx \<le> LONG_MAX \<Longrightarrow>
     LONG_MIN \<le> fst (header_values hs ctx) \<and> fst (header_values hs ctx) \<le> LONG_MAX"
proof (induction hs arbitrary: ctx)
  case (Cons h hs)
  have "LONG_MIN \<le> fst (header_line (h @ CRLF) ctx) \<and> fst (header_line (h @ CRLF) ctx) \<le> LONG_MAX"
    using Cons.prems atol_range [of "drop 15 (h @ CRLF)"] by (simp add: header_line_def)
  then show ?case using Cons.IH by simp
qed simp

lemma content_length_max:
  assumes "header_values hs (- 1, []) = (n, ct)"
  shows "n \<le> LONG_MAX"
  using header_values_range [of "(- 1, [])" hs] assms by (simp add: LONG_MIN_def LONG_MAX_def)

lemma length_upload_body:
  assumes "0 \<le> n" "n \<le> LONG_MAX" "length path < 8000"
  shows "length (upload_body path n) < MAXBUF"
  using assms length_dec_int [of n] by (simp add: upload_body_def MAXBUF_def LONG_MIN_def)

text \<open>A small environment and a client whose bytes arrive one at a time or after an interruption.\<close>

definition demo_env :: env where
  "demo_env = \<lparr>e_open = (\<lambda>path. Some [WrTake 0, WrFail EINTR]), e_map = (\<lambda>path. True), e_malloc = (\<lambda>n. True),
     e_cgi = (\<lambda>path args. Cgi args (\<lambda>fs. fs(''./log'' \<mapsto> \<lparr>f_data = args, f_reg = True, f_rusr = True, f_xusr = False\<rparr>)) True),
     e_rio = \<lparr>rio_fd = 0, rio_cnt = 0, rio_bufptr = 0, rio_buf = replicate RIO_BUFSIZE NUL\<rparr>,
     e_buf = [], e_hdrbuf = [], e_fields = [[], [], []]\<rparr>"

definition demo_client :: "bytes \<Rightarrow> chan" where
  "demo_client req = \<lparr>k_in = req, k_rsched = [RdGive 0, RdFail EINTR, RdGive 2], k_out = [], k_wsched = [WrTake 3]\<rparr>"

lemma demo_env_ok: "env_ok demo_env"
  by (simp add: env_ok_def demo_env_def)

lemma demo_client_requests:
  assumes "token m" "token u" "length (request_line m u) + 2 < MAXLINE" "\<forall>h \<in> set hs. header_ok h"
  shows "requests (demo_client (request_line m u @ CRLF @ header_text hs @ CRLF @ body)) m u hs body"
  using assms by (simp add: requests_def demo_client_def rd_only_eintr_def wr_only_eintr_def)

lemma demo_token: "token ''PUT''" "token ''POST''" "token ''GET''" "token ''/a/n.txt''"
  by (simp_all add: token_def isspace_def)

lemma demo_header: "\<forall>h \<in> set [''Content-Length: 3'']. header_ok h"
  "header_values [''Content-Length: 3''] (- 1, []) = (3, [])" "upload_path ''/a/n.txt'' = ''./uploads/n.txt''"
  by (simp add: header_ok_def MAXLINE_def, code_simp, code_simp)

lemma demo_file: "wr_only_eintr (new_file [WrTake 0, WrFail EINTR])"
  by (simp add: new_file_def wr_only_eintr_def)

lemma put_request_saves:
  assumes "env_ok env" "requests c m u hs body" "strcaseeq m ''PUT''"
    and "header_values hs (- 1, []) = (n, ct)" "0 \<le> n"
    and "e_open env (upload_path u) = Some sched" "wr_only_eintr (new_file sched)"
    and "length (upload_path u) < 8000" "page = upload_body (upload_path u) (min n (int (length body)))"
  shows "\<exists>rc. doit env fs c = (store_file (upload_path u) (take (nat n) body) fs, Returned rc)
     \<and> k_out (snd rc) = k_out c @ upload_header ''201 Created'' page @ page"
proof -
  obtain rc where rc: "calm_conn rc" "rio_stream rc = body" "k_out (snd rc) = k_out c"
    and d: "doit env fs c = serve_put env u n fs rc"
    using doit_request [OF assms(1,2) assms(4) [symmetric], where fs = fs] assms(3) by metis
  let ?s = "take (nat n) body"
  obtain rc' out' where p: "put_loop n rc (new_file sched) = (n - int (length ?s), rc', out')" "calm_conn rc'"
    "k_out (snd rc') = k_out (snd rc)" "k_out out' = ?s"
    using put_loop_calm [OF rc(1) assms(7,5), of ?s] rc(2) by (auto simp: new_file_def)
  have l: "int (length ?s) = min n (int (length body))" using assms(5) by auto
  have "length page < MAXBUF"
    unfolding assms(9) using assms(5,8) content_length_max [OF assms(4)]
    by (intro length_upload_body) auto
  then obtain rc'' where "upload_response ''201 Created'' (upload_path u) (min n (int (length body))) rc' = Some rc''"
    "k_out (snd rc'') = k_out (snd rc') @ upload_header ''201 Created'' page @ page"
    using upload_response_calm [OF p(2)] unfolding assms(9) by blast
  with d p rc l assms(5,6) show ?thesis by (simp add: serve_put_def Let_def)
qed

text \<open>
  C5: A PUT request stores exactly its body. For a well-formed request with a \<open>Content-Length\<close> of
  \<open>n\<close>, however the kernel splits and interrupts the reads and writes, the file under the upload
  directory named by the last component of the URI holds the first \<open>n\<close> bytes after the headers (all
  of them if the client sent fewer), every other file is unchanged, and the client receives the
  201 page with the number of bytes saved.
\<close>

theorem put_saves_body:
  assumes "env_ok env" "requests c m u hs body" "strcaseeq m ''PUT''"
    and "header_values hs (- 1, []) = (n, ct)" "0 \<le> n"
    and "e_open env (upload_path u) = Some sched" "wr_only_eintr (new_file sched)"
    and "length (upload_path u) < 8000" "page = upload_body (upload_path u) (min n (int (length body)))"
  shows "\<exists>rc. doit env fs c = (store_file (upload_path u) (take (nat n) body) fs, Returned rc)
     \<and> k_out (snd rc) = k_out c @ upload_header ''201 Created'' page @ page"
  using put_request_saves [OF assms] .

theorem put_saves_body_witness:
  "\<exists>rc. doit demo_env Map.empty
          (demo_client (request_line ''PUT'' ''/a/n.txt'' @ CRLF @ header_text [''Content-Length: 3''] @ CRLF @ ''abcdef''))
        = (store_file ''./uploads/n.txt'' ''abc'' Map.empty, Returned rc)"
proof -
  have r: "requests (demo_client (request_line ''PUT'' ''/a/n.txt'' @ CRLF @ header_text [''Content-Length: 3''] @ CRLF @ ''abcdef''))
      ''PUT'' ''/a/n.txt'' [''Content-Length: 3''] ''abcdef''"
    by (rule demo_client_requests [OF demo_token(1,4) _ demo_header(1)]) (simp add: request_line_def MAXLINE_def)
  show ?thesis
    using put_saves_body [OF demo_env_ok r _ demo_header(2) _ _ demo_file _ refl, of Map.empty]
    by (simp add: strcaseeq_def demo_header(3) demo_env_def numeral_3_eq_3) blast
qed

text \<open>
  What a client sends in a POST: the body \<open>b\<close> of a request with the content type \<open>ct\<close> carries the content of a file and the name \<open>f\<close> given for
  it (empty if there is none). Without a boundary the body is the file; otherwise it is the encoding of a form whose first part is
  the file.
\<close>

definition carries :: "bytes \<Rightarrow> bytes \<Rightarrow> bytes \<Rightarrow> bytes \<Rightarrow> bool" where
  "carries ct b f content \<longleftrightarrow>
     (case strstr ct ''boundary='' of
        None \<Rightarrow> f = [] \<and> b = content
      | Some bpos \<Rightarrow>
          (\<exists>bd hdr pre post rest.
             b = bd @ hdr @ CRLF @ CRLF @ content @ CRLF @ bd @ rest
           \<and> bd = ''--'' @ drop (bpos + 9) ct \<and> length bd + 2 < MAXLINE
           \<and> hdr = pre @ ''filename=\"'' @ f @ CHR 0x22 # post \<and> memmem hdr ''filename=\"'' = Some (length pre)
           \<and> CHR 0x22 \<notin> set f \<and> NUL \<notin> set f \<and> length f < MAXLINE
           \<and> memmem (hdr @ CRLF @ CRLF) (CRLF @ CRLF) = Some (length hdr)
           \<and> memmem (content @ CRLF @ bd) (CRLF @ bd) = Some (length content)))"

lemma carries_multipart: "carries ct b f content \<Longrightarrow> multipart ct b = (f, content)"
proof (cases "strstr ct ''boundary=''")
  case None
  then show "carries ct b f content \<Longrightarrow> ?thesis" by (simp add: carries_def multipart_def)
next
  case (Some bpos)
  assume "carries ct b f content"
  then obtain bd hdr pre post rest where c: "b = bd @ hdr @ CRLF @ CRLF @ content @ CRLF @ bd @ rest"
    "bd = ''--'' @ drop (bpos + 9) ct" "length bd + 2 < MAXLINE"
    "hdr = pre @ ''filename=\"'' @ f @ CHR 0x22 # post" "memmem hdr ''filename=\"'' = Some (length pre)"
    "CHR 0x22 \<notin> set f" "NUL \<notin> set f" "length f < MAXLINE"
    "memmem (hdr @ CRLF @ CRLF) (CRLF @ CRLF) = Some (length hdr)"
    "memmem (content @ CRLF @ bd) (CRLF @ bd) = Some (length content)"
    unfolding carries_def Some option.case by (elim exE conjE) (rule that)
  show ?thesis using multipart_eq [OF Some c(2,3,9,10), of rest] part_filename_eq [OF c(5,4,6-8)] unfolding c(1) by simp
qed

lemma post_request_saves:
  assumes "env_ok env" "requests c m u hs body" "strcaseeq m ''POST''"
    and "header_values hs (- 1, []) = (n, ct)" "0 \<le> n" "n \<le> MAX_UPLOAD" "e_malloc env n"
    and "carries ct (take (nat n) body) filename content"
    and "path = upload_path (if filename \<noteq> [] then filename else u)" "length path < 8000"
    and "e_open env path = Some sched" "wr_only_eintr (new_file sched)"
    and "page = upload_body path (int (length content))"
  shows "\<exists>rc. doit env fs c = (store_file path content fs, Returned rc)
     \<and> k_out (snd rc) = k_out c @ upload_header ''200 OK'' page @ page"
proof -
  have "\<not> strcaseeq m ''PUT''" using assms(3) by (auto simp: strcaseeq_def to_lower_def)
  then obtain rc where rc: "calm_conn rc" "rio_stream rc = body" "k_out (snd rc) = k_out c"
    and d: "doit env fs c = serve_post env u n ct fs rc"
    using doit_request [OF assms(1,2) assms(4) [symmetric], where fs = fs] assms(3) by metis
  define b where "b = take (nat n) body"
  obtain rc' where p: "post_loop n [] 0 rc = (b, int (length b), rc')" "calm_conn rc'" "k_out (snd rc') = k_out (snd rc)"
    using post_loop_calm [OF rc(1) assms(5), of b] rc(2) by (auto simp: b_def)
  have mp: "multipart ct b = (filename, content)" using carries_multipart [OF assms(8)] by (simp add: b_def)
  obtain out where o: "rio_writen (new_file sched) content = (Inr (length content), out)" "k_out out = content"
    using rio_writen_calm [OF assms(12), of content] by (auto simp: new_file_def)
  have "int (length content) \<le> n" using multipart_length [OF mp] assms(5) by (auto simp: b_def)
  then have "length page < MAXBUF"
    unfolding assms(13) using assms(10) content_length_max [OF assms(4)]
    by (intro length_upload_body) auto
  then obtain rc'' where u: "upload_response ''200 OK'' path (int (length content)) rc' = Some rc''"
    "k_out (snd rc'') = k_out (snd rc') @ upload_header ''200 OK'' page @ page"
    using upload_response_calm [OF p(2)] unfolding assms(13) by blast
  have "serve_post env u n ct fs rc = (store_file path content fs, Returned rc'')"
    using assms(5-7,11) u(1) o
    by (simp add: serve_post_def p(1) mp assms(9) [symmetric] Let_def)
  with d u(2) p(3) rc(3) show ?thesis by simp
qed

text \<open>
  C6: A POST request stores exactly the file the client has put into it. For a well-formed request whose \<open>Content-Length\<close> \<open>n\<close> is within
  the limit, let the first \<open>n\<close> bytes of the body be either the file itself, under a content type without a boundary, or the form encoding
  of the file (delimiter, part header with the quoted name, blank line, content, delimiter), under the content type that announces the boundary, where
  neither the part header nor the content contains what delimits it. However the kernel splits and interrupts the reads and writes, the
  upload directory then holds exactly that content under the last component of the name given in the form, or of the URI where no name was
  given; every other file is unchanged; and the client receives the 200 page with the number of bytes.
\<close>

theorem post_saves_content:
  assumes "env_ok env" "requests c m u hs body" "strcaseeq m ''POST''"
    and "header_values hs (- 1, []) = (n, ct)" "0 \<le> n" "n \<le> MAX_UPLOAD" "e_malloc env n"
    and "carries ct (take (nat n) body) filename content"
    and "path = upload_path (if filename \<noteq> [] then filename else u)" "length path < 8000"
    and "e_open env path = Some sched" "wr_only_eintr (new_file sched)"
    and "page = upload_body path (int (length content))"
  shows "\<exists>rc. doit env fs c = (store_file path content fs, Returned rc)
     \<and> k_out (snd rc) = k_out c @ upload_header ''200 OK'' page @ page"
  using post_request_saves [OF assms] .

definition demo_form :: bytes where
  "demo_form = ''--XY'' @ (CRLF @ ''Content-Disposition: form-data; filename=\"../b.bin\"'') @ CRLF @ CRLF
     @ [NUL, CHR ''-'', LF] @ CRLF @ ''--XY'' @ ''--''"

definition demo_form_headers :: "bytes list" where
  "demo_form_headers = [''Content-Type: multipart/form-data; boundary=XY'', ''Content-Length: 72'']"

lemma demo_form_ok:
  "\<forall>h \<in> set demo_form_headers. header_ok h"
  "header_values demo_form_headers (- 1, []) = (72, ''multipart/form-data; boundary=XY'')"
  "carries ''multipart/form-data; boundary=XY'' (take (nat 72) demo_form) ''../b.bin'' [NUL, CHR ''-'', LF]"
proof -
  show "\<forall>h \<in> set demo_form_headers. header_ok h" by (simp add: demo_form_headers_def header_ok_def MAXLINE_def)
  show "header_values demo_form_headers (- 1, []) = (72, ''multipart/form-data; boundary=XY'')" by code_simp
  have form: "take (nat 72) demo_form = demo_form" by (simp add: demo_form_def)
  have at: "strstr ''multipart/form-data; boundary=XY'' ''boundary='' = Some 21" by (simp add: memmem.simps)
  show "carries ''multipart/form-data; boundary=XY'' (take (nat 72) demo_form) ''../b.bin'' [NUL, CHR ''-'', LF]"
    unfolding carries_def form at option.case
    by (rule exI [of _ "''--XY''"], rule exI [of _ "CRLF @ ''Content-Disposition: form-data; filename=\"../b.bin\"''"],
        rule exI [of _ "CRLF @ ''Content-Disposition: form-data; ''"], rule exI [of _ "[]"], rule exI [of _ "''--''"])
       (simp add: demo_form_def memmem.simps MAXLINE_def)
qed

theorem post_saves_content_witness:
  "\<exists>rc. doit demo_env Map.empty
          (demo_client (request_line ''POST'' ''/a/n.txt'' @ CRLF @ header_text demo_form_headers @ CRLF @ demo_form))
        = (store_file ''./uploads/b.bin'' [NUL, CHR ''-'', LF] Map.empty, Returned rc)"
proof -
  have r: "requests (demo_client (request_line ''POST'' ''/a/n.txt'' @ CRLF @ header_text demo_form_headers @ CRLF @ demo_form))
      ''POST'' ''/a/n.txt'' demo_form_headers demo_form"
    by (rule demo_client_requests [OF demo_token(2,4) _ demo_form_ok(1)]) (simp add: request_line_def MAXLINE_def)
  have p: "upload_path (if ''../b.bin'' \<noteq> [] then ''../b.bin'' else ''/a/n.txt'') = ''./uploads/b.bin''" by code_simp
  show ?thesis
    using post_saves_content [OF demo_env_ok r _ demo_form_ok(2) _ _ _ demo_form_ok(3) p [symmetric] _ _ demo_file refl, of Map.empty]
    by (simp add: strcaseeq_def demo_env_def MAX_UPLOAD_def) blast
qed

text \<open>
  C25: A GET request for a static file that exists, is regular and readable by its owner is answered
  with the header block that announces the exact length and then the bytes of the file, or nothing after the headers where the file
  cannot be opened or mapped; no file is changed.
\<close>

theorem get_sends_file:
  assumes "env_ok env" "requests c m u hs body" "strcaseeq m ''GET''"
    and "parse_uri u = Some (True, filename, args)" "fs filename = Some f"
    and "f_reg f" "f_rusr f" "length (f_data f) < 2 ^ 31"
  shows "\<exists>rc. doit env fs c = (fs, Returned rc)
     \<and> k_out (snd rc) = k_out c @ static_header filename (int (length (f_data f))) @ (if e_map env filename then f_data f else [])"
proof -
  have no: "\<not> strcaseeq m ''PUT''" "\<not> strcaseeq m ''POST''"
    using assms(3) by (auto simp: strcaseeq_def to_lower_def)
  obtain n ct where "(n, ct) = header_values hs (- 1, [])" by (metis surj_pair)
  then obtain rc where rc: "calm_conn rc" "k_out (snd rc) = k_out c" and d: "doit env fs c = serve_get env u fs rc"
    using doit_request [OF assms(1,2), where fs = fs] assms(3) no by metis
  let ?h = "static_header filename (int (length (f_data f)))"
  have s: "c_int (int (length (f_data f))) = int (length (f_data f))" using assms(8) by (simp add: c_int_id)
  have "k_out (snd (send (f_data f) (send ?h rc))) = k_out c @ ?h @ f_data f"
    "k_out (snd (send ?h rc)) = k_out c @ ?h"
    using send_calm [OF rc(1), of ?h] send_calm [of "send ?h rc" "f_data f"] rc(2) by simp_all
  with d s assms show ?thesis by (simp add: serve_get_def serve_static_def Let_def)
qed

theorem get_sends_file_witness:
  "\<exists>rc. doit demo_env [''./a/n.txt'' \<mapsto> \<lparr>f_data = ''hi'', f_reg = True, f_rusr = True, f_xusr = False\<rparr>]
          (demo_client (request_line ''GET'' ''/a/n.txt'' @ CRLF @ header_text [] @ CRLF @ []))
        = ([''./a/n.txt'' \<mapsto> \<lparr>f_data = ''hi'', f_reg = True, f_rusr = True, f_xusr = False\<rparr>], Returned rc)
     \<and> k_out (snd rc) = static_header ''./a/n.txt'' 2 @ ''hi''"
proof -
  have r: "requests (demo_client (request_line ''GET'' ''/a/n.txt'' @ CRLF @ header_text [] @ CRLF @ []))
      ''GET'' ''/a/n.txt'' [] []"
    by (rule demo_client_requests [OF demo_token(3,4)]) (simp_all add: request_line_def MAXLINE_def)
  have p: "parse_uri ''/a/n.txt'' = Some (True, ''./a/n.txt'', [])"
    by (simp add: parse_uri_def memmem.simps MAXLINE_def)
  show ?thesis
    using get_sends_file [OF demo_env_ok r _ p, of "[''./a/n.txt'' \<mapsto> \<lparr>f_data = ''hi'', f_reg = True, f_rusr = True, f_xusr = False\<rparr>]"]
    by (simp add: strcaseeq_def demo_client_def demo_env_def)
qed

text \<open>
  C26: A client that closes its connection before the blank line that ends the headers stops the
  server: \<open>read_requesthdrs\<close> ignores the end of file, finds the previous line in its buffer again and
  loops for ever. This holds wherever the client closes: in the middle of the request line, after it, inside a header line or its end, and
  between two of them. If nothing has come after the request line, that previous line is what the uninitialised buffer holds, so in this
  case it is assumed not to be a blank line by chance.
\<close>

theorem truncated_request_hangs:
  assumes "env_ok env" "rd_only_eintr c" "wr_only_eintr c"
    and "strict_prefix (k_in c) (request_line m u @ CRLF @ header_text hs @ CRLF)" "k_in c \<noteq> []" "token m" "token u"
    and "length (request_line m u) + 2 < MAXLINE" "\<forall>h \<in> set hs. header_ok h"
    and "length (k_in c) \<le> length (request_line m u) + 2 \<Longrightarrow> cstr (e_hdrbuf env) \<noteq> CRLF"
  shows "doit env fs c = (fs, Hung)"
proof -
  let ?rc = "(rio_initb (e_rio env) 0, c)" and ?l = "request_line m u"
  have calm: "calm_conn ?rc" using assms(1-3) by (simp add: calm_conn_def env_ok_def rio_initb_inv)
  have l: "LF \<notin> set ?l" "NUL \<notin> set ?l"
    using token_plain [OF assms(6)] token_plain [OF assms(7)] by (simp_all add: request_line_def)
  have "\<exists>n bs rc1. rio_readlineb MAXLINE ?rc = (Inr n, bs, rc1) \<and> n \<noteq> 0 \<and> read_requesthdrs (e_hdrbuf env) (- 1, []) rc1 = None"
  proof (cases "prefix (?l @ CRLF) (k_in c)")
    case True
    then obtain t where t: "k_in c = ?l @ CRLF @ t" by (auto elim: prefixE)
    then obtain rc1 where r: "rio_readlineb MAXLINE ?rc = (Inr (length ?l + 2), ?l @ CRLF @ [NUL], rc1)" "calm_conn rc1" "rio_stream rc1 = t"
      using readline_calm [OF calm, of ?l t "e_buf env"] l assms(8) by auto
    have "strict_prefix (rio_stream rc1) (header_text hs @ CRLF)" using assms(4) t r(3) by (simp add: strict_prefix_def)
    then have "read_requesthdrs (e_hdrbuf env) (- 1, []) rc1 = None"
      using r t assms(9,10) by (intro read_requesthdrs_truncated) auto
    with r(1) show ?thesis by auto
  next
    case False
    have "strict_prefix (k_in c) ((?l @ CRLF) @ header_text hs @ CRLF)" using assms(4) by simp
    from strict_prefix_cut [OF this False] have p: "prefix (k_in c) (?l @ [CR])" by (rule strict_prefix_CRLF)
    have "set (k_in c) \<subseteq> set ?l \<union> {CR}" using set_mono_prefix [OF p] by auto
    then have q: "LF \<notin> set (k_in c)" "NUL \<notin> set (k_in c)" using l by auto
    have st: "rio_stream ?rc = k_in c" by simp
    have len: "length (k_in c) \<le> length ?l + 1" using prefix_length_le [OF p] by simp
    then have max: "length (k_in c) < MAXLINE" using assms(8) by linarith
    obtain rc1 where r: "rio_readlineb MAXLINE ?rc = (Inr (length (k_in c)), k_in c @ [NUL], rc1)" "calm_conn rc1" "rio_stream rc1 = []"
      using readline_part [OF calm, unfolded st, OF assms(5) q max] by blast
    have "read_requesthdrs (e_hdrbuf env) (- 1, []) rc1 = None"
      using r(2,3) assms(10) len by (intro read_requesthdrs_eof) auto
    with r(1) assms(5) show ?thesis by auto
  qed
  then obtain n bs rc1 where "rio_readlineb MAXLINE ?rc = (Inr n, bs, rc1)" "n \<noteq> 0" "read_requesthdrs (e_hdrbuf env) (- 1, []) rc1 = None"
    by blast
  then show ?thesis unfolding doit_def by simp
qed

theorem truncated_request_hangs_witness:
  "doit demo_env Map.empty (demo_client (request_line ''GET'' ''/a/n.txt'' @ CRLF @ header_text [''Content-Length: 3''] @ ''Hos'')) = (Map.empty, Hung)
   \<and> doit demo_env Map.empty (demo_client ''GET /a'') = (Map.empty, Hung)"
proof
  show "doit demo_env Map.empty (demo_client (request_line ''GET'' ''/a/n.txt'' @ CRLF @ header_text [''Content-Length: 3''] @ ''Hos'')) = (Map.empty, Hung)"
    by (rule truncated_request_hangs [OF demo_env_ok _ _ _ _ demo_token(3,4), where hs = "[''Content-Length: 3'', ''Host: x'']"])
       (simp_all add: demo_client_def rd_only_eintr_def wr_only_eintr_def request_line_def MAXLINE_def header_ok_def strict_prefix_def)
  show "doit demo_env Map.empty (demo_client ''GET /a'') = (Map.empty, Hung)"
    by (rule truncated_request_hangs [OF demo_env_ok _ _ _ _ demo_token(3,4), where hs = "[]"])
       (simp_all add: demo_client_def demo_env_def rd_only_eintr_def wr_only_eintr_def request_line_def MAXLINE_def strict_prefix_def cstr_def)
qed

section \<open>What a server changes\<close>

text \<open>A program that a client had the server run, an executable regular file, has changed the path.\<close>

definition cgi_changed :: "env \<Rightarrow> bytes \<Rightarrow> bool" where
  "cgi_changed env path \<longleftrightarrow>
     (\<exists>prog args printed change exits fs f. e_cgi env prog args = Cgi printed change exits
        \<and> fs prog = Some f \<and> f_reg f \<and> f_xusr f \<and> change fs path \<noteq> fs path)"

lemma serve_put_changes: "fst (serve_put env u n fs rc) path \<noteq> fs path \<Longrightarrow> \<exists>name. path = upload_path name"
  by (auto simp: serve_put_def Let_def store_file_def split: if_splits option.splits prod.splits)

lemma serve_post_changes: "fst (serve_post env u n ct fs rc) path \<noteq> fs path \<Longrightarrow> \<exists>name. path = upload_path name"
  by (auto simp: serve_post_def Let_def store_file_def split: if_splits option.splits prod.splits)

lemma serve_get_changes: "fst (serve_get env u fs rc) path \<noteq> fs path \<Longrightarrow> cgi_changed env path"
proof -
  assume ne: "fst (serve_get env u fs rc) path \<noteq> fs path"
  then obtain filename args f where f: "fs filename = Some f" "f_reg f" "f_xusr f"
    and s: "fst (serve_dynamic env filename args fs rc) path \<noteq> fs path"
    by (auto simp: serve_get_def split: if_splits option.splits prod.splits)
  then obtain printed change exits where "e_cgi env filename args = Cgi printed change exits" "change fs path \<noteq> fs path"
    by (auto simp: serve_dynamic_def Let_def split: cgi_run.splits)
  with f show ?thesis unfolding cgi_changed_def by blast
qed

lemma doit_changes:
  assumes "fst (doit env fs c) path \<noteq> fs path"
  shows "(\<exists>name. path = upload_path name) \<or> cgi_changed env path"
  using assms serve_put_changes serve_post_changes serve_get_changes
  unfolding doit_def Let_def by (auto split: if_splits option.splits prod.splits)

lemma tiny_main_changes:
  "fst (tiny_main cs fs) path \<noteq> fs path \<Longrightarrow> (\<exists>name. path = upload_path name) \<or> (\<exists>(env, c) \<in> set (List.map_filter id cs). cgi_changed env path)"
proof (induction cs fs rule: tiny_main.induct)
  case (3 env c cs fs)
  obtain fs1 e where d: "doit env fs c = (fs1, e)" by (cases "doit env fs c")
  show ?case
  proof (cases "fs1 path = fs path")
    case True
    then have going: "\<not> (e = Hung \<or> e = Undefined)" using 3(2) d by auto
    then have "fst (tiny_main cs fs1) path \<noteq> fs1 path" using 3(2) d True by (auto split: prod.splits)
    then show ?thesis using 3(1) [OF d [symmetric] going] by (auto simp: List.map_filter_simps)
  next
    case False
    then show ?thesis using doit_changes [of env fs c path] d by (auto simp: List.map_filter_simps)
  qed
qed (simp_all add: List.map_filter_simps)



end
