(* ===== verification/Echo_Service.thy ===== *)
theory Echo_Service
  imports Rio
begin

text \<open>
  What the echo servers have in common: a service step reads something from a client and writes it
  back. The interface \<open>echo_step\<close> states the contract of one step, \<open>echo_loop\<close> adds the loop that
  repeats it until it fails. It is implemented by \<open>echo_once\<close> of \<open>select_echo_server.c\<close>,
  \<open>poll_echo_server.c\<close> and \<open>epoll_echo_server.c\<close> of \<open>Chapter12/12.2\<close>, and by the line
  loops \<open>echo\<close> of \<open>12.1/process_echo_server.c\<close> and \<open>12.3/thread_echo_server.c\<close>. The plain server of
  \<open>Chapter11/experiments/echo_server.c\<close>, which ignores what \<open>write\<close> returns, does not satisfy it.
\<close>

section \<open>Model\<close>

definition ECHO_MAXLINE :: nat where "ECHO_MAXLINE = 1024"

text \<open>\<open>echo_once\<close>: 0 is \<open>True\<close>, -1 is \<open>False\<close>.\<close>

definition echo_once :: "chan \<Rightarrow> bool \<times> chan" where
  "echo_once c =
     (case kread ECHO_MAXLINE c of
        (Inr n, bs, c1) \<Rightarrow>
          if 0 < n then (case rio_writen c1 bs of (r, c2) \<Rightarrow> (r = Inr n, c2))
          else (False, c1)
      | (Inl e, bs, c1) \<Rightarrow> (e = EINTR, c1))"

definition poll_echo_once :: "chan \<Rightarrow> bool \<times> chan" where
  "poll_echo_once c =
     (case kread ECHO_MAXLINE c of
        (Inr n, bs, c1) \<Rightarrow>
          if 0 < n then (case rio_writen c1 bs of (r, c2) \<Rightarrow> if r \<noteq> Inr n then (False, c2) else (True, c2))
          else (False, c1)
      | (Inl e, bs, c1) \<Rightarrow> if e = EINTR then (True, c1) else (False, c1))"

definition epoll_echo_once :: "chan \<Rightarrow> bool \<times> chan" where
  "epoll_echo_once c =
     (case kread ECHO_MAXLINE c of
        (Inr n, bs, c1) \<Rightarrow>
          if 0 < n then (case rio_writen c1 bs of (r, c2) \<Rightarrow> if r \<noteq> Inr n then (False, c2) else (True, c2))
          else (False, c1)
      | (Inl e, bs, c1) \<Rightarrow> if e = EINTR then (True, c1) else (False, c1))"

text \<open>One turn of the loop of \<open>echo\<close>: whether the loop goes on.\<close>

definition echo_line :: "rio_t \<times> chan \<Rightarrow> bool \<times> rio_t \<times> chan" where
  "echo_line rc =
     (case rio_readlineb ECHO_MAXLINE rc of
        (Inr n, bs, rc1) \<Rightarrow>
          if 0 < n then (case rio_writen (snd rc1) (take n bs) of (r, c2) \<Rightarrow> (r = Inr n, fst rc1, c2))
          else (False, rc1)
      | (Inl e, bs, rc1) \<Rightarrow> (False, rc1))"

partial_function (option) echo_lines :: "rio_t \<times> chan \<Rightarrow> (rio_t \<times> chan) option" where
  "echo_lines rc = (case echo_line rc of (go, rc') \<Rightarrow> if go then echo_lines rc' else Some rc')"

definition echo :: "rio_t \<Rightarrow> int \<Rightarrow> chan \<Rightarrow> (rio_t \<times> chan) option" where
  "echo rio connfd c = echo_lines (rio_initb rio connfd, c)"

text \<open>The copy of the thread server.\<close>

partial_function (option) thread_echo_lines :: "rio_t \<times> chan \<Rightarrow> (rio_t \<times> chan) option" where
  "thread_echo_lines rc =
     (case rio_readlineb ECHO_MAXLINE rc of
        (Inr n, bs, rc1) \<Rightarrow>
          if 0 < n then
            (case rio_writen (snd rc1) (take n bs) of (r, c2) \<Rightarrow>
               if r \<noteq> Inr n then Some (fst rc1, c2) else thread_echo_lines (fst rc1, c2))
          else Some rc1
      | (Inl e, bs, rc1) \<Rightarrow> Some rc1)"

definition thread_echo :: "rio_t \<Rightarrow> int \<Rightarrow> chan \<Rightarrow> (rio_t \<times> chan) option" where
  "thread_echo rio connfd c = thread_echo_lines (rio_initb rio connfd, c)"

text \<open>The connection loop of \<open>echo_server.c\<close>.\<close>

function echo_plain :: "chan \<Rightarrow> chan" where
  "echo_plain c =
     (case kread ECHO_MAXLINE c of
        (Inr n, bs, c1) \<Rightarrow> if 0 < n then echo_plain (snd (kwrite bs c1)) else c1
      | (Inl e, bs, c1) \<Rightarrow> c1)"
  by pat_completeness auto
termination
proof (relation "measure (\<lambda>c. length (k_in c))", goal_cases)
  case (2 c x y n bs c1)
  then have "kread ECHO_MAXLINE c = (Inr n, bs, c1)" by metis
  moreover have "k_in (snd (kwrite bs c1)) = k_in c1" by (metis kwrite_reads surjective_pairing)
  ultimately show ?case
    using \<open>0 < n\<close> by (elim kread_cases) (auto, metis length_append length_greater_0_conv less_add_same_cancel2)
qed simp

declare echo_plain.simps [simp del]

section \<open>Interfaces\<close>

text \<open>
  A step that reports success has sent back exactly what it took from the client; one that reports
  the end may have failed to send the tail of what it took last.
\<close>

locale echo_step =
  fixes step :: "'s \<Rightarrow> bool \<times> 's"
    and sent :: "'s \<Rightarrow> bytes"
    and unread :: "'s \<Rightarrow> bytes"
    and ok :: "'s \<Rightarrow> bool"
  assumes step_ok: "ok s \<Longrightarrow> step s = (b, s') \<Longrightarrow> ok s'"
    and step_flow: "ok s \<Longrightarrow> step s = (True, s') \<Longrightarrow> sent s' @ unread s' = sent s @ unread s"
    and step_stop: "ok s \<Longrightarrow> step s = (False, s') \<Longrightarrow> \<exists>lost. sent s' @ lost @ unread s' = sent s @ unread s"
begin

lemma steps_flow:
  assumes "ok s" "\<And>i. i < n \<Longrightarrow> step (t i) = (True, t (Suc i))" "t 0 = s"
  shows "ok (t n) \<and> sent (t n) @ unread (t n) = sent s @ unread s"
  using assms(2)
proof (induction n)
  case 0
  then show ?case using assms(1,3) by simp
next
  case (Suc n)
  then have "ok (t n)" "sent (t n) @ unread (t n) = sent s @ unread s" "step (t n) = (True, t (Suc n))" by auto
  then show ?case using step_ok step_flow by metis
qed

end

locale echo_loop = echo_step +
  fixes weight :: "'s \<Rightarrow> nat"
    and loop :: "'s \<Rightarrow> 's option"
  assumes step_weight: "ok s \<Longrightarrow> step s = (True, s') \<Longrightarrow> weight s' < weight s"
    and loop_unfold: "loop s = (case step s of (go, s') \<Rightarrow> if go then loop s' else Some s')"
begin

lemma loop_returns:
  "ok s \<Longrightarrow> \<exists>s'. loop s = Some s' \<and> ok s' \<and> (\<exists>lost. sent s' @ lost @ unread s' = sent s @ unread s)
     \<and> (\<exists>t. ok t \<and> sent t @ unread t = sent s @ unread s \<and> step t = (False, s'))"
proof (induction "weight s" arbitrary: s rule: less_induct)
  case less
  obtain go s1 where st: "step s = (go, s1)" by fastforce
  show ?case
  proof (cases go)
    case True
    with st have st1: "step s = (True, s1)" by simp
    note s1 = step_ok [OF less.prems st1] step_weight [OF less.prems st1] step_flow [OF less.prems st1]
    obtain s' where "loop s1 = Some s'" "ok s'" "\<exists>lost. sent s' @ lost @ unread s' = sent s1 @ unread s1"
      "\<exists>t. ok t \<and> sent t @ unread t = sent s1 @ unread s1 \<and> step t = (False, s')"
      using less.hyps [OF s1(2,1)] by blast
    moreover have "loop s = loop s1" using st1 by (simp add: loop_unfold [of s])
    ultimately show ?thesis unfolding s1(3) by simp
  next
    case False
    with st have st0: "step s = (False, s1)" by simp
    then have "loop s = Some s1" by (simp add: loop_unfold [of s])
    then show ?thesis using step_ok [OF less.prems st0] step_stop [OF less.prems st0] st0 less.prems by blast
  qed
qed

lemma loop_unique:
  assumes "\<And>s. loop2 s = (case step s of (go, s') \<Rightarrow> if go then loop2 s' else Some s')"
  shows "ok s \<Longrightarrow> loop2 s = loop s"
proof (induction "weight s" arbitrary: s rule: less_induct)
  case less
  obtain go s1 where st: "step s = (go, s1)" by fastforce
  show ?case using less st step_ok [OF less.prems] step_weight [OF less.prems]
    by (cases go) (simp_all add: loop_unfold [of s] assms [of s])
qed

end

section \<open>The servers implement it\<close>

lemma rio_writen_echo:
  assumes "rio_writen c bs = (r, c')"
  shows "k_in c' = k_in c \<and> k_rsched c' = k_rsched c
     \<and> (\<exists>k \<le> length bs. k_out c' = k_out c @ take k bs \<and> (r = Inr (length bs) \<longrightarrow> k = length bs))"
  using rio_writen_cases [OF assms] by auto

lemma echo_once_cases:
  assumes "echo_once c = (go, c')"
  shows "\<exists>lost. k_out c' @ lost @ k_in c' = k_out c @ k_in c \<and> (go \<longrightarrow> lost = [])
     \<and> (go \<longrightarrow> length (k_in c') + length (k_rsched c') < length (k_in c) + length (k_rsched c))"
proof -
  obtain r bs c1 where r: "kread ECHO_MAXLINE c = (r, bs, c1)" by (cases "kread ECHO_MAXLINE c")
  then show ?thesis
  proof (cases rule: kread_cases)
    case (fail e s)
    then show ?thesis using assms r by (auto simp: echo_once_def)
  next
    case give
    show ?thesis
    proof (cases "bs = []")
      case True
      then show ?thesis using assms r give by (auto simp: echo_once_def intro!: exI [of _ "[]"])
    next
      case False
      obtain q c2 where q: "rio_writen c1 bs = (q, c2)" by (cases "rio_writen c1 bs")
      with assms r give False have e: "go = (q = Inr (length bs))" "c' = c2" by (auto simp: echo_once_def)
      obtain k where k: "k \<le> length bs" "k_out c2 = k_out c1 @ take k bs" "q = Inr (length bs) \<longrightarrow> k = length bs"
        "k_in c2 = k_in c1" "k_rsched c2 = k_rsched c1"
        using rio_writen_echo [OF q] by blast
      have "k_out c' @ drop k bs @ k_in c' = k_out c @ k_in c"
        using e k give by (metis append.assoc append_take_drop_id)
      moreover have "length (k_in c') < length (k_in c)" "length (k_rsched c') \<le> length (k_rsched c)"
        using e k give(5) False give(2) by (auto simp flip: give(2))
      ultimately show ?thesis using e k by (intro exI [of _ "drop k bs"]) auto
    qed
  qed
qed

interpretation once: echo_step echo_once k_out k_in "\<lambda>_. True"
  by unfold_locales (use echo_once_cases in fastforce)+

text \<open>
  The line services read a line into a buffer of \<open>m\<close> bytes, change its bytes by \<open>f\<close> and write it back;
  the contract then holds with the unread bytes seen through \<open>f\<close>.
\<close>

definition serve_line :: "nat \<Rightarrow> (byte \<Rightarrow> byte) \<Rightarrow> rio_t \<times> chan \<Rightarrow> bool \<times> rio_t \<times> chan" where
  "serve_line m f rc =
     (case rio_readlineb m rc of
        (Inr n, bs, rc1) \<Rightarrow>
          if 0 < n then (case rio_writen (snd rc1) (map f (take n bs)) of (r, c2) \<Rightarrow> (r = Inr n, fst rc1, c2))
          else (False, rc1)
      | (Inl e, bs, rc1) \<Rightarrow> (False, rc1))"

lemma echo_line_serve: "echo_line = serve_line ECHO_MAXLINE (\<lambda>b. b)"
  by (rule ext) (simp add: echo_line_def serve_line_def map_idI split: sum.split prod.split)

lemma serve_line_cases:
  assumes "rio_inv (fst rc)" "serve_line m f rc = (go, rc')"
  shows "rio_inv (fst rc') \<and> (\<exists>lost. k_out (snd rc') @ lost @ map f (rio_stream rc') = k_out (snd rc) @ map f (rio_stream rc)
     \<and> (go \<longrightarrow> lost = [] \<and> length (rio_stream rc') < length (rio_stream rc)))"
proof -
  obtain r bs rc1 where r: "rio_readlineb m rc = (r, bs, rc1)" by (cases "rio_readlineb m rc")
  note i = rio_readlineb_inv [OF assms(1) r]
  show ?thesis
  proof (cases "\<exists>n. r = Inr n \<and> 0 < n")
    case False
    then have e: "go = False" "rc' = rc1" using assms(2) r by (cases r; auto simp: serve_line_def)+
    have "map f (consumed r bs) @ map f (rio_stream rc1) = map f (rio_stream rc)" using i by (metis map_append)
    then show ?thesis using i e by (auto intro!: exI [of _ "map f (consumed r bs)"])
  next
    case True
    then obtain n where n: "r = Inr n" "0 < n" by blast
    let ?w = "map f (take n bs)"
    obtain q c2 where q: "rio_writen (snd rc1) ?w = (q, c2)" by fastforce
    have e: "go = (q = Inr n)" "rc' = (fst rc1, c2)" using assms(2) r n q by (auto simp: serve_line_def)
    obtain k where k: "k \<le> length ?w" "k_out c2 = k_out (snd rc1) @ take k ?w"
      "q = Inr (length ?w) \<longrightarrow> k = length ?w" "k_in c2 = k_in (snd rc1)"
      using rio_writen_echo [OF q] by blast
    have s: "rio_stream rc' = rio_stream rc1" using e(2) k(4) by (simp add: rio_stream_def)
    have p: "take n bs @ rio_stream rc1 = rio_stream rc" using i n by simp
    then have p': "?w @ map f (rio_stream rc1) = map f (rio_stream rc)" by (metis map_append)
    have q': "q = Inr n \<longrightarrow> n = length ?w" using rio_writen_cases [OF q] by auto
    have "k_out (snd rc') @ drop k ?w @ map f (rio_stream rc') = k_out (snd rc) @ map f (rio_stream rc)"
      using e k(2) i p' s by (metis append.assoc append_take_drop_id snd_conv)
    moreover have "go \<longrightarrow> drop k ?w = []" using e(1) k(3) q' by auto
    moreover have "go \<longrightarrow> length (rio_stream rc') < length (rio_stream rc)"
      using e(1) q' n(2) s p by (metis length_append length_map less_add_same_cancel2)
    ultimately show ?thesis using i e(2) by auto
  qed
qed

lemma serve_loop_intro:
  assumes "\<And>s. loop s = (case serve_line m f s of (go, s') \<Rightarrow> if go then loop s' else Some s')"
    and "\<And>s b s'. ok s \<Longrightarrow> serve_line m f s = (b, s') \<Longrightarrow> ok s'" "\<And>s. ok s \<Longrightarrow> rio_inv (fst s)"
  shows "echo_loop (serve_line m f) (\<lambda>rc. k_out (snd rc)) (\<lambda>rc. map f (rio_stream rc)) ok (\<lambda>rc. length (rio_stream rc)) loop"
proof (unfold_locales, goal_cases)
  case (1 s b s') then show ?case by (rule assms(2))
next
  case (2 s s') then show ?case using serve_line_cases [OF assms(3), of s m f True s'] by auto
next
  case (3 s s') then show ?case using serve_line_cases [OF assms(3), of s m f False s'] by auto
next
  case (4 s s') then show ?case using serve_line_cases [OF assms(3), of s m f True s'] by blast
next
  case (5 s) show ?case by (rule assms(1))
qed

lemma echo_lines_unfold:
  "echo_lines s = (case serve_line ECHO_MAXLINE (\<lambda>b. b) s of (go, s') \<Rightarrow> if go then echo_lines s' else Some s')"
  unfolding echo_line_serve [symmetric] by (rule echo_lines.simps)

interpretation lines: echo_loop "serve_line ECHO_MAXLINE (\<lambda>b. b)" "\<lambda>rc. k_out (snd rc)" "\<lambda>rc. map (\<lambda>b. b) (rio_stream rc)"
  "\<lambda>rc. rio_inv (fst rc)" "\<lambda>rc. length (rio_stream rc)" echo_lines
  by (rule serve_loop_intro [OF echo_lines_unfold]) (use serve_line_cases in blast)+

section \<open>Calm connections\<close>

text \<open>A connection whose reads and writes fail only by interruption.\<close>

definition calm_rio :: "rio_t \<times> chan \<Rightarrow> bool" where
  "calm_rio rc \<longleftrightarrow> rio_inv (fst rc) \<and> rd_only_eintr (snd rc) \<and> wr_only_eintr (snd rc)"

lemma serve_line_calm:
  assumes "calm_rio rc" "1 < m"
  obtains rc' where "serve_line m f rc = (rio_stream rc \<noteq> [], rc')" "calm_rio rc'"
    "rio_stream rc = [] \<Longrightarrow> k_out (snd rc') = k_out (snd rc)"
proof -
  let ?l = "line_take (m - 1) (rio_stream rc)"
  obtain rc1 where r: "rio_readlineb m rc = (Inr (length ?l), if ?l = [] then [] else ?l @ [NUL], rc1)"
    "rio_inv (fst rc1)" "rd_only_eintr (snd rc1)"
    using rio_readlineb_clean [of rc m ?l] assms by (auto simp: calm_rio_def)
  have f: "k_out (snd rc1) = k_out (snd rc)" "k_wsched (snd rc1) = k_wsched (snd rc)"
    using rio_readlineb_inv [OF _ r(1)] assms by (auto simp: calm_rio_def)
  have w: "wr_only_eintr (snd rc1)" using assms f by (simp add: calm_rio_def wr_only_eintr_def)
  have nil: "?l = [] \<longleftrightarrow> rio_stream rc = []" using assms(2) by (simp add: line_take_eq_Nil)
  obtain c2 where c2: "rio_writen (snd rc1) (map f ?l) = (Inr (length ?l), c2)" "wr_only_eintr c2" "k_rsched c2 = k_rsched (snd rc1)"
    using rio_writen_calm [OF w, of "map f ?l"] unfolding length_map by blast
  show ?thesis
  proof (cases "?l = []")
    case True
    then have "serve_line m f rc = (False, rc1)" using r(1) by (simp add: serve_line_def)
    with True nil r w f that show ?thesis by (simp add: calm_rio_def)
  next
    case False
    then have "serve_line m f rc = (True, fst rc1, c2)" using r(1) c2(1) by (simp add: serve_line_def)
    moreover have "calm_rio (fst rc1, c2)" using r c2 by (simp add: calm_rio_def rd_only_eintr_def)
    ultimately show ?thesis using that False nil by simp
  qed
qed

lemma serve_line_calm_ok: "1 < m \<Longrightarrow> calm_rio s \<Longrightarrow> serve_line m f s = (b, s') \<Longrightarrow> calm_rio s'"
  by (metis prod.inject serve_line_calm)

lemma calm_rio_inv: "calm_rio s \<Longrightarrow> rio_inv (fst s)"
  by (simp add: calm_rio_def)

interpretation calm_lines: echo_loop "serve_line ECHO_MAXLINE (\<lambda>b. b)" "\<lambda>rc. k_out (snd rc)" "\<lambda>rc. map (\<lambda>b. b) (rio_stream rc)"
  calm_rio "\<lambda>rc. length (rio_stream rc)" echo_lines
  by (rule serve_loop_intro [OF echo_lines_unfold serve_line_calm_ok calm_rio_inv]) (simp_all add: ECHO_MAXLINE_def)

text \<open>What any line service of a client does, from the two interpretations of its loop.\<close>

lemma serve_loop_result:
  assumes "\<And>s. loop s = (case serve_line m f s of (go, s') \<Rightarrow> if go then loop s' else Some s')" "1 < m"
    and "rio_inv (fst rc)"
  shows "\<exists>rc'. loop rc = Some rc' \<and> (\<exists>rest. k_out (snd rc') @ rest = k_out (snd rc) @ map f (rio_stream rc))
     \<and> (calm_rio rc \<longrightarrow> k_out (snd rc') = k_out (snd rc) @ map f (rio_stream rc))"
proof -
  have plain: "echo_loop (serve_line m f) (\<lambda>rc. k_out (snd rc)) (\<lambda>rc. map f (rio_stream rc)) (\<lambda>rc. rio_inv (fst rc))
      (\<lambda>rc. length (rio_stream rc)) loop"
    by (rule serve_loop_intro [OF assms(1)]) (use serve_line_cases in blast)+
  have calm: "echo_loop (serve_line m f) (\<lambda>rc. k_out (snd rc)) (\<lambda>rc. map f (rio_stream rc)) calm_rio
      (\<lambda>rc. length (rio_stream rc)) loop"
    by (rule serve_loop_intro [OF assms(1) serve_line_calm_ok calm_rio_inv]) (use assms(2) in simp_all)
  obtain rc' where rc': "loop rc = Some rc'"
      "\<exists>lost. k_out (snd rc') @ lost @ map f (rio_stream rc') = k_out (snd rc) @ map f (rio_stream rc)"
    using echo_loop.loop_returns [OF plain assms(3)] by blast
  have "k_out (snd rc') = k_out (snd rc) @ map f (rio_stream rc)" if c: "calm_rio rc"
  proof -
    obtain t where t: "calm_rio t" "k_out (snd t) @ map f (rio_stream t) = k_out (snd rc) @ map f (rio_stream rc)"
        "serve_line m f t = (False, rc')"
      using echo_loop.loop_returns [OF calm c] rc'(1) by auto
    from t(1) assms(2) show ?thesis by (rule serve_line_calm [of t m f]) (use t in auto)
  qed
  with rc' show ?thesis by auto
qed

lemma thread_echo_lines_unfold:
  "thread_echo_lines s = (case serve_line ECHO_MAXLINE (\<lambda>b. b) s of (go, s') \<Rightarrow> if go then thread_echo_lines s' else Some s')"
  by (subst thread_echo_lines.simps) (auto simp: serve_line_def split: sum.split prod.split)

lemma echo_onces: "poll_echo_once = echo_once" "epoll_echo_once = echo_once"
  by (rule ext, auto simp: poll_echo_once_def epoll_echo_once_def echo_once_def split: sum.split prod.split)+

section \<open>Properties\<close>

text \<open>
  The line echo of the process and thread servers always returns when the client's bytes are
  finite, what it sends back is a prefix of what the client sent, and all of it when calls fail
  only by interruption. Both servers' copies compute the same.
\<close>

lemma echo_sends_back:
  assumes "length (rio_buf rio) = RIO_BUFSIZE"
  shows "\<exists>rc'. echo rio connfd c = Some rc' \<and> (\<exists>rest. k_out (snd rc') @ rest = k_out c @ k_in c)
     \<and> (rd_only_eintr c \<longrightarrow> wr_only_eintr c \<longrightarrow> k_out (snd rc') = k_out c @ k_in c)
     \<and> thread_echo rio connfd c = Some rc'"
proof -
  let ?rc = "(rio_initb rio connfd, c)"
  have inv: "rio_inv (fst ?rc)" using assms by (simp add: rio_initb_inv)
  have s: "rio_stream ?rc = k_in c" by (simp add: rio_initb_stream)
  have "thread_echo rio connfd c = echo rio connfd c"
    unfolding thread_echo_def echo_def by (rule lines.loop_unique [OF thread_echo_lines_unfold inv])
  moreover have "calm_rio ?rc \<longleftrightarrow> rd_only_eintr c \<and> wr_only_eintr c" using inv by (simp add: calm_rio_def)
  ultimately show ?thesis
    using serve_loop_result [OF echo_lines_unfold _ inv] by (auto simp: echo_def ECHO_MAXLINE_def s)
qed

definition demo_peer :: chan where
  "demo_peer = \<lparr>k_in = ''hi'' @ [LF] @ ''x'', k_rsched = [RdGive 0, RdFail EINTR], k_out = [], k_wsched = [WrTake 0, WrTake 0]\<rparr>"

lemma echo_sends_back_witness:
  "\<exists>rc'. echo \<lparr>rio_fd = 0, rio_cnt = 0, rio_bufptr = 0, rio_buf = replicate RIO_BUFSIZE NUL\<rparr> 4 demo_peer = Some rc'
     \<and> k_out (snd rc') = ''hi'' @ [LF] @ ''x''"
  using echo_sends_back [of "\<lparr>rio_fd = 0, rio_cnt = 0, rio_bufptr = 0, rio_buf = replicate RIO_BUFSIZE NUL\<rparr>" 4 demo_peer]
  by (auto simp: demo_peer_def rd_only_eintr_def wr_only_eintr_def)

text \<open>
  The minimal server of Chapter 11 does not echo exactly: it ignores the count \<open>write\<close> returns,
  so one short write loses bytes from the middle of the stream.
\<close>

lemma echo_plain_loses:
  "k_out (echo_plain \<lparr>k_in = ''abcd'', k_rsched = [RdGive 1], k_out = [], k_wsched = [WrTake 0]\<rparr>) = ''acd''"
  by (simp add: echo_plain.simps kread_def give_def kwrite_def Let_def ECHO_MAXLINE_def)

end
