(* ===== verification/Event_Servers.thy ===== *)
theory Event_Servers
  imports Echo_Service "HOL-Library.Multiset"
begin

text \<open>
  The three level-triggered echo servers of \<open>Chapter12/12.2/experiments\<close>: \<open>poll_echo_server.c\<close> (a compact
  array of descriptors), \<open>select_echo_server.c\<close> (a descriptor set and its maximum) and
  \<open>epoll_echo_server.c\<close> (a kernel set). A server's state has the registered descriptors, the socket
  behind each, and two logs: the descriptors whose readiness was handled and the ones closed, in
  order. The answers of the waiting call and of \<open>accept\<close> are arguments. The theorems show that one
  round handles every ready client exactly once and keeps the registration consistent.
\<close>

section \<open>The poll server\<close>

definition MAX_CLIENTS :: nat where "MAX_CLIENTS = 1024"

datatype pev = POLLIN | POLLHUP | POLLERR | POLLNVAL

record pollfd =
  p_fd :: nat
  p_revents :: "pev set"

record poll_st =
  ps_fds :: "pollfd list"
  ps_socks :: "nat \<Rightarrow> chan"
  ps_log :: "nat list"
  ps_closed :: "nat list"

text \<open>The array holds its \<open>nfds\<close> entries; the last one takes the place of the removed one.\<close>

definition remove_pollfd :: "pollfd list \<Rightarrow> nat \<Rightarrow> pollfd list" where
  "remove_pollfd fds i = butlast (fds[i := last fds])"

definition add_client :: "nat \<Rightarrow> poll_st \<Rightarrow> poll_st" where
  "add_client connfd st =
     (if MAX_CLIENTS + 1 \<le> length (ps_fds st) then st\<lparr>ps_closed := ps_closed st @ [connfd]\<rparr>
      else st\<lparr>ps_fds := ps_fds st @ [\<lparr>p_fd = connfd, p_revents = {}\<rparr>]\<rparr>)"

text \<open>The handling of one ready entry: whether it is to be closed, and the sockets.\<close>

definition poll_serve :: "pollfd \<Rightarrow> (nat \<Rightarrow> chan) \<Rightarrow> bool \<times> (nat \<Rightarrow> chan)" where
  "poll_serve p socks =
     (case (if p_revents p \<inter> {POLLIN, POLLHUP} \<noteq> {} then
              (case poll_echo_once (socks (p_fd p)) of (ok, c) \<Rightarrow> (\<not> ok, socks(p_fd p := c)))
            else (False, socks)) of
        (close_it, socks') \<Rightarrow> (close_it \<or> p_revents p \<inter> {POLLERR, POLLNVAL} \<noteq> {}, socks'))"

function poll_loop :: "nat \<Rightarrow> int \<Rightarrow> poll_st \<Rightarrow> poll_st" where
  "poll_loop i nready st =
     (if i < length (ps_fds st) \<and> 0 < nready then
        (let p = ps_fds st ! i
         in if p_revents p = {} then poll_loop (i + 1) nready st
            else case poll_serve p (ps_socks st) of (close_it, socks) \<Rightarrow>
                   if close_it then
                     poll_loop i (nready - 1)
                       (st\<lparr>ps_socks := socks, ps_log := ps_log st @ [p_fd p],
                           ps_fds := remove_pollfd (ps_fds st) i, ps_closed := ps_closed st @ [p_fd p]\<rparr>)
                   else
                     poll_loop (i + 1) (nready - 1)
                       (st\<lparr>ps_socks := socks, ps_log := ps_log st @ [p_fd p]\<rparr>))
      else st)"
  by pat_completeness auto
termination
  by (relation "measure (\<lambda>(i, nready, st). length (ps_fds st) - i)") (auto simp: remove_pollfd_def)

text \<open>One turn of the main loop: \<open>poll\<close> returned \<open>nready\<close> and set \<open>revents\<close>; \<open>acc\<close> is \<open>accept\<close>'s answer.\<close>

definition poll_round :: "int \<Rightarrow> (nat \<Rightarrow> pev set) \<Rightarrow> nat option \<Rightarrow> poll_st \<Rightarrow> poll_st" where
  "poll_round nready revents acc st =
     (let st0 = st\<lparr>ps_fds := map (\<lambda>p. p\<lparr>p_revents := revents (p_fd p)\<rparr>) (ps_fds st)\<rparr>;
          listen = p_revents (ps_fds st0 ! 0)
      in if listen \<noteq> {} then
           (let st1 = (if POLLIN \<in> listen then (case acc of None \<Rightarrow> st0 | Some connfd \<Rightarrow> add_client connfd st0) else st0)
            in if nready - 1 = 0 then st1 else poll_loop 1 (nready - 1) st1)
         else poll_loop 1 nready st0)"

declare poll_loop.simps [simp del]

text \<open>
  \<open>main\<close> over the answers of \<open>poll\<close>, as long as it is given any: the result says whether it is still
  in its loop. An error other than an interruption ends the loop and closes every descriptor.
\<close>

definition poll_init :: "nat \<Rightarrow> (nat \<Rightarrow> chan) \<Rightarrow> poll_st" where
  "poll_init listenfd socks =
     \<lparr>ps_fds = [\<lparr>p_fd = listenfd, p_revents = {}\<rparr>], ps_socks = socks, ps_log = [], ps_closed = []\<rparr>"

fun poll_main :: "(errno + int \<times> (nat \<Rightarrow> pev set) \<times> nat option) list \<Rightarrow> poll_st \<Rightarrow> bool \<times> poll_st" where
  "poll_main [] st = (True, st)"
| "poll_main (Inl e # ws) st =
     (if e = EINTR then poll_main ws st
      else (False, st\<lparr>ps_closed := ps_closed st @ map p_fd (ps_fds st)\<rparr>))"
| "poll_main (Inr (nready, revents, acc) # ws) st = poll_main ws (poll_round nready revents acc st)"

section \<open>The select server\<close>

definition FD_SETSIZE :: nat where "FD_SETSIZE = 1024"

record select_st =
  all_reads :: "nat set"
  maxfd :: int
  ss_socks :: "nat \<Rightarrow> chan"
  ss_log :: "nat list"
  ss_closed :: "nat list"

function recompute_maxfd :: "nat set \<Rightarrow> int \<Rightarrow> int" where
  "recompute_maxfd reads m = (if 0 \<le> m \<and> nat m \<notin> reads then recompute_maxfd reads (m - 1) else m)"
  by pat_completeness auto
termination
  by (relation "measure (\<lambda>(reads, m). nat (m + 1))") auto

declare recompute_maxfd.simps [simp del]

lemma recompute_maxfd_le: "recompute_maxfd reads m \<le> m"
proof (induction reads m rule: recompute_maxfd.induct)
  case (1 reads m)
  show ?case
  proof (cases "0 \<le> m \<and> nat m \<notin> reads")
    case True
    then have "recompute_maxfd reads m = recompute_maxfd reads (m - 1)" by (subst recompute_maxfd.simps) simp
    with 1 [OF True] show ?thesis by simp
  next
    case False
    then show ?thesis by (subst recompute_maxfd.simps) auto
  qed
qed

text \<open>Closing a client of the select server.\<close>

definition select_close :: "nat \<Rightarrow> select_st \<Rightarrow> select_st" where
  "select_close fd st =
     (let reads = all_reads st - {fd}
      in st\<lparr>all_reads := reads, ss_closed := ss_closed st @ [fd],
            maxfd := (if int fd = maxfd st then recompute_maxfd reads (maxfd st) else maxfd st)\<rparr>)"

function select_loop :: "nat \<Rightarrow> nat set \<Rightarrow> nat \<Rightarrow> int \<Rightarrow> select_st \<Rightarrow> select_st" where
  "select_loop listenfd ready fd nready st =
     (if int fd \<le> maxfd st \<and> 0 < nready then
        (if fd = listenfd \<or> fd \<notin> ready then select_loop listenfd ready (fd + 1) nready st
         else case echo_once (ss_socks st fd) of (ok, c) \<Rightarrow>
                (let st1 = st\<lparr>ss_socks := (ss_socks st)(fd := c), ss_log := ss_log st @ [fd]\<rparr>
                 in select_loop listenfd ready (fd + 1) (nready - 1) (if ok then st1 else select_close fd st1)))
      else st)"
  by pat_completeness auto
termination
proof (relation "measure (\<lambda>(listenfd, ready, fd, nready, st). nat (maxfd st + 1 - int fd))", goal_cases)
  case (3 listenfd ready fd nready st)
  then show ?case using recompute_maxfd_le by (auto simp: select_close_def Let_def)
qed auto

text \<open>One turn of the main loop: \<open>select\<close> left \<open>ready\<close> and returned \<open>nready\<close>.\<close>

definition select_accept :: "nat option \<Rightarrow> select_st \<Rightarrow> select_st" where
  "select_accept acc st =
     (case acc of
        None \<Rightarrow> st
      | Some connfd \<Rightarrow>
          if FD_SETSIZE \<le> connfd then st\<lparr>ss_closed := ss_closed st @ [connfd]\<rparr>
          else st\<lparr>all_reads := insert connfd (all_reads st), maxfd := max (maxfd st) (int connfd)\<rparr>)"

definition select_round :: "nat \<Rightarrow> int \<Rightarrow> nat set \<Rightarrow> nat option \<Rightarrow> select_st \<Rightarrow> select_st" where
  "select_round listenfd nready ready acc st =
     (if listenfd \<in> ready then
        (let st1 = select_accept acc st
         in if nready - 1 = 0 then st1 else select_loop listenfd ready 0 (nready - 1) st1)
      else select_loop listenfd ready 0 nready st)"

declare select_loop.simps [simp del]

text \<open>
  \<open>main\<close>: a listening descriptor that does not fit into an \<open>fd_set\<close> is refused. \<open>select\<close> is given a copy of
  the registered set and leaves a subset of it.
\<close>

definition select_init :: "nat \<Rightarrow> (nat \<Rightarrow> chan) \<Rightarrow> select_st option" where
  "select_init listenfd socks =
     (if FD_SETSIZE \<le> listenfd then None
      else Some \<lparr>all_reads = {listenfd}, maxfd = int listenfd, ss_socks = socks, ss_log = [], ss_closed = []\<rparr>)"

fun select_main :: "nat \<Rightarrow> (errno + int \<times> nat set \<times> nat option) list \<Rightarrow> select_st \<Rightarrow> bool \<times> select_st" where
  "select_main listenfd [] st = (True, st)"
| "select_main listenfd (Inl e # ws) st =
     (if e = EINTR then select_main listenfd ws st
      else (False, st\<lparr>ss_closed := ss_closed st @ [listenfd]\<rparr>))"
| "select_main listenfd (Inr (nready, ready, acc) # ws) st =
     select_main listenfd ws (select_round listenfd nready (all_reads st \<inter> ready) acc st)"

section \<open>The epoll server\<close>

datatype lev = L_IN | L_RDHUP | L_HUP | L_ERR

record epoll_st =
  ep_reg :: "nat set"
  ep_socks :: "nat \<Rightarrow> chan"
  ep_log :: "nat list"
  ep_closed :: "nat list"

text \<open>\<open>add_ok\<close>: whether \<open>epoll_ctl\<close> succeeds; if not the descriptor is closed.\<close>

definition add_epoll_fd :: "nat \<Rightarrow> bool \<Rightarrow> epoll_st \<Rightarrow> epoll_st" where
  "add_epoll_fd fd add_ok st =
     (if add_ok then st\<lparr>ep_reg := insert fd (ep_reg st)\<rparr> else st\<lparr>ep_closed := ep_closed st @ [fd]\<rparr>)"

definition close_epoll_fd :: "nat \<Rightarrow> epoll_st \<Rightarrow> epoll_st" where
  "close_epoll_fd fd st = st\<lparr>ep_reg := ep_reg st - {fd}, ep_closed := ep_closed st @ [fd]\<rparr>"

definition epoll_client :: "nat \<Rightarrow> lev set \<Rightarrow> epoll_st \<Rightarrow> epoll_st" where
  "epoll_client fd ev st =
     (let st0 = st\<lparr>ep_log := ep_log st @ [fd]\<rparr>
      in if L_ERR \<in> ev then close_epoll_fd fd st0
         else if L_IN \<in> ev then
           (case epoll_echo_once (ep_socks st0 fd) of (ok, c) \<Rightarrow>
              let st1 = st0\<lparr>ep_socks := (ep_socks st0)(fd := c)\<rparr>
              in if ok then st1 else close_epoll_fd fd st1)
         else if ev \<inter> {L_HUP, L_RDHUP} \<noteq> {} then close_epoll_fd fd st0
         else st0)"

text \<open>
  The events of one \<open>epoll_wait\<close>: the descriptor, its events and, for the listening descriptor, the
  answers of \<open>accept\<close> and of the registration. \<open>None\<close>: an event for a descriptor that was closed
  before in the same batch.
\<close>

fun epoll_batch :: "nat \<Rightarrow> (nat \<times> lev set \<times> (nat \<times> bool) option) list \<Rightarrow> epoll_st \<Rightarrow> epoll_st option" where
  "epoll_batch listenfd [] st = Some st"
| "epoll_batch listenfd ((fd, ev, acc) # evs) st =
     (if fd \<notin> ep_reg st then None
      else if fd = listenfd then
        epoll_batch listenfd evs (case acc of None \<Rightarrow> st | Some (connfd, add_ok) \<Rightarrow> add_epoll_fd connfd add_ok st)
      else epoll_batch listenfd evs (epoll_client fd ev st))"

text \<open>\<open>main\<close>: the listening descriptor is registered in the same way as the clients.\<close>

definition epoll_init :: "nat \<Rightarrow> bool \<Rightarrow> (nat \<Rightarrow> chan) \<Rightarrow> epoll_st" where
  "epoll_init listenfd add_ok socks =
     add_epoll_fd listenfd add_ok \<lparr>ep_reg = {}, ep_socks = socks, ep_log = [], ep_closed = []\<rparr>"

fun epoll_main :: "nat \<Rightarrow> (errno + (nat \<times> lev set \<times> (nat \<times> bool) option) list) list \<Rightarrow> epoll_st \<Rightarrow> (bool \<times> epoll_st) option" where
  "epoll_main listenfd [] st = Some (True, st)"
| "epoll_main listenfd (Inl e # ws) st =
     (if e = EINTR then epoll_main listenfd ws st
      else Some (False, st\<lparr>ep_closed := ep_closed st @ [listenfd]\<rparr>))"
| "epoll_main listenfd (Inr evs # ws) st =
     (case epoll_batch listenfd evs st of None \<Rightarrow> None | Some st' \<Rightarrow> epoll_main listenfd ws st')"

section \<open>Lemmas on the poll server\<close>

abbreviation is_ready :: "pollfd \<Rightarrow> bool" where
  "is_ready p \<equiv> p_revents p \<noteq> {}"

lemma remove_pollfd_split:
  assumes "i < length fds"
  obtains rest where "remove_pollfd fds i = take i fds @ rest" "mset rest = mset (drop (Suc i) fds)"
proof (cases "drop (Suc i) fds" rule: rev_cases)
  case Nil
  then have "Suc i = length fds" using assms by simp
  then have "remove_pollfd fds i = take i fds"
    by (simp add: remove_pollfd_def butlast_list_update butlast_conv_take flip: \<open>Suc i = length fds\<close>)
  with Nil that [of "[]"] show ?thesis by simp
next
  case (snoc ys z)
  have f: "fds = take i fds @ fds ! i # ys @ [z]" using assms snoc by (metis id_take_nth_drop)
  then have "last fds = z" by (metis append_Cons append_assoc last_snoc)
  then have "fds[i := last fds] = take i fds @ z # ys @ [z]"
    using assms by (subst f) (simp add: list_update_append)
  then have "remove_pollfd fds i = take i fds @ z # ys" by (simp add: remove_pollfd_def butlast_append)
  with snoc that [of "z # ys"] show ?thesis by simp
qed

text \<open>
  What the pass over the entries from \<open>i\<close> on achieves: the handled descriptors \<open>L\<close> are the ready ones,
  each once, the closed ones \<open>C\<close> are among them, and the others stay.
\<close>

definition poll_pass :: "nat \<Rightarrow> poll_st \<Rightarrow> nat list \<Rightarrow> nat list \<Rightarrow> poll_st \<Rightarrow> bool" where
  "poll_pass i st L C st' \<longleftrightarrow> ps_log st' = ps_log st @ L
     \<and> mset L = image_mset p_fd (filter_mset is_ready (mset (drop i (ps_fds st))))
     \<and> ps_closed st' = ps_closed st @ C \<and> mset C \<subseteq># mset L
     \<and> image_mset p_fd (mset (ps_fds st')) + mset C = image_mset p_fd (mset (ps_fds st))
     \<and> take i (ps_fds st') = take i (ps_fds st)"

lemma take_Suc_eq: "take (Suc i) xs = take (Suc i) ys \<Longrightarrow> take i xs = take i ys"
  by (metis less_imp_le_nat lessI min.absorb1 min_def take_take)

lemma subset_add: "A \<subseteq># B \<Longrightarrow> A \<subseteq># add_mset x B"
  by (metis add_mset_add_single mset_subset_eq_add_left subset_mset.order_trans)

lemma poll_loop_pass:
  assumes "i \<le> length (ps_fds st)" "nready = int (length (filter is_ready (drop i (ps_fds st))))"
  shows "\<exists>L C. poll_pass i st L C (poll_loop i nready st)"
  using assms
proof (induction i nready st rule: poll_loop.induct)
  case (1 i nready st)
  let ?fds = "ps_fds st"
  show ?case
  proof (cases "i < length ?fds \<and> 0 < nready")
    case False
    then have "filter is_ready (drop i ?fds) = []" using "1.prems" by (cases "i < length ?fds") auto
    then have "filter_mset is_ready (mset (drop i ?fds)) = {#}" by (metis mset_filter mset_zero_iff)
    moreover have "poll_loop i nready st = st" using False by (subst poll_loop.simps) auto
    ultimately show ?thesis by (intro exI [of _ "[]"]) (simp add: poll_pass_def)
  next
    case True
    then have d: "drop i ?fds = ?fds ! i # drop (Suc i) ?fds" by (simp add: Cons_nth_drop_Suc)
    let ?x = "p_fd (?fds ! i)"
    show ?thesis
    proof (cases "is_ready (?fds ! i)")
      case idle: False
      then have e: "poll_loop i nready st = poll_loop (i + 1) nready st"
        using True by (subst poll_loop.simps) (simp add: Let_def)
      obtain L C where p: "poll_pass (i + 1) st L C (poll_loop (i + 1) nready st)"
        using "1.IH"(1) [OF True refl] idle "1.prems" d True by auto
      have "take i (ps_fds (poll_loop (i + 1) nready st)) = take i ?fds"
        by (rule take_Suc_eq) (use p in \<open>simp add: poll_pass_def\<close>)
      with p have "poll_pass i st L C (poll_loop (i + 1) nready st)"
        using idle d by (auto simp: poll_pass_def)
      then show ?thesis unfolding e by blast
    next
      case rdy: True
      obtain close_it socks where s: "poll_serve (?fds ! i) (ps_socks st) = (close_it, socks)" by fastforce
      have n: "nready - 1 = int (length (filter is_ready (drop (Suc i) ?fds)))" using "1.prems"(2) d rdy by simp
      show ?thesis
      proof (cases close_it)
        case False
        let ?st = "st\<lparr>ps_socks := socks, ps_log := ps_log st @ [?x]\<rparr>"
        have e: "poll_loop i nready st = poll_loop (i + 1) (nready - 1) ?st"
          using True rdy s False by (subst poll_loop.simps) (simp add: Let_def)
        obtain L C where p: "poll_pass (i + 1) ?st L C (poll_loop (i + 1) (nready - 1) ?st)"
          using "1.IH"(3) [OF True refl _ s [symmetric] False] rdy n True by auto
        have "take i (ps_fds (poll_loop (i + 1) (nready - 1) ?st)) = take i ?fds"
          by (rule take_Suc_eq) (use p in \<open>simp add: poll_pass_def\<close>)
        with p have "poll_pass i st (?x # L) C (poll_loop (i + 1) (nready - 1) ?st)"
          using rdy d by (auto simp: poll_pass_def subset_add)
        then show ?thesis unfolding e by blast
      next
        case cl: True
        obtain rest where r: "remove_pollfd ?fds i = take i ?fds @ rest" "mset rest = mset (drop (Suc i) ?fds)"
          using remove_pollfd_split True by blast
        let ?st = "st\<lparr>ps_socks := socks, ps_log := ps_log st @ [?x], ps_fds := remove_pollfd ?fds i,
          ps_closed := ps_closed st @ [?x]\<rparr>"
        have e: "poll_loop i nready st = poll_loop i (nready - 1) ?st"
          using True rdy s cl by (subst poll_loop.simps) (simp add: Let_def)
        have dr: "drop i (remove_pollfd ?fds i) = rest" "take i (remove_pollfd ?fds i) = take i ?fds"
          "i \<le> length (remove_pollfd ?fds i)" using r(1) True by auto
        have "length (filter is_ready rest) = length (filter is_ready (drop (Suc i) ?fds))"
          using r(2) by (metis mset_filter size_mset)
        then obtain L C where p: "poll_pass i ?st L C (poll_loop i (nready - 1) ?st)"
          using "1.IH"(2) [OF True refl _ s [symmetric] cl] rdy n dr by auto
        have m: "mset ?fds = add_mset (?fds ! i) (mset (remove_pollfd ?fds i))"
        proof -
          have "mset ?fds = mset (take i ?fds) + mset (drop i ?fds)" by (metis append_take_drop_id mset_append)
          then show ?thesis using d r by simp
        qed
        have f: "filter_mset is_ready (mset (drop i ?fds)) = add_mset (?fds ! i) (filter_mset is_ready (mset rest))"
          unfolding d using rdy r(2) by simp
        define st' where "st' = poll_loop i (nready - 1) ?st"
        have q: "ps_log st' = ps_log st @ [?x] @ L" "mset L = image_mset p_fd (filter_mset is_ready (mset rest))"
          "ps_closed st' = ps_closed st @ [?x] @ C" "mset C \<subseteq># mset L"
          "image_mset p_fd (mset (ps_fds st')) + mset C = image_mset p_fd (mset (remove_pollfd ?fds i))"
          "take i (ps_fds st') = take i ?fds"
          using p unfolding poll_pass_def st'_def [symmetric] by (auto simp: dr)
        have "poll_pass i st (?x # L) (?x # C) st'"
          unfolding poll_pass_def f m by (simp add: q(1,3,6)) (simp add: q(2,5) q(4) [unfolded q(2)])
        then show ?thesis unfolding e st'_def by blast
      qed
    qed
  qed
qed

section \<open>Lemmas on the select server\<close>

lemma recompute_maxfd_eq:
  assumes "finite S" "S \<noteq> {}" "\<forall>f \<in> S. int f \<le> m"
  shows "recompute_maxfd S m = int (Max S)"
  using assms
proof (induction S m rule: recompute_maxfd.induct)
  case (1 S m)
  show ?case
  proof (cases "0 \<le> m \<and> nat m \<notin> S")
    case True
    then have "\<forall>f \<in> S. int f \<le> m - 1" using "1.prems"(3) by (metis int_eq_iff nat_int order_le_less zle_diff1_eq)
    with 1 True show ?thesis by (subst recompute_maxfd.simps) simp
  next
    case False
    obtain f where "f \<in> S" using "1.prems"(2) by blast
    then have "0 \<le> m" using "1.prems"(3) by (metis of_nat_0_le_iff order_trans)
    with False have "nat m \<in> S" by simp
    moreover have "\<forall>f \<in> S. f \<le> nat m" using "1.prems"(3) \<open>0 \<le> m\<close> by (simp add: nat_le_eq_zle le_nat_iff)
    ultimately have "Max S = nat m" using "1.prems"(1) by (intro Max_eqI) auto
    with False \<open>0 \<le> m\<close> show ?thesis by (subst recompute_maxfd.simps) simp
  qed
qed

definition select_ok :: "nat \<Rightarrow> select_st \<Rightarrow> bool" where
  "select_ok listenfd st \<longleftrightarrow> finite (all_reads st) \<and> listenfd \<in> all_reads st
     \<and> maxfd st = int (Max (all_reads st))"

lemma select_close_ok:
  assumes "select_ok listenfd st" "fd \<noteq> listenfd"
  shows "select_ok listenfd (select_close fd st)"
proof -
  let ?S = "all_reads st - {fd}"
  have S: "finite ?S" "?S \<noteq> {}" "finite (all_reads st)" "all_reads st \<noteq> {}"
    using assms by (auto simp: select_ok_def)
  have m: "maxfd st = int (Max (all_reads st))" using assms(1) by (simp add: select_ok_def)
  have "(if int fd = maxfd st then recompute_maxfd ?S (maxfd st) else maxfd st) = int (Max ?S)"
  proof (cases "int fd = maxfd st")
    case True
    moreover have "\<forall>f \<in> ?S. int f \<le> maxfd st" using m S(3) by simp
    ultimately show ?thesis using recompute_maxfd_eq [OF S(1,2)] by simp
  next
    case False
    then have "Max (all_reads st) \<in> ?S" using m S(3,4) by simp
    then have "Max ?S = Max (all_reads st)" using S by (intro Max_eqI) auto
    with False m show ?thesis by simp
  qed
  with assms S show ?thesis by (auto simp: select_ok_def select_close_def Let_def)
qed

text \<open>The ready clients from \<open>fd\<close> on.\<close>

definition todo :: "nat \<Rightarrow> nat set \<Rightarrow> nat \<Rightarrow> nat set" where
  "todo listenfd ready fd = {f \<in> ready. fd \<le> f \<and> f \<noteq> listenfd}"

lemma todo_Suc: "todo listenfd ready (fd + 1) = todo listenfd ready fd - {fd}"
  by (auto simp: todo_def)

lemmas todo_Suc' = todo_Suc [simplified]

lemma sorted_todo:
  assumes "finite (todo listenfd ready fd)" "fd \<in> ready" "fd \<noteq> listenfd"
  shows "sorted_list_of_set (todo listenfd ready fd) = fd # sorted_list_of_set (todo listenfd ready (fd + 1))"
proof -
  have f: "finite (todo listenfd ready fd)" "fd \<in> todo listenfd ready fd" using assms by (auto simp: todo_def)
  then have "Min (todo listenfd ready fd) = fd" by (intro Min_eqI) (auto simp: todo_def)
  then show ?thesis using sorted_list_of_set_nonempty [OF f(1)] f(2) unfolding todo_Suc by (metis empty_iff)
qed

lemma select_loop_props:
  assumes "select_ok listenfd st" "todo listenfd ready fd \<subseteq> all_reads st"
    and "nready = int (card (todo listenfd ready fd))"
  shows "\<exists>C. ss_log (select_loop listenfd ready fd nready st) = ss_log st @ sorted_list_of_set (todo listenfd ready fd)
     \<and> ss_closed (select_loop listenfd ready fd nready st) = ss_closed st @ C \<and> set C \<subseteq> todo listenfd ready fd
     \<and> all_reads (select_loop listenfd ready fd nready st) = all_reads st - set C
     \<and> select_ok listenfd (select_loop listenfd ready fd nready st)"
  using assms
proof (induction listenfd ready fd nready st rule: select_loop.induct)
  case (1 listenfd ready fd nready st)
  have fin: "finite (todo listenfd ready fd)" using "1.prems"(2,1) by (meson finite_subset select_ok_def)
  show ?case
  proof (cases "int fd \<le> maxfd st \<and> 0 < nready")
    case False
    have "todo listenfd ready fd = {}"
    proof (cases "0 < nready")
      case True
      with False have "maxfd st < int fd" by simp
      then have "f < fd" if "f \<in> all_reads st" for f
        using that "1.prems"(1) le_less_trans [OF Max_ge [of "all_reads st" f], of fd] by (simp add: select_ok_def)
      then show ?thesis using "1.prems"(2) by (fastforce simp: todo_def)
    qed (use "1.prems"(3) fin in simp)
    moreover have "select_loop listenfd ready fd nready st = st" using False by (subst select_loop.simps) auto
    ultimately show ?thesis using "1.prems"(1) by simp
  next
    case True
    show ?thesis
    proof (cases "fd = listenfd \<or> fd \<notin> ready")
      case skip: True
      then have t: "todo listenfd ready (fd + 1) = todo listenfd ready fd" by (auto simp: todo_def Suc_le_eq order_le_less)
      have e: "select_loop listenfd ready fd nready st = select_loop listenfd ready (fd + 1) nready st"
        using True skip by (subst select_loop.simps) simp
      show ?thesis unfolding e using "1.IH"(1) [OF True skip] "1.prems" t by simp
    next
      case serve: False
      obtain ok c where o: "echo_once (ss_socks st fd) = (ok, c)" by fastforce
      let ?st1 = "st\<lparr>ss_socks := (ss_socks st)(fd := c), ss_log := ss_log st @ [fd]\<rparr>"
      let ?st2 = "if ok then ?st1 else select_close fd ?st1"
      have e: "select_loop listenfd ready fd nready st = select_loop listenfd ready (fd + 1) (nready - 1) ?st2"
        using True serve o by (subst select_loop.simps) (simp add: Let_def)
      have fd: "fd \<in> todo listenfd ready fd" using serve by (simp add: todo_def)
      have k1: "select_ok listenfd ?st1" using "1.prems"(1) by (simp add: select_ok_def)
      then have k2: "select_ok listenfd ?st2" using select_close_ok serve by simp
      have sub: "todo listenfd ready (fd + 1) \<subseteq> all_reads ?st2"
        using "1.prems"(2) by (auto simp: todo_Suc' select_close_def Let_def)
      have n: "nready - 1 = int (card (todo listenfd ready (fd + 1)))"
        using "1.prems"(3) fin fd by (simp add: todo_Suc' card_Diff_singleton) (metis One_nat_def Suc_leI card_gt_0_iff empty_iff of_nat_1 of_nat_diff)
      obtain C where C: "ss_log (select_loop listenfd ready (fd + 1) (nready - 1) ?st2) = ss_log ?st2 @ sorted_list_of_set (todo listenfd ready (fd + 1))"
        "ss_closed (select_loop listenfd ready (fd + 1) (nready - 1) ?st2) = ss_closed ?st2 @ C"
        "set C \<subseteq> todo listenfd ready (fd + 1)"
        "all_reads (select_loop listenfd ready (fd + 1) (nready - 1) ?st2) = all_reads ?st2 - set C"
        "select_ok listenfd (select_loop listenfd ready (fd + 1) (nready - 1) ?st2)"
        using "1.IH"(2) [OF True serve o [symmetric] refl k2 sub n] by blast
      have l: "ss_log ?st2 = ss_log st @ [fd]" by (simp add: select_close_def Let_def)
      have s: "sorted_list_of_set (todo listenfd ready fd) = fd # sorted_list_of_set (todo listenfd ready (fd + 1))"
        using sorted_todo [OF fin] serve by simp
      define D where "D = (if ok then C else fd # C)"
      have "ss_closed ?st2 @ C = ss_closed st @ D" "all_reads ?st2 - set C = all_reads st - set D"
        by (auto simp: D_def select_close_def Let_def)
      moreover have "set D \<subseteq> todo listenfd ready fd" using C(3) fd by (auto simp: D_def todo_Suc')
      ultimately show ?thesis unfolding e using C(1,2,4,5) l s by (intro exI [of _ D]) simp
    qed
  qed
qed


section \<open>One round of each server\<close>

abbreviation fds_of :: "poll_st \<Rightarrow> nat list" where
  "fds_of st \<equiv> map p_fd (ps_fds st)"

text \<open>
  What a round of the poll server starts from: the listening descriptor in entry 0, and the count
  \<open>poll\<close> returns, the number of entries with events.
\<close>

definition poll_answer :: "poll_st \<Rightarrow> (nat \<Rightarrow> pev set) \<Rightarrow> int" where
  "poll_answer st revents = int (length (filter (\<lambda>f. revents f \<noteq> {}) (fds_of st)))"

definition poll_marked :: "(nat \<Rightarrow> pev set) \<Rightarrow> poll_st \<Rightarrow> poll_st" where
  "poll_marked revents st = st\<lparr>ps_fds := map (\<lambda>p. p\<lparr>p_revents := revents (p_fd p)\<rparr>) (ps_fds st)\<rparr>"

definition poll_accept :: "pev set \<Rightarrow> nat option \<Rightarrow> poll_st \<Rightarrow> poll_st" where
  "poll_accept listen acc st = (if POLLIN \<in> listen then (case acc of None \<Rightarrow> st | Some connfd \<Rightarrow> add_client connfd st) else st)"

lemma marked_ready:
  "map p_fd (filter is_ready (map (\<lambda>p. p\<lparr>p_revents := revents (p_fd p)\<rparr>) ps)) = filter (\<lambda>f. revents f \<noteq> {}) (map p_fd ps)"
  by (induction ps) auto

lemma poll_loop_zero: "poll_loop i 0 st = st"
  by (subst poll_loop.simps) simp

lemma poll_round_alt:
  assumes "ps_fds st = l # cs"
  shows "poll_round (poll_answer st revents) revents acc st =
     poll_loop 1 (int (length (filter (\<lambda>f. revents f \<noteq> {}) (map p_fd cs))))
       (if revents (p_fd l) \<noteq> {} then poll_accept (revents (p_fd l)) acc (poll_marked revents st) else poll_marked revents st)"
  using assms
  by (auto simp: poll_round_def poll_answer_def poll_marked_def poll_accept_def Let_def poll_loop_zero split: option.splits)

text \<open>The connection \<open>accept\<close> offers in the round, if any; a full array refuses it.\<close>

definition offered :: "pev set \<Rightarrow> nat option \<Rightarrow> nat list" where
  "offered listen acc = (if POLLIN \<in> listen then (case acc of None \<Rightarrow> [] | Some f \<Rightarrow> [f]) else [])"

lemma poll_accept_eq:
  "poll_accept listen acc st =
     (if length (ps_fds st) \<le> MAX_CLIENTS
      then st\<lparr>ps_fds := ps_fds st @ map (\<lambda>f. \<lparr>p_fd = f, p_revents = {}\<rparr>) (offered listen acc)\<rparr>
      else st\<lparr>ps_closed := ps_closed st @ offered listen acc\<rparr>)"
  by (auto simp: poll_accept_def add_client_def offered_def split: option.splits)

lemma idle_not_ready: "filter_mset is_ready (mset (map (\<lambda>f. \<lparr>p_fd = f, p_revents = {}\<rparr>) fs)) = {#}"
  by (induction fs) auto

lemma poll_pass_marked:
  assumes "ps_fds st = l # cs" "ps_fds st1 = ps_fds (poll_marked revents st) @ map (\<lambda>f. \<lparr>p_fd = f, p_revents = {}\<rparr>) T"
  shows "\<exists>L C. poll_pass 1 st1 L C (poll_loop 1 (int (length (filter (\<lambda>f. revents f \<noteq> {}) (map p_fd cs)))) st1)
     \<and> mset L = mset (filter (\<lambda>f. revents f \<noteq> {}) (map p_fd cs))"
proof -
  let ?cs = "map (\<lambda>p. p\<lparr>p_revents := revents (p_fd p)\<rparr>) cs"
  have d: "drop 1 (ps_fds st1) = ?cs @ map (\<lambda>f. \<lparr>p_fd = f, p_revents = {}\<rparr>) T"
    using assms by (simp add: poll_marked_def)
  have r: "image_mset p_fd (filter_mset is_ready (mset (drop 1 (ps_fds st1)))) = mset (filter (\<lambda>f. revents f \<noteq> {}) (map p_fd cs))"
    unfolding d mset_append filter_union_mset idle_not_ready
    by (simp only: mset_filter [symmetric] mset_map [symmetric] marked_ready add_0_right)
  then have "size (filter_mset is_ready (mset (drop 1 (ps_fds st1)))) = length (filter (\<lambda>f. revents f \<noteq> {}) (map p_fd cs))"
    by (simp only: size_image_mset [symmetric, where f = p_fd] size_mset)
  then have "length (filter is_ready (drop 1 (ps_fds st1))) = length (filter (\<lambda>f. revents f \<noteq> {}) (map p_fd cs))"
    by (simp only: mset_filter [symmetric] size_mset)
  moreover have "1 \<le> length (ps_fds st1)" using assms by (simp add: poll_marked_def)
  ultimately obtain L C where p: "poll_pass 1 st1 L C (poll_loop 1 (int (length (filter (\<lambda>f. revents f \<noteq> {}) (map p_fd cs)))) st1)"
    using poll_loop_pass [of 1 st1] by metis
  then have "mset L = mset (filter (\<lambda>f. revents f \<noteq> {}) (map p_fd cs))" unfolding r [symmetric] poll_pass_def by blast
  with p show ?thesis by blast
qed

text \<open>
  C12: One round of the poll server, when \<open>poll\<close> returns the number of entries with events: every
  client with events is handled exactly once (also the entries moved into the place of a removed one),
  the clients closed are among them, the array afterwards holds the clients there were and the
  accepted connection (refused and closed when \<open>MAX_CLIENTS\<close> are there), without the closed
  ones, and entry 0 is still the listening descriptor.
\<close>

theorem poll_serves_ready:
  fixes revents acc
  assumes "ps_fds st = l # cs"
  defines "st' \<equiv> poll_round (poll_answer st revents) revents acc st"
    and "new \<equiv> offered (revents (p_fd l)) acc"
    and "room \<equiv> length (ps_fds st) \<le> MAX_CLIENTS"
  shows "\<exists>L C. ps_log st' = ps_log st @ L \<and> mset L = mset (filter (\<lambda>f. revents f \<noteq> {}) (map p_fd cs))
     \<and> ps_closed st' = ps_closed st @ (if room then [] else new) @ C \<and> mset C \<subseteq># mset L
     \<and> mset (fds_of st') + mset C = mset (fds_of st) + mset (if room then new else [])
     \<and> p_fd (ps_fds st' ! 0) = p_fd l"
proof -
  define st1 where "st1 = (if revents (p_fd l) \<noteq> {} then poll_accept (revents (p_fd l)) acc (poll_marked revents st)
    else poll_marked revents st)"
  have new0: "new = []" if "revents (p_fd l) = {}" using that by (simp add: new_def offered_def)
  have len: "length (ps_fds (poll_marked revents st)) = length (ps_fds st)" by (simp add: poll_marked_def)
  have f1: "ps_fds st1 = ps_fds (poll_marked revents st) @ map (\<lambda>f. \<lparr>p_fd = f, p_revents = {}\<rparr>) (if room then new else [])"
    using new0 by (simp add: st1_def poll_accept_eq room_def new_def len)
  have l1: "ps_log st1 = ps_log st" "ps_closed st1 = ps_closed st @ (if room then [] else new)"
    using new0 by (auto simp: st1_def poll_accept_eq room_def new_def len poll_marked_def)
  have e: "st' = poll_loop 1 (int (length (filter (\<lambda>f. revents f \<noteq> {}) (map p_fd cs)))) st1"
    unfolding st'_def poll_round_alt [OF assms(1)] st1_def ..
  obtain L C where p: "poll_pass 1 st1 L C st'" "mset L = mset (filter (\<lambda>f. revents f \<noteq> {}) (map p_fd cs))"
    using poll_pass_marked [OF assms(1) f1] unfolding e by blast
  have fds1: "map p_fd (ps_fds st1) = fds_of st @ (if room then new else [])"
    unfolding f1 by (simp add: poll_marked_def comp_def)
  have m: "mset (fds_of st') + mset C = mset (map p_fd (ps_fds st1))" using p(1) by (simp add: poll_pass_def)
  have "take 1 (ps_fds st') = [l\<lparr>p_revents := revents (p_fd l)\<rparr>]"
    using p(1) f1 assms(1) by (simp add: poll_pass_def poll_marked_def)
  then have "p_fd (ps_fds st' ! 0) = p_fd l" by (cases "ps_fds st'") auto
  with p m l1 fds1 show ?thesis by (auto simp: poll_pass_def intro!: exI [of _ L] exI [of _ C])
qed

definition demo_poll :: poll_st where
  "demo_poll = \<lparr>ps_fds = [\<lparr>p_fd = 3, p_revents = {}\<rparr>, \<lparr>p_fd = 4, p_revents = {}\<rparr>, \<lparr>p_fd = 5, p_revents = {}\<rparr>],
     ps_socks = (\<lambda>_. \<lparr>k_in = [], k_rsched = [], k_out = [], k_wsched = []\<rparr>), ps_log = [], ps_closed = []\<rparr>"

theorem poll_serves_ready_witness:
  "\<exists>L C. ps_log (poll_round 3 (\<lambda>_. {POLLIN}) (Some 9) demo_poll) = L \<and> mset L = {#4, 5#}
     \<and> ps_closed (poll_round 3 (\<lambda>_. {POLLIN}) (Some 9) demo_poll) = C \<and> mset C \<subseteq># mset L
     \<and> mset (fds_of (poll_round 3 (\<lambda>_. {POLLIN}) (Some 9) demo_poll)) + mset C = {#3, 4, 5, 9#}"
proof -
  have a: "poll_answer demo_poll (\<lambda>_. {POLLIN}) = 3" by (simp add: poll_answer_def demo_poll_def)
  have o: "offered {POLLIN} (Some 9) = [9]" by (simp add: offered_def)
  have f: "ps_fds demo_poll = \<lparr>p_fd = 3, p_revents = {}\<rparr> # [\<lparr>p_fd = 4, p_revents = {}\<rparr>, \<lparr>p_fd = 5, p_revents = {}\<rparr>]"
    by (simp add: demo_poll_def)
  have z: "ps_log demo_poll = []" "ps_closed demo_poll = []" "length (ps_fds demo_poll) \<le> MAX_CLIENTS"
    "mset (fds_of demo_poll) = {#3, 4, 5#}" by (simp_all add: demo_poll_def MAX_CLIENTS_def)
  show ?thesis using poll_serves_ready [OF f, of "\<lambda>_. {POLLIN}" "Some 9"] unfolding a o z
    by (auto simp: z(3))
qed

text \<open>The select server's round: accepting, then the pass over the descriptors.\<close>

definition select_new :: "nat \<Rightarrow> nat set \<Rightarrow> nat option \<Rightarrow> nat list" where
  "select_new listenfd ready acc = (if listenfd \<in> ready then (case acc of None \<Rightarrow> [] | Some f \<Rightarrow> [f]) else [])"

lemma select_accept_eq:
  "all_reads (select_accept acc st) = all_reads st \<union> {f \<in> set_option acc. f < FD_SETSIZE}"
  "ss_log (select_accept acc st) = ss_log st"
  "ss_closed (select_accept acc st) = ss_closed st @ filter (\<lambda>f. FD_SETSIZE \<le> f) (case acc of None \<Rightarrow> [] | Some f \<Rightarrow> [f])"
  by (auto simp: select_accept_def split: option.splits)

lemma select_accept_ok:
  assumes "select_ok listenfd st"
  shows "select_ok listenfd (select_accept acc st)"
proof (cases "\<exists>f. acc = Some f \<and> f < FD_SETSIZE")
  case True
  then obtain f where "acc = Some f" "f < FD_SETSIZE" by blast
  moreover have "finite (all_reads st)" "all_reads st \<noteq> {}" using assms by (auto simp: select_ok_def)
  ultimately show ?thesis using assms by (simp add: select_ok_def select_accept_def max.commute)
next
  case False
  then show ?thesis using assms by (cases acc) (auto simp: select_ok_def select_accept_def)
qed

lemma select_loop_zero: "select_loop listenfd ready fd 0 st = st"
  by (subst select_loop.simps) simp

lemma todo_0: "todo listenfd ready 0 = ready - {listenfd}"
  by (auto simp: todo_def)

lemma select_round_alt:
  assumes "finite ready"
  shows "select_round listenfd (int (card ready)) ready acc st =
     select_loop listenfd ready 0 (int (card (todo listenfd ready 0)))
       (if listenfd \<in> ready then select_accept acc st else st)"
proof (cases "listenfd \<in> ready")
  case True
  then have "int (card ready) - 1 = int (card (todo listenfd ready 0))"
    using assms by (metis card_Suc_Diff1 diff_add_cancel add_diff_cancel_right' of_nat_Suc todo_0 add.commute)
  with True show ?thesis by (auto simp: select_round_def Let_def select_loop_zero)
next
  case False
  then have "todo listenfd ready 0 = ready" by (auto simp: todo_0)
  with False show ?thesis by (simp add: select_round_def)
qed

text \<open>
  One round of the select server, when \<open>select\<close> returns the size of the ready set: the ready
  clients are handled once each in the order of their descriptors, the registered set loses
  exactly the closed ones, which are ready clients, and gains the accepted one unless it does not fit into an
  \<open>fd_set\<close>, in which case it is closed; \<open>maxfd\<close> is the largest registered descriptor again.
\<close>

lemma select_serves_ready:
  fixes acc
  assumes "select_ok listenfd st" "ready \<subseteq> all_reads st"
  defines "st' \<equiv> select_round listenfd (int (card ready)) ready acc st"
    and "new \<equiv> select_new listenfd ready acc"
  shows "\<exists>C. ss_log st' = ss_log st @ sorted_list_of_set (ready - {listenfd})
     \<and> ss_closed st' = ss_closed st @ filter (\<lambda>f. FD_SETSIZE \<le> f) new @ C \<and> set C \<subseteq> ready - {listenfd}
     \<and> all_reads st' = (all_reads st \<union> {f \<in> set new. f < FD_SETSIZE}) - set C
     \<and> listenfd \<in> all_reads st' \<and> maxfd st' = int (Max (all_reads st'))"
proof -
  define st1 where "st1 = (if listenfd \<in> ready then select_accept acc st else st)"
  have fin: "finite ready" using assms(1,2) by (meson finite_subset select_ok_def)
  have ok: "select_ok listenfd st1" using assms(1) select_accept_ok by (simp add: st1_def)
  have s1: "ss_log st1 = ss_log st" "ss_closed st1 = ss_closed st @ filter (\<lambda>f. FD_SETSIZE \<le> f) new"
    "all_reads st1 = all_reads st \<union> {f \<in> set new. f < FD_SETSIZE}"
    by (cases acc; cases "listenfd \<in> ready"; auto simp: st1_def select_accept_eq new_def select_new_def)+
  have sub: "todo listenfd ready 0 \<subseteq> all_reads st1" using assms(2) by (auto simp: s1 todo_0)
  have e: "st' = select_loop listenfd ready 0 (int (card (todo listenfd ready 0))) st1"
    unfolding st'_def select_round_alt [OF fin] st1_def ..
  show ?thesis using select_loop_props [OF ok sub refl] unfolding e s1 todo_0 select_ok_def append_assoc
    by blast
qed

definition demo_select :: select_st where
  "demo_select = \<lparr>all_reads = {3, 4, 7}, maxfd = 7, ss_socks = (\<lambda>_. \<lparr>k_in = [], k_rsched = [], k_out = [], k_wsched = []\<rparr>),
     ss_log = [], ss_closed = []\<rparr>"

lemma select_serves_ready_witness:
  "ss_log (select_round 3 (int (card {3, 7::nat})) {3, 7} (Some 5) demo_select) = [7]"
proof -
  have ok: "select_ok 3 demo_select" by (simp add: select_ok_def demo_select_def)
  have sub: "{3, 7} \<subseteq> all_reads demo_select" by (simp add: demo_select_def)
  have "{3, 7} - {3} = {7::nat}" "ss_log demo_select = []" by (auto simp: demo_select_def)
  then show ?thesis using select_serves_ready [OF ok sub, of "Some 5"] by auto
qed

section \<open>One batch of the epoll server\<close>

lemma epoll_client_props:
  "ep_log (epoll_client fd ev st) = ep_log st @ [fd]"
  "\<exists>C. ep_closed (epoll_client fd ev st) = ep_closed st @ C \<and> set C \<subseteq> {fd} \<and> ep_reg (epoll_client fd ev st) = ep_reg st - set C"
  by (auto simp: epoll_client_def close_epoll_fd_def Let_def split: prod.split)

text \<open>
  One batch of events of the epoll server, each registered descriptor in it at most once as
  \<open>epoll_wait\<close> promises: no event is handled for a descriptor closed earlier in the batch, every
  client with an event is handled once in order, the registered set loses at most the closed
  descriptors, which are clients of the batch or refused connections, and gains at most accepted ones, and the
  listening descriptor stays registered.
\<close>

lemma epoll_batch_safe:
  assumes "distinct (map fst evs)" "fst ` set evs \<subseteq> ep_reg st" "listenfd \<in> ep_reg st"
  shows "\<exists>st' C. epoll_batch listenfd evs st = Some st'
     \<and> ep_log st' = ep_log st @ filter (\<lambda>f. f \<noteq> listenfd) (map fst evs)
     \<and> ep_closed st' = ep_closed st @ C
     \<and> set C \<subseteq> (fst ` set evs - {listenfd}) \<union> {f. \<exists>e \<in> set evs. snd (snd e) = Some (f, False)}
     \<and> ep_reg st - set C \<subseteq> ep_reg st' \<and> listenfd \<in> ep_reg st'
     \<and> ep_reg st' \<subseteq> ep_reg st \<union> {f. \<exists>e \<in> set evs. snd (snd e) = Some (f, True)}"
  using assms
proof (induction evs arbitrary: st)
  case Nil
  then show ?case by simp
next
  case (Cons e evs)
  obtain fd ev acc where e: "e = (fd, ev, acc)" by (cases e)
  define st1 where "st1 = (if fd = listenfd then (case acc of None \<Rightarrow> st | Some (connfd, add_ok) \<Rightarrow> add_epoll_fd connfd add_ok st)
    else epoll_client fd ev st)"
  have b: "epoll_batch listenfd (e # evs) st = epoll_batch listenfd evs st1"
    using Cons.prems(2) by (simp add: e st1_def)
  have l: "ep_log st1 = ep_log st @ filter (\<lambda>f. f \<noteq> listenfd) [fd]"
    by (simp add: st1_def epoll_client_props add_epoll_fd_def split: option.split)
  obtain D where D: "ep_closed st1 = ep_closed st @ D" "set D \<subseteq> ({fd} - {listenfd}) \<union> {f. acc = Some (f, False)}"
      "ep_reg st - set D \<subseteq> ep_reg st1" "ep_reg st1 \<subseteq> ep_reg st \<union> {f. acc = Some (f, True)}"
      "ep_reg st - {fd} \<subseteq> ep_reg st1" "listenfd \<in> ep_reg st1"
  proof (cases "fd = listenfd")
    case True
    then have s: "st1 = (case acc of None \<Rightarrow> st | Some (connfd, add_ok) \<Rightarrow> add_epoll_fd connfd add_ok st)"
      by (simp add: st1_def)
    show ?thesis
    proof (cases acc)
      case None
      then show ?thesis using that [of "[]"] Cons.prems(3) s by auto
    next
      case (Some a)
      then obtain f k where a: "acc = Some (f, k)" by (cases a) auto
      show ?thesis using that [of "if k then [] else [f]"] Cons.prems(3) True
        by (cases k) (auto simp: s a add_epoll_fd_def)
    qed
  next
    case False
    then show ?thesis using that epoll_client_props(2) [of fd ev st] Cons.prems(3) by (auto simp: st1_def)
  qed
  have "fst ` set evs \<subseteq> ep_reg st1" using Cons.prems(1,2) D(5) by (auto simp: e)
  then obtain st' C where C: "epoll_batch listenfd evs st1 = Some st'"
      "ep_log st' = ep_log st1 @ filter (\<lambda>f. f \<noteq> listenfd) (map fst evs)" "ep_closed st' = ep_closed st1 @ C"
      "set C \<subseteq> (fst ` set evs - {listenfd}) \<union> {f. \<exists>e \<in> set evs. snd (snd e) = Some (f, False)}"
      "ep_reg st1 - set C \<subseteq> ep_reg st'" "listenfd \<in> ep_reg st'"
      "ep_reg st' \<subseteq> ep_reg st1 \<union> {f. \<exists>e \<in> set evs. snd (snd e) = Some (f, True)}"
    using Cons.IH [of st1] Cons.prems(1) D(6) by auto
  show ?case unfolding b
  proof (intro exI [of _ st'] exI [of _ "D @ C"] conjI)
    show "set (D @ C) \<subseteq> (fst ` set (e # evs) - {listenfd}) \<union> {f. \<exists>e \<in> set (e # evs). snd (snd e) = Some (f, False)}"
      using C(4) D(2) by (auto simp: e)
    show "ep_reg st' \<subseteq> ep_reg st \<union> {f. \<exists>e \<in> set (e # evs). snd (snd e) = Some (f, True)}"
      using C(7) D(4) by (auto simp: e)
    show "ep_reg st - set (D @ C) \<subseteq> ep_reg st'" using C(5) D(3) by auto
  qed (use C l D(1) in \<open>simp_all add: e\<close>)
qed

definition demo_epoll :: epoll_st where
  "demo_epoll = \<lparr>ep_reg = {3, 4, 7}, ep_socks = (\<lambda>_. \<lparr>k_in = [], k_rsched = [], k_out = [], k_wsched = []\<rparr>),
     ep_log = [], ep_closed = []\<rparr>"

lemma epoll_batch_safe_witness:
  "\<exists>st'. epoll_batch 3 [(4, {L_IN}, None), (3, {L_IN}, Some (4, True)), (7, {L_HUP}, None)] demo_epoll = Some st'
     \<and> ep_log st' = [4, 7] \<and> 3 \<in> ep_reg st'"
proof -
  have "ep_log demo_epoll = []" "{3, 4, 7} \<subseteq> ep_reg demo_epoll" by (simp_all add: demo_epoll_def)
  then show ?thesis
    using epoll_batch_safe [of "[(4, {L_IN}, None), (3, {L_IN}, Some (4, True)), (7, {L_HUP}, None)]" demo_epoll 3]
    by (auto simp del: epoll_batch.simps)
qed

section \<open>Whole runs\<close>

definition poll_ok :: "nat \<Rightarrow> poll_st \<Rightarrow> bool" where
  "poll_ok listenfd st \<longleftrightarrow> ps_fds st \<noteq> [] \<and> p_fd (hd (ps_fds st)) = listenfd \<and> length (ps_fds st) \<le> MAX_CLIENTS + 1"

lemma remove_pollfd_ok:
  assumes "1 \<le> i" "i < length fds"
  shows "remove_pollfd fds i \<noteq> [] \<and> hd (remove_pollfd fds i) = hd fds \<and> length (remove_pollfd fds i) \<le> length fds"
proof -
  obtain rest where r: "remove_pollfd fds i = take i fds @ rest" using remove_pollfd_split [OF assms(2)] by blast
  have "take i fds \<noteq> []" "hd (take i fds) = hd fds" using assms by (auto simp: hd_conv_nth)
  moreover have "length (remove_pollfd fds i) \<le> length fds" by (simp add: remove_pollfd_def)
  ultimately show ?thesis using r by simp
qed

lemma poll_loop_ok: "1 \<le> i \<Longrightarrow> poll_ok l st \<Longrightarrow> poll_ok l (poll_loop i nready st)"
proof (induction i nready st rule: poll_loop.induct)
  case (1 i nready st)
  show ?case
  proof (cases "i < length (ps_fds st) \<and> 0 < nready")
    case True
    let ?p = "ps_fds st ! i"
    obtain close_it socks where s: "poll_serve ?p (ps_socks st) = (close_it, socks)" by fastforce
    note rm = remove_pollfd_ok [of i "ps_fds st"]
    note idle = "1.IH"(1) [OF True refl]
    note closing = "1.IH"(2) [OF True refl _ s [symmetric]]
    note serving = "1.IH"(3) [OF True refl _ s [symmetric]]
    show ?thesis
      using "1.prems" True idle closing serving rm
      by (subst poll_loop.simps) (auto simp: Let_def s poll_ok_def)
  next
    case False
    then show ?thesis using "1.prems" by (subst poll_loop.simps) auto
  qed
qed

lemma poll_round_ok:
  assumes "poll_ok l st"
  shows "poll_ok l (poll_round nready revents acc st)"
proof -
  define st0 where "st0 = st\<lparr>ps_fds := map (\<lambda>p. p\<lparr>p_revents := revents (p_fd p)\<rparr>) (ps_fds st)\<rparr>"
  have ok0: "poll_ok l st0" using assms by (simp add: poll_ok_def st0_def hd_map)
  then have ok1: "poll_ok l (add_client f st0)" for f by (auto simp: poll_ok_def add_client_def)
  show ?thesis
    unfolding poll_round_def st0_def [symmetric] Let_def
    using ok0 ok1 poll_loop_ok [of 1 l] by (auto split: option.split)
qed

lemma poll_main_ok: "poll_ok l st \<Longrightarrow> poll_ok l (snd (poll_main ws st))"
  by (induction ws st rule: poll_main.induct) (auto simp: poll_round_ok, simp add: poll_ok_def)

definition select_fits :: "select_st \<Rightarrow> bool" where
  "select_fits st \<longleftrightarrow> (\<forall>f \<in> all_reads st. f < FD_SETSIZE)"

lemma select_loop_ok:
  "select_ok l st \<Longrightarrow> select_ok l (select_loop l ready fd nready st)
     \<and> all_reads (select_loop l ready fd nready st) \<subseteq> all_reads st"
proof (induction l ready fd nready st rule: select_loop.induct)
  case (1 l ready fd nready st)
  show ?case
  proof (cases "int fd \<le> maxfd st \<and> 0 < nready")
    case True
    obtain ok c where o: "echo_once (ss_socks st fd) = (ok, c)" by fastforce
    let ?st1 = "st\<lparr>ss_socks := (ss_socks st)(fd := c), ss_log := ss_log st @ [fd]\<rparr>"
    have k1: "select_ok l ?st1" using "1.prems" by (simp add: select_ok_def)
    have k2: "fd \<noteq> l \<Longrightarrow> select_ok l (select_close fd ?st1)" using k1 select_close_ok by blast
    have sub: "all_reads (select_close fd ?st1) \<subseteq> all_reads st" by (auto simp: select_close_def Let_def)
    show ?thesis
    proof (cases "fd = l \<or> fd \<notin> ready")
      case skip: True
      then have "select_loop l ready fd nready st = select_loop l ready (fd + 1) nready st"
        using True by (subst select_loop.simps) simp
      then show ?thesis using "1.IH"(1) [OF True skip "1.prems"] by simp
    next
      case serve: False
      let ?st2 = "if ok then ?st1 else select_close fd ?st1"
      have "select_loop l ready fd nready st = select_loop l ready (fd + 1) (nready - 1) ?st2"
        using True serve o by (subst select_loop.simps) (simp add: Let_def)
      moreover have "select_ok l ?st2" "all_reads ?st2 \<subseteq> all_reads st" using k1 k2 sub serve by auto
      ultimately show ?thesis using "1.IH"(2) [OF True serve o [symmetric] refl] by fastforce
    qed
  next
    case False
    then have "select_loop l ready fd nready st = st" by (subst select_loop.simps) auto
    then show ?thesis using "1.prems" by simp
  qed
qed

lemma select_round_ok:
  assumes "select_ok l st" "select_fits st"
  shows "select_ok l (select_round l nready ready acc st) \<and> select_fits (select_round l nready ready acc st)"
proof -
  have "select_ok l (select_accept acc st)" "select_fits (select_accept acc st)"
    using select_accept_ok [OF assms(1)] assms(2) by (auto simp: select_fits_def select_accept_eq)
  then show ?thesis using assms select_loop_ok by (fastforce simp: select_round_def Let_def select_fits_def)
qed

lemma select_main_ok:
  "select_ok l st \<Longrightarrow> select_fits st \<Longrightarrow> select_ok l (snd (select_main l ws st)) \<and> select_fits (snd (select_main l ws st))"
proof (induction l ws st rule: select_main.induct)
  case (3 l nready ready acc ws st)
  then show ?case using select_round_ok by simp
qed (auto simp: select_ok_def select_fits_def)

lemma epoll_batch_listen: "epoll_batch l evs st = Some st' \<Longrightarrow> l \<in> ep_reg st \<Longrightarrow> l \<in> ep_reg st'"
proof (induction l evs st rule: epoll_batch.induct)
  case (2 l fd ev acc evs st)
  have "l \<in> ep_reg (case acc of None \<Rightarrow> st | Some (connfd, add_ok) \<Rightarrow> add_epoll_fd connfd add_ok st)"
    using "2.prems"(2) by (auto simp: add_epoll_fd_def split: option.split)
  moreover have "fd \<noteq> l \<Longrightarrow> l \<in> ep_reg (epoll_client fd ev st)" using "2.prems"(2) epoll_client_props(2) [of fd ev st] by auto
  ultimately show ?case using 2 by (auto split: if_splits)
qed simp

lemma epoll_main_listen: "epoll_main l ws st = Some (b, st') \<Longrightarrow> l \<in> ep_reg st \<Longrightarrow> l \<in> ep_reg st'"
  by (induction l ws st rule: epoll_main.induct) (auto split: if_splits option.splits dest: epoll_batch_listen)

text \<open>
  C15: Whatever the waiting calls and \<open>accept\<close> answer, the three servers keep their registrations: the
  poll server never uses more than its \<open>MAX_CLIENTS + 1\<close> entries and keeps the listening
  descriptor in entry 0; every descriptor the select server puts into its set is below
  \<open>FD_SETSIZE\<close>, and \<open>maxfd\<close> is the maximum of the set; the epoll server's listening descriptor, once
  registered, stays registered.
\<close>

theorem event_servers_invariant:
  "length (ps_fds (snd (poll_main ws (poll_init l socks)))) \<le> MAX_CLIENTS + 1
   \<and> p_fd (ps_fds (snd (poll_main ws (poll_init l socks))) ! 0) = l
   \<and> (\<forall>st. select_init l socks = Some st \<longrightarrow>
        l \<in> all_reads (snd (select_main l ws2 st)) \<and> (\<forall>f \<in> all_reads (snd (select_main l ws2 st)). f < FD_SETSIZE)
        \<and> maxfd (snd (select_main l ws2 st)) = int (Max (all_reads (snd (select_main l ws2 st)))))
   \<and> (\<forall>b st. epoll_main l ws3 (epoll_init l True socks) = Some (b, st) \<longrightarrow> l \<in> ep_reg st)"
proof (intro conjI allI impI)
  have "poll_ok l (poll_init l socks)" by (simp add: poll_ok_def poll_init_def)
  from poll_main_ok [OF this, of ws]
  show "length (ps_fds (snd (poll_main ws (poll_init l socks)))) \<le> MAX_CLIENTS + 1"
    and "p_fd (ps_fds (snd (poll_main ws (poll_init l socks))) ! 0) = l"
    by (auto simp: poll_ok_def hd_conv_nth)
next
  fix st assume "select_init l socks = Some st"
  then have "select_ok l st" "select_fits st"
    by (auto simp: select_init_def select_ok_def select_fits_def split: if_splits)
  from select_main_ok [OF this, of ws2]
  show "l \<in> all_reads (snd (select_main l ws2 st))" "\<forall>f \<in> all_reads (snd (select_main l ws2 st)). f < FD_SETSIZE"
    "maxfd (snd (select_main l ws2 st)) = int (Max (all_reads (snd (select_main l ws2 st))))"
    by (auto simp: select_ok_def select_fits_def)
next
  fix b st assume "epoll_main l ws3 (epoll_init l True socks) = Some (b, st)"
  then show "l \<in> ep_reg st" by (rule epoll_main_listen) (simp add: epoll_init_def add_epoll_fd_def)
qed

theorem event_servers_invariant_witness:
  "length (ps_fds (snd (poll_main [Inr (1, \<lambda>_. {POLLIN}, Some 4)] (poll_init 3 (ps_socks demo_poll))))) \<le> MAX_CLIENTS + 1
   \<and> (\<exists>st. select_init 3 (ps_socks demo_poll) = Some st \<and> 3 \<in> all_reads (snd (select_main 3 [Inr (1, {3}, Some 4)] st)))
   \<and> (\<exists>st. epoll_main 3 [Inr [(3, {L_IN}, Some (4, True))]] (epoll_init 3 True (ps_socks demo_poll)) = Some (True, st) \<and> 3 \<in> ep_reg st)"
proof -
  obtain st where st: "select_init 3 (ps_socks demo_poll) = Some st" by (simp add: select_init_def FD_SETSIZE_def)
  obtain est where est: "epoll_main 3 [Inr [(3, {L_IN}, Some (4, True))]] (epoll_init 3 True (ps_socks demo_poll)) = Some (True, est)"
    by (simp add: epoll_init_def add_epoll_fd_def)
  show ?thesis
    using event_servers_invariant [of "[Inr (1, \<lambda>_. {POLLIN}, Some 4)]" 3 "ps_socks demo_poll" "[Inr (1, {3}, Some 4)]"
        "[Inr [(3, {L_IN}, Some (4, True))]]"] st est by blast
qed

end
