(* ===== verification/Dedup.thy ===== *)
theory Dedup
  imports C_Text "HOL-Library.Word"
begin

unbundle bit_operations_syntax

text \<open>
  \<open>Chapter5/5.12-5.14/expirements/dedup.c\<close>: removing duplicates from an array of strings by linear
  search and by an open-addressing hash table, and the checksum of the measured program. Strings are
  byte lists, so \<open>strcmp\<close> is equality; the array \<open>uniq\<close> is the list of the stored strings; the hash is a
  64-bit word. \<open>None\<close> is a loop that does not end, an access outside an array or a signed overflow. The
  main result is that the optimised routine computes what the plain one does.
\<close>

section \<open>Model\<close>

definition CHECK_REPS :: nat where "CHECK_REPS = 80"

text \<open>\<open>rnd i\<close> is the value of the \<open>i\<close>-th call of \<open>rand\<close> after \<open>srand (SEED)\<close>.\<close>

definition pad6 :: "bytes \<Rightarrow> bytes" where
  "pad6 ds = replicate (6 - length ds) (CHR ''0'') @ ds"

definition build_input :: "(nat \<Rightarrow> nat) \<Rightarrow> nat \<Rightarrow> nat \<Rightarrow> bytes list" where
  "build_input rnd n dict = map (\<lambda>i. take 23 (''word_'' @ pad6 (dec_nat (rnd i mod dict)))) [0..<n]"

definition hash_from :: "64 word \<Rightarrow> bytes \<Rightarrow> 64 word" where
  "hash_from h0 s = foldl (\<lambda>h c. h * 33 + of_nat (of_char c)) h0 s"

definition checksum :: "bytes list \<Rightarrow> int" where
  "checksum words = foldl (\<lambda>s rep. foldl (\<lambda>s w. s + uint (hash_from (5381 + of_nat rep) w AND 0xff)) s words) 0 [0..<CHECK_REPS]"

function uniq_search :: "bytes \<Rightarrow> bytes list \<Rightarrow> nat \<Rightarrow> bool" where
  "uniq_search w uniq j = (if j < length uniq then (if w = uniq ! j then True else uniq_search w uniq (j + 1)) else False)"
  by pat_completeness auto
termination
  by (relation "measure (\<lambda>(w, uniq, j). length uniq - j)") auto

definition quadratic_step :: "bytes list \<Rightarrow> bytes \<Rightarrow> bytes list" where
  "quadratic_step uniq w = (if uniq_search w uniq 0 then uniq else uniq @ [w])"

definition dedup_quadratic :: "bytes list \<Rightarrow> bytes list" where
  "dedup_quadratic words = foldl quadratic_step [] words"

text \<open>The capacity: doubling an \<open>int\<close> beyond \<open>INT_MAX\<close> is undefined.\<close>

partial_function (option) cap_loop :: "int \<Rightarrow> int \<Rightarrow> int option" where
  "cap_loop n2 cap = (if cap < n2 then (if 2 * cap \<le> INT_MAX then cap_loop n2 (2 * cap) else None) else Some cap)"

text \<open>The probing loop: whether \<open>w\<close> was found, and the slot where it stopped.\<close>

partial_function (option) probe_loop :: "int list \<Rightarrow> bytes list \<Rightarrow> bytes \<Rightarrow> 64 word \<Rightarrow> 64 word \<Rightarrow> (bool \<times> 64 word) option" where
  "probe_loop tab uniq w msk k =
     (if length tab \<le> unat k then None
      else if tab ! unat k = -1 then Some (False, k)
      else if tab ! unat k < 0 \<or> int (length uniq) \<le> tab ! unat k then None
      else if uniq ! nat (tab ! unat k) = w then Some (True, k)
      else probe_loop tab uniq w msk ((k + 1) AND msk))"

definition hash_step :: "64 word \<Rightarrow> bytes \<Rightarrow> int list \<times> bytes list \<Rightarrow> (int list \<times> bytes list) option" where
  "hash_step msk w tu =
     (case tu of (tab, uniq) \<Rightarrow>
        (case probe_loop tab uniq w msk (hash_from 5381 w AND msk) of
           None \<Rightarrow> None
         | Some (dup, k) \<Rightarrow> if dup then Some (tab, uniq) else Some (tab[unat k := int (length uniq)], uniq @ [w])))"

fun hash_steps :: "64 word \<Rightarrow> bytes list \<Rightarrow> int list \<times> bytes list \<Rightarrow> (int list \<times> bytes list) option" where
  "hash_steps msk [] tu = Some tu"
| "hash_steps msk (w # ws) tu = (case hash_step msk w tu of None \<Rightarrow> None | Some tu' \<Rightarrow> hash_steps msk ws tu')"

definition dedup_hash :: "bytes list \<Rightarrow> bytes list option" where
  "dedup_hash words =
     (let n2 = int (length words) * 2
      in if INT_MAX < n2 then None
         else case cap_loop n2 1 of
                None \<Rightarrow> None
              | Some cap \<Rightarrow>
                  map_option snd (hash_steps (word_of_int cap - 1) words (replicate (nat cap) (-1), [])))"

text \<open>The rounds of \<open>main\<close>: the number of distinct words and the sum of the checksums.\<close>

fun dedup_rounds :: "bool \<Rightarrow> bytes list \<Rightarrow> nat \<Rightarrow> nat \<times> int \<Rightarrow> (nat \<times> int) option" where
  "dedup_rounds use_hash words 0 res = Some res"
| "dedup_rounds use_hash words (Suc r) (u, sink) =
     (case (if use_hash then dedup_hash words else Some (dedup_quadratic words)) of
        None \<Rightarrow> None
      | Some uniq \<Rightarrow>
          if sink + checksum words \<le> LONG_MAX then dedup_rounds use_hash words r (length uniq, sink + checksum words)
          else None)"

definition dedup_main :: "(nat \<Rightarrow> nat) \<Rightarrow> bytes \<Rightarrow> nat \<Rightarrow> nat \<Rightarrow> (nat \<times> int) option" where
  "dedup_main rnd mode n r = dedup_rounds (mode = ''hash'') (build_input rnd n 2000) r (0, 0)"

section \<open>The linear search\<close>

declare uniq_search.simps [simp del]

lemma uniq_search_eq: "uniq_search w uniq j \<longleftrightarrow> w \<in> set (drop j uniq)"
proof (induction w uniq j rule: uniq_search.induct)
  case (1 w uniq j)
  show ?case
  proof (cases "j < length uniq")
    case True
    then have "drop j uniq = uniq ! j # drop (j + 1) uniq" by (simp add: Cons_nth_drop_Suc)
    with 1 True show ?thesis by (subst uniq_search.simps) auto
  qed (subst uniq_search.simps, simp)
qed

lemma quadratic_step_eq: "quadratic_step uniq w = (if w \<in> set uniq then uniq else uniq @ [w])"
  by (simp add: quadratic_step_def uniq_search_eq)

lemma dedup_quadratic_snoc: "dedup_quadratic (words @ [w]) = quadratic_step (dedup_quadratic words) w"
  by (simp add: dedup_quadratic_def)

lemma set_dedup_quadratic: "set (dedup_quadratic words) = set words"
  by (induction words rule: rev_induct)
    (auto simp: dedup_quadratic_snoc quadratic_step_eq, auto simp: dedup_quadratic_def)

lemma dedup_quadratic_eq: "dedup_quadratic words = rev (remdups (rev words))"
  by (induction words rule: rev_induct)
    (auto simp: dedup_quadratic_snoc quadratic_step_eq set_dedup_quadratic, auto simp: dedup_quadratic_def)

section \<open>The hash table\<close>

lemma cap_loop_pow:
  assumes "n2 \<le> 2 ^ 30" "m \<le> 30"
  shows "\<exists>m' \<ge> m. m' \<le> 30 \<and> cap_loop n2 (2 ^ m) = Some (2 ^ m') \<and> n2 \<le> 2 ^ m'"
  using assms(2)
proof (induction "30 - m" arbitrary: m)
  case 0
  then show ?case using assms(1) by (intro exI [of _ 30]) (subst cap_loop.simps, simp)
next
  case (Suc d)
  show ?case
  proof (cases "(2::int) ^ m < n2")
    case True
    have "(2::int) ^ Suc m \<le> 2 ^ 30" using Suc.hyps(2) by (intro power_increasing) auto
    then have "cap_loop n2 (2 ^ m) = cap_loop n2 (2 ^ Suc m)" using True by (subst cap_loop.simps) (simp add: INT_MAX_def)
    moreover obtain m' where "Suc m \<le> m'" "m' \<le> 30" "cap_loop n2 (2 ^ Suc m) = Some (2 ^ m')" "n2 \<le> 2 ^ m'"
    proof -
      have "d = 30 - Suc m" "Suc m \<le> 30" using Suc.hyps(2) by auto
      from Suc.hyps(1) [OF this] show ?thesis using that by blast
    qed
    ultimately show ?thesis by (intro exI [of _ m']) simp
  next
    case False
    then show ?thesis using Suc.prems by (intro exI [of _ m]) (subst cap_loop.simps, simp)
  qed
qed

lemma unat_and_mask: "unat ((w :: 64 word) AND (2 ^ m - 1)) = unat w mod 2 ^ m"
proof -
  have "w AND (2 ^ m - 1) = take_bit m w" unfolding take_bit_eq_mask mask_eq_exp_minus_1 ..
  moreover have "unat (take_bit m w) = take_bit m (unat w)" by (rule unsigned_take_bit_eq)
  ultimately show ?thesis by (simp only: take_bit_eq_mod)
qed

text \<open>The \<open>i\<close>-th slot of the probe sequence that starts at slot \<open>h\<close> of a table of \<open>2 ^ m\<close> slots.\<close>

definition slot :: "nat \<Rightarrow> nat \<Rightarrow> nat \<Rightarrow> nat" where
  "slot m h i = (h + i) mod 2 ^ m"

definition home :: "nat \<Rightarrow> bytes \<Rightarrow> nat" where
  "home m w = unat (hash_from 5381 w AND (2 ^ m - 1))"

lemma slot_less: "slot m h i < 2 ^ m"
  by (simp add: slot_def)

lemma slot_next:
  fixes k :: "64 word"
  assumes "m \<le> 30" "unat k = slot m h i"
  shows "unat ((k + 1) AND (2 ^ m - 1)) = slot m h (Suc i)"
proof -
  have "slot m h i < 2 ^ 30" using slot_less [of m h i] power_increasing [OF assms(1), of "2::nat"] by linarith
  then have "unat (k + 1) = slot m h i + 1" using assms(2) by (simp add: unat_word_ariths)
  then show ?thesis unfolding unat_and_mask by (simp add: slot_def mod_Suc_eq)
qed

text \<open>
  The table for the distinct strings \<open>uniq\<close>: the slots hold indices of \<open>uniq\<close>, as many as there are,
  and each string can be reached from its home slot through used slots.
\<close>

definition hash_table_ok :: "nat \<Rightarrow> int list \<Rightarrow> bytes list \<Rightarrow> bool" where
  "hash_table_ok m tab uniq \<longleftrightarrow> length tab = 2 ^ m
     \<and> (\<forall>k < 2 ^ m. tab ! k = -1 \<or> 0 \<le> tab ! k \<and> tab ! k < int (length uniq))
     \<and> card {k. k < 2 ^ m \<and> tab ! k \<noteq> -1} = length uniq
     \<and> (\<forall>j < length uniq. \<exists>i. tab ! slot m (home m (uniq ! j)) i = int j
          \<and> (\<forall>i' < i. tab ! slot m (home m (uniq ! j)) i' \<noteq> -1))"

lemma free_slot:
  assumes "hash_table_ok m tab uniq" "length uniq < 2 ^ m"
  shows "\<exists>d. tab ! slot m h d = -1 \<and> (\<forall>i < d. tab ! slot m h i \<noteq> -1)"
proof -
  have "{k. k < 2 ^ m \<and> tab ! k \<noteq> -1} \<noteq> {k. k < 2 ^ m}" using assms by (auto simp: hash_table_ok_def)
  then obtain k where k: "k < 2 ^ m" "tab ! k = -1" by blast
  define i where "i = (k + 2 ^ m * h - h)"
  have "h \<le> k + 2 ^ m * h" by (rule trans_le_add2) simp
  then have "h + i = k + 2 ^ m * h" unfolding i_def by (rule le_add_diff_inverse)
  then have "slot m h i = k" using k(1) by (simp add: slot_def)
  with k have "\<exists>i. tab ! slot m h i = -1" by blast
  then show ?thesis using exists_least_iff [of "\<lambda>i. tab ! slot m h i = -1"] by blast
qed

lemma probe_loop_run:
  assumes "m \<le> 30" "hash_table_ok m tab uniq" "tab ! slot m h d = -1" "\<forall>i < d. tab ! slot m h i \<noteq> -1"
    and "i \<le> d" "unat k = slot m h i"
  shows "\<exists>r. probe_loop tab uniq w (2 ^ m - 1) k = Some r
     \<and> (fst r \<longleftrightarrow> (\<exists>i' \<ge> i. i' < d \<and> uniq ! nat (tab ! slot m h i') = w))
     \<and> (\<not> fst r \<longrightarrow> unat (snd r) = slot m h d)"
  using assms(5,6)
proof (induction "d - i" arbitrary: i k)
  case 0
  then have "probe_loop tab uniq w (2 ^ m - 1) k = Some (False, k)"
    using assms(2,3) slot_less [of m h i] by (subst probe_loop.simps) (simp add: hash_table_ok_def)
  with 0 show ?case by auto
next
  case (Suc n)
  then have i: "i < d" by simp
  let ?t = "tab ! slot m h i"
  have t: "?t \<noteq> -1" "0 \<le> ?t" "?t < int (length uniq)" "length tab = 2 ^ m"
    using assms(2,4) i slot_less [of m h i] by (auto simp: hash_table_ok_def)
  show ?case
  proof (cases "uniq ! nat ?t = w")
    case True
    then have "probe_loop tab uniq w (2 ^ m - 1) k = Some (True, k)"
      using t Suc.prems(2) slot_less [of m h i] by (subst probe_loop.simps) simp
    with True i show ?thesis by auto
  next
    case False
    then have e: "probe_loop tab uniq w (2 ^ m - 1) k = probe_loop tab uniq w (2 ^ m - 1) ((k + 1) AND (2 ^ m - 1))"
      using t Suc.prems(2) slot_less [of m h i] by (subst probe_loop.simps) simp
    have "(\<exists>i' \<ge> i. i' < d \<and> uniq ! nat (tab ! slot m h i') = w)
      \<longleftrightarrow> (\<exists>i' \<ge> Suc i. i' < d \<and> uniq ! nat (tab ! slot m h i') = w)"
      using False by (metis Suc_le_eq le_less Suc_leD)
    then show ?thesis unfolding e using Suc.hyps(1) [OF _ _ slot_next [OF assms(1) Suc.prems(2)]] Suc.hyps(2) i by simp
  qed
qed

lemma hash_step_ok:
  assumes "m \<le> 30" "hash_table_ok m tab uniq" "length uniq < 2 ^ m"
  shows "\<exists>tab'. hash_step (2 ^ m - 1) w (tab, uniq) = Some (tab', quadratic_step uniq w)
     \<and> hash_table_ok m tab' (quadratic_step uniq w)"
proof -
  let ?h = "home m w"
  obtain d where d: "tab ! slot m ?h d = -1" "\<forall>i < d. tab ! slot m ?h i \<noteq> -1"
    using free_slot [OF assms(2,3)] by blast
  have "unat (hash_from 5381 w AND (2 ^ m - 1)) = slot m ?h 0"
    using slot_less by (simp add: slot_def home_def unat_and_mask)
  then obtain f k where r: "probe_loop tab uniq w (2 ^ m - 1) (hash_from 5381 w AND (2 ^ m - 1)) = Some (f, k)"
      "f \<longleftrightarrow> (\<exists>i' < d. uniq ! nat (tab ! slot m ?h i') = w)" "\<not> f \<Longrightarrow> unat k = slot m ?h d"
    using probe_loop_run [OF assms(1,2) d, of 0 "hash_from 5381 w AND (2 ^ m - 1)" w] by auto
  have ok: "length tab = 2 ^ m" "\<And>k. k < 2 ^ m \<Longrightarrow> tab ! k = -1 \<or> 0 \<le> tab ! k \<and> tab ! k < int (length uniq)"
      "card {k. k < 2 ^ m \<and> tab ! k \<noteq> -1} = length uniq"
      "\<And>j. j < length uniq \<Longrightarrow> \<exists>i. tab ! slot m (home m (uniq ! j)) i = int j
          \<and> (\<forall>i' < i. tab ! slot m (home m (uniq ! j)) i' \<noteq> -1)"
    using assms(2) by (auto simp: hash_table_ok_def)
  have found: "f \<longleftrightarrow> w \<in> set uniq"
  proof
    assume f
    then obtain i where i: "i < d" "uniq ! nat (tab ! slot m ?h i) = w" using r(2) by blast
    then have "nat (tab ! slot m ?h i) < length uniq" using ok(2) [OF slot_less, of ?h i] d(2) by auto
    from nth_mem [OF this] show "w \<in> set uniq" unfolding i(2) .
  next
    assume "w \<in> set uniq"
    then obtain j where j: "j < length uniq" "uniq ! j = w" by (auto simp: in_set_conv_nth)
    then obtain i where i: "tab ! slot m ?h i = int j" "\<forall>i' < i. tab ! slot m ?h i' \<noteq> -1" using ok(4) by blast
    then have "i < d" using d(1) by (metis linorder_neqE_nat of_nat_0_le_iff neg_0_le_iff_le not_one_le_zero)
    with i(1) j(2) r(2) show f by auto
  qed
  show ?thesis
  proof (cases f)
    case True
    then show ?thesis using found r(1) assms(2) by (simp add: hash_step_def quadratic_step_eq)
  next
    case False
    let ?k = "slot m ?h d"
    let ?tab = "tab[?k := int (length uniq)]"
    have nth: "?tab ! i = (if i = ?k then int (length uniq) else tab ! i)" if "i < 2 ^ m" for i
      using that ok(1) by (simp add: nth_list_update)
    have used: "{k. k < 2 ^ m \<and> ?tab ! k \<noteq> -1} = insert ?k {k. k < 2 ^ m \<and> tab ! k \<noteq> -1}"
      using nth slot_less [of m ?h d] by (auto split: if_splits)
    have "card {k. k < 2 ^ m \<and> ?tab ! k \<noteq> -1} = Suc (length uniq)"
      unfolding used using d(1) ok(3) by (subst card_insert_disjoint) auto
    moreover have "\<exists>i. ?tab ! slot m (home m ((uniq @ [w]) ! j)) i = int j
        \<and> (\<forall>i' < i. ?tab ! slot m (home m ((uniq @ [w]) ! j)) i' \<noteq> -1)" if "j < Suc (length uniq)" for j
    proof (cases "j < length uniq")
      case True
      then obtain i where "tab ! slot m (home m (uniq ! j)) i = int j" "\<forall>i' < i. tab ! slot m (home m (uniq ! j)) i' \<noteq> -1"
        using ok(4) by blast
      with True d(1) show ?thesis by (intro exI [of _ i]) (auto simp: nth slot_less nth_append)
    next
      case False
      with that have "j = length uniq" by simp
      with d(2) show ?thesis by (intro exI [of _ d]) (auto simp: nth slot_less)
    qed
    moreover have "?tab ! k = -1 \<or> 0 \<le> ?tab ! k \<and> ?tab ! k < int (Suc (length uniq))" if "k < 2 ^ m" for k
      using nth [OF that] ok(2) [OF that] by auto
    ultimately have "hash_table_ok m ?tab (uniq @ [w])" using ok(1) by (simp add: hash_table_ok_def)
    then show ?thesis using False found r by (simp add: hash_step_def quadratic_step_eq)
  qed
qed

lemma length_quadratic_step: "length (quadratic_step uniq w) \<le> Suc (length uniq)"
  by (simp add: quadratic_step_eq)

lemma hash_steps_ok:
  assumes "m \<le> 30" "hash_table_ok m tab uniq" "length uniq + length words \<le> 2 ^ m"
  shows "\<exists>tab'. hash_steps (2 ^ m - 1) words (tab, uniq) = Some (tab', foldl quadratic_step uniq words)"
  using assms(2,3)
proof (induction words arbitrary: tab uniq)
  case (Cons w ws)
  then obtain tab' where t: "hash_step (2 ^ m - 1) w (tab, uniq) = Some (tab', quadratic_step uniq w)"
      "hash_table_ok m tab' (quadratic_step uniq w)"
    using hash_step_ok [OF assms(1), of tab uniq w] by auto
  have "length (quadratic_step uniq w) + length ws \<le> 2 ^ m" using Cons.prems(2) length_quadratic_step [of uniq w] by simp
  with Cons.IH [OF t(2)] t(1) show ?case by simp
qed simp

section \<open>The optimised routine\<close>

text \<open>
  C13: The hash version computes exactly what the quadratic version does: up to \<open>2 ^ 29\<close> words its
  capacity loop and every probe loop end, no array is accessed out of range and no \<open>int\<close> overflows,
  and both leave in \<open>uniq\<close> the distinct words in the order of their first occurrence.
\<close>

theorem dedup_hash_correct:
  assumes "length words \<le> 2 ^ 29"
  shows "dedup_hash words = Some (dedup_quadratic words) \<and> dedup_quadratic words = rev (remdups (rev words))"
proof -
  let ?n2 = "int (length words) * 2"
  have "int (length words) \<le> int (2 ^ 29)" using assms by (simp only: of_nat_le_iff)
  then have n: "?n2 \<le> 2 ^ 30" by simp
  obtain m where m: "m \<le> 30" "cap_loop ?n2 1 = Some (2 ^ m)" "?n2 \<le> 2 ^ m"
    using cap_loop_pow [OF n, of 0] by auto
  have "int (length words) \<le> 2 ^ m" using m(3) by linarith
  then have len: "length words \<le> 2 ^ m" by simp
  have "hash_table_ok m (replicate (2 ^ m) (-1)) []" by (auto simp: hash_table_ok_def)
  then obtain tab' where "hash_steps (2 ^ m - 1) words (replicate (2 ^ m) (-1), []) = Some (tab', dedup_quadratic words)"
    using hash_steps_ok [OF m(1)] len unfolding dedup_quadratic_def by fastforce
  moreover have "\<not> INT_MAX < ?n2" using n by (simp add: INT_MAX_def)
  moreover have p: "nat (2 ^ m) = 2 ^ m" "(word_of_int (2 ^ m) :: 64 word) = 2 ^ m" by (simp_all add: nat_power_eq)
  ultimately have "dedup_hash words = Some (dedup_quadratic words)"
    by (simp only: dedup_hash_def Let_def m(2) p option.simps if_False snd_conv)
  then show ?thesis by (simp add: dedup_quadratic_eq)
qed

theorem dedup_hash_correct_witness:
  "dedup_hash [''ab'', ''b'', ''ab'', ''c''] = Some [''ab'', ''b'', ''c'']"
  using dedup_hash_correct [of "[''ab'', ''b'', ''ab'', ''c'']"] by simp

text \<open>The checksum stays within a \<open>long\<close> for any array an \<open>int\<close> can count.\<close>

lemma checksum_row:
  "s \<le> foldl (\<lambda>s w. s + uint (hash_from h w AND 0xff)) s words
     \<and> foldl (\<lambda>s w. s + uint (hash_from h w AND 0xff)) s words \<le> s + 255 * int (length words)"
proof (induction words arbitrary: s)
  case (Cons w ws)
  have "unat (hash_from h w AND (2 ^ 8 - 1)) < 2 ^ 8" unfolding unat_and_mask by (rule mod_less_divisor) simp
  then have "unat (hash_from h w AND 0xff) < 256" by simp
  then have "int (unat (hash_from h w AND 0xff)) \<le> 255" by linarith
  then have "uint (hash_from h w AND 0xff) \<le> 255" "0 \<le> uint (hash_from h w AND 0xff)"
    by (simp_all only: uint_nat [symmetric] of_nat_unat uint_ge_0)
  then show ?case using Cons.IH [of "s + uint (hash_from h w AND 0xff)"]
    unfolding foldl_Cons by (elim conjE, intro conjI) (linarith, simp)
qed simp

lemma checksum_bound: "0 \<le> checksum words \<and> checksum words \<le> 255 * int CHECK_REPS * int (length words)"
proof -
  have "s \<le> foldl (\<lambda>s rep. foldl (\<lambda>s w. s + uint (hash_from (5381 + of_nat rep) w AND 0xff)) s words) s reps
    \<and> foldl (\<lambda>s rep. foldl (\<lambda>s w. s + uint (hash_from (5381 + of_nat rep) w AND 0xff)) s words) s reps
        \<le> s + int (length reps) * (255 * int (length words))" for s reps
  proof (induction reps arbitrary: s)
    case (Cons r rs)
    let ?t = "foldl (\<lambda>s w. s + uint (hash_from (5381 + of_nat r) w AND 0xff)) s words"
    show ?case using Cons.IH [of ?t] checksum_row [of s "5381 + of_nat r" words] by (simp add: algebra_simps)
  qed simp
  from this [of 0 "[0..<CHECK_REPS]"] show ?thesis by (simp add: checksum_def algebra_simps)
qed

end
