(* ===== verification/Net.thy ===== *)
theory Net
  imports Echo_Service
begin

text \<open>
  \<open>Chapter11/socket/net.h\<close>: opening the client and the server end of a connection by trying the
  addresses of \<open>getaddrinfo\<close> in turn, and the two echo clients that use it. The state is the set of open
  descriptors; an address carries the answers the kernel gives for it. The interface \<open>address_loop\<close>
  states what the two loops have in common.
\<close>

section \<open>Model\<close>

definition LISTENQ :: nat where "LISTENQ = 1024"

text \<open>The answer of \<open>socket\<close> and whether \<open>connect\<close> or \<open>bind\<close> succeeds.\<close>

record addr_try =
  at_socket :: "nat option"
  at_ok :: bool

text \<open>The loops return the address pointer's state at the end: \<open>None\<close> is \<open>p == NULL\<close>.\<close>

fun connect_loop :: "addr_try list \<Rightarrow> nat set \<Rightarrow> nat option \<times> nat set" where
  "connect_loop [] fds = (None, fds)"
| "connect_loop (p # plist) fds =
     (case at_socket p of
        None \<Rightarrow> connect_loop plist fds
      | Some clientfd \<Rightarrow>
          if at_ok p then (Some clientfd, insert clientfd fds)
          else connect_loop plist (insert clientfd fds - {clientfd}))"

definition open_clientfd :: "addr_try list option \<Rightarrow> nat set \<Rightarrow> int \<times> nat set" where
  "open_clientfd gai fds =
     (case gai of
        None \<Rightarrow> (-1, fds)
      | Some plist \<Rightarrow>
          (case connect_loop plist fds of
             (None, fds') \<Rightarrow> (-1, fds')
           | (Some clientfd, fds') \<Rightarrow> (int clientfd, fds')))"

fun bind_loop :: "addr_try list \<Rightarrow> nat set \<Rightarrow> nat option \<times> nat set" where
  "bind_loop [] fds = (None, fds)"
| "bind_loop (p # plist) fds =
     (case at_socket p of
        None \<Rightarrow> bind_loop plist fds
      | Some listenfd \<Rightarrow>
          (let fds1 = insert listenfd fds
           in if at_ok p then (Some listenfd, fds1) else bind_loop plist (fds1 - {listenfd})))"

definition open_serverfd :: "addr_try list option \<Rightarrow> bool \<Rightarrow> nat set \<Rightarrow> int \<times> nat set" where
  "open_serverfd gai listen_ok fds =
     (case gai of
        None \<Rightarrow> (-1, fds)
      | Some plist \<Rightarrow>
          (case bind_loop plist fds of
             (None, fds') \<Rightarrow> (-1, fds')
           | (Some listenfd, fds') \<Rightarrow>
               if \<not> listen_ok then (-1, fds' - {listenfd}) else (int listenfd, fds')))"

text \<open>
  The clients, after \<open>open_clientfd\<close>: \<open>stdin\<close> is the list of strings \<open>fgets\<close> returns; the result is
  what is printed. \<open>client_loop\<close> is the client of \<open>12.1\<close>, \<open>plain_client\<close> the one of Chapter 11.
\<close>

fun client_loop :: "bytes list \<Rightarrow> rio_t \<times> chan \<Rightarrow> bytes \<Rightarrow> bytes \<times> rio_t \<times> chan" where
  "client_loop [] rc out = (out, rc)"
| "client_loop (buf # ls) rc out =
     (let len = length (cstr buf)
      in case rio_writen (snd rc) (take len buf) of (r, c1) \<Rightarrow>
           if r \<noteq> Inr len then (out, fst rc, c1)
           else case rio_readlineb ECHO_MAXLINE (fst rc, c1) of
                  (Inl e, bs, rc2) \<Rightarrow> (out, rc2)
                | (Inr n, bs, rc2) \<Rightarrow> if n = 0 then (out, rc2) else client_loop ls rc2 (out @ cstr bs))"

definition echo_client_main :: "rio_t \<Rightarrow> int \<times> nat set \<Rightarrow> bytes list \<Rightarrow> chan \<Rightarrow> (bytes \<times> rio_t \<times> chan \<times> nat set) option" where
  "echo_client_main rio opened stdin c =
     (case opened of (clientfd, fds) \<Rightarrow>
        if clientfd < 0 then None
        else case client_loop stdin (rio_initb rio clientfd, c) [] of (out, rio', c') \<Rightarrow>
               Some (out, rio', c', fds - {nat clientfd}))"

fun plain_client :: "bytes list \<Rightarrow> chan \<Rightarrow> bytes \<Rightarrow> bytes \<times> chan" where
  "plain_client [] c out = (out, c)"
| "plain_client (buf # ls) c out =
     (let len = length (cstr buf)
      in case kwrite (take len buf) c of
           (Wrote k, c1) \<Rightarrow>
             if k \<noteq> len then (out, c1)
             else (case kread (ECHO_MAXLINE - 1) c1 of
                     (Inl e, bs, c2) \<Rightarrow> (out, c2)
                   | (Inr n, bs, c2) \<Rightarrow> if n = 0 then (out, c2) else plain_client ls c2 (out @ cstr bs))
         | (_, c1) \<Rightarrow> (out, c1))"

section \<open>The interface of the address loops\<close>

definition usable :: "addr_try \<Rightarrow> bool" where
  "usable p \<longleftrightarrow> at_socket p \<noteq> None \<and> at_ok p"

locale address_loop =
  fixes loop :: "addr_try list \<Rightarrow> nat set \<Rightarrow> nat option \<times> nat set"
  assumes loop_Nil: "loop [] fds = (None, fds)"
    and loop_skip: "at_socket p = None \<Longrightarrow> loop (p # ps) fds = loop ps fds"
    and loop_fail: "at_socket p = Some fd \<Longrightarrow> \<not> at_ok p \<Longrightarrow> fd \<notin> fds \<Longrightarrow> loop (p # ps) fds = loop ps fds"
    and loop_done: "at_socket p = Some fd \<Longrightarrow> at_ok p \<Longrightarrow> loop (p # ps) fds = (Some fd, insert fd fds)"
begin

lemma loop_find:
  assumes "\<forall>p \<in> set ps. \<forall>fd. at_socket p = Some fd \<longrightarrow> fd \<notin> fds"
  shows "loop ps fds = (case find usable ps of None \<Rightarrow> (None, fds)
     | Some p \<Rightarrow> (at_socket p, insert (the (at_socket p)) fds))"
  using assms
proof (induction ps)
  case (Cons p ps)
  then show ?case
    by (cases "at_socket p"; cases "at_ok p") (simp_all add: usable_def loop_skip loop_fail loop_done)
qed (simp add: loop_Nil)

end

interpretation conn_loop: address_loop connect_loop
  by unfold_locales (simp_all add: insert_Diff_if)

interpretation srv_loop: address_loop bind_loop
  by unfold_locales (simp_all add: insert_Diff_if)

section \<open>Properties\<close>

text \<open>
  \<open>open_clientfd\<close> and \<open>open_serverfd\<close> return the descriptor of the first address that works (for the server:
  and on which \<open>listen\<close> succeeds), and -1 when there is none; in every case, error paths
  included, the descriptors open afterwards are those open before and the one returned. Assumed of
  the kernel: \<open>socket\<close> returns a descriptor that is not open.
\<close>

lemma net_open_no_leak:
  assumes "\<forall>p \<in> set plist. \<forall>fd. at_socket p = Some fd \<longrightarrow> fd \<notin> fds"
  shows "open_clientfd (Some plist) fds =
       (case find usable plist of None \<Rightarrow> (-1, fds)
        | Some p \<Rightarrow> (int (the (at_socket p)), insert (the (at_socket p)) fds))
     \<and> open_serverfd (Some plist) listen_ok fds =
       (case find usable plist of None \<Rightarrow> (-1, fds)
        | Some p \<Rightarrow> if listen_ok then (int (the (at_socket p)), insert (the (at_socket p)) fds) else (-1, fds))"
proof (cases "find usable plist")
  case None
  then show ?thesis
    using conn_loop.loop_find [OF assms] srv_loop.loop_find [OF assms] by (simp add: open_clientfd_def open_serverfd_def)
next
  case (Some p)
  then have "p \<in> set plist" "usable p" by (auto simp: find_Some_iff)
  then obtain fd where "at_socket p = Some fd" "fd \<notin> fds" using assms by (auto simp: usable_def)
  then show ?thesis
    using conn_loop.loop_find [OF assms] srv_loop.loop_find [OF assms] Some
    by (simp add: open_clientfd_def open_serverfd_def insert_Diff_if)
qed

lemma net_open_no_leak_witness:
  "open_clientfd (Some [\<lparr>at_socket = Some 3, at_ok = False\<rparr>, \<lparr>at_socket = None, at_ok = True\<rparr>, \<lparr>at_socket = Some 3, at_ok = True\<rparr>]) {0, 1, 2}
     = (3, {0, 1, 2, 3})"
  using net_open_no_leak [of "[\<lparr>at_socket = Some 3, at_ok = False\<rparr>, \<lparr>at_socket = None, at_ok = True\<rparr>, \<lparr>at_socket = Some 3, at_ok = True\<rparr>]" "{0, 1, 2}" True]
  by (auto simp: usable_def insert_commute)

section \<open>Talking to an echo server\<close>

text \<open>The strings successive calls of \<open>fgets\<close> with a buffer of \<open>m\<close> bytes return for the input \<open>xs\<close>.\<close>

function fgets_all :: "nat \<Rightarrow> bytes \<Rightarrow> bytes list" where
  "fgets_all m xs =
     (if xs = [] \<or> m \<le> 1 then []
      else line_take (m - 1) xs # fgets_all m (drop (length (line_take (m - 1) xs)) xs))"
  by pat_completeness auto
termination
  by (relation "measure (\<lambda>(m, xs). length xs)") (auto simp: line_take_eq_Nil)

declare fgets_all.simps [simp del]

lemma line_take_map: "(\<And>x. f x = LF \<longleftrightarrow> x = LF) \<Longrightarrow> line_take m (map f xs) = map f (line_take m xs)"
  by (induction m xs rule: line_take.induct) auto

text \<open>
  One exchange with a server that answers every byte \<open>b\<close> of the lines it is sent by \<open>f b\<close>: the client sends
  the next line of its input and reads the answer to it.
\<close>

lemma exchange_line:
  assumes "calm_rio rc" "rio_stream rc = map f xs" "xs \<noteq> []" "1 < m" "\<And>x. f x = LF \<longleftrightarrow> x = LF"
  defines "l \<equiv> line_take (m - 1) xs"
  obtains c1 rc2 where "rio_writen (snd rc) l = (Inr (length l), c1)"
    "rio_readlineb m (fst rc, c1) = (Inr (length l), map f l @ [NUL], rc2)"
    "calm_rio rc2" "rio_stream rc2 = map f (drop (length l) xs)" "k_out (snd rc2) = k_out (snd rc) @ l" "l \<noteq> []"
proof -
  have c: "rd_only_eintr (snd rc)" "wr_only_eintr (snd rc)" "rio_inv (fst rc)" using assms(1) by (auto simp: calm_rio_def)
  have l: "l \<noteq> []" using assms(3,4) by (simp add: l_def line_take_eq_Nil)
  obtain c1 where c1: "rio_writen (snd rc) l = (Inr (length l), c1)" "k_out c1 = k_out (snd rc) @ l" "wr_only_eintr c1"
      "k_in c1 = k_in (snd rc)" "k_rsched c1 = k_rsched (snd rc)"
    using rio_writen_calm [OF c(2)] by blast
  have s1: "rio_stream (fst rc, c1) = map f xs" using assms(2) c1(4) by (simp add: rio_stream_def)
  have "rd_only_eintr (snd (fst rc, c1))" using c(1) c1(5) by (simp add: rd_only_eintr_def)
  moreover have "map f l = line_take (m - 1) (rio_stream (fst rc, c1))" unfolding s1 l_def line_take_map [OF assms(5)] ..
  ultimately have "\<exists>rc2. rio_readlineb m (fst rc, c1) = (Inr (length (map f l)), if map f l = [] then [] else map f l @ [NUL], rc2)
      \<and> rio_inv (fst rc2) \<and> rd_only_eintr (snd rc2) \<and> rio_stream rc2 = drop (length (map f l)) (rio_stream (fst rc, c1))"
    using rio_readlineb_clean [of "(fst rc, c1)" m "map f l"] c(3) assms(4) unfolding fst_conv by blast
  then obtain rc2 where r: "rio_readlineb m (fst rc, c1) = (Inr (length l), map f l @ [NUL], rc2)"
      "rio_inv (fst rc2)" "rd_only_eintr (snd rc2)" "rio_stream rc2 = map f (drop (length l) xs)"
    using l unfolding s1 by (auto simp: drop_map)
  have k2: "k_out (snd rc2) = k_out c1" "k_wsched (snd rc2) = k_wsched c1"
    using rio_readlineb_inv [OF _ r(1)] c(3) by auto
  then have "calm_rio rc2" using r(2,3) c1(3) by (simp add: calm_rio_def wr_only_eintr_def)
  with that c1(1,2) r(1,4) k2(1) l show ?thesis by simp
qed

lemma fgets_all_Cons:
  assumes "xs \<noteq> []" "1 < m"
  shows "fgets_all m xs = line_take (m - 1) xs # fgets_all m (drop (length (line_take (m - 1) xs)) xs)"
  using assms by (subst fgets_all.simps) simp

lemma client_loop_echo:
  assumes "calm_rio rc" "rio_stream rc = xs" "NUL \<notin> set xs"
  shows "\<exists>rc'. client_loop (fgets_all ECHO_MAXLINE xs) rc out = (out @ xs, rc') \<and> k_out (snd rc') = k_out (snd rc) @ xs"
  using assms
proof (induction ECHO_MAXLINE xs arbitrary: rc out rule: fgets_all.induct)
  case (1 xs)
  have big: "1 < ECHO_MAXLINE" by (simp add: ECHO_MAXLINE_def)
  show ?case
  proof (cases "xs = []")
    case True
    then show ?thesis by (subst fgets_all.simps) auto
  next
    case False
    define l where "l = line_take (ECHO_MAXLINE - 1) xs"
    define ys where "ys = drop (length l) xs"
    have lys: "l @ ys = xs" unfolding l_def ys_def by (rule line_take_append_drop)
    have "NUL \<notin> set (l @ ys)" unfolding lys by (rule "1.prems"(3))
    then have nul: "NUL \<notin> set l" "NUL \<notin> set ys" by auto
    obtain c1 rc2 where e: "rio_writen (snd rc) l = (Inr (length l), c1)"
        "rio_readlineb ECHO_MAXLINE (fst rc, c1) = (Inr (length l), l @ [NUL], rc2)"
        "calm_rio rc2" "rio_stream rc2 = ys" "k_out (snd rc2) = k_out (snd rc) @ l" "l \<noteq> []"
      using exchange_line [OF "1.prems"(1) _ False big, of "\<lambda>b. b"] "1.prems"(2) unfolding l_def ys_def by auto
    then obtain rc' where "client_loop (fgets_all ECHO_MAXLINE ys) rc2 (out @ l) = ((out @ l) @ ys, rc')"
        "k_out (snd rc') = k_out (snd rc2) @ ys"
      using "1.hyps" [of rc2 "out @ l"] False big nul(2) by (auto simp: l_def ys_def)
    moreover have "fgets_all ECHO_MAXLINE xs = l # fgets_all ECHO_MAXLINE ys"
      unfolding l_def ys_def by (rule fgets_all_Cons [OF False big])
    moreover have "cstr l = l" "cstr (l @ [NUL]) = l" using nul(1) by (simp_all add: cstr_id cstr_NUL)
    ultimately show ?thesis using e lys by (simp add: Let_def)
  qed
qed

text \<open>
  Against a server that echoes, the client prints exactly the text it is given on its standard
  input and sends exactly that text, however the lines are cut by its buffer and the
  transfers are split, and closes its descriptor.
\<close>

lemma client_prints_echo:
  assumes "length (rio_buf rio) = RIO_BUFSIZE" "rd_only_eintr c" "wr_only_eintr c" "k_in c = inp" "NUL \<notin> set inp"
    and "0 \<le> clientfd"
  shows "\<exists>rio' c'. echo_client_main rio (clientfd, fds) (fgets_all ECHO_MAXLINE inp) c = Some (inp, rio', c', fds - {nat clientfd})
     \<and> k_out c' = k_out c @ inp"
proof -
  let ?rc = "(rio_initb rio clientfd, c)"
  have "calm_rio ?rc" using assms by (simp add: calm_rio_def rio_initb_inv)
  then obtain rc' where "client_loop (fgets_all ECHO_MAXLINE inp) ?rc [] = (inp, rc')" "k_out (snd rc') = k_out c @ inp"
    using client_loop_echo [of ?rc inp "[]"] assms(4,5) by auto
  then show ?thesis using assms(6) by (cases rc') (simp add: echo_client_main_def)
qed

lemma client_prints_echo_witness:
  "\<exists>rio' c'. echo_client_main \<lparr>rio_fd = 0, rio_cnt = 0, rio_bufptr = 0, rio_buf = replicate RIO_BUFSIZE NUL\<rparr>
     (3, {0, 1, 2, 3}) (fgets_all ECHO_MAXLINE (''hi'' @ [LF] @ ''x'')) demo_peer = Some (''hi'' @ [LF] @ ''x'', rio', c', {0, 1, 2})"
  using client_prints_echo [of "\<lparr>rio_fd = 0, rio_cnt = 0, rio_bufptr = 0, rio_buf = replicate RIO_BUFSIZE NUL\<rparr>" demo_peer
      "''hi'' @ [LF] @ ''x''" 3 "{0, 1, 2, 3}"]
  by (auto simp: demo_peer_def rd_only_eintr_def wr_only_eintr_def insert_Diff_if)

end
