(* ===== verification/Uds.thy ===== *)
theory Uds
  imports Net C_Text
begin

text \<open>
  The Unix domain socket programs of \<open>Chapter10/experiments\<close>: the address helper of \<open>uds.h\<close>, the
  upper-casing server \<open>uds_server.c\<close> and its client \<open>uds_client.c\<close>. The server is a line service in the sense
  of \<open>Echo_Service\<close>. \<open>unix_name\<close> is how the kernel reads an address (unix(7)).
\<close>

section \<open>Addresses\<close>

record sockaddr_un =
  sun_family :: nat
  sun_path :: bytes

definition AF_UNIX :: nat where "AF_UNIX = 1"
definition SUN_PATH_SIZE :: nat where "SUN_PATH_SIZE = 108"

text \<open>\<open>None\<close>: the name is too long and the program exits. The size of the family field is 2.\<close>

definition fill_uds_addr :: "bytes \<Rightarrow> (sockaddr_un \<times> nat) option" where
  "fill_uds_addr name =
     (let zero = replicate SUN_PATH_SIZE NUL
      in if name \<noteq> [] \<and> hd name = CHR ''@'' then
           (let abs = tl name; len = length abs
            in if SUN_PATH_SIZE < len + 1 then None
               else Some (\<lparr>sun_family = AF_UNIX, sun_path = overlay ([NUL] @ abs) zero\<rparr>, 2 + 1 + len))
         else
           (let len = length name
            in if SUN_PATH_SIZE \<le> len then None
               else Some (\<lparr>sun_family = AF_UNIX, sun_path = overlay name zero\<rparr>, 2 + SUN_PATH_SIZE)))"

datatype unix_addr = Unnamed | Abstract bytes | Pathname bytes

definition unix_name :: "sockaddr_un \<times> nat \<Rightarrow> unix_addr" where
  "unix_name a =
     (case a of (addr, len) \<Rightarrow>
        if len \<le> 2 then Unnamed
        else if sun_path addr ! 0 = NUL then Abstract (take (len - 3) (drop 1 (sun_path addr)))
        else Pathname (cstr (take (len - 2) (sun_path addr))))"

section \<open>The server\<close>

definition buf_toupper :: "bytes \<Rightarrow> nat \<Rightarrow> bytes" where
  "buf_toupper buf len = map to_upper (take len buf) @ drop len buf"

text \<open>The loop over the lines of one client.\<close>

partial_function (option) uds_lines :: "rio_t \<times> chan \<Rightarrow> (rio_t \<times> chan) option" where
  "uds_lines rc =
     (case rio_readlineb RIO_BUFSIZE rc of
        (Inr n, line, rc1) \<Rightarrow>
          if 0 < n then
            (let line1 = buf_toupper line n
             in case rio_writen (snd rc1) (take n line1) of (r, c2) \<Rightarrow>
                  if r \<noteq> Inr n then Some (fst rc1, c2) else uds_lines (fst rc1, c2))
          else Some rc1
      | (Inl e, line, rc1) \<Rightarrow> Some rc1)"

text \<open>
  The server process: the socket files that exist, the connections served and the exit status once it
  has ended. An event is what interrupts or answers \<open>accept\<close>; the list may end before the server does.
\<close>

record uds_server =
  us_files :: "bytes set"
  us_served :: "chan list"
  us_exit :: "nat option"

datatype uds_event = Client rio_t chan | AcceptErr errno | Signal

definition is_abstract :: "bytes \<Rightarrow> bool" where
  "is_abstract g_sock_path \<longleftrightarrow> g_sock_path \<noteq> [] \<and> hd g_sock_path = CHR ''@''"

definition cleanup :: "bytes \<Rightarrow> bytes set \<Rightarrow> bytes set" where
  "cleanup g_sock_path fs = (if is_abstract g_sock_path then fs else fs - {g_sock_path})"

fun uds_accept :: "bytes \<Rightarrow> uds_event list \<Rightarrow> uds_server \<Rightarrow> uds_server option" where
  "uds_accept path [] s = Some s"
| "uds_accept path (Client rio c # evs) s =
     (case uds_lines (rio_initb rio 4, c) of
        None \<Rightarrow> None
      | Some rc \<Rightarrow> uds_accept path evs (s\<lparr>us_served := us_served s @ [snd rc]\<rparr>))"
| "uds_accept path (AcceptErr e # evs) s =
     (if e = EINTR then uds_accept path evs s
      else Some (s\<lparr>us_files := cleanup path (us_files s), us_exit := Some 1\<rparr>))"
| "uds_accept path (Signal # evs) s =
     Some (s\<lparr>us_files := cleanup path (us_files s), us_exit := Some 0\<rparr>)"

text \<open>\<open>sock_ok\<close>, \<open>bind_ok\<close> and \<open>listen_ok\<close>: whether the set-up calls succeed.\<close>

definition uds_server_main :: "bytes \<Rightarrow> bool \<Rightarrow> bool \<Rightarrow> bool \<Rightarrow> uds_event list \<Rightarrow> bytes set \<Rightarrow> uds_server option" where
  "uds_server_main path sock_ok bind_ok listen_ok evs fs =
     (let s0 = \<lparr>us_files = fs, us_served = [], us_exit = None\<rparr>
      in if \<not> sock_ok then Some (s0\<lparr>us_exit := Some 1\<rparr>)
         else case fill_uds_addr path of
                None \<Rightarrow> Some (s0\<lparr>us_exit := Some 1\<rparr>)
              | Some (addr, addrlen) \<Rightarrow>
                  (let s1 = s0\<lparr>us_files := cleanup path (us_files s0)\<rparr>
                   in if \<not> bind_ok then Some (s1\<lparr>us_exit := Some 1\<rparr>)
                      else (let s2 = (case unix_name (addr, addrlen) of
                                        Pathname f \<Rightarrow> s1\<lparr>us_files := insert f (us_files s1)\<rparr> | _ \<Rightarrow> s1)
                            in if \<not> listen_ok then Some (s2\<lparr>us_files := cleanup path (us_files s2), us_exit := Some 1\<rparr>)
                               else uds_accept path evs s2)))"

section \<open>The client\<close>

text \<open>The result: what is printed, and the exit status.\<close>

fun uds_client_loop :: "bytes list \<Rightarrow> rio_t \<times> chan \<Rightarrow> bytes \<Rightarrow> bytes \<times> nat \<times> rio_t \<times> chan" where
  "uds_client_loop [] rc out = (out, 0, rc)"
| "uds_client_loop (line # ls) rc out =
     (let len = length (cstr line)
      in case rio_writen (snd rc) (take len line) of (r, c1) \<Rightarrow>
           if r \<noteq> Inr len then (out, 1, fst rc, c1)
           else case rio_readlineb RIO_BUFSIZE (fst rc, c1) of
                  (Inl e, bs, rc2) \<Rightarrow> (out, 0, rc2)
                | (Inr n, bs, rc2) \<Rightarrow>
                    if n = 0 then (out, 0, rc2)
                    else uds_client_loop ls rc2 (out @ ''[client] echo: '' @ cstr (take n bs @ [NUL])))"

definition uds_client_main :: "bytes \<Rightarrow> bool \<Rightarrow> bool \<Rightarrow> rio_t \<Rightarrow> bytes list \<Rightarrow> chan \<Rightarrow> bytes \<times> nat \<times> chan" where
  "uds_client_main path sock_ok connect_ok rio stdin c =
     (if \<not> sock_ok then ([], 1, c)
      else case fill_uds_addr path of
             None \<Rightarrow> ([], 1, c)
           | Some addr \<Rightarrow>
               if \<not> connect_ok then ([], 1, c)
               else (case uds_client_loop stdin (rio_initb rio 3, c) [] of (out, st, rc) \<Rightarrow> (out, st, snd rc)))"

section \<open>Lemmas\<close>

lemma overlay_zero: "length bs \<le> n \<Longrightarrow> overlay bs (replicate n NUL) = bs @ replicate (n - length bs) NUL"
  by (simp add: overlay_def)

lemma fill_abstract:
  "is_abstract name \<Longrightarrow> fill_uds_addr name = Some a \<Longrightarrow> unix_name a = Abstract (tl name)"
  by (auto simp: fill_uds_addr_def is_abstract_def unix_name_def Let_def overlay_zero SUN_PATH_SIZE_def split: if_splits)

lemma fill_pathname:
  assumes "\<not> is_abstract name" "NUL \<notin> set name" "fill_uds_addr name = Some a"
  shows "unix_name a = (if name = [] then Abstract (replicate 107 NUL) else Pathname name)"
proof -
  have len: "length name < SUN_PATH_SIZE" and a: "a = (\<lparr>sun_family = AF_UNIX, sun_path = name @ replicate (108 - length name) NUL\<rparr>, 110)"
    using assms(1,3) by (auto simp: fill_uds_addr_def is_abstract_def Let_def overlay_zero SUN_PATH_SIZE_def split: if_splits)
  show ?thesis
  proof (cases name)
    case Nil
    then show ?thesis by (simp add: a unix_name_def)
  next
    case (Cons x xs)
    then have "x \<noteq> NUL" using assms(2) by auto
    moreover have "replicate (108 - length name) NUL = NUL # replicate (107 - length name) NUL"
      using len by (simp add: SUN_PATH_SIZE_def Suc_diff_le flip: replicate_Suc)
    moreover have "cstr (name @ NUL # replicate (107 - length name) NUL) = name" using assms(2) by (rule cstr_NUL)
    ultimately show ?thesis using Cons len by (simp add: a unix_name_def SUN_PATH_SIZE_def)
  qed
qed

lemma of_char_to_upper:
  "(of_char (to_upper x) :: nat) = (if 97 \<le> (of_char x :: nat) \<and> (of_char x :: nat) \<le> 122 then of_char x - 32 else of_char x)"
  by (auto simp: to_upper_def)

lemma take_buf_toupper: "take n (buf_toupper line n) = map to_upper (take n line)"
  by (cases "n \<le> length line") (auto simp: buf_toupper_def)

lemma to_upper_special: "to_upper x = LF \<longleftrightarrow> x = LF" "to_upper x = NUL \<longleftrightarrow> x = NUL"
  unfolding of_char_eq_iff [where 'a = nat, symmetric] of_char_to_upper by auto

lemma uds_lines_unfold:
  "uds_lines s = (case serve_line RIO_BUFSIZE to_upper s of (go, s') \<Rightarrow> if go then uds_lines s' else Some s')"
  by (subst uds_lines.simps)
    (auto simp: serve_line_def take_buf_toupper Let_def split: sum.split prod.split)

interpretation upper_lines: echo_loop "serve_line RIO_BUFSIZE to_upper" "\<lambda>rc. k_out (snd rc)"
  "\<lambda>rc. map to_upper (rio_stream rc)" "\<lambda>rc. rio_inv (fst rc)" "\<lambda>rc. length (rio_stream rc)" uds_lines
  by (rule serve_loop_intro [OF uds_lines_unfold]) (use serve_line_cases in blast)+


section \<open>Properties\<close>

text \<open>
  \<open>fill_uds_addr\<close> gives every name its own address: the kernel reads a name with \<open>@\<close> as exactly
  the abstract name after it, and any other non-empty name as exactly that path, so client and server meet if
  and only if they use the same name; only names of more than 107 bytes (abstract) or of 108 bytes
  and more (paths) are refused.
\<close>

lemma uds_addr_names:
  assumes "NUL \<notin> set name" "name \<noteq> []"
  shows "(fill_uds_addr name = None \<longleftrightarrow> (if is_abstract name then 108 < length name else 108 \<le> length name))
     \<and> (\<forall>a. fill_uds_addr name = Some a \<longrightarrow>
          unix_name a = (if is_abstract name then Abstract (tl name) else Pathname name))
     \<and> (\<forall>name2 a. NUL \<notin> set name2 \<longrightarrow> name2 \<noteq> [] \<longrightarrow> fill_uds_addr name = Some a \<longrightarrow> fill_uds_addr name2 = Some a \<longrightarrow> name2 = name)"
proof (intro conjI allI impI)
  show "fill_uds_addr name = None \<longleftrightarrow> (if is_abstract name then 108 < length name else 108 \<le> length name)"
    using assms(2) by (auto simp: fill_uds_addr_def is_abstract_def Let_def SUN_PATH_SIZE_def neq_Nil_conv)
next
  have name: "unix_name a = (if is_abstract n then Abstract (tl n) else Pathname n)"
    if "fill_uds_addr n = Some a" "NUL \<notin> set n" "n \<noteq> []" for n a
    using that fill_abstract fill_pathname by auto
  show "unix_name a = (if is_abstract name then Abstract (tl name) else Pathname name)" if "fill_uds_addr name = Some a" for a
    using name [OF that assms] .
  show "name2 = name" if "NUL \<notin> set name2" "name2 \<noteq> []" "fill_uds_addr name = Some a" "fill_uds_addr name2 = Some a" for name2 a
    using name [OF that(3) assms] name [OF that(4,1,2)] assms(2) that(2)
    by (auto simp: is_abstract_def neq_Nil_conv split: if_splits)
qed

lemma uds_addr_names_witness:
  "\<exists>a. fill_uds_addr ''@csapp'' = Some a \<and> unix_name a = Abstract ''csapp''"
  using uds_addr_names [of "''@csapp''"] by (cases "fill_uds_addr ''@csapp''") (auto simp: is_abstract_def)

text \<open>What one client gets.\<close>

lemma uds_lines_upper:
  assumes "length (rio_buf rio) = RIO_BUFSIZE"
  shows "\<exists>rc'. uds_lines (rio_initb rio fd, c) = Some rc' \<and> (\<exists>rest. k_out (snd rc') @ rest = k_out c @ map to_upper (k_in c))
     \<and> (rd_only_eintr c \<longrightarrow> wr_only_eintr c \<longrightarrow> k_out (snd rc') = k_out c @ map to_upper (k_in c))"
proof -
  have inv: "rio_inv (fst (rio_initb rio fd, c))" using assms by (simp add: rio_initb_inv)
  then have "calm_rio (rio_initb rio fd, c) \<longleftrightarrow> rd_only_eintr c \<and> wr_only_eintr c" by (simp add: calm_rio_def)
  then show ?thesis using serve_loop_result [OF uds_lines_unfold _ inv] by (auto simp: RIO_BUFSIZE_def)
qed

text \<open>The events of a run: buffers have their size and connections fail only by interruption.\<close>

definition calm_event :: "uds_event \<Rightarrow> bool" where
  "calm_event ev = (case ev of Client rio c \<Rightarrow> length (rio_buf rio) = RIO_BUFSIZE \<and> rd_only_eintr c \<and> wr_only_eintr c | _ \<Rightarrow> True)"

text \<open>The connections accepted before the event that ends the server.\<close>

fun accepted :: "uds_event list \<Rightarrow> chan list" where
  "accepted [] = []"
| "accepted (Client rio c # evs) = c # accepted evs"
| "accepted (AcceptErr e # evs) = (if e = EINTR then accepted evs else [])"
| "accepted (Signal # evs) = []"

lemma uds_accept_serves:
  assumes "\<forall>ev \<in> set evs. calm_event ev"
  shows "\<exists>s'. uds_accept path evs s = Some s'
     \<and> map k_out (us_served s') = map k_out (us_served s) @ map (\<lambda>c. k_out c @ map to_upper (k_in c)) (accepted evs)
     \<and> (us_exit s' = us_exit s \<and> us_files s' = us_files s \<or> us_exit s' \<noteq> None \<and> us_files s' = cleanup path (us_files s))"
  using assms
proof (induction path evs s rule: uds_accept.induct)
  case (2 path rio c evs s)
  then obtain rc where rc: "uds_lines (rio_initb rio 4, c) = Some rc" "k_out (snd rc) = k_out c @ map to_upper (k_in c)"
    using uds_lines_upper [of rio 4 c] by (auto simp: calm_event_def)
  with 2 show ?case by fastforce
qed auto

text \<open>
  C24: The server sends every client its own bytes in upper case, all of them and nothing else, when
  calls fail only by interruption, and serves all of the clients that connect before it
  ends; and when it ends after a successful \<open>bind\<close>, by a signal or by an error exit, the socket file
  is gone.
\<close>

theorem uds_server_serves:
  assumes "\<forall>ev \<in> set evs. calm_event ev" "fill_uds_addr path = Some a" "NUL \<notin> set path" "path \<noteq> []"
  shows "\<exists>s. uds_server_main path True True listen_ok evs fs = Some s
     \<and> (listen_ok \<longrightarrow> map k_out (us_served s) = map (\<lambda>c. k_out c @ map to_upper (k_in c)) (accepted evs))
     \<and> (us_exit s \<noteq> None \<longrightarrow> \<not> is_abstract path \<longrightarrow> path \<notin> us_files s)
     \<and> (us_exit s = None \<longrightarrow> \<not> is_abstract path \<longrightarrow> path \<in> us_files s)"
proof -
  obtain addr len where a: "a = (addr, len)" by (cases a)
  have n: "unix_name (addr, len) = (if is_abstract path then Abstract (tl path) else Pathname path)"
    using fill_abstract fill_pathname assms(2-4) a by auto
  define s2 where "s2 = (case unix_name (addr, len) of
      Pathname f \<Rightarrow> \<lparr>us_files = insert f (cleanup path fs), us_served = [], us_exit = None\<rparr>
    | _ \<Rightarrow> \<lparr>us_files = cleanup path fs, us_served = [], us_exit = None\<rparr>)"
  have s2: "us_served s2 = []" "us_exit s2 = None" "\<not> is_abstract path \<longrightarrow> path \<in> us_files s2"
    by (simp_all add: s2_def n)
  have e: "uds_server_main path True True listen_ok evs fs =
    (if listen_ok then uds_accept path evs s2 else Some (s2\<lparr>us_files := cleanup path (us_files s2), us_exit := Some 1\<rparr>))"
    using assms(2) by (auto simp: uds_server_main_def a Let_def s2_def split: unix_addr.split)
  show ?thesis
  proof (cases listen_ok)
    case True
    obtain s' where s': "uds_accept path evs s2 = Some s'"
        "map k_out (us_served s') = map (\<lambda>c. k_out c @ map to_upper (k_in c)) (accepted evs)"
        "us_exit s' = None \<and> us_files s' = us_files s2 \<or> us_exit s' \<noteq> None \<and> us_files s' = cleanup path (us_files s2)"
      using uds_accept_serves [OF assms(1), of path s2] unfolding s2(1,2) list.map append_Nil by blast
    have f: "us_exit s' \<noteq> None \<longrightarrow> \<not> is_abstract path \<longrightarrow> path \<notin> us_files s'"
      "us_exit s' = None \<longrightarrow> \<not> is_abstract path \<longrightarrow> path \<in> us_files s'"
      using s'(3) s2(3) by (cases "us_exit s'"; cases "is_abstract path"; simp add: cleanup_def)+
    have r: "uds_server_main path True True listen_ok evs fs = Some s'" unfolding e using True s'(1) by simp
    show ?thesis by (intro exI [of _ s'] conjI impI) (use r s'(2) f in simp_all)
  next
    case False
    then show ?thesis unfolding e by (auto simp: cleanup_def)
  qed
qed

theorem uds_server_serves_witness:
  "\<exists>s. uds_server_main ''/tmp/s'' True True True
       [Client \<lparr>rio_fd = 0, rio_cnt = 0, rio_bufptr = 0, rio_buf = replicate RIO_BUFSIZE NUL\<rparr> demo_peer, Signal] {} = Some s
     \<and> map k_out (us_served s) = [''HI'' @ [LF] @ ''X'']"
proof -
  let ?evs = "[Client \<lparr>rio_fd = 0, rio_cnt = 0, rio_bufptr = 0, rio_buf = replicate RIO_BUFSIZE NUL\<rparr> demo_peer, Signal]"
  have "\<forall>ev \<in> set ?evs. calm_event ev"
    by (simp add: calm_event_def demo_peer_def rd_only_eintr_def wr_only_eintr_def)
  moreover obtain a where "fill_uds_addr ''/tmp/s'' = Some a" by (simp add: fill_uds_addr_def Let_def SUN_PATH_SIZE_def)
  ultimately have "\<exists>s. uds_server_main ''/tmp/s'' True True True ?evs {} = Some s
     \<and> map k_out (us_served s) = map (\<lambda>c. k_out c @ map to_upper (k_in c)) (accepted ?evs)"
    using uds_server_serves [of ?evs "''/tmp/s''" a True "{}"] by auto
  moreover have "map (\<lambda>c. k_out c @ map to_upper (k_in c)) (accepted ?evs) = [''HI'' @ [LF] @ ''X'']"
    unfolding accepted.simps list.map demo_peer_def chan.simps by code_simp
  ultimately show ?thesis by simp
qed

text \<open>The client, talking to that server: each line of its input comes back in upper case.\<close>

definition echoed :: "bytes list \<Rightarrow> bytes" where
  "echoed ls = concat (map (\<lambda>l. ''[client] echo: '' @ map to_upper l) ls)"

lemma uds_client_loop_echo:
  assumes "calm_rio rc" "rio_stream rc = map to_upper xs" "NUL \<notin> set xs"
  shows "\<exists>rc'. uds_client_loop (fgets_all RIO_BUFSIZE xs) rc out = (out @ echoed (fgets_all RIO_BUFSIZE xs), 0, rc')
     \<and> k_out (snd rc') = k_out (snd rc) @ xs"
  using assms
proof (induction RIO_BUFSIZE xs arbitrary: rc out rule: fgets_all.induct)
  case (1 xs)
  have big: "1 < RIO_BUFSIZE" by (simp add: RIO_BUFSIZE_def)
  show ?case
  proof (cases "xs = []")
    case True
    then show ?thesis by (simp add: fgets_all.simps echoed_def)
  next
    case False
    define l where "l = line_take (RIO_BUFSIZE - 1) xs"
    define ys where "ys = drop (length l) xs"
    have lys: "l @ ys = xs" unfolding l_def ys_def by (rule line_take_append_drop)
    have "NUL \<notin> set (l @ ys)" unfolding lys by (rule "1.prems"(3))
    then have nul: "NUL \<notin> set l" "NUL \<notin> set ys" by auto
    obtain c1 rc2 where e: "rio_writen (snd rc) l = (Inr (length l), c1)"
        "rio_readlineb RIO_BUFSIZE (fst rc, c1) = (Inr (length l), map to_upper l @ [NUL], rc2)"
        "calm_rio rc2" "rio_stream rc2 = map to_upper ys" "k_out (snd rc2) = k_out (snd rc) @ l" "l \<noteq> []"
      using exchange_line [OF "1.prems"(1,2) False big to_upper_special(1)] unfolding l_def ys_def by blast
    let ?out = "out @ ''[client] echo: '' @ map to_upper l"
    obtain rc' where "uds_client_loop (fgets_all RIO_BUFSIZE ys) rc2 ?out = (?out @ echoed (fgets_all RIO_BUFSIZE ys), 0, rc')"
        "k_out (snd rc') = k_out (snd rc2) @ ys"
      using "1.hyps" [of rc2 ?out] False big nul(2) e(3,4) unfolding l_def ys_def by auto
    moreover have "fgets_all RIO_BUFSIZE xs = l # fgets_all RIO_BUFSIZE ys"
      unfolding l_def ys_def by (rule fgets_all_Cons [OF False big])
    moreover have "NUL \<notin> set (map to_upper l)" using nul(1) to_upper_special(2) by (metis image_iff list.set_map)
    then have "cstr (map to_upper l @ [NUL]) = map to_upper l" "cstr l = l" using nul(1) by (simp_all add: cstr_id cstr_NUL)
    ultimately show ?thesis using e lys by (simp add: Let_def echoed_def)
  qed
qed

lemma uds_client_prints:
  assumes "length (rio_buf rio) = RIO_BUFSIZE" "rd_only_eintr c" "wr_only_eintr c" "k_in c = map to_upper inp" "NUL \<notin> set inp"
    and "fill_uds_addr path = Some a"
  shows "\<exists>c'. uds_client_main path True True rio (fgets_all RIO_BUFSIZE inp) c = (echoed (fgets_all RIO_BUFSIZE inp), 0, c')
     \<and> k_out c' = k_out c @ inp"
proof -
  have "calm_rio (rio_initb rio 3, c)" using assms by (simp add: calm_rio_def rio_initb_inv)
  then obtain rc' where "uds_client_loop (fgets_all RIO_BUFSIZE inp) (rio_initb rio 3, c) [] = (echoed (fgets_all RIO_BUFSIZE inp), 0, rc')"
      "k_out (snd rc') = k_out c @ inp"
    using uds_client_loop_echo [of "(rio_initb rio 3, c)" inp "[]"] assms(4,5) by auto
  then show ?thesis using assms(6) by (simp add: uds_client_main_def)
qed

end
