(* ===== verification/Passfd.thy ===== *)
theory Passfd
  imports Uds
begin

text \<open>
  Passing an open descriptor with \<open>SCM_RIGHTS\<close>: \<open>send_fd\<close> and \<open>recv_fd\<close> of \<open>uds.h\<close> and the programs
  \<open>uds_passfd.c\<close>, \<open>passfd_send.c\<close> and \<open>passfd_recv.c\<close>. The kernel part is what unix(7) and cmsg(3) document: a
  descriptor table maps descriptors to open files, a message in flight holds a reference to the
  open file, \<open>recvmsg\<close> installs it under a free descriptor, and an open file lives as long as a table
  or a message refers to it. The two processes are interleaved step by step.
\<close>

section \<open>Control messages\<close>

definition SOL_SOCKET :: int where "SOL_SOCKET = 1"
definition SCM_RIGHTS :: int where "SCM_RIGHTS = 1"
definition CMSG_LEN_int :: nat where "CMSG_LEN_int = 20"

record cmsghdr =
  cmsg_len :: nat
  cmsg_level :: int
  cmsg_type :: int
  cmsg_data :: int

record msghdr =
  msg_iov :: bytes
  msg_control :: "cmsghdr option"

text \<open>The message \<open>send_fd\<close> builds: one placeholder byte and one control message.\<close>

definition send_fd_msg :: "int \<Rightarrow> msghdr" where
  "send_fd_msg fd_to_send =
     \<lparr>msg_iov = ''*'',
      msg_control = Some \<lparr>cmsg_len = CMSG_LEN_int, cmsg_level = SOL_SOCKET, cmsg_type = SCM_RIGHTS, cmsg_data = fd_to_send\<rparr>\<rparr>"

text \<open>The check of \<open>recv_fd\<close>: \<open>None\<close> is the exit with an error message.\<close>

definition recv_fd_msg :: "msghdr \<Rightarrow> int option" where
  "recv_fd_msg msg =
     (case msg_control msg of
        None \<Rightarrow> None
      | Some cmsg \<Rightarrow>
          if cmsg_level cmsg \<noteq> SOL_SOCKET \<or> cmsg_type cmsg \<noteq> SCM_RIGHTS \<or> cmsg_len cmsg \<noteq> CMSG_LEN_int then None
          else Some (cmsg_data cmsg))"

section \<open>The kernel\<close>

type_synonym fdtab = "nat \<Rightarrow> nat option"

record ofile =
  of_data :: bytes
  of_pos :: nat

type_synonym flight = "bytes \<times> nat option"

text \<open>\<open>sendmsg\<close>: the descriptor in the control message is looked up in the sender's table (\<open>None\<close>: \<open>EBADF\<close>).\<close>

definition k_sendmsg :: "fdtab \<Rightarrow> msghdr \<Rightarrow> flight option" where
  "k_sendmsg tab msg =
     (case msg_control msg of
        None \<Rightarrow> Some (msg_iov msg, None)
      | Some cmsg \<Rightarrow>
          if cmsg_level cmsg = SOL_SOCKET \<and> cmsg_type cmsg = SCM_RIGHTS then
            (if cmsg_data cmsg < 0 then None
             else map_option (\<lambda>f. (msg_iov msg, Some f)) (tab (nat (cmsg_data cmsg))))
          else None)"

text \<open>\<open>recvmsg\<close> with the free descriptor \<open>new\<close>.\<close>

definition k_recvmsg :: "nat \<Rightarrow> fdtab \<Rightarrow> flight \<Rightarrow> msghdr \<times> fdtab" where
  "k_recvmsg new tab m =
     (case m of
        (bs, None) \<Rightarrow> (\<lparr>msg_iov = bs, msg_control = None\<rparr>, tab)
      | (bs, Some f) \<Rightarrow>
          (\<lparr>msg_iov = bs,
            msg_control = Some \<lparr>cmsg_len = CMSG_LEN_int, cmsg_level = SOL_SOCKET, cmsg_type = SCM_RIGHTS, cmsg_data = int new\<rparr>\<rparr>,
           tab(new \<mapsto> f)))"

definition send_fd :: "fdtab \<Rightarrow> int \<Rightarrow> flight option" where
  "send_fd tab fd_to_send = k_sendmsg tab (send_fd_msg fd_to_send)"

definition recv_fd :: "nat \<Rightarrow> fdtab \<Rightarrow> flight \<Rightarrow> (int \<times> fdtab) option" where
  "recv_fd new tab m =
     (case k_recvmsg new tab m of (msg, tab') \<Rightarrow> map_option (\<lambda>fd. (fd, tab')) (recv_fd_msg msg))"

section \<open>The two processes\<close>

text \<open>
  The sender opens a file, sends the descriptor and closes it; the receiver waits for the message,
  reads up to 255 bytes through the descriptor it gets and closes it. Each of its calls may fail; \<open>R_die\<close> is an exit with
  status 1 and its message. When the kernel finds no free descriptor it delivers the data without the control message, which
  \<open>pf_ctrunc\<close> records.
\<close>

datatype sender = S_open | S_send nat | S_close nat | S_end | S_die
datatype recv_exit = Recvmsg_failed | No_cmsg | Read_failed
datatype receiver = R_recv | R_read int | R_close int bytes | R_end bytes | R_die recv_exit

record passfd =
  pf_files :: "nat \<Rightarrow> ofile option"
  pf_stab :: fdtab
  pf_rtab :: fdtab
  pf_queue :: "flight list"
  pf_s :: sender
  pf_r :: receiver
  pf_ctrunc :: bool

definition referenced :: "passfd \<Rightarrow> nat set" where
  "referenced s = ran (pf_stab s) \<union> ran (pf_rtab s) \<union> {f. \<exists>m \<in> set (pf_queue s). snd m = Some f}"

text \<open>After a \<open>close\<close>, open files without a reference go away.\<close>

definition release :: "passfd \<Rightarrow> passfd" where
  "release s = s\<lparr>pf_files := pf_files s |` referenced s\<rparr>"

definition read_ofile :: "nat \<Rightarrow> ofile \<Rightarrow> bytes \<times> ofile" where
  "read_ofile n f =
     (let bs = take n (drop (of_pos f) (of_data f)) in (bs, f\<lparr>of_pos := of_pos f + length bs\<rparr>))"

inductive passfd_step :: "bytes \<Rightarrow> passfd \<Rightarrow> passfd \<Rightarrow> bool" for data where
  open_file: "pf_s s = S_open \<Longrightarrow> pf_stab s fd = None \<Longrightarrow> pf_files s f = None \<Longrightarrow>
    passfd_step data s (s\<lparr>pf_files := (pf_files s)(f \<mapsto> \<lparr>of_data = data, of_pos = 0\<rparr>), pf_stab := (pf_stab s)(fd \<mapsto> f), pf_s := S_send fd\<rparr>)"
| open_fails: "pf_s s = S_open \<Longrightarrow> passfd_step data s (s\<lparr>pf_s := S_die\<rparr>)"
| send_ok: "pf_s s = S_send fd \<Longrightarrow> send_fd (pf_stab s) (int fd) = Some m \<Longrightarrow>
    passfd_step data s (s\<lparr>pf_queue := pf_queue s @ [m], pf_s := S_close fd\<rparr>)"
| send_fails: "pf_s s = S_send fd \<Longrightarrow> passfd_step data s (s\<lparr>pf_s := S_die\<rparr>)"
| sender_close: "pf_s s = S_close fd \<Longrightarrow>
    passfd_step data s (release (s\<lparr>pf_stab := (pf_stab s)(fd := None), pf_s := S_end\<rparr>))"
| recv_ok: "pf_r s = R_recv \<Longrightarrow> pf_queue s = m # q \<Longrightarrow> pf_rtab s new = None \<Longrightarrow>
    recv_fd new (pf_rtab s) m = Some (fd, tab) \<Longrightarrow>
    passfd_step data s (s\<lparr>pf_queue := q, pf_rtab := tab, pf_r := R_read fd\<rparr>)"
| recv_fails: "pf_r s = R_recv \<Longrightarrow> passfd_step data s (s\<lparr>pf_r := R_die Recvmsg_failed\<rparr>)"
| recv_invalid: "pf_r s = R_recv \<Longrightarrow> pf_queue s = m # q \<Longrightarrow> pf_rtab s new = None \<Longrightarrow>
    recv_fd new (pf_rtab s) m = None \<Longrightarrow> passfd_step data s (s\<lparr>pf_queue := q, pf_r := R_die No_cmsg\<rparr>)"
| recv_truncated: "pf_r s = R_recv \<Longrightarrow> pf_queue s = m # q \<Longrightarrow> recv_fd 0 (pf_rtab s) (fst m, None) = None \<Longrightarrow>
    passfd_step data s (release (s\<lparr>pf_queue := q, pf_r := R_die No_cmsg, pf_ctrunc := True\<rparr>))"
| recv_eof: "pf_r s = R_recv \<Longrightarrow> pf_queue s = [] \<Longrightarrow> pf_s s = S_die \<or> pf_s s = S_end \<Longrightarrow>
    passfd_step data s (s\<lparr>pf_r := R_die No_cmsg\<rparr>)"
| read_ok: "pf_r s = R_read fd \<Longrightarrow> 0 \<le> fd \<Longrightarrow> pf_rtab s (nat fd) = Some f \<Longrightarrow> pf_files s f = Some ofl \<Longrightarrow>
    read_ofile 255 ofl = (content, ofl') \<Longrightarrow>
    passfd_step data s (s\<lparr>pf_files := (pf_files s)(f \<mapsto> ofl'), pf_r := R_close fd content\<rparr>)"
| read_fails: "pf_r s = R_read fd \<Longrightarrow> passfd_step data s (s\<lparr>pf_r := R_die Read_failed\<rparr>)"
| receiver_close: "pf_r s = R_close fd content \<Longrightarrow>
    passfd_step data s (release (s\<lparr>pf_rtab := (pf_rtab s)(nat fd := None), pf_r := R_end content\<rparr>))"

definition passfd_init :: "fdtab \<Rightarrow> fdtab \<Rightarrow> (nat \<Rightarrow> ofile option) \<Rightarrow> passfd" where
  "passfd_init stab rtab files =
     \<lparr>pf_files = files, pf_stab = stab, pf_rtab = rtab, pf_queue = [], pf_s = S_open, pf_r = R_recv, pf_ctrunc = False\<rparr>"

text \<open>The addresses of the separate programs: the sender checks the length of the path, the receiver does not.\<close>

definition passfd_send_addr :: "bytes \<Rightarrow> sockaddr_un option" where
  "passfd_send_addr sock_path =
     (if SUN_PATH_SIZE \<le> length sock_path then None
      else Some \<lparr>sun_family = AF_UNIX, sun_path = overlay (take (SUN_PATH_SIZE - 1) sock_path) (replicate SUN_PATH_SIZE NUL)\<rparr>)"

definition passfd_recv_addr :: "bytes \<Rightarrow> sockaddr_un" where
  "passfd_recv_addr sock_path =
     \<lparr>sun_family = AF_UNIX, sun_path = overlay (take (SUN_PATH_SIZE - 1) sock_path) (replicate SUN_PATH_SIZE NUL)\<rparr>"

section \<open>Invariant\<close>

lemma send_fd_eq: "send_fd tab (int fd) = map_option (\<lambda>f. (''*'', Some f)) (tab fd)"
  by (simp add: send_fd_def send_fd_msg_def k_sendmsg_def)

lemma recv_fd_eq: "recv_fd new tab (bs, Some f) = Some (int new, tab(new \<mapsto> f))"
  by (simp add: recv_fd_def k_recvmsg_def recv_fd_msg_def)

text \<open>The file the sender opened, at its start, is where the program counters say.\<close>

definition fresh_file :: "bytes \<Rightarrow> passfd \<Rightarrow> nat \<Rightarrow> bool" where
  "fresh_file data s f \<longleftrightarrow> pf_files s f = Some \<lparr>of_data = data, of_pos = 0\<rparr>"

definition r_dead :: "passfd \<Rightarrow> bool" where
  "r_dead s \<longleftrightarrow> (\<exists>e. pf_r s = R_die e)"

fun sender_ok :: "bytes \<Rightarrow> passfd \<Rightarrow> sender \<Rightarrow> bool" where
  "sender_ok data s (S_send fd) \<longleftrightarrow> (\<exists>f. pf_stab s fd = Some f \<and> fresh_file data s f) \<and> pf_queue s = [] \<and> (pf_r s = R_recv \<or> r_dead s)"
| "sender_ok data s S_open \<longleftrightarrow> pf_queue s = [] \<and> (pf_r s = R_recv \<or> r_dead s)"
| "sender_ok data s S_die \<longleftrightarrow> pf_queue s = [] \<and> (pf_r s = R_recv \<or> r_dead s)"
| "sender_ok data s _ \<longleftrightarrow> (if pf_r s = R_recv then \<exists>f. pf_queue s = [(''*'', Some f)] \<and> fresh_file data s f
     else pf_queue s = [] \<or> r_dead s)"

fun receiver_ok :: "bytes \<Rightarrow> passfd \<Rightarrow> receiver \<Rightarrow> bool" where
  "receiver_ok data s (R_read fd) \<longleftrightarrow> 0 \<le> fd \<and> (\<exists>f. pf_rtab s (nat fd) = Some f \<and> fresh_file data s f)"
| "receiver_ok data s (R_close fd content) \<longleftrightarrow> content = take 255 data"
| "receiver_ok data s (R_end content) \<longleftrightarrow> content = take 255 data"
| "receiver_ok data s (R_die e) \<longleftrightarrow> (e = No_cmsg \<longrightarrow> pf_s s = S_die \<or> pf_ctrunc s)"
| "receiver_ok data s R_recv \<longleftrightarrow> True"

definition passfd_inv :: "bytes \<Rightarrow> passfd \<Rightarrow> bool" where
  "passfd_inv data s \<longleftrightarrow> referenced s \<subseteq> dom (pf_files s) \<and> finite (dom (pf_rtab s))
     \<and> sender_ok data s (pf_s s) \<and> receiver_ok data s (pf_r s)"

lemma release_simps [simp]:
  "pf_stab (release s) = pf_stab s" "pf_rtab (release s) = pf_rtab s" "pf_queue (release s) = pf_queue s"
  "pf_s (release s) = pf_s s" "pf_r (release s) = pf_r s" "pf_ctrunc (release s) = pf_ctrunc s" "referenced (release s) = referenced s"
  by (auto simp: release_def referenced_def)

lemma release_files: "f \<in> referenced s \<Longrightarrow> pf_files (release s) f = pf_files s f"
  by (simp add: release_def)

lemma release_alive: "referenced s \<subseteq> dom (pf_files s) \<Longrightarrow> referenced (release s) \<subseteq> dom (pf_files (release s))"
  using release_files [of _ s] by (fastforce simp: domIff)

lemma referenced_cases:
  "pf_stab s fd = Some f \<Longrightarrow> f \<in> referenced s" "pf_rtab s fd = Some f \<Longrightarrow> f \<in> referenced s"
  "(bs, Some f) \<in> set (pf_queue s) \<Longrightarrow> f \<in> referenced s"
  by (force simp: referenced_def ran_def)+

lemma ran_update: "ran (tab(x := None)) \<subseteq> ran tab" "ran (tab(x \<mapsto> y)) \<subseteq> insert y (ran tab)"
  by (auto simp: ran_def)

lemma passfd_inv_step:
  assumes "passfd_step data s s'" "passfd_inv data s"
  shows "passfd_inv data s'"
  using assms
proof cases
  case (open_file fd f)
  have "referenced s' \<subseteq> insert f (referenced s)" using open_file(1) ran_update(2) by (fastforce simp: referenced_def)
  moreover have "receiver_ok data s' (pf_r s)"
    using open_file assms(2) by (cases "pf_r s") (auto simp: passfd_inv_def r_dead_def)
  ultimately show ?thesis using open_file assms(2) by (auto simp: passfd_inv_def fresh_file_def r_dead_def)
next
  case open_fails
  then have "receiver_ok data s' (pf_r s)" using assms(2) by (cases "pf_r s") (auto simp: passfd_inv_def r_dead_def)
  then show ?thesis using open_fails assms(2) by (auto simp: passfd_inv_def referenced_def r_dead_def)
next
  case (send_ok fd m)
  obtain f where f: "pf_stab s fd = Some f" "fresh_file data s f" "pf_queue s = []" "pf_r s = R_recv \<or> r_dead s"
    using send_ok assms(2) by (auto simp: passfd_inv_def)
  have m: "m = (''*'', Some f)" using send_ok(3) f(1) by (simp add: send_fd_eq)
  have "referenced s' = referenced s" using send_ok(1) m f(1,3) by (auto simp: referenced_def ran_def)
  moreover have "receiver_ok data s' (pf_r s)"
    using send_ok f(4) assms(2) by (cases "pf_r s") (auto simp: passfd_inv_def r_dead_def)
  ultimately show ?thesis using send_ok f m assms(2) by (auto simp: passfd_inv_def fresh_file_def r_dead_def)
next
  case (send_fails fd)
  then have "receiver_ok data s' (pf_r s)" using assms(2) by (cases "pf_r s") (auto simp: passfd_inv_def r_dead_def)
  then show ?thesis using send_fails assms(2) by (auto simp: passfd_inv_def referenced_def r_dead_def)
next
  case (sender_close fd)
  let ?t = "s\<lparr>pf_stab := (pf_stab s)(fd := None), pf_s := S_end\<rparr>"
  have r: "referenced ?t \<subseteq> referenced s" using ran_update(1) by (fastforce simp: referenced_def)
  have q: "fresh_file data s f \<Longrightarrow> f \<in> referenced ?t \<Longrightarrow> fresh_file data (release ?t) f" for f
    by (simp add: fresh_file_def release_files)
  have "referenced (release ?t) \<subseteq> dom (pf_files (release ?t))"
    using r assms(2) by (intro release_alive) (auto simp: passfd_inv_def)
  moreover have "sender_ok data (release ?t) S_end"
    using assms(2) sender_close q referenced_cases(3) [of "''*''" _ ?t] by (auto simp: passfd_inv_def r_dead_def)
  moreover have "receiver_ok data (release ?t) (pf_r s)"
    using assms(2) sender_close q referenced_cases(2) [of ?t] by (cases "pf_r s") (auto simp: passfd_inv_def)
  ultimately show ?thesis using sender_close assms(2) by (simp add: passfd_inv_def)
next
  case (recv_ok m q new fd tab)
  have s: "pf_s s \<noteq> S_open" "\<And>fd. pf_s s \<noteq> S_send fd" "pf_s s \<noteq> S_die" using recv_ok(3) assms(2) by (auto simp: passfd_inv_def)
  obtain f where f: "pf_queue s = [(''*'', Some f)]" "fresh_file data s f"
    using recv_ok(2) s assms(2) by (cases "pf_s s") (auto simp: passfd_inv_def)
  then have e: "q = []" "fd = int new" "tab = (pf_rtab s)(new \<mapsto> f)" using recv_ok(3,5) by (auto simp: recv_fd_eq)
  have "referenced s' \<subseteq> referenced s"
    using recv_ok(1) e f(1) ran_update(2) [of "pf_rtab s" new f] by (auto simp: referenced_def)
  then show ?thesis using recv_ok e f s assms(2) by (cases "pf_s s") (auto simp: passfd_inv_def fresh_file_def)
next
  case recv_fails
  then show ?thesis using assms(2) by (cases "pf_s s") (auto simp: passfd_inv_def referenced_def r_dead_def fresh_file_def)
next
  case (recv_invalid m q new)
  have s: "pf_s s \<noteq> S_open" "\<And>fd. pf_s s \<noteq> S_send fd" "pf_s s \<noteq> S_die" using recv_invalid(3) assms(2) by (auto simp: passfd_inv_def)
  obtain f where "pf_queue s = [(''*'', Some f)]"
    using recv_invalid(2) s assms(2) by (cases "pf_s s") (auto simp: passfd_inv_def)
  then show ?thesis using recv_invalid by (simp add: recv_fd_eq)
next
  case (recv_truncated m q)
  let ?t = "s\<lparr>pf_queue := q, pf_r := R_die No_cmsg, pf_ctrunc := True\<rparr>"
  have "referenced ?t \<subseteq> referenced s" using recv_truncated(3) by (auto simp: referenced_def)
  then have "referenced (release ?t) \<subseteq> dom (pf_files (release ?t))"
    using assms(2) by (intro release_alive) (auto simp: passfd_inv_def)
  moreover have "pf_s s \<noteq> S_open" "\<And>fd. pf_s s \<noteq> S_send fd" "pf_s s \<noteq> S_die"
    using recv_truncated(3) assms(2) by (auto simp: passfd_inv_def)
  ultimately show ?thesis using recv_truncated assms(2) by (cases "pf_s s") (auto simp: passfd_inv_def r_dead_def)
next
  case recv_eof
  then have "pf_s s = S_die" using assms(2) by (auto simp: passfd_inv_def)
  then show ?thesis using recv_eof assms(2) by (auto simp: passfd_inv_def referenced_def r_dead_def)
next
  case (read_ok fd f ofl content ofl')
  have "ofl = \<lparr>of_data = data, of_pos = 0\<rparr>" using read_ok assms(2) by (auto simp: passfd_inv_def fresh_file_def)
  then have c: "content = take 255 data" using read_ok(6) by (auto simp: read_ofile_def Let_def)
  have "referenced s' = referenced s" "dom (pf_files s') = dom (pf_files s)" using read_ok by (auto simp: referenced_def)
  then show ?thesis using read_ok c assms(2) by (cases "pf_s s") (auto simp: passfd_inv_def r_dead_def)
next
  case (read_fails fd)
  then show ?thesis using assms(2) by (cases "pf_s s") (auto simp: passfd_inv_def referenced_def r_dead_def)
next
  case (receiver_close fd content)
  let ?t = "s\<lparr>pf_rtab := (pf_rtab s)(nat fd := None), pf_r := R_end content\<rparr>"
  have "referenced ?t \<subseteq> referenced s" using ran_update(1) by (fastforce simp: referenced_def)
  then have "referenced (release ?t) \<subseteq> dom (pf_files (release ?t))"
    using assms(2) by (intro release_alive) (auto simp: passfd_inv_def)
  then show ?thesis using receiver_close assms(2) by (cases "pf_s s") (auto simp: passfd_inv_def r_dead_def)
qed

lemma passfd_inv_steps: "(passfd_step data)\<^sup>*\<^sup>* s s' \<Longrightarrow> passfd_inv data s \<Longrightarrow> passfd_inv data s'"
  by (induction rule: rtranclp_induct) (auto dest: passfd_inv_step)

text \<open>
  C14: What the receiver gets is the sender's file, whatever the interleaving and whichever calls fail, also when the sender has
  closed its own descriptor before the message is received: the descriptor it reads from refers to that open file at its
  beginning, and what it prints is the first 255 bytes. It reports a missing descriptor only if the sender ended before sending or
  the kernel had no free descriptor to install; and once the sender is done, a receiver that has not ended has a successful next call.
\<close>

theorem passfd_reads_file:
  assumes "ran stab \<union> ran rtab \<subseteq> dom files" "(passfd_step data)\<^sup>*\<^sup>* (passfd_init stab rtab files) s" "finite (dom rtab)"
  shows "(\<forall>content. pf_r s = R_end content \<longrightarrow> content = take 255 data)
     \<and> (\<forall>fd. pf_r s = R_read fd \<longrightarrow> 0 \<le> fd \<and> (\<exists>f. pf_rtab s (nat fd) = Some f \<and> pf_files s f = Some \<lparr>of_data = data, of_pos = 0\<rparr>))
     \<and> (pf_r s = R_die No_cmsg \<longrightarrow> pf_s s = S_die \<or> pf_ctrunc s)
     \<and> (pf_s s = S_end \<longrightarrow> (\<exists>content. pf_r s = R_end content) \<or> r_dead s
          \<or> (\<exists>s'. passfd_step data s s' \<and> pf_r s' \<noteq> pf_r s \<and> \<not> r_dead s'))"
proof -
  have "passfd_inv data (passfd_init stab rtab files)"
    using assms(1,3) by (auto simp: passfd_inv_def passfd_init_def referenced_def)
  then have inv: "passfd_inv data s" using passfd_inv_steps assms(2) by blast
  have "\<exists>s'. passfd_step data s s' \<and> pf_r s' \<noteq> pf_r s \<and> \<not> r_dead s'"
    if d: "pf_s s = S_end" "\<nexists>content. pf_r s = R_end content" "\<not> r_dead s"
  proof (cases "pf_r s")
    case R_recv
    then obtain f where q: "pf_queue s = [(''*'', Some f)]" using inv d by (auto simp: passfd_inv_def)
    have "finite (dom (pf_rtab s))" using inv by (simp add: passfd_inv_def)
    then obtain new where "pf_rtab s new = None" using ex_new_if_finite [OF infinite_UNIV_nat] by (metis domIff)
    from passfd_step.recv_ok [OF R_recv q this recv_fd_eq, of data] R_recv show ?thesis by (fastforce simp: r_dead_def)
  next
    case (R_read fd)
    then obtain f where "0 \<le> fd" "pf_rtab s (nat fd) = Some f" "fresh_file data s f" using inv by (auto simp: passfd_inv_def)
    from passfd_step.read_ok [OF R_read this(1,2), of "\<lparr>of_data = data, of_pos = 0\<rparr>" _ _ data] this(3) R_read show ?thesis
      by (fastforce simp: fresh_file_def read_ofile_def r_dead_def)
  next
    case (R_close fd content)
    from passfd_step.receiver_close [OF this, of data] R_close show ?thesis by (fastforce simp: r_dead_def)
  qed (use d in \<open>simp_all add: r_dead_def\<close>)
  then show ?thesis using inv by (auto simp: passfd_inv_def fresh_file_def)
qed

lemma passfd_demo_run:
  "\<exists>s c. (passfd_step data)\<^sup>*\<^sup>* (passfd_init Map.empty Map.empty Map.empty) s \<and> pf_s s = S_end \<and> pf_r s = R_end c"
proof -
  let ?s0 = "passfd_init Map.empty Map.empty Map.empty"
  let ?s1 = "?s0\<lparr>pf_files := [7 \<mapsto> \<lparr>of_data = data, of_pos = 0\<rparr>], pf_stab := [5 \<mapsto> 7], pf_s := S_send 5\<rparr>"
  let ?s2 = "?s1\<lparr>pf_queue := [(''*'', Some 7)], pf_s := S_close 5\<rparr>"
  let ?s3 = "release (?s2\<lparr>pf_stab := [5 \<mapsto> 7](5 := None), pf_s := S_end\<rparr>)"
  let ?s4 = "?s3\<lparr>pf_queue := [], pf_rtab := [4 \<mapsto> 7], pf_r := R_read 4\<rparr>"
  have "passfd_step data ?s0 ?s1"
    using passfd_step.open_file [of ?s0 5 7 data] by (simp add: passfd_init_def)
  moreover have "passfd_step data ?s1 ?s2"
    using passfd_step.send_ok [of ?s1 5 "(''*'', Some 7)" data] send_fd_eq [of "[5 \<mapsto> 7]" 5]
    by (simp add: passfd_init_def)
  moreover have "passfd_step data ?s2 ?s3"
    using passfd_step.sender_close [of ?s2 5 data] by simp
  moreover have "passfd_step data ?s3 ?s4"
    using passfd_step.recv_ok [of ?s3 "(''*'', Some 7)" "[]" 4 "int 4" "[4 \<mapsto> 7]" data]
    by (simp add: passfd_init_def recv_fd_eq del: of_nat_numeral) simp
  moreover have "\<exists>s5. passfd_step data ?s4 s5 \<and> pf_s s5 = S_end \<and> (\<exists>c. pf_r s5 = R_close 4 c)"
  proof -
    have "pf_files ?s4 7 = Some \<lparr>of_data = data, of_pos = 0\<rparr>" by (simp add: passfd_init_def release_def referenced_def restrict_map_def)
    then have "passfd_step data ?s4 (?s4\<lparr>pf_files := (pf_files ?s4)(7 \<mapsto> snd (read_ofile 255 \<lparr>of_data = data, of_pos = 0\<rparr>)),
        pf_r := R_close 4 (fst (read_ofile 255 \<lparr>of_data = data, of_pos = 0\<rparr>))\<rparr>)"
      by (intro passfd_step.read_ok) auto
    then show ?thesis by (intro exI conjI) auto
  qed
  ultimately obtain s5 c where r: "(passfd_step data)\<^sup>*\<^sup>* ?s0 s5" "pf_s s5 = S_end" "pf_r s5 = R_close 4 c"
    by (meson converse_rtranclp_into_rtranclp rtranclp.rtrancl_refl)
  from passfd_step.receiver_close [OF r(3), of data]
  have "\<exists>s6. passfd_step data s5 s6 \<and> pf_s s6 = S_end \<and> pf_r s6 = R_end c" using r(2)
    by (intro exI [of _ "release (s5\<lparr>pf_rtab := (pf_rtab s5)(nat 4 := None), pf_r := R_end c\<rparr>)"]) simp
  with r(1) show ?thesis by (meson rtranclp.rtrancl_into_rtrancl)
qed

theorem passfd_reads_file_witness:
  "\<exists>s. (passfd_step ''localhost'')\<^sup>*\<^sup>* (passfd_init Map.empty Map.empty Map.empty) s \<and> pf_r s = R_end ''localhost''"
proof -
  obtain s c where s: "(passfd_step ''localhost'')\<^sup>*\<^sup>* (passfd_init Map.empty Map.empty Map.empty) s" "pf_r s = R_end c"
    using passfd_demo_run [of "''localhost''"] by blast
  have "c = take 255 ''localhost''" using passfd_reads_file [OF _ s(1)] s(2) by simp
  with s show ?thesis by auto
qed

text \<open>
  The addresses of \<open>passfd_send.c\<close> and \<open>passfd_recv.c\<close> agree for the paths the sender accepts; for longer
  ones the receiver connects to the first 107 bytes of the path.
\<close>

lemma passfd_addrs:
  "length path < SUN_PATH_SIZE \<Longrightarrow> passfd_send_addr path = Some (passfd_recv_addr path)"
  "SUN_PATH_SIZE \<le> length path \<Longrightarrow> passfd_send_addr path = None \<and> passfd_recv_addr path = passfd_recv_addr (take 107 path)"
  by (simp_all add: passfd_send_addr_def passfd_recv_addr_def SUN_PATH_SIZE_def)

end
