(* ===== verification/Concurrent_Servers.thy ===== *)
theory Concurrent_Servers
  imports Echo_Service Processes
begin

text \<open>
  The two servers that serve clients concurrently: \<open>12.3/thread_echo_server.c\<close>, where the main thread
  hands each connection to a new thread through a heap block, and \<open>12.1/process_echo_server.c\<close>, where it
  hands it to a child process that is reaped by the \<open>SIGCHLD\<close> handler. Both are step relations in which the
  main flow and the workers interleave freely. Ownership is explicit: a step that would
  use a freed block, or close a descriptor that is not open, sets \<open>th_bad\<close>.
\<close>

section \<open>The thread server\<close>

datatype main_pc = M_accept | M_got nat | M_alloc nat nat
datatype worker = W_start nat | W_serve nat | W_close nat

record thread_server =
  th_open :: "nat set"
  th_heap :: "nat \<Rightarrow> nat option"
  th_main :: main_pc
  th_workers :: "nat \<Rightarrow> worker option"
  th_socks :: "nat \<Rightarrow> chan"
  th_bad :: bool

definition th_close :: "nat \<Rightarrow> thread_server \<Rightarrow> thread_server" where
  "th_close fd s = (if fd \<in> th_open s then s\<lparr>th_open := th_open s - {fd}\<rparr> else s\<lparr>th_bad := True\<rparr>)"

definition th_free :: "nat \<Rightarrow> thread_server \<Rightarrow> thread_server" where
  "th_free p s = (if th_heap s p \<noteq> None then s\<lparr>th_heap := (th_heap s)(p := None)\<rparr> else s\<lparr>th_bad := True\<rparr>)"

text \<open>The start of \<open>serve_client\<close>: the thread reads its argument and frees it.\<close>

definition serve_client_start :: "nat \<Rightarrow> nat \<Rightarrow> thread_server \<Rightarrow> thread_server" where
  "serve_client_start tid p s =
     (case th_heap s p of
        None \<Rightarrow> s\<lparr>th_bad := True\<rparr>
      | Some connfd \<Rightarrow> (th_free p s)\<lparr>th_workers := (th_workers s)(tid \<mapsto> W_serve connfd)\<rparr>)"

definition serve_client_echo :: "rio_t \<Rightarrow> nat \<Rightarrow> nat \<Rightarrow> thread_server \<Rightarrow> thread_server option" where
  "serve_client_echo rio tid connfd s =
     (if connfd \<notin> th_open s then Some (s\<lparr>th_bad := True\<rparr>)
      else case thread_echo rio (int connfd) (th_socks s connfd) of
             None \<Rightarrow> None
           | Some rc \<Rightarrow> Some (s\<lparr>th_socks := (th_socks s)(connfd := snd rc), th_workers := (th_workers s)(tid \<mapsto> W_close connfd)\<rparr>))"

definition serve_client_end :: "nat \<Rightarrow> nat \<Rightarrow> thread_server \<Rightarrow> thread_server" where
  "serve_client_end tid connfd s = (th_close connfd s)\<lparr>th_workers := (th_workers s)(tid := None)\<rparr>"

inductive th_step :: "thread_server \<Rightarrow> thread_server \<Rightarrow> bool" where
  th_accept: "th_main s = M_accept \<Longrightarrow> connfd \<notin> th_open s \<Longrightarrow>
    th_step s (s\<lparr>th_open := insert connfd (th_open s), th_socks := (th_socks s)(connfd := c), th_main := M_got connfd\<rparr>)"
| th_accept_error: "th_main s = M_accept \<Longrightarrow> th_step s s"
| th_malloc_fails: "th_main s = M_got connfd \<Longrightarrow> th_step s ((th_close connfd s)\<lparr>th_main := M_accept\<rparr>)"
| th_malloc: "th_main s = M_got connfd \<Longrightarrow> th_heap s p = None \<Longrightarrow>
    th_step s (s\<lparr>th_heap := (th_heap s)(p \<mapsto> connfd), th_main := M_alloc connfd p\<rparr>)"
| th_create_fails: "th_main s = M_alloc connfd p \<Longrightarrow>
    th_step s ((th_close connfd (th_free p s))\<lparr>th_main := M_accept\<rparr>)"
| th_create: "th_main s = M_alloc connfd p \<Longrightarrow> th_workers s tid = None \<Longrightarrow>
    th_step s (s\<lparr>th_workers := (th_workers s)(tid \<mapsto> W_start p), th_main := M_accept\<rparr>)"
| th_start: "th_workers s tid = Some (W_start p) \<Longrightarrow> th_step s (serve_client_start tid p s)"
| th_serve: "th_workers s tid = Some (W_serve connfd) \<Longrightarrow> serve_client_echo rio tid connfd s = Some s' \<Longrightarrow> th_step s s'"
| th_end: "th_workers s tid = Some (W_close connfd) \<Longrightarrow> th_step s (serve_client_end tid connfd s)"

definition th_init :: "(nat \<Rightarrow> chan) \<Rightarrow> thread_server" where
  "th_init socks = \<lparr>th_open = {}, th_heap = Map.empty, th_main = M_accept, th_workers = Map.empty, th_socks = socks, th_bad = False\<rparr>"

section \<open>Ownership\<close>

text \<open>An owner is the main flow (\<open>None\<close>) or a thread; the descriptor and the block it owns.\<close>

definition fd_of :: "thread_server \<Rightarrow> nat option \<Rightarrow> nat option" where
  "fd_of s ow =
     (case ow of
        None \<Rightarrow> (case th_main s of M_accept \<Rightarrow> None | M_got fd \<Rightarrow> Some fd | M_alloc fd p \<Rightarrow> Some fd)
      | Some tid \<Rightarrow>
          (case th_workers s tid of
             None \<Rightarrow> None
           | Some (W_start p) \<Rightarrow> th_heap s p
           | Some (W_serve fd) \<Rightarrow> Some fd
           | Some (W_close fd) \<Rightarrow> Some fd))"

definition block_of :: "thread_server \<Rightarrow> nat option \<Rightarrow> nat option" where
  "block_of s ow =
     (case ow of
        None \<Rightarrow> (case th_main s of M_alloc fd p \<Rightarrow> Some p | _ \<Rightarrow> None)
      | Some tid \<Rightarrow> (case th_workers s tid of Some (W_start p) \<Rightarrow> Some p | _ \<Rightarrow> None))"

definition th_inv :: "thread_server \<Rightarrow> bool" where
  "th_inv s \<longleftrightarrow> \<not> th_bad s \<and> owns (fd_of s) (th_open s) \<and> owns (block_of s) (dom (th_heap s))
     \<and> (\<forall>ow p. block_of s ow = Some p \<longrightarrow> fd_of s ow = th_heap s p)"

lemmas owner_defs = fd_of_def block_of_def

lemma th_inv_init: "th_inv (th_init socks)"
  by (simp add: th_inv_def th_init_def owns_def owner_defs split: option.split)

text \<open>What each step does to the owners.\<close>

lemma worker_block: "th_workers s tid = Some (W_start p) \<Longrightarrow> block_of s (Some tid) = Some p"
  by (simp add: owner_defs)

lemma th_inv_step:
  assumes "th_step s s'" "th_inv s"
  shows "th_inv s'"
  using assms(1)
proof cases
  case (th_accept connfd c)
  have "fd_of s' = (fd_of s)(None := Some connfd)" "block_of s' = block_of s"
    using th_accept by (auto simp: owner_defs fun_eq_iff split: option.split worker.split)
  moreover have "fd_of s None = None" using th_accept by (simp add: owner_defs)
  ultimately show ?thesis using th_accept assms(2) owns_take [of "fd_of s" "th_open s" None connfd]
    by (auto simp: th_inv_def owner_defs split: option.splits)
next
  case th_accept_error
  then show ?thesis using assms(2) by simp
next
  case (th_malloc_fails connfd)
  have f: "fd_of s None = Some connfd" using th_malloc_fails by (simp add: owner_defs)
  then have o: "connfd \<in> th_open s" using assms(2) owns_in by (auto simp: th_inv_def)
  have "fd_of s' = (fd_of s)(None := None)" "block_of s' = block_of s"
    using th_malloc_fails o by (auto simp: owner_defs th_close_def fun_eq_iff split: option.split worker.split)
  then show ?thesis using th_malloc_fails o f assms(2) owns_drop [of "fd_of s" "th_open s" None connfd]
    by (auto simp: th_inv_def th_close_def block_of_def)
next
  case (th_malloc connfd p)
  have np: "th_workers s tid \<noteq> Some (W_start p)" for tid
    using worker_block [of s tid p] th_malloc(3) assms(2) owns_in [of "block_of s" "dom (th_heap s)"] by (auto simp: th_inv_def)
  have b0: "block_of s None = None" "fd_of s None = Some connfd" using th_malloc by (simp_all add: owner_defs)
  have "fd_of s' = fd_of s" "block_of s' = (block_of s)(None := Some p)"
    using th_malloc np by (auto simp: owner_defs fun_eq_iff split: option.split worker.split)
  moreover have "owns ((block_of s)(None := Some p)) (insert p (dom (th_heap s)))"
    using assms(2) b0 th_malloc(3) by (intro owns_take) (auto simp: th_inv_def)
  moreover have "block_of s ow = Some q \<Longrightarrow> q \<noteq> p" for ow q
    using owns_in [of "block_of s" "dom (th_heap s)" ow q] assms(2) th_malloc(3) by (auto simp: th_inv_def)
  ultimately show ?thesis using th_malloc b0 assms(2) by (auto simp: th_inv_def)
next
  case (th_create_fails connfd p)
  have f: "fd_of s None = Some connfd" "block_of s None = Some p" using th_create_fails by (simp_all add: owner_defs)
  have o: "connfd \<in> th_open s" "th_heap s p \<noteq> None"
    using owns_in [of "fd_of s" "th_open s" None connfd] owns_in [of "block_of s" "dom (th_heap s)" None p] f assms(2)
    by (auto simp: th_inv_def)
  have np: "block_of s (Some tid) \<noteq> Some p" for tid
    using owns_unique [of "block_of s" "dom (th_heap s)" None p "Some tid"] f assms(2) by (auto simp: th_inv_def)
  then have nw: "th_workers s tid \<noteq> Some (W_start p)" for tid using worker_block by blast
  have s': "s' = s\<lparr>th_open := th_open s - {connfd}, th_heap := (th_heap s)(p := None), th_main := M_accept\<rparr>"
    using th_create_fails o by (simp add: th_close_def th_free_def)
  have e: "fd_of s' = (fd_of s)(None := None)" "block_of s' = (block_of s)(None := None)"
    using nw by (auto simp: s' owner_defs fun_eq_iff split: option.split worker.split)
  have "owns ((fd_of s)(None := None)) (th_open s - {connfd})" "owns ((block_of s)(None := None)) (dom (th_heap s) - {p})"
    using assms(2) f by (auto simp: th_inv_def intro: owns_drop)
  moreover have "((block_of s)(None := None)) ow = Some q \<Longrightarrow> q \<noteq> p" for ow q using np by (cases ow) auto
  moreover have "th_bad s' = th_bad s" "th_open s' = th_open s - {connfd}" "th_heap s' = (th_heap s)(p := None)"
    by (simp_all add: s')
  ultimately show ?thesis using assms(2) by (auto simp: th_inv_def e split: if_splits)
next
  case (th_create connfd p tid)
  have f: "fd_of s None = Some connfd" "block_of s None = Some p" "fd_of s (Some tid) = None" "block_of s (Some tid) = None"
    using th_create by (simp_all add: owner_defs)
  have h: "th_heap s p = Some connfd" using f assms(2) by (simp add: th_inv_def)
  have "fd_of s' = (fd_of s)(None := None, Some tid := Some connfd)" "block_of s' = (block_of s)(None := None, Some tid := Some p)"
    using th_create h by (auto simp: owner_defs fun_eq_iff split: option.split worker.split)
  then show ?thesis using th_create f h assms(2) owns_move [of "fd_of s" "th_open s" None connfd "Some tid"]
      owns_move [of "block_of s" "dom (th_heap s)" None p "Some tid"]
    by (auto simp: th_inv_def)
next
  case (th_start tid p)
  have f: "block_of s (Some tid) = Some p" using th_start worker_block by blast
  then obtain connfd where h: "th_heap s p = Some connfd"
    using assms(2) owns_in [of "block_of s" "dom (th_heap s)" "Some tid" p] by (auto simp: th_inv_def)
  have np: "t \<noteq> tid \<Longrightarrow> th_workers s t \<noteq> Some (W_start p)" for t
    using owns_unique [of "block_of s" "dom (th_heap s)" "Some tid" p "Some t"] f worker_block [of s t p] assms(2)
    by (auto simp: th_inv_def)
  have s': "s' = s\<lparr>th_heap := (th_heap s)(p := None), th_workers := (th_workers s)(tid \<mapsto> W_serve connfd)\<rparr>"
    using th_start h by (simp add: serve_client_start_def th_free_def)
  have e: "fd_of s' = fd_of s" "block_of s' = (block_of s)(Some tid := None)"
    using th_start(2) h np by (auto simp: s' owner_defs fun_eq_iff split: option.split worker.split)
  have "owns ((block_of s)(Some tid := None)) (dom (th_heap s) - {p})" using assms(2) f by (auto simp: th_inv_def intro: owns_drop)
  moreover have "((block_of s)(Some tid := None)) ow = Some q \<Longrightarrow> q \<noteq> p" for ow q
    using owns_unique [of "block_of s" "dom (th_heap s)" "Some tid" p ow] f assms(2) by (auto simp: th_inv_def split: if_splits)
  moreover have "th_bad s' = th_bad s" "th_open s' = th_open s" "th_heap s' = (th_heap s)(p := None)" by (simp_all add: s')
  ultimately show ?thesis using assms(2) by (auto simp: th_inv_def e split: if_splits)
next
  case (th_serve tid connfd rio)
  have "fd_of s (Some tid) = Some connfd" using th_serve by (simp add: owner_defs)
  then have "connfd \<in> th_open s" using assms(2) owns_in by (auto simp: th_inv_def)
  then obtain rc where s': "s' = s\<lparr>th_socks := (th_socks s)(connfd := snd rc), th_workers := (th_workers s)(tid \<mapsto> W_close connfd)\<rparr>"
    using th_serve by (auto simp: serve_client_echo_def split: option.splits)
  have "fd_of s' = fd_of s" "block_of s' = block_of s"
    using th_serve by (auto simp: s' owner_defs fun_eq_iff split: option.split worker.split)
  moreover have "th_bad s' = th_bad s" "th_open s' = th_open s" "th_heap s' = th_heap s" by (simp_all add: s')
  ultimately show ?thesis using assms(2) by (simp add: th_inv_def)
next
  case (th_end tid connfd)
  have f: "fd_of s (Some tid) = Some connfd" "block_of s (Some tid) = None" using th_end by (simp_all add: owner_defs)
  then have o: "connfd \<in> th_open s" using assms(2) owns_in [of "fd_of s"] by (auto simp: th_inv_def)
  have s': "s' = s\<lparr>th_open := th_open s - {connfd}, th_workers := (th_workers s)(tid := None)\<rparr>"
    using th_end o by (simp add: serve_client_end_def th_close_def)
  have e: "fd_of s' = (fd_of s)(Some tid := None)" "block_of s' = block_of s"
    using th_end(2) by (auto simp: s' owner_defs fun_eq_iff split: option.split worker.split)
  have "th_bad s' = th_bad s" "th_open s' = th_open s - {connfd}" "th_heap s' = th_heap s" by (simp_all add: s')
  then show ?thesis using assms(2) f owns_drop [of "fd_of s" "th_open s" "Some tid" connfd] by (auto simp: th_inv_def e)
qed

lemma th_inv_steps: "th_step\<^sup>*\<^sup>* (th_init socks) s \<Longrightarrow> th_inv s"
  by (induction rule: rtranclp_induct) (auto intro: th_inv_step th_inv_init)

section \<open>The process server\<close>

text \<open>
  The parent's open connections, its children with the connection each serves, and the kernel's view
  of them. A child closes its copy of the connection and exits when it has served its client.
\<close>

datatype ps_pc = P_accept | P_got nat | P_forked nat pid

record process_server =
  pr_k :: kproc
  pr_open :: "nat set"
  pr_pc :: ps_pc
  pr_conn :: "pid \<Rightarrow> chan option"
  pr_done :: "(chan \<times> chan) list"

text \<open>One turn of the loop of \<open>sigchld_handler\<close>.\<close>

definition pr_reap :: "pid \<Rightarrow> process_server \<Rightarrow> process_server" where
  "pr_reap p s = s\<lparr>pr_k := k_reap p (pr_k s)\<rparr>"

text \<open>The child: it serves its connection and exits; \<open>pr_done\<close> records the connection before and after.\<close>

definition pr_child :: "rio_t \<Rightarrow> pid \<Rightarrow> process_server \<Rightarrow> process_server option" where
  "pr_child rio p s =
     (case pr_conn s p of
        None \<Rightarrow> None
      | Some c \<Rightarrow>
          (case echo rio 4 c of
             None \<Rightarrow> None
           | Some rc \<Rightarrow> Some (s\<lparr>pr_conn := (pr_conn s)(p := None), pr_done := pr_done s @ [(c, snd rc)], pr_k := k_exit p (pr_k s)\<rparr>)))"

inductive pr_step :: "process_server \<Rightarrow> process_server \<Rightarrow> bool" where
  pr_accept: "pr_pc s = P_accept \<Longrightarrow> \<not> in_handler (pr_k s) \<Longrightarrow> connfd \<notin> pr_open s \<Longrightarrow>
    pr_step s (s\<lparr>pr_open := insert connfd (pr_open s), pr_pc := P_got connfd\<rparr>)"
| pr_accept_error: "pr_pc s = P_accept \<Longrightarrow> \<not> in_handler (pr_k s) \<Longrightarrow> pr_step s s"
| pr_fork: "pr_pc s = P_got connfd \<Longrightarrow> \<not> in_handler (pr_k s) \<Longrightarrow> fork_ok p (pr_k s) \<Longrightarrow>
    pr_step s (s\<lparr>pr_k := k_fork p (pr_k s), pr_conn := (pr_conn s)(p \<mapsto> c), pr_pc := P_forked connfd p\<rparr>)"
| pr_fork_error: "pr_pc s = P_got connfd \<Longrightarrow> \<not> in_handler (pr_k s) \<Longrightarrow>
    pr_step s (s\<lparr>pr_open := pr_open s - {connfd}, pr_pc := P_accept\<rparr>)"
| pr_close: "pr_pc s = P_forked connfd p \<Longrightarrow> \<not> in_handler (pr_k s) \<Longrightarrow>
    pr_step s (s\<lparr>pr_open := pr_open s - {connfd}, pr_pc := P_accept\<rparr>)"
| pr_deliver: "deliverable (mask (pr_k s)) (pr_k s) \<Longrightarrow> pr_step s (s\<lparr>pr_k := k_deliver (mask (pr_k s)) (pr_k s)\<rparr>)"
| pr_reaps: "in_handler (pr_k s) \<Longrightarrow> p \<in> zombies (pr_k s) \<Longrightarrow> pr_step s (pr_reap p s)"
| pr_return: "in_handler (pr_k s) \<Longrightarrow> zombies (pr_k s) = {} \<Longrightarrow> pr_step s (s\<lparr>pr_k := k_return (pr_k s)\<rparr>)"
| pr_serves: "p \<in> live (pr_k s) \<Longrightarrow> length (rio_buf rio) = RIO_BUFSIZE \<Longrightarrow> pr_child rio p s = Some s' \<Longrightarrow> pr_step s s'"

definition pr_init :: process_server where
  "pr_init = \<lparr>pr_k = \<lparr>live = {}, zombies = {}, mask = {}, pending = {}, saved = None\<rparr>, pr_open = {}, pr_pc = P_accept,
     pr_conn = Map.empty, pr_done = []\<rparr>"

fun pr_fds :: "ps_pc \<Rightarrow> nat set" where
  "pr_fds P_accept = {}"
| "pr_fds (P_got fd) = {fd}"
| "pr_fds (P_forked fd p) = {fd}"

definition pr_inv :: "process_server \<Rightarrow> bool" where
  "pr_inv s \<longleftrightarrow> kernel_ok (pr_k s) \<and> SIGCHLD \<notin> main_mask (pr_k s) \<and> pr_open s = pr_fds (pr_pc s)
     \<and> dom (pr_conn s) = live (pr_k s)
     \<and> (\<forall>(c, c') \<in> set (pr_done s). (\<exists>rest. k_out c' @ rest = k_out c @ k_in c)
          \<and> (rd_only_eintr c \<longrightarrow> wr_only_eintr c \<longrightarrow> k_out c' = k_out c @ k_in c))"

lemma echo_result:
  assumes "length (rio_buf rio) = RIO_BUFSIZE"
  shows "\<exists>rc'. echo rio connfd c = Some rc' \<and> (\<exists>rest. k_out (snd rc') @ rest = k_out c @ k_in c)
     \<and> (rd_only_eintr c \<longrightarrow> wr_only_eintr c \<longrightarrow> k_out (snd rc') = k_out c @ k_in c)"
proof -
  have inv: "rio_inv (fst (rio_initb rio connfd, c))" using assms by (simp add: rio_initb_inv)
  then have "calm_rio (rio_initb rio connfd, c) \<longleftrightarrow> rd_only_eintr c \<and> wr_only_eintr c" by (simp add: calm_rio_def)
  then show ?thesis using serve_loop_result [OF echo_lines_unfold _ inv] by (auto simp: echo_def ECHO_MAXLINE_def)
qed

lemma pr_inv_step: "pr_step s s' \<Longrightarrow> pr_inv s \<Longrightarrow> pr_inv s'"
proof (induction rule: pr_step.induct)
  case (pr_fork s connfd p c)
  then show ?case by (auto simp: pr_inv_def intro: kernel_ok_fork)
next
  case (pr_deliver s)
  then have "\<not> in_handler (pr_k s)" by (simp add: deliverable_def in_handler_def)
  with pr_deliver show ?case by (auto simp: pr_inv_def intro: kernel_ok_deliver)
next
  case (pr_reaps s p)
  then show ?case by (auto simp: pr_inv_def pr_reap_def intro: kernel_ok_reap)
next
  case (pr_return s)
  then show ?case by (auto simp: pr_inv_def intro: kernel_ok_return)
next
  case (pr_serves p s rio s')
  then obtain c rc where c: "pr_conn s p = Some c" "echo rio 4 c = Some rc"
      "s' = s\<lparr>pr_conn := (pr_conn s)(p := None), pr_done := pr_done s @ [(c, snd rc)], pr_k := k_exit p (pr_k s)\<rparr>"
    by (auto simp: pr_child_def split: option.splits)
  have "(\<exists>rest. k_out (snd rc) @ rest = k_out c @ k_in c) \<and> (rd_only_eintr c \<longrightarrow> wr_only_eintr c \<longrightarrow> k_out (snd rc) = k_out c @ k_in c)"
    using echo_result [OF pr_serves(2), of 4 c] c(2) by auto
  with pr_serves(1,4) c(3) show ?case by (auto simp: pr_inv_def intro: kernel_ok_exit)
qed (auto simp: pr_inv_def)

lemma pr_inv_steps: "pr_step\<^sup>*\<^sup>* pr_init s \<Longrightarrow> pr_inv s"
proof (induction rule: rtranclp_induct)
  case base
  show ?case by (simp add: pr_inv_def pr_init_def kernel_ok_def kproc_defs main_mask_def)
qed (auto intro: pr_inv_step)

section \<open>Properties\<close>

text \<open>
  C16: In every run of the thread server, under any interleaving and any failures of \<open>accept\<close>,
  \<open>malloc\<close> and \<open>pthread_create\<close>, no block is used after it was freed or freed twice and no descriptor
  is closed twice; every open connection belongs to exactly one of the main thread and the
  workers, so no two of them ever use the same descriptor; and when no client is being served
  nothing is left: no connection is open and no block allocated.
\<close>

theorem thread_server_ownership:
  assumes "th_step\<^sup>*\<^sup>* (th_init socks) s"
  shows "\<not> th_bad s \<and> (\<forall>fd \<in> th_open s. \<exists>!ow. fd_of s ow = Some fd)
     \<and> (th_main s = M_accept \<and> (\<forall>tid. th_workers s tid = None) \<longrightarrow> th_open s = {} \<and> dom (th_heap s) = {})"
proof (intro conjI ballI impI)
  have inv: "th_inv s" using assms by (rule th_inv_steps)
  then show "\<not> th_bad s" by (simp add: th_inv_def)
  have o: "owns (fd_of s) (th_open s)" "owns (block_of s) (dom (th_heap s))" using inv by (simp_all add: th_inv_def)
  then show "\<exists>!ow. fd_of s ow = Some fd" if "fd \<in> th_open s" for fd using that unfolding owns_def by blast
  assume "th_main s = M_accept \<and> (\<forall>tid. th_workers s tid = None)"
  then have none: "fd_of s ow = None" "block_of s ow = None" for ow by (simp_all add: owner_defs split: option.split)
  show "th_open s = {}" using o(1) none(1) unfolding owns_def by auto
  have "p \<notin> dom (th_heap s)" for p using o(2) none(2) unfolding owns_def by (metis option.distinct(1))
  then show "dom (th_heap s) = {}" by blast
qed

lemma th_demo_run:
  "\<exists>s. th_step\<^sup>*\<^sup>* (th_init socks) s \<and> th_main s = M_accept \<and> th_workers s 1 = Some (W_serve 4) \<and> 4 \<in> th_open s"
proof -
  let ?s1 = "(th_init socks)\<lparr>th_open := {4}, th_socks := socks(4 := demo_peer), th_main := M_got 4\<rparr>"
  let ?s2 = "?s1\<lparr>th_heap := [9 \<mapsto> 4], th_main := M_alloc 4 9\<rparr>"
  let ?s3 = "?s2\<lparr>th_workers := [1 \<mapsto> W_start 9], th_main := M_accept\<rparr>"
  have "th_step (th_init socks) ?s1" using th_accept [of "th_init socks" 4 demo_peer] by (simp add: th_init_def)
  moreover have "th_step ?s1 ?s2" using th_malloc [of ?s1 4 9] by (simp add: th_init_def)
  moreover have "th_step ?s2 ?s3" using th_create [of ?s2 4 9 1] by (simp add: th_init_def)
  moreover have "th_step ?s3 (serve_client_start 1 9 ?s3)" by (rule th_start) (simp add: th_init_def)
  ultimately have "th_step\<^sup>*\<^sup>* (th_init socks) (serve_client_start 1 9 ?s3)"
    by (meson converse_rtranclp_into_rtranclp rtranclp.rtrancl_refl)
  then show ?thesis by (intro exI conjI) (auto simp: th_init_def serve_client_start_def th_free_def)
qed

theorem thread_server_ownership_witness:
  "\<exists>s. th_step\<^sup>*\<^sup>* (th_init (\<lambda>_. demo_peer)) s \<and> \<not> th_bad s \<and> fd_of s (Some 1) = Some 4 \<and> (\<exists>!ow. fd_of s ow = Some 4)"
proof -
  obtain s where s: "th_step\<^sup>*\<^sup>* (th_init (\<lambda>_. demo_peer)) s" "th_workers s 1 = Some (W_serve 4)" "4 \<in> th_open s"
    using th_demo_run by blast
  then show ?thesis using thread_server_ownership [OF s(1)] by (intro exI [of _ s]) (simp add: owner_defs)
qed

text \<open>
  C17: In every run of the process server the parent has a connection open only between \<open>accept\<close> and the
  end of the same turn, so none leaks, whether \<open>fork\<close> succeeds or fails; every terminated child is reaped
  or will be, its \<open>SIGCHLD\<close> being deliverable at any time; and every client that was served was
  sent back a prefix of its bytes, all of them if calls fail only by interruption.
\<close>

theorem process_server_correct:
  assumes "pr_step\<^sup>*\<^sup>* pr_init s"
  shows "(pr_pc s = P_accept \<longrightarrow> pr_open s = {})
     \<and> (zombies (pr_k s) \<noteq> {} \<longrightarrow> in_handler (pr_k s) \<or> deliverable (mask (pr_k s)) (pr_k s))
     \<and> (\<forall>(c, c') \<in> set (pr_done s). (\<exists>rest. k_out c' @ rest = k_out c @ k_in c)
          \<and> (rd_only_eintr c \<longrightarrow> wr_only_eintr c \<longrightarrow> k_out c' = k_out c @ k_in c))"
proof -
  have inv: "pr_inv s" using assms by (rule pr_inv_steps)
  then have "zombies (pr_k s) \<noteq> {} \<longrightarrow> in_handler (pr_k s) \<or> deliverable (mask (pr_k s)) (pr_k s)"
    by (auto simp: pr_inv_def kernel_ok_def deliverable_def main_mask_def in_handler_def)
  with inv show ?thesis unfolding pr_inv_def by (cases "pr_pc s") simp_all
qed

theorem process_server_correct_witness:
  "\<exists>s. pr_step\<^sup>*\<^sup>* pr_init s \<and> zombies (pr_k s) = {7} \<and> deliverable (mask (pr_k s)) (pr_k s)"
proof -
  let ?rio = "\<lparr>rio_fd = 0, rio_cnt = 0, rio_bufptr = 0, rio_buf = replicate RIO_BUFSIZE NUL\<rparr>"
  let ?s1 = "pr_init\<lparr>pr_open := {4}, pr_pc := P_got 4\<rparr>"
  let ?s2 = "?s1\<lparr>pr_k := k_fork 7 (pr_k ?s1), pr_conn := [7 \<mapsto> demo_peer], pr_pc := P_forked 4 7\<rparr>"
  have "pr_step pr_init ?s1" using pr_accept [of pr_init 4] by (simp add: pr_init_def in_handler_def)
  moreover have "pr_step ?s1 ?s2"
    using pr_fork [of ?s1 4 7 demo_peer] by (simp add: pr_init_def in_handler_def fork_ok_def children_def)
  moreover obtain rc where "echo ?rio 4 demo_peer = Some rc" using echo_result [of ?rio 4 demo_peer] by auto
  then have c: "pr_child ?rio 7 ?s2 = Some (?s2\<lparr>pr_conn := [7 \<mapsto> demo_peer](7 := None), pr_done := [(demo_peer, snd rc)], pr_k := k_exit 7 (pr_k ?s2)\<rparr>)"
    (is "_ = Some ?s3") by (simp add: pr_child_def pr_init_def)
  have "pr_step ?s2 ?s3" by (rule pr_serves [OF _ _ c]) (simp_all add: pr_init_def k_fork_def)
  ultimately have r: "pr_step\<^sup>*\<^sup>* pr_init ?s3" by (meson converse_rtranclp_into_rtranclp rtranclp.rtrancl_refl)
  have z: "zombies (pr_k ?s3) = {7}" "\<not> in_handler (pr_k ?s3)" by (simp_all add: pr_init_def k_exit_def k_fork_def in_handler_def)
  with process_server_correct [OF r] have "deliverable (mask (pr_k ?s3)) (pr_k ?s3)" by blast
  with r z(1) show ?thesis by blast
qed

end
