(* ===== verification/Loop_Kernels.thy ===== *)
theory Loop_Kernels
  imports CS_Prelude "HOL-Library.Multiset" "HOL-Library.Word"
begin

text \<open>
  The measured loops of Chapters 5 and 6: the random pointer chase of \<open>ptr_chase.c\<close>, the unrolled
  reading loop of \<open>mountain.c\<close>, the multi-accumulator product of \<open>reg_spill.c\<close> and the two
  minimum-maximum loops of \<open>cmov_vs_branch.c\<close>. Each optimised or randomised loop is shown to compute what its
  simple specification says. Sums and products are those of a \<open>long\<close>: \<open>None\<close> is an overflow, which C leaves undefined.
\<close>

section \<open>The pointer chase\<close>

text \<open>\<open>rnd i\<close> is what \<open>rand\<close> returns in the turn for \<open>i\<close>.\<close>

definition chase_init :: "nat \<Rightarrow> nat list" where
  "chase_init n = map (\<lambda>i. i) [0..<n]"

fun sattolo_loop :: "(nat \<Rightarrow> nat) \<Rightarrow> nat \<Rightarrow> nat list \<Rightarrow> nat list" where
  "sattolo_loop rnd 0 idx = idx"
| "sattolo_loop rnd (Suc k) idx =
     (let i = Suc k; j = rnd i mod i; t = idx ! i; idx1 = idx[i := idx ! j]; idx2 = idx1[j := t]
      in sattolo_loop rnd k idx2)"

definition sattolo :: "(nat \<Rightarrow> nat) \<Rightarrow> nat \<Rightarrow> nat list" where
  "sattolo rnd n = sattolo_loop rnd (n - 1) (chase_init n)"

fun chase :: "nat list \<Rightarrow> nat \<Rightarrow> nat \<Rightarrow> nat" where
  "chase idx 0 p = p"
| "chase idx (Suc k) p = chase idx k (idx ! p)"

section \<open>Cycles\<close>

text \<open>A list is a cycle of the table if every entry of it leads to the next one, the last to the first.\<close>

definition is_cycle :: "nat list \<Rightarrow> nat list \<Rightarrow> bool" where
  "is_cycle idx c \<longleftrightarrow> map (nth idx) c = rotate1 c"

text \<open>The table decomposes into \<open>m\<close> cycles, the \<open>r\<close>-th starting with \<open>r\<close>.\<close>

definition cycles :: "nat list \<Rightarrow> nat \<Rightarrow> (nat \<Rightarrow> nat list) \<Rightarrow> bool" where
  "cycles idx m C \<longleftrightarrow> (\<forall>r < m. (\<exists>A. C r = r # A) \<and> is_cycle idx (C r))
     \<and> (\<Sum>r<m. mset (C r)) = mset [0..<length idx]"

lemma cyclesD: "cycles idx m C \<Longrightarrow> r < m \<Longrightarrow> is_cycle idx (C r)"
  by (simp add: cycles_def)

lemma cycles_disjoint:
  assumes "cycles idx m C" "r < m" "s < m" "r \<noteq> s" "x \<in> set (C r)"
  shows "x \<notin> set (C s)"
proof
  assume s: "x \<in> set (C s)"
  have "(\<Sum>t<m. mset (C t)) = mset (C r) + (mset (C s) + (\<Sum>t \<in> {..<m} - {r} - {s}. mset (C t)))"
    using assms(2-4) by (simp add: sum.remove [of "{..<m}" r] sum.remove [of "{..<m} - {r}" s])
  then have "2 \<le> count (\<Sum>t<m. mset (C t)) x" using assms(5) s
    by (simp add: count_greater_zero_iff [symmetric] set_mset_mset [symmetric] del: count_greater_zero_iff set_mset_mset)
  moreover have "count (mset [0..<length idx]) x \<le> 1" by (simp add: count_mset_set')
  ultimately show False using assms(1) by (simp add: cycles_def)
qed

lemma cycles_bound: "cycles idx m C \<Longrightarrow> r < m \<Longrightarrow> x \<in> set (C r) \<Longrightarrow> x < length idx"
proof -
  assume a: "cycles idx m C" "r < m" "x \<in> set (C r)"
  then have "x \<in># (\<Sum>t<m. mset (C t))" by (auto simp: sum.remove [of "{..<m}" r])
  then have "x \<in># mset [0..<length idx]" using a(1) unfolding cycles_def by simp
  then show "x < length idx" by simp
qed

lemma cycle_swap:
  assumes "is_cycle idx (i # A)" "is_cycle idx (j # B)" "distinct (i # A @ j # B)"
    "i < length idx" "j < length idx"
  shows "is_cycle (idx[i := idx ! j, j := idx ! i]) (j # A @ i # B)"
proof -
  let ?idx = "idx[i := idx ! j, j := idx ! i]"
  have a: "idx ! i # map (nth idx) A = A @ [i]" and b: "idx ! j # map (nth idx) B = B @ [j]"
    using assms(1,2) by (simp_all add: is_cycle_def)
  have "?idx ! x = idx ! x" if "x \<in> set A \<union> set B" for x using that assms(3) by (cases "x = i"; cases "x = j"; auto)
  then have "map (nth ?idx) A = map (nth idx) A" "map (nth ?idx) B = map (nth idx) B" by auto
  moreover have "?idx ! j = idx ! i" "?idx ! i = idx ! j" using assms(3-5) by (auto simp: nth_list_update)
  ultimately have "map (nth ?idx) (j # A @ i # B) = (idx ! i # map (nth idx) A) @ (idx ! j # map (nth idx) B)" by simp
  also have "\<dots> = rotate1 (j # A @ i # B)" unfolding a b by simp
  finally show ?thesis by (simp add: is_cycle_def)
qed

lemma cycle_other: "is_cycle idx c \<Longrightarrow> i \<notin> set c \<Longrightarrow> j \<notin> set c \<Longrightarrow> is_cycle (idx[i := x, j := y]) c"
proof -
  assume a: "is_cycle idx c" "i \<notin> set c" "j \<notin> set c"
  then have "idx[i := x, j := y] ! z = idx ! z" if "z \<in> set c" for z using that by (cases "z = i"; cases "z = j"; auto)
  then have "map (nth (idx[i := x, j := y])) c = map (nth idx) c" by auto
  with a(1) show ?thesis by (simp add: is_cycle_def)
qed

lemma distinct_cycle: "cycles idx m C \<Longrightarrow> r < m \<Longrightarrow> distinct (C r)"
proof -
  assume a: "cycles idx m C" "r < m"
  then have s: "mset (C r) \<subseteq># mset [0..<length idx]"
    unfolding cycles_def by (metis finite_lessThan lessThan_iff mset_subset_eq_add_left sum.remove)
  have "count (mset [0..<length idx]) x \<le> 1" for x by (simp add: count_mset_set')
  then have "count (mset (C r)) x \<le> 1" for x using mset_subset_eq_count [OF s, of x] by (metis order_trans)
  then show ?thesis unfolding distinct_count_atmost_1 by (metis count_mset_0_iff le_antisym less_one not_le)
qed

lemma cycles_step:
  assumes "cycles idx (Suc i) C" "j < i"
  defines "idx' \<equiv> idx[i := idx ! j, j := idx ! i]"
  shows "\<exists>C'. cycles idx' i C'"
proof -
  obtain A B where AB: "C i = i # A" "C j = j # B" using assms(1,2) unfolding cycles_def by (meson lessI less_SucI)
  define C' where "C' = C(j := j # A @ i # B)"
  have d: "distinct (i # A @ j # B)"
    using distinct_cycle [OF assms(1), of i] distinct_cycle [OF assms(1), of j] cycles_disjoint [OF assms(1), of i j] assms(2) AB
    by fastforce
  have lt: "i < length idx" "j < length idx" using cycles_bound [OF assms(1)] AB assms(2) by fastforce+
  have "is_cycle idx' (C' j)"
    unfolding C'_def idx'_def fun_upd_same using AB d lt assms(2) cyclesD [OF assms(1), of i] cyclesD [OF assms(1), of j]
    by (intro cycle_swap) auto
  moreover have "is_cycle idx' (C' r)" if "r < i" "r \<noteq> j" for r
  proof -
    have "i \<notin> set (C r)" "j \<notin> set (C r)"
      using cycles_disjoint [OF assms(1), of i r i] cycles_disjoint [OF assms(1), of j r j] that assms(2) AB by auto
    moreover have "is_cycle idx (C r)" using assms(1) that by (auto simp: cycles_def)
    ultimately show ?thesis using that by (simp add: C'_def idx'_def cycle_other)
  qed
  moreover have "\<exists>A. C' r = r # A" if "r < i" for r using that assms(1) by (auto simp: C'_def cycles_def)
  moreover have "(\<Sum>r<i. mset (C' r)) = mset [0..<length idx']"
  proof -
    have "(\<Sum>r<i. mset (C' r)) = mset (C' j) + (\<Sum>r \<in> {..<i} - {j}. mset (C' r))" using assms(2) by (simp add: sum.remove)
    also have "(\<Sum>r \<in> {..<i} - {j}. mset (C' r)) = (\<Sum>r \<in> {..<i} - {j}. mset (C r))" by (intro sum.cong) (auto simp: C'_def)
    also have "mset (C' j) = mset (C i) + mset (C j)" by (simp add: C'_def AB)
    finally have "(\<Sum>r<i. mset (C' r)) = mset (C i) + (mset (C j) + (\<Sum>r \<in> {..<i} - {j}. mset (C r)))" by (simp add: add.assoc)
    also have "\<dots> = mset (C i) + (\<Sum>r<i. mset (C r))" using assms(2) by (simp add: sum.remove [of "{..<i}" j])
    also have "\<dots> = (\<Sum>r<Suc i. mset (C r))" by (simp add: add.commute)
    finally show ?thesis using assms(1) by (simp add: cycles_def idx'_def)
  qed
  ultimately have "cycles idx' i C'" unfolding cycles_def by blast
  then show ?thesis by blast
qed

lemma sattolo_loop_cycles:
  "cycles idx (Suc k) C \<Longrightarrow> \<exists>C'. cycles (sattolo_loop rnd k idx) 1 C' \<and> length (sattolo_loop rnd k idx) = length idx"
proof (induction k arbitrary: idx C)
  case 0
  then show ?case by auto
next
  case (Suc k)
  define j where "j = rnd (Suc k) mod Suc k"
  have j: "j < Suc k" by (simp add: j_def)
  let ?idx = "idx[Suc k := idx ! j, j := idx ! Suc k]"
  obtain C' where "cycles ?idx (Suc k) C'" using cycles_step [OF Suc.prems j] by blast
  from Suc.IH [OF this] show ?case by (simp add: Let_def j_def)
qed

lemma chase_init_cycles: "cycles (chase_init n) n (\<lambda>r. [r])"
proof -
  have "(\<Sum>r<n. mset [r]) = mset [0..<n]"
    by (induction n) (simp, simp only: sum.lessThan_Suc upt_Suc_append [OF le0] mset_append)
  then show ?thesis by (simp add: cycles_def is_cycle_def chase_init_def)
qed

lemma chase_cycle:
  assumes "is_cycle idx c" "c \<noteq> []"
  shows "chase idx k (c ! (t mod length c)) = c ! ((t + k) mod length c)"
proof (induction k arbitrary: t)
  case (Suc k)
  have "idx ! (c ! (t mod length c)) = map (nth idx) c ! (t mod length c)" using assms(2) by simp
  also have "\<dots> = c ! (Suc t mod length c)"
    using assms by (simp add: is_cycle_def nth_rotate1 mod_Suc_eq)
  finally show ?case using Suc.IH [of "Suc t"] by simp
qed simp

section \<open>Sattolo's algorithm\<close>

lemma sattolo_cycle:
  assumes "0 < n"
  shows "\<exists>c. distinct c \<and> set c = {0..<n} \<and> (\<forall>k. chase (sattolo rnd n) k 0 = c ! (k mod n))
     \<and> (\<forall>k. chase (sattolo rnd n) k 0 = 0 \<longleftrightarrow> n dvd k)"
proof -
  have n: "Suc (n - 1) = n" using assms by simp
  obtain C where C: "cycles (sattolo rnd n) 1 C" "length (sattolo rnd n) = n"
    using sattolo_loop_cycles [of "chase_init n" "n - 1" "\<lambda>r. [r]" rnd] chase_init_cycles [of n] unfolding n sattolo_def
    by (auto simp: chase_init_def)
  define c where "c = C 0"
  have c: "is_cycle (sattolo rnd n) c" "mset c = mset [0..<n]" "hd c = 0" "c \<noteq> []"
    using C by (auto simp: cycles_def c_def)
  have d: "distinct c" "set c = {0..<n}" "length c = n"
    using c(2) by (metis distinct_upt mset_eq_imp_distinct_iff, metis atLeastLessThan_upt mset_eq_setD, metis diff_zero length_upt size_mset)
  have z: "c ! 0 = 0" using c(3,4) by (simp add: hd_conv_nth)
  have ch: "chase (sattolo rnd n) k 0 = c ! (k mod n)" for k using chase_cycle [OF c(1,4), of k 0] z assms d(3) by simp
  have "c ! (k mod n) = 0 \<longleftrightarrow> n dvd k" for k
    using nth_eq_iff_index_eq [OF d(1), of "k mod n" 0] z assms d(3) by (simp add: mod_eq_0_iff_dvd)
  with d ch show ?thesis by (intro exI [of _ c]) simp
qed

lemma chase_returns: "0 < n \<Longrightarrow> chase (sattolo rnd n) k 0 = 0 \<longleftrightarrow> n dvd k"
  using sattolo_cycle by blast

text \<open>
  C19: Whatever random numbers are drawn, the table that \<open>ptr_chase.c\<close> builds is one single cycle through
  all \<open>n\<close> slots: the chase that starts at slot 0 visits every slot exactly once in \<open>n\<close> steps and is
  back at slot 0 after \<open>k\<close> steps exactly when \<open>n\<close> divides \<open>k\<close>.
\<close>

theorem sattolo_single_cycle:
  assumes "0 < n"
  shows "\<exists>c. distinct c \<and> set c = {0..<n} \<and> (\<forall>k. chase (sattolo rnd n) k 0 = c ! (k mod n))
     \<and> (\<forall>k. chase (sattolo rnd n) k 0 = 0 \<longleftrightarrow> n dvd k)"
  using sattolo_cycle [OF assms] .

theorem sattolo_single_cycle_witness:
  "chase (sattolo (\<lambda>i. 3 * i + 1) 5) 5 0 = 0 \<and> chase (sattolo (\<lambda>i. 3 * i + 1) 5) 3 0 \<noteq> 0"
proof -
  have "chase (sattolo (\<lambda>i. 3 * i + 1) 5) k 0 = 0 \<longleftrightarrow> 5 dvd k" for k
    using sattolo_single_cycle [of 5 "\<lambda>i. 3 * i + 1"] by auto
  then show ?thesis by (simp del: chase.simps)
qed

section \<open>The unrolled reading loop\<close>

definition init_data :: "nat \<Rightarrow> int list" where
  "init_data n = map int [0..<n]"

text \<open>
  The loops of \<open>test\<close>; \<open>None\<close> is an access outside the array, a sum or an index that overflows, or a loop that does not end
  (stride 0). In the first loop the indices stay below \<open>elems\<close> and need no check.
\<close>

partial_function (option) test_main :: "int list \<Rightarrow> int \<Rightarrow> nat \<Rightarrow> nat \<Rightarrow> int \<times> int \<times> int \<times> int \<Rightarrow> (nat \<times> int \<times> int \<times> int \<times> int) option" where
  "test_main data limit stride i accs =
     (if int i < limit then
        (if length data \<le> i + 3 * stride then None
         else case accs of (acc0, acc1, acc2, acc3) \<Rightarrow>
                Option.bind (chk_long (acc0 + data ! i)) (\<lambda>acc0.
                Option.bind (chk_long (acc1 + data ! (i + stride))) (\<lambda>acc1.
                Option.bind (chk_long (acc2 + data ! (i + 2 * stride))) (\<lambda>acc2.
                Option.bind (chk_long (acc3 + data ! (i + 3 * stride))) (\<lambda>acc3.
                test_main data limit stride (i + 4 * stride) (acc0, acc1, acc2, acc3))))))
      else Some (i, accs))"

partial_function (option) test_rest :: "int list \<Rightarrow> nat \<Rightarrow> nat \<Rightarrow> nat \<Rightarrow> int \<Rightarrow> int option" where
  "test_rest data elems stride i acc0 =
     (if i < elems then
        (if length data \<le> i then None
         else Option.bind (chk_long (acc0 + data ! i)) (\<lambda>acc0.
              Option.bind (chk_long (int (i + stride))) (\<lambda>_. test_rest data elems stride (i + stride) acc0)))
      else Some acc0)"

definition mountain_test :: "int list \<Rightarrow> nat \<Rightarrow> nat \<Rightarrow> int option" where
  "mountain_test data elems stride =
     Option.bind (chk_long (4 * int stride)) (\<lambda>sx4.
     Option.bind (test_main data (int elems - sx4) stride 0 (0, 0, 0, 0)) (\<lambda>(i, acc0, acc1, acc2, acc3).
     Option.bind (test_rest data elems stride i acc0) (\<lambda>acc0.
     Option.bind (chk_long (acc0 + acc1)) (\<lambda>left.
     Option.bind (chk_long (acc2 + acc3)) (\<lambda>right. chk_long (left + right))))))"

text \<open>The indices from \<open>i\<close> on that a loop with this stride reads.\<close>

definition strided :: "nat \<Rightarrow> nat \<Rightarrow> nat \<Rightarrow> nat set" where
  "strided elems stride i = {k. i \<le> k \<and> k < elems \<and> stride dvd k}"

lemma strided_step:
  assumes "stride dvd i" "0 < stride" "i < elems"
  shows "(\<Sum>k \<in> strided elems stride i. f k) = f i + (\<Sum>k \<in> strided elems stride (i + stride). (f k :: int))"
proof -
  have *: "k = i \<or> i + stride \<le> k" if k: "i \<le> k" "stride dvd k" for k
  proof -
    have "stride dvd k - i" using assms(1) k(2) by (rule dvd_diff_nat [rotated])
    then have "k - i = 0 \<or> stride \<le> k - i" using dvd_imp_le by blast
    with k(1) show ?thesis by linarith
  qed
  have "strided elems stride i = insert i (strided elems stride (i + stride))"
    using assms * by (fastforce simp: strided_def)
  moreover have "finite (strided elems stride (i + stride))" "i \<notin> strided elems stride (i + stride)"
    using assms(2) by (auto simp: strided_def)
  ultimately show ?thesis by simp
qed

text \<open>What is left to be added, in absolute value, keeps every partial sum within a \<open>long\<close>.\<close>

abbreviation rest_sum :: "int list \<Rightarrow> nat \<Rightarrow> nat \<Rightarrow> nat \<Rightarrow> int" where
  "rest_sum data elems stride i \<equiv> (\<Sum>k \<in> strided elems stride i. data ! k)"

abbreviation rest_abs :: "int list \<Rightarrow> nat \<Rightarrow> nat \<Rightarrow> nat \<Rightarrow> int" where
  "rest_abs data elems stride i \<equiv> (\<Sum>k \<in> strided elems stride i. \<bar>data ! k\<bar>)"

lemma rest_abs_nonneg: "0 \<le> rest_abs data elems stride i"
  by (intro sum_nonneg) simp

lemma test_rest_sum:
  assumes "0 < stride" "elems \<le> length data" "int (elems + stride) \<le> LONG_MAX" "stride dvd i"
    and "\<bar>acc\<bar> + rest_abs data elems stride i \<le> LONG_MAX"
  shows "test_rest data elems stride i acc = Some (acc + rest_sum data elems stride i)"
  using assms(4,5)
proof (induction "elems - i" arbitrary: i acc rule: less_induct)
  case less
  show ?case
  proof (cases "i < elems")
    case True
    have a: "\<bar>acc\<bar> + (\<bar>data ! i\<bar> + rest_abs data elems stride (i + stride)) \<le> LONG_MAX"
      using less.prems strided_step [OF less.prems(1) assms(1) True, of "\<lambda>k. \<bar>data ! k\<bar>"] by simp
    then have b: "\<bar>acc + data ! i\<bar> + rest_abs data elems stride (i + stride) \<le> LONG_MAX"
      using abs_triangle_ineq [of acc "data ! i"] by linarith
    then have "chk_long (acc + data ! i) = Some (acc + data ! i)" using rest_abs_nonneg [of data elems stride "i + stride"] by (intro chk_long_abs) linarith
    moreover have "chk_long (int (i + stride)) = Some (int (i + stride))" using True assms(3) by (intro chk_long_abs) linarith
    moreover have "test_rest data elems stride (i + stride) (acc + data ! i)
      = Some (acc + data ! i + rest_sum data elems stride (i + stride))"
      using less True assms(1) b by simp
    ultimately show ?thesis using True assms strided_step [OF less.prems(1) assms(1) True, of "nth data"]
      by (subst test_rest.simps) simp
  next
    case False
    then have "strided elems stride i = {}" by (auto simp: strided_def)
    with False show ?thesis by (subst test_rest.simps) simp
  qed
qed

lemma strided_steps:
  assumes "stride dvd i" "0 < stride" "i + 4 * stride < elems"
  shows "(\<Sum>k \<in> strided elems stride i. f k) = f i + (f (i + stride) + (f (i + 2 * stride) + (f (i + 3 * stride) +
    (\<Sum>k \<in> strided elems stride (i + 4 * stride). (f k :: int)))))"
proof -
  let ?s = "\<lambda>i. \<Sum>k \<in> strided elems stride i. f k"
  have steps: "?s (i + m * stride) = f (i + m * stride) + ?s (i + Suc m * stride)" if "m < 4" for m
  proof -
    have "m * stride \<le> 4 * stride" using that by simp
    then have "i + m * stride < elems" using assms(3) by linarith
    then show ?thesis using strided_step [of stride "i + m * stride" elems f] assms(1,2) by (simp add: ac_simps)
  qed
  show ?thesis using steps [of 0] steps [of 1] steps [of 2] steps [of 3] by (simp add: eval_nat_numeral)
qed

lemma four_parts:
  fixes x0 :: int
  shows "b \<le> (x0 + d0) + (x1 + d1) + (x2 + d2) + (x3 + d3) \<Longrightarrow> x0 + x1 + x2 + x3 + s \<le> l \<Longrightarrow> s = d0 + (d1 + (d2 + (d3 + r))) \<Longrightarrow> b + r \<le> l"
    and "y0 + y1 + y2 + y3 + r \<le> l \<Longrightarrow> 0 \<le> y0 \<Longrightarrow> 0 \<le> y1 \<Longrightarrow> 0 \<le> y2 \<Longrightarrow> 0 \<le> y3 \<Longrightarrow> 0 \<le> (r :: int) \<Longrightarrow> y0 \<le> l \<and> y1 \<le> l \<and> y2 \<le> l \<and> y3 \<le> l"
  by linarith+

lemma test_main_sum:
  assumes "0 < stride" "elems \<le> length data" "stride dvd i" "\<bar>a0\<bar> + \<bar>a1\<bar> + \<bar>a2\<bar> + \<bar>a3\<bar> + rest_abs data elems stride i \<le> LONG_MAX"
  shows "\<exists>i' b0 b1 b2 b3. test_main data (int elems - 4 * int stride) stride i (a0, a1, a2, a3) = Some (i', b0, b1, b2, b3)
     \<and> stride dvd i' \<and> \<bar>b0\<bar> + \<bar>b1\<bar> + \<bar>b2\<bar> + \<bar>b3\<bar> + rest_abs data elems stride i' \<le> LONG_MAX
     \<and> b0 + b1 + b2 + b3 + rest_sum data elems stride i' = a0 + a1 + a2 + a3 + rest_sum data elems stride i"
  using assms(3,4)
proof (induction "elems - i" arbitrary: i a0 a1 a2 a3 rule: less_induct)
  case less
  show ?case
  proof (cases "int i < int elems - 4 * int stride")
    case True
    then have e: "i + 4 * stride < elems" by linarith
    let ?b0 = "a0 + data ! i" and ?b1 = "a1 + data ! (i + stride)" and ?b2 = "a2 + data ! (i + 2 * stride)" and ?b3 = "a3 + data ! (i + 3 * stride)"
    let ?i = "i + 4 * stride"
    have b: "\<bar>?b0\<bar> + \<bar>?b1\<bar> + \<bar>?b2\<bar> + \<bar>?b3\<bar> + rest_abs data elems stride ?i \<le> LONG_MAX"
      by (rule four_parts(1) [OF _ less.prems(2) strided_steps [OF less.prems(1) assms(1) e]]) (intro add_mono abs_triangle_ineq)
    have "chk_long ?b0 = Some ?b0" "chk_long ?b1 = Some ?b1" "chk_long ?b2 = Some ?b2" "chk_long ?b3 = Some ?b3"
      using four_parts(2) [OF b abs_ge_zero abs_ge_zero abs_ge_zero abs_ge_zero rest_abs_nonneg] by (auto intro: chk_long_abs)
    then have "test_main data (int elems - 4 * int stride) stride i (a0, a1, a2, a3) =
      test_main data (int elems - 4 * int stride) stride ?i (?b0, ?b1, ?b2, ?b3)"
      using True e assms(2) by (subst test_main.simps) simp
    moreover have "elems - ?i < elems - i" "stride dvd ?i" using e assms(1) less.prems by auto
    ultimately show ?thesis
      using less.hyps [of ?i ?b0 ?b1 ?b2 ?b3] b strided_steps [OF less.prems(1) assms(1) e, of "nth data"]
      by (simp add: ac_simps)
  next
    case False
    then have "test_main data (int elems - 4 * int stride) stride i (a0, a1, a2, a3) = Some (i, a0, a1, a2, a3)"
      by (subst test_main.simps) simp
    then show ?thesis using less.prems by simp
  qed
qed

lemma mountain_test_sum:
  assumes "0 < stride" "elems \<le> length data" "int (elems + 4 * stride) \<le> LONG_MAX" "rest_abs data elems stride 0 \<le> LONG_MAX"
  shows "mountain_test data elems stride = Some (rest_sum data elems stride 0)"
proof -
  obtain i b0 b1 b2 b3 where
      m: "test_main data (int elems - 4 * int stride) stride 0 (0, 0, 0, 0) = Some (i, b0, b1, b2, b3)" "stride dvd i"
    and le: "\<bar>b0\<bar> + \<bar>b1\<bar> + \<bar>b2\<bar> + \<bar>b3\<bar> + rest_abs data elems stride i \<le> LONG_MAX"
    and sum: "b0 + b1 + b2 + b3 + rest_sum data elems stride i = rest_sum data elems stride 0"
    using test_main_sum [OF assms(1,2), of 0 0 0 0 0] assms(4) by auto
  let ?c = "b0 + rest_sum data elems stride i"
  have "\<bar>rest_sum data elems stride i\<bar> \<le> rest_abs data elems stride i" by (rule sum_abs)
  then have "\<bar>?c\<bar> + \<bar>b1\<bar> + \<bar>b2\<bar> + \<bar>b3\<bar> \<le> LONG_MAX" using le by linarith
  then have "chk_long (?c + b1) = Some (?c + b1)" "chk_long (b2 + b3) = Some (b2 + b3)" "chk_long ((?c + b1) + (b2 + b3)) = Some ((?c + b1) + (b2 + b3))"
    by (intro chk_long_abs; linarith)+
  moreover have "test_rest data elems stride i b0 = Some ?c"
    using le assms(3) by (intro test_rest_sum [OF assms(1,2) _ m(2)]) linarith+
  moreover have "chk_long (4 * int stride) = Some (4 * int stride)" using assms(3) by (intro chk_long_abs) linarith
  ultimately show ?thesis using m(1) sum by (simp add: mountain_test_def ac_simps)
qed

section \<open>A product with K accumulators\<close>

text \<open>
  The macro \<open>MAKE_COMBINE(K)\<close>.  \<open>None\<close> is a product that overflows, an access past the end of the array, or the endless loop that
  \<open>K = 0\<close> would be.
\<close>

definition mul_at :: "int list \<Rightarrow> nat \<Rightarrow> nat \<Rightarrow> int list \<Rightarrow> int list option" where
  "mul_at d j k acc = map_option (\<lambda>v. acc[j := v]) (chk_long (acc ! j * d ! k))"

definition combine_block :: "nat \<Rightarrow> int list \<Rightarrow> nat \<Rightarrow> int list \<Rightarrow> int list option" where
  "combine_block K d i acc = foldl (\<lambda>r j. Option.bind r (mul_at d j (i + j))) (Some acc) [0..<K]"

partial_function (option) combine_main :: "nat \<Rightarrow> int list \<Rightarrow> nat \<Rightarrow> nat \<Rightarrow> int list \<Rightarrow> (nat \<times> int list) option" where
  "combine_main K d n i acc =
     (if i + K \<le> n then
        (if length d < i + K then None else Option.bind (combine_block K d i acc) (\<lambda>acc. combine_main K d n (i + K) acc))
      else Some (i, acc))"

definition combine_rest :: "int list \<Rightarrow> nat \<Rightarrow> nat \<Rightarrow> int list \<Rightarrow> int list option" where
  "combine_rest d n i acc =
     (if i < n \<and> length d < n then None
      else foldl (\<lambda>r i. Option.bind r (mul_at d 0 i)) (Some acc) [i..<n])"

definition combine_join :: "nat \<Rightarrow> int list \<Rightarrow> int option" where
  "combine_join K acc = foldl (\<lambda>r j. Option.bind r (\<lambda>r. chk_long (r * acc ! j))) (Some 1) [0..<K]"

definition combine :: "nat \<Rightarrow> int list \<Rightarrow> nat \<Rightarrow> int option" where
  "combine K d n =
     Option.bind (combine_main K d n 0 (replicate K 1)) (\<lambda>(i, acc). Option.bind (combine_rest d n i acc) (combine_join K))"

text \<open>The size of a factor: the product of the sizes bounds every product of some of the factors.\<close>

definition msize :: "int \<Rightarrow> int" where "msize x = max 1 \<bar>x\<bar>"

lemma msize_pos [simp]: "1 \<le> msize x" "0 < msize x" "0 \<le> msize x"
  by (auto simp: msize_def)

lemma msize_mult: "msize (x * y) \<le> msize x * msize y"
proof -
  have "1 * 1 \<le> msize x * msize y" by (intro mult_mono) simp_all
  moreover have "\<bar>x\<bar> * \<bar>y\<bar> \<le> msize x * msize y" by (intro mult_mono) (simp_all add: msize_def)
  ultimately show ?thesis by (simp add: msize_def abs_mult)
qed

lemma prod_pos: "1 \<le> (\<Prod>k = i..<n. msize (d k))" "1 \<le> prod_list (map msize acc)"
proof -
  show "1 \<le> (\<Prod>k = i..<n. msize (d k))" by (rule prod_ge_1) simp
  have "1 * 1 \<le> msize x * p" if "1 \<le> p" for x p using that by (intro mult_mono) simp_all
  then show "1 \<le> prod_list (map msize acc)" by (induction acc) simp_all
qed

lemma msize_nth: "j < length acc \<Longrightarrow> msize (acc ! j) \<le> prod_list (map msize acc)"
proof (induction acc arbitrary: j)
  case (Cons x acc)
  have "1 * prod_list (map msize acc) \<le> msize x * prod_list (map msize acc)" using prod_pos(2) [of acc] by (intro mult_right_mono) simp_all
  moreover have "msize x * 1 \<le> msize x * prod_list (map msize acc)" using prod_pos(2) [of acc] by (intro mult_left_mono) simp_all
  ultimately show ?case
  proof (cases j)
    case (Suc i)
    then have "msize (acc ! i) \<le> 1 * prod_list (map msize acc)" using Cons by simp
    also have "\<dots> \<le> msize x * prod_list (map msize acc)" by fact
    finally show ?thesis using Suc by simp
  qed (use \<open>msize x * 1 \<le> _\<close> in simp)
qed simp

lemma prod_list_update_at:
  "m < length xs \<Longrightarrow> prod_list (xs[m := v]) * xs ! m = prod_list xs * (v :: 'a :: comm_monoid_mult)"
  by (induction xs arbitrary: m) (auto simp: ac_simps split: nat.split)

text \<open>One multiplication: it is defined within the bound, and the products and sizes of the accumulators follow it.\<close>

lemma mul_at_ok:
  assumes "j < length acc" "prod_list (map msize acc) * msize (d ! k) \<le> LONG_MAX"
  shows "mul_at d j k acc = Some (acc[j := acc ! j * d ! k])"
    and "prod_list (acc[j := acc ! j * d ! k]) = prod_list acc * d ! k"
    and "prod_list (map msize (acc[j := acc ! j * d ! k])) \<le> prod_list (map msize acc) * msize (d ! k)"
proof -
  have "\<bar>acc ! j * d ! k\<bar> \<le> msize (acc ! j) * msize (d ! k)" using msize_mult [of "acc ! j" "d ! k"] by (simp add: msize_def)
  also have "\<dots> \<le> prod_list (map msize acc) * msize (d ! k)" using msize_nth [OF assms(1)] by (intro mult_right_mono) simp_all
  finally show "mul_at d j k acc = Some (acc[j := acc ! j * d ! k])" using assms(2) by (simp add: mul_at_def chk_long_abs)
  show "prod_list (acc[j := acc ! j * d ! k]) = prod_list acc * d ! k" using assms(1) by (induction acc arbitrary: j) (auto split: nat.split)
  have "prod_list (map msize (acc[j := acc ! j * d ! k])) * msize (acc ! j) = prod_list (map msize acc) * msize (acc ! j * d ! k)"
    using prod_list_update_at [of j "map msize acc"] assms(1) by (simp add: map_update)
  also have "\<dots> \<le> prod_list (map msize acc) * (msize (acc ! j) * msize (d ! k))"
    using msize_mult prod_pos(2) [of acc] by (intro mult_left_mono) simp_all
  finally have "prod_list (map msize (acc[j := acc ! j * d ! k])) * msize (acc ! j) \<le> (prod_list (map msize acc) * msize (d ! k)) * msize (acc ! j)"
    by (simp add: ac_simps)
  then show "prod_list (map msize (acc[j := acc ! j * d ! k])) \<le> prod_list (map msize acc) * msize (d ! k)"
    by (rule mult_right_le_imp_le) simp
qed

text \<open>A run of multiplications, each element into the accumulator \<open>f\<close> chooses.\<close>

lemma mul_run:
  assumes "\<And>k. i \<le> k \<Longrightarrow> k < n \<Longrightarrow> f k < length acc" "i \<le> n" "prod_list (map msize acc) * (\<Prod>k = i..<n. msize (d ! k)) \<le> LONG_MAX"
  shows "\<exists>acc'. foldl (\<lambda>r k. Option.bind r (mul_at d (f k) k)) (Some acc) [i..<n] = Some acc' \<and> length acc' = length acc
    \<and> prod_list acc' = prod_list acc * (\<Prod>k = i..<n. d ! k)
    \<and> prod_list (map msize acc') \<le> prod_list (map msize acc) * (\<Prod>k = i..<n. msize (d ! k))"
  using assms(2,1,3)
proof (induction n rule: dec_induct)
  case (step n)
  let ?p = "prod_list (map msize acc) * (\<Prod>k = i..<n. msize (d ! k))"
  have "?p * 1 \<le> ?p * msize (d ! n)" using prod_pos(1) [of "\<lambda>k. d ! k" i n] prod_pos(2) [of acc] by (intro mult_left_mono) simp_all
  moreover have e: "?p * msize (d ! n) \<le> LONG_MAX" using step.prems(2) step.hyps(1) by (simp add: ac_simps)
  ultimately have "?p \<le> LONG_MAX" by linarith
  then obtain a where a: "foldl (\<lambda>r k. Option.bind r (mul_at d (f k) k)) (Some acc) [i..<n] = Some a" "length a = length acc"
      "prod_list a = prod_list acc * (\<Prod>k = i..<n. d ! k)" "prod_list (map msize a) \<le> ?p"
    using step.IH step.prems(1) by auto
  have "prod_list (map msize a) * msize (d ! n) \<le> ?p * msize (d ! n)" using a(4) by (rule mult_right_mono) simp
  note le = order_trans [OF this e] this
  have "f n < length a" using step.prems(1) step.hyps(1) a(2) by simp
  note m = mul_at_ok [OF this le(1)]
  have f: "foldl (\<lambda>r k. Option.bind r (mul_at d (f k) k)) (Some acc) [i..<Suc n] = Some (a[f n := a ! f n * d ! n])"
    using a(1) m(1) step.hyps(1) by simp
  have e: "(\<Prod>k = i..<Suc n. g k) = (\<Prod>k = i..<n. g k) * g n" for g :: "nat \<Rightarrow> int" using step.hyps(1) by simp
  show ?case
    unfolding f e using a(2,3) m(2) order_trans [OF m(3) le(2)] by (simp add: mult.assoc)
qed simp

lemma combine_block_ok:
  assumes "length acc = K" "prod_list (map msize acc) * (\<Prod>k = i..<i + K. msize (d ! k)) \<le> LONG_MAX"
  shows "\<exists>acc'. combine_block K d i acc = Some acc' \<and> length acc' = K \<and> prod_list acc' = prod_list acc * (\<Prod>k = i..<i + K. d ! k)
    \<and> prod_list (map msize acc') \<le> prod_list (map msize acc) * (\<Prod>k = i..<i + K. msize (d ! k))"
proof -
  have "[i..<i + K] = map (\<lambda>j. i + j) [0..<K]" by (simp add: map_add_upt ac_simps)
  then have "combine_block K d i acc = foldl (\<lambda>r k. Option.bind r (mul_at d (k - i) k)) (Some acc) [i..<i + K]"
    by (simp add: combine_block_def foldl_map)
  then show ?thesis using mul_run [of i "i + K" "\<lambda>k. k - i" acc d] assms by auto
qed

lemma combine_main_ok:
  assumes "0 < K" "n \<le> length d" "length acc = K" "i \<le> n" "prod_list (map msize acc) * (\<Prod>k = i..<n. msize (d ! k)) \<le> LONG_MAX"
  shows "\<exists>i' acc'. combine_main K d n i acc = Some (i', acc') \<and> length acc' = K \<and> i' \<le> n
     \<and> prod_list acc' * (\<Prod>k = i'..<n. d ! k) = prod_list acc * (\<Prod>k = i..<n. d ! k)
     \<and> prod_list (map msize acc') * (\<Prod>k = i'..<n. msize (d ! k)) \<le> LONG_MAX"
  using assms(3-5)
proof (induction "n - i" arbitrary: i acc rule: less_induct)
  case less
  show ?case
  proof (cases "i + K \<le> n")
    case True
    have cut: "(\<Prod>k = i..<n. g k) = (\<Prod>k = i..<i + K. g k) * (\<Prod>k = i + K..<n. g k)" for g :: "nat \<Rightarrow> int"
      using True by (simp add: prod.atLeastLessThan_concat)
    let ?p = "prod_list (map msize acc) * (\<Prod>k = i..<i + K. msize (d ! k))"
    have p: "?p * (\<Prod>k = i + K..<n. msize (d ! k)) \<le> LONG_MAX" using less.prems(3) cut [of "\<lambda>k. msize (d ! k)"] by (simp add: ac_simps)
    have "?p * 1 \<le> ?p * (\<Prod>k = i + K..<n. msize (d ! k))"
      using prod_pos(1) [of "\<lambda>k. d ! k"] prod_pos(2) [of acc] by (intro mult_left_mono) (simp_all add: prod_nonneg)
    with p have "?p \<le> LONG_MAX" by simp
    from combine_block_ok [OF less.prems(1) this] obtain a where a: "combine_block K d i acc = Some a" "length a = K"
      "prod_list a = prod_list acc * (\<Prod>k = i..<i + K. d ! k)" "prod_list (map msize a) \<le> ?p" by blast
    have "prod_list (map msize a) * (\<Prod>k = i + K..<n. msize (d ! k)) \<le> ?p * (\<Prod>k = i + K..<n. msize (d ! k))"
      using a(4) by (rule mult_right_mono) (simp add: prod_nonneg)
    with p have "prod_list (map msize a) * (\<Prod>k = i + K..<n. msize (d ! k)) \<le> LONG_MAX" by simp
    moreover have "combine_main K d n i acc = combine_main K d n (i + K) a"
      using True assms(2) a(1) by (subst combine_main.simps) simp
    moreover have "n - (i + K) < n - i" using True assms(1) by linarith
    ultimately show ?thesis using less.hyps [of "i + K" a] a(2,3) True cut [of "nth d"] by (simp add: mult.assoc)
  next
    case False
    then show ?thesis using less.prems by (subst combine_main.simps) simp
  qed
qed

lemma combine_join_ok:
  assumes "prod_list (map msize acc) \<le> LONG_MAX"
  shows "combine_join (length acc) acc = Some (prod_list acc)"
proof -
  have "m \<le> length acc \<Longrightarrow> foldl (\<lambda>r j. Option.bind r (\<lambda>r. chk_long (r * acc ! j))) (Some 1) [0..<m] = Some (prod_list (take m acc))
      \<and> msize (prod_list (take m acc)) * prod_list (map msize (drop m acc)) \<le> prod_list (map msize acc)" for m
  proof (induction m)
    case (Suc m)
    let ?q = "prod_list (take m acc)"
    have d: "drop m acc = acc ! m # drop (Suc m) acc" "take (Suc m) acc = take m acc @ [acc ! m]"
      using Suc.prems by (simp_all add: Cons_nth_drop_Suc take_Suc_conv_app_nth)
    have r: "msize (?q * acc ! m) * prod_list (map msize (drop (Suc m) acc)) \<le> msize ?q * msize (acc ! m) * prod_list (map msize (drop (Suc m) acc))"
      using msize_mult prod_pos(2) [of "drop (Suc m) acc"] by (intro mult_right_mono) simp_all
    have s: "msize (?q * acc ! m) * prod_list (map msize (drop (Suc m) acc)) \<le> prod_list (map msize acc)"
      using r Suc.IH Suc.prems d(1) by (simp add: mult.assoc)
    have "msize (?q * acc ! m) * 1 \<le> msize (?q * acc ! m) * prod_list (map msize (drop (Suc m) acc))"
      using prod_pos(2) by (intro mult_left_mono) simp_all
    then have "msize (?q * acc ! m) \<le> LONG_MAX" using s assms by linarith
    then have "chk_long (?q * acc ! m) = Some (?q * acc ! m)" by (intro chk_long_abs) (simp add: msize_def)
    then show ?case using Suc s d(2) by simp
  qed (simp add: msize_def)
  from this [of "length acc"] show ?thesis by (simp add: combine_join_def)
qed

lemma combine_prod:
  assumes "0 < K" "n \<le> length d" "(\<Prod>k = 0..<n. msize (d ! k)) \<le> LONG_MAX"
  shows "combine K d n = Some (\<Prod>k = 0..<n. d ! k)"
proof -
  obtain i acc where m: "combine_main K d n 0 (replicate K 1) = Some (i, acc)" "length acc = K" "i \<le> n"
    and p: "prod_list acc * (\<Prod>k = i..<n. d ! k) = (\<Prod>k = 0..<n. d ! k)" "prod_list (map msize acc) * (\<Prod>k = i..<n. msize (d ! k)) \<le> LONG_MAX"
    using combine_main_ok [OF assms(1,2), of "replicate K 1" 0] assms(3) by (auto simp: msize_def)
  obtain r where r: "foldl (\<lambda>r k. Option.bind r (mul_at d 0 k)) (Some acc) [i..<n] = Some r" "length r = K"
      "prod_list r = (\<Prod>k = 0..<n. d ! k)" "prod_list (map msize r) \<le> LONG_MAX"
    using mul_run [of i n "\<lambda>_. 0" acc d] m p assms(1) by (auto intro: order_trans)
  then show ?thesis using m(1) assms(2) combine_join_ok [OF r(4)] by (simp add: combine_def combine_rest_def)
qed

text \<open>With one accumulator a partial product that does not fit a \<open>long\<close> is reached, and the call is undefined.\<close>

lemma combine_overflow:
  assumes "m < n" "n \<le> length d" "chk_long (\<Prod>k = 0..<Suc m. d ! k) = None"
  shows "combine 1 d n = None"
proof -
  have "combine_main 1 d n i [\<Prod>k = 0..<i. d ! k] = None" if "i \<le> m" for i
    using that
  proof (induction "m - i" arbitrary: i rule: less_induct)
    case less
    have b: "combine_block 1 d i [\<Prod>k = 0..<i. d ! k] = map_option (\<lambda>v. [v]) (chk_long (\<Prod>k = 0..<Suc i. d ! k))"
      by (simp add: combine_block_def mul_at_def)
    show ?case
    proof (cases "chk_long (\<Prod>k = 0..<Suc i. d ! k)")
      case None
      then show ?thesis using less.prems assms(1,2) b by (subst combine_main.simps) simp
    next
      case (Some v)
      then have v: "v = (\<Prod>k = 0..<Suc i. d ! k)" by (simp add: chk_long_def split: if_splits)
      have "i < m" using less.prems Some assms(3) by (cases "i = m") auto
      then have "combine_main 1 d n (Suc i) [v] = None" using less.hyps [of "Suc i"] v by simp
      then show ?thesis using \<open>i < m\<close> assms(1,2) b Some by (subst combine_main.simps) simp
    qed
  qed
  from this [of 0] show ?thesis by (simp add: combine_def)
qed

section \<open>Branching and branch-free exchange\<close>

definition minmax1 :: "int list \<Rightarrow> int list \<Rightarrow> nat \<Rightarrow> int list \<times> int list" where
  "minmax1 a b n = foldl (\<lambda>(a, b) i. if a ! i > b ! i then let t = a ! i in (a[i := b ! i], b[i := t]) else (a, b)) (a, b) [0..<n]"

definition minmax2 :: "int list \<Rightarrow> int list \<Rightarrow> nat \<Rightarrow> int list \<times> int list" where
  "minmax2 a b n = foldl (\<lambda>(a, b) i. let lo = (if a ! i < b ! i then a ! i else b ! i);
                                        hi = (if a ! i < b ! i then b ! i else a ! i)
                                    in (a[i := lo], b[i := hi])) (a, b) [0..<n]"

lemma minmax2_spec:
  assumes "n \<le> length a" "n \<le> length b"
  shows "minmax2 a b n = (map2 min (take n a) (take n b) @ drop n a, map2 max (take n a) (take n b) @ drop n b)"
  using assms
proof (induction n)
  case (Suc n)
  have "(map2 f (take n a) (take n b) @ drop n c)[n := f (a ! n) (b ! n)] = map2 f (take (Suc n) a) (take (Suc n) b) @ drop (Suc n) c"
    if "n < length c" for f :: "int \<Rightarrow> int \<Rightarrow> int" and c
    using Suc.prems that by (simp add: list_update_append take_Suc_conv_app_nth Cons_nth_drop_Suc [symmetric])
  from this [of a min] this [of b max]
  moreover have "(if x < y then x else y) = min x y" "(if x < y then y else x) = max x y" for x y :: int by auto
  ultimately show ?case using Suc by (simp add: minmax2_def Let_def nth_append)
qed (simp add: minmax2_def)

lemma minmax1_eq_minmax2: "minmax1 a b n = minmax2 a b n"
proof -
  have "(\<lambda>(a, b) i. if a ! i > b ! i then let t = a ! i in (a[i := b ! i], b[i := t]) else (a, b)) =
    (\<lambda>(a, b) i. let lo = (if a ! i < b ! i then a ! i else b ! i); hi = (if a ! i < b ! i then b ! i else a ! i)
       in (a[i := lo], b[i := (hi :: int)]))"
    by (auto simp: fun_eq_iff Let_def) (metis linorder_neqE list_update_id)+
  then show ?thesis by (simp add: minmax1_def minmax2_def)
qed

section \<open>Sums in row and in column order\<close>

text \<open>\<open>proc.c\<close> adds an array of \<open>int\<close>s into a \<open>long\<close>; \<open>None\<close> is a sum that overflows.\<close>

definition sum_row :: "nat \<Rightarrow> (nat \<Rightarrow> nat \<Rightarrow> int) \<Rightarrow> int option" where
  "sum_row N a = foldl (\<lambda>s i. foldl (\<lambda>s j. Option.bind s (\<lambda>s. chk_long (s + a i j))) s [0..<N]) (Some 0) [0..<N]"

definition sum_col :: "nat \<Rightarrow> (nat \<Rightarrow> nat \<Rightarrow> int) \<Rightarrow> int option" where
  "sum_col N a = foldl (\<lambda>s j. foldl (\<lambda>s i. Option.bind s (\<lambda>s. chk_long (s + a i j))) s [0..<N]) (Some 0) [0..<N]"

lemma foldl_chk_long:
  "\<bar>s\<bar> + (\<Sum>i<n. \<bar>f i\<bar>) \<le> LONG_MAX \<Longrightarrow> foldl (\<lambda>r i. Option.bind r (\<lambda>s. chk_long (s + f i))) (Some s) [0..<n] = Some (s + (\<Sum>i<n. f i))"
proof (induction n)
  case (Suc n)
  have "\<bar>s + (\<Sum>i<n. f i) + f n\<bar> \<le> LONG_MAX" using Suc.prems sum_abs [of f "{..<n}"] unfolding sum.lessThan_Suc by linarith
  then have "chk_long (s + (\<Sum>i<n. f i) + f n) = Some (s + (\<Sum>i<n. f i) + f n)" by (rule chk_long_abs)
  moreover have "\<bar>s\<bar> + (\<Sum>i<n. \<bar>f i\<bar>) \<le> LONG_MAX" using Suc.prems unfolding sum.lessThan_Suc by linarith
  ultimately show ?case using Suc.IH by (simp add: ac_simps)
qed simp

lemma foldl_foldl_chk_long:
  assumes "(\<Sum>i<m. \<Sum>j<n. \<bar>a i j\<bar>) \<le> LONG_MAX"
  shows "foldl (\<lambda>s i. foldl (\<lambda>s j. Option.bind s (\<lambda>s. chk_long (s + a i j))) s [0..<n]) (Some 0) [0..<m] = Some (\<Sum>i<m. \<Sum>j<n. a i j)"
  using assms
proof (induction m)
  case (Suc m)
  have "\<bar>\<Sum>i<m. \<Sum>j<n. a i j\<bar> \<le> (\<Sum>i<m. \<Sum>j<n. \<bar>a i j\<bar>)" by (rule order_trans [OF sum_abs]) (intro sum_mono sum_abs)
  then have "\<bar>\<Sum>i<m. \<Sum>j<n. a i j\<bar> + (\<Sum>j<n. \<bar>a m j\<bar>) \<le> LONG_MAX" using Suc.prems unfolding sum.lessThan_Suc by linarith
  note row = foldl_chk_long [OF this]
  have "0 \<le> (\<Sum>j<n. \<bar>a m j\<bar>)" by (simp add: sum_nonneg)
  then have "(\<Sum>i<m. \<Sum>j<n. \<bar>a i j\<bar>) \<le> LONG_MAX" using Suc.prems unfolding sum.lessThan_Suc by linarith
  from Suc.IH [OF this] row show ?case by simp
qed simp

lemma sum_rows_cols:
  assumes "(\<Sum>i<N. \<Sum>j<N. \<bar>a i j\<bar>) \<le> LONG_MAX"
  shows "sum_row N a = Some (\<Sum>i<N. \<Sum>j<N. a i j)" "sum_col N a = Some (\<Sum>i<N. \<Sum>j<N. a i j)"
  using foldl_foldl_chk_long [where a = a and m = N and n = N] foldl_foldl_chk_long [where a = "\<lambda>i j. a j i" and m = N and n = N] assms
  by (simp_all add: sum_row_def sum_col_def sum.swap [of "\<lambda>i j. a j i"] sum.swap [of "\<lambda>i j. \<bar>a j i\<bar>"])

text \<open>An array of \<open>int\<close>s of the size in the program is within the bound.\<close>

lemma int_matrix_bound:
  fixes N :: nat
  assumes "N \<le> 4096" "\<And>i j. i < N \<Longrightarrow> j < N \<Longrightarrow> \<bar>a i j\<bar> \<le> 2 ^ 31"
  shows "(\<Sum>i<N. \<Sum>j<N. \<bar>a i j\<bar>) \<le> (LONG_MAX :: int)"
proof -
  have "(\<Sum>i<N. \<Sum>j<N. \<bar>a i j\<bar>) \<le> (\<Sum>i<N. \<Sum>j<N. 2 ^ 31)" using assms(2) by (intro sum_mono) simp
  also have "\<dots> = int N * int N * 2 ^ 31" by simp
  also have "\<dots> \<le> 4096 * 4096 * 2 ^ 31" using assms(1) by (intro mult_mono) simp_all
  finally show ?thesis by (simp add: LONG_MAX_def)
qed



section \<open>Sorted and unsorted data\<close>

text \<open>
  \<open>branch_predict.c\<close> adds the elements from 128 on, over the data as drawn or sorted first; \<open>qsort\<close> is a parameter that
  permutes its argument.
\<close>

definition cmp_int :: "int \<Rightarrow> int \<Rightarrow> int" where
  "cmp_int a b = a - b"

fun branch_sum :: "int list \<Rightarrow> int \<Rightarrow> int" where
  "branch_sum [] acc = acc"
| "branch_sum (d # ds) acc = branch_sum ds (if 128 \<le> d then acc + d else acc)"

definition branch_iters :: nat where "branch_iters = 20000"

definition branch_main :: "((int \<Rightarrow> int \<Rightarrow> int) \<Rightarrow> int list \<Rightarrow> int list) \<Rightarrow> bool \<Rightarrow> int list \<Rightarrow> int" where
  "branch_main qsort is_sorted drawn =
     (let d0 = map (\<lambda>r. r mod 256) drawn; d1 = (if is_sorted then qsort cmp_int d0 else d0)
      in (branch_sum d1 ^^ branch_iters) 0)"

lemma branch_sum_filter: "branch_sum ds acc = acc + sum_list (filter (\<lambda>d. 128 \<le> d) ds)"
  by (induction ds arbitrary: acc) auto

lemma branch_sum_mset: "mset ds = mset es \<Longrightarrow> branch_sum ds acc = branch_sum es acc"
  unfolding branch_sum_filter by (metis mset_filter sum_mset_sum_list)

text \<open>Sorting changes the predictability of the branch and not the result.\<close>

lemma branch_main_same: "(\<And>cmp xs. mset (qsort cmp xs) = mset xs) \<Longrightarrow> branch_main qsort True drawn = branch_main qsort False drawn"
proof -
  assume q: "\<And>cmp xs. mset (qsort cmp xs) = mset xs"
  have "branch_sum (qsort cmp_int (map (\<lambda>r. r mod 256) drawn)) = branch_sum (map (\<lambda>r. r mod 256) drawn)"
    using branch_sum_mset [OF q] by auto
  then show ?thesis by (simp add: branch_main_def Let_def)
qed

end
