(* ===== verification/Coroutines.thy ===== *)
theory Coroutines
  imports C_Text "HOL-Library.Multiset"
begin

text \<open>
  The coroutine scheduler of \<open>12.3/cpp20_coroutine_scheduler.cpp\<close>: a queue of ready handles, a vector of
  timers and a clock that jumps to the next timer when nothing is ready. A handle is the number of a task; the
  suspended body of \<open>handle_request\<close> is the point where \<open>resume\<close> continues it. \<open>None\<close> is undefined behaviour
  (overflow of the clock, taking from an empty queue, resuming a finished coroutine) or a \<open>run\<close> that does not end.
\<close>

section \<open>State\<close>

datatype co_point = At_start | After_read | After_write | Co_done

datatype co_event =
  Start_read int string int
| Read_complete int string
| Start_write int string int
| Write_complete int string

record request =
  rq_name :: string
  read_delay :: int
  write_delay :: int

record co_state =
  tick :: int
  ready :: "nat list"
  timers :: "(int \<times> nat) list"
  points :: "co_point list"
  cout :: "co_event list"

text \<open>The line a statement of \<open>handle_request\<close> prints.\<close>

fun event_text :: "co_event \<Rightarrow> string" where
  "event_text (Start_read t name d) = ''[tick '' @ dec_int t @ ''] '' @ name @ '': start read, await '' @ dec_int d @ '' ticks'' @ [CHR 0x0A]"
| "event_text (Read_complete t name) = ''[tick '' @ dec_int t @ ''] '' @ name @ '': read complete: '' @ ''request-from-'' @ name @ [CHR 0x0A]"
| "event_text (Start_write t name d) = ''[tick '' @ dec_int t @ ''] '' @ name @ '': start write, await '' @ dec_int d @ '' ticks'' @ [CHR 0x0A]"
| "event_text (Write_complete t name) = ''[tick '' @ dec_int t @ ''] '' @ name @ '': write complete: '' @ ''echo('' @ ''request-from-'' @ name @ '')'' @ [CHR 0x0A]"

section \<open>The scheduler\<close>

definition spawn :: "nat \<Rightarrow> co_state \<Rightarrow> co_state" where
  "spawn h s = s\<lparr>ready := ready s @ [h]\<rparr>"

definition schedule_after :: "nat \<Rightarrow> int \<Rightarrow> co_state \<Rightarrow> co_state option" where
  "schedule_after h ticks s =
     (if tick s + ticks \<le> INT_MAX then Some (s\<lparr>timers := timers s @ [(tick s + ticks, h)]\<rparr>) else None)"

fun wake_loop :: "int \<Rightarrow> (int \<times> nat) list \<Rightarrow> nat list \<Rightarrow> nat list \<times> (int \<times> nat) list" where
  "wake_loop now [] rd = (rd, [])"
| "wake_loop now ((wake_tick, h) # ts) rd =
     (if wake_tick \<le> now then wake_loop now ts (rd @ [h])
      else map_prod id (Cons (wake_tick, h)) (wake_loop now ts rd))"

definition wake_due_timers :: "co_state \<Rightarrow> co_state" where
  "wake_due_timers s = (let (rd, ts) = wake_loop (tick s) (timers s) (ready s) in s\<lparr>ready := rd, timers := ts\<rparr>)"

definition next_timer_tick :: "co_state \<Rightarrow> int" where
  "next_timer_tick s = foldl (\<lambda>nxt timer. min nxt (fst timer)) INT_MAX (timers s)"

definition advance :: "co_state \<Rightarrow> co_state" where
  "advance s = (if ready s = [] then wake_due_timers (s\<lparr>tick := next_timer_tick s\<rparr>) else s)"

partial_function (option) run :: "(nat \<Rightarrow> co_state \<Rightarrow> co_state option) \<Rightarrow> co_state \<Rightarrow> co_state option" where
  "run resume s =
     (if ready s \<noteq> [] \<or> timers s \<noteq> [] then
        let s = advance (wake_due_timers s) in
        case ready s of
          [] \<Rightarrow> None
        | h # r \<Rightarrow>
            (if points s ! h \<noteq> Co_done
             then (case resume h (s\<lparr>ready := r\<rparr>) of None \<Rightarrow> None | Some s \<Rightarrow> run resume s)
             else run resume (s\<lparr>ready := r\<rparr>))
      else Some s)"

section \<open>The coroutine\<close>

definition print_event :: "co_event \<Rightarrow> co_state \<Rightarrow> co_state" where
  "print_event e s = s\<lparr>cout := cout s @ [e]\<rparr>"

definition set_point :: "nat \<Rightarrow> co_point \<Rightarrow> co_state \<Rightarrow> co_state" where
  "set_point h p s = s\<lparr>points := (points s)[h := p]\<rparr>"

text \<open>\<open>co_await scheduler.sleep_for(ticks)\<close>, followed by \<open>k\<close>: no suspension when \<open>await_ready\<close> holds.\<close>

definition await_sleep :: "nat \<Rightarrow> int \<Rightarrow> (co_state \<Rightarrow> co_state option) \<Rightarrow> co_state \<Rightarrow> co_state option" where
  "await_sleep h ticks k s = (if ticks \<le> 0 then k s else schedule_after h ticks s)"

definition co_finish :: "request \<Rightarrow> nat \<Rightarrow> co_state \<Rightarrow> co_state option" where
  "co_finish rq h s = Some (set_point h Co_done (print_event (Write_complete (tick s) (rq_name rq)) s))"

definition co_write :: "request \<Rightarrow> nat \<Rightarrow> co_state \<Rightarrow> co_state option" where
  "co_write rq h s =
     await_sleep h (write_delay rq) (co_finish rq h)
       (set_point h After_write
         (print_event (Start_write (tick s) (rq_name rq) (write_delay rq)) (print_event (Read_complete (tick s) (rq_name rq)) s)))"

definition co_read :: "request \<Rightarrow> nat \<Rightarrow> co_state \<Rightarrow> co_state option" where
  "co_read rq h s =
     await_sleep h (read_delay rq) (co_write rq h)
       (set_point h After_read (print_event (Start_read (tick s) (rq_name rq) (read_delay rq)) s))"

definition handle_request :: "request list \<Rightarrow> nat \<Rightarrow> co_state \<Rightarrow> co_state option" where
  "handle_request rqs h s =
     (case points s ! h of
        At_start \<Rightarrow> co_read (rqs ! h) h s
      | After_read \<Rightarrow> co_write (rqs ! h) h s
      | After_write \<Rightarrow> co_finish (rqs ! h) h s
      | Co_done \<Rightarrow> None)"

definition co_init :: "request list \<Rightarrow> co_state" where
  "co_init rqs =
     foldl (\<lambda>s h. spawn h s)
       \<lparr>tick = 0, ready = [], timers = [], points = map (\<lambda>_. At_start) rqs, cout = []\<rparr> [0..<length rqs]"

definition co_main :: "request list \<Rightarrow> co_state option" where
  "co_main rqs = run (handle_request rqs) (co_init rqs)"

definition main_requests :: "request list" where
  "main_requests =
     [\<lparr>rq_name = ''coroutine-A'', read_delay = 3, write_delay = 2\<rparr>,
      \<lparr>rq_name = ''coroutine-B'', read_delay = 1, write_delay = 1\<rparr>,
      \<lparr>rq_name = ''coroutine-C'', read_delay = 2, write_delay = 1\<rparr>]"

section \<open>What the scheduler does for well-behaved coroutines\<close>

text \<open>The contract of the suspended bodies: resuming a ready handle succeeds, keeps the invariant \<open>ok\<close> and leaves
  less to do; timers lie in the future, and the invariant survives an advance of the clock.\<close>

locale resumable =
  fixes resume :: "nat \<Rightarrow> co_state \<Rightarrow> co_state option"
    and ok :: "co_state \<Rightarrow> bool"
    and work :: "co_state \<Rightarrow> nat"
  assumes resumes: "ok s \<Longrightarrow> ready s = h # r \<Longrightarrow> \<exists>s'. resume h (s\<lparr>ready := r\<rparr>) = Some s' \<and> ok s' \<and> work s' < work s"
    and alive: "ok s \<Longrightarrow> h \<in> set (ready s) \<Longrightarrow> points s ! h \<noteq> Co_done"
    and future: "ok s \<Longrightarrow> timer \<in> set (timers s) \<Longrightarrow> tick s < fst timer"
    and advances: "ok s \<Longrightarrow> ready s = [] \<Longrightarrow> timers s \<noteq> [] \<Longrightarrow>
      ok (advance s) \<and> ready (advance s) \<noteq> [] \<and> work (advance s) = work s"
begin

lemma wake_nothing: "ok s \<Longrightarrow> wake_due_timers s = s"
proof -
  assume "ok s"
  have "wake_loop now ts rd = (rd, ts)" if "\<forall>timer \<in> set ts. now < fst timer" for now ts rd
    using that by (induction ts) auto
  then show ?thesis using future [OF \<open>ok s\<close>] by (simp add: wake_due_timers_def)
qed

lemma run_ends: "ok s \<Longrightarrow> \<exists>s'. run resume s = Some s' \<and> ok s' \<and> ready s' = [] \<and> timers s' = []"
proof (induction "work s" arbitrary: s rule: less_induct)
  case less
  show ?case
  proof (cases "ready s \<noteq> [] \<or> timers s \<noteq> []")
    case True
    let ?s = "advance (wake_due_timers s)"
    have a: "ok ?s" "ready ?s \<noteq> []" "work ?s = work s"
      using True advances [OF less.prems] wake_nothing [OF less.prems] less.prems by (auto simp: advance_def)
    then obtain h r where h: "ready ?s = h # r" by (cases "ready ?s") auto
    obtain s' where s': "resume h (?s\<lparr>ready := r\<rparr>) = Some s'" "ok s'" "work s' < work s"
      using resumes [OF a(1) h] a(3) by auto
    then have "run resume s = run resume s'"
      using True h alive [OF a(1), of h] by (subst run.simps) (simp add: Let_def)
    then show ?thesis using less.hyps [OF s'(3,2)] by simp
  next
    case False
    then show ?thesis using less.prems by (subst run.simps) simp
  qed
qed

end

section \<open>The invariant of the requests\<close>

fun ev_tick :: "co_event \<Rightarrow> int" where
  "ev_tick (Start_read t _ _) = t"
| "ev_tick (Read_complete t _) = t"
| "ev_tick (Start_write t _ _) = t"
| "ev_tick (Write_complete t _) = t"

fun ev_name :: "co_event \<Rightarrow> string" where
  "ev_name (Start_read _ name _) = name"
| "ev_name (Read_complete _ name) = name"
| "ev_name (Start_write _ name _) = name"
| "ev_name (Write_complete _ name) = name"

text \<open>When the parts of a request are due, and the lines it prints.\<close>

definition read_at :: "request \<Rightarrow> int" where "read_at rq = max 0 (read_delay rq)"

definition write_at :: "request \<Rightarrow> int" where "write_at rq = read_at rq + max 0 (write_delay rq)"

fun due :: "request \<Rightarrow> co_point \<Rightarrow> int" where
  "due rq At_start = 0"
| "due rq After_read = read_at rq"
| "due rq After_write = write_at rq"
| "due rq Co_done = write_at rq"

definition expected :: "request \<Rightarrow> co_event list" where
  "expected rq =
     [Start_read 0 (rq_name rq) (read_delay rq),
      Read_complete (read_at rq) (rq_name rq), Start_write (read_at rq) (rq_name rq) (write_delay rq),
      Write_complete (write_at rq) (rq_name rq)]"

fun printed :: "co_point \<Rightarrow> nat" where
  "printed At_start = 0" | "printed After_read = 1" | "printed After_write = 3" | "printed Co_done = 4"

fun parts_left :: "co_point \<Rightarrow> nat" where
  "parts_left At_start = 3" | "parts_left After_read = 2" | "parts_left After_write = 1" | "parts_left Co_done = 0"

definition co_work :: "co_state \<Rightarrow> nat" where
  "co_work s = sum_list (map parts_left (points s))"

definition requests_ok :: "request list \<Rightarrow> bool" where
  "requests_ok rqs \<longleftrightarrow> distinct (map rq_name rqs) \<and> (\<forall>rq \<in> set rqs. write_at rq \<le> INT_MAX)"

definition handles_wf :: "request list \<Rightarrow> nat list \<Rightarrow> co_state \<Rightarrow> bool" where
  "handles_wf rqs running s \<longleftrightarrow>
     length (points s) = length rqs \<and> distinct (running @ ready s @ map snd (timers s))
     \<and> set (running @ ready s @ map snd (timers s)) = {h. h < length rqs \<and> points s ! h \<noteq> Co_done}"

definition clock_wf :: "request list \<Rightarrow> co_state \<Rightarrow> bool" where
  "clock_wf rqs s \<longleftrightarrow> 0 \<le> tick s \<and> (\<forall>h \<in> set (ready s). due (rqs ! h) (points s ! h) = tick s)
     \<and> (\<forall>(w, h) \<in> set (timers s). w = due (rqs ! h) (points s ! h) \<and> tick s < w)"

definition cout_wf :: "request list \<Rightarrow> co_state \<Rightarrow> bool" where
  "cout_wf rqs s \<longleftrightarrow> sorted (map ev_tick (cout s)) \<and> (\<forall>e \<in> set (cout s). ev_tick e \<le> tick s)
     \<and> (\<forall>h < length rqs. filter (\<lambda>e. ev_name e = rq_name (rqs ! h)) (cout s) = take (printed (points s ! h)) (expected (rqs ! h)))"

definition co_wf :: "request list \<Rightarrow> nat list \<Rightarrow> co_state \<Rightarrow> bool" where
  "co_wf rqs running s \<longleftrightarrow> handles_wf rqs running s \<and> clock_wf rqs s \<and> cout_wf rqs s"

lemmas co_wf_defs = co_wf_def handles_wf_def clock_wf_def cout_wf_def

text \<open>A running coroutine prints and moves to its next point.\<close>

lemma running_valid: "co_wf rqs [h] s \<Longrightarrow> h < length rqs \<and> h < length (points s) \<and> h \<notin> set (ready s) \<and> h \<notin> snd ` set (timers s)"
  by (auto simp: co_wf_defs)

lemma clock_wf_print:
  assumes "co_wf rqs [h] s"
  shows "clock_wf rqs (set_point h q (s\<lparr>cout := out\<rparr>))"
proof -
  have "points (set_point h q (s\<lparr>cout := out\<rparr>)) ! i = points s ! i" if "i \<in> set (ready s) \<or> (w, i) \<in> set (timers s)" for i w
    using running_valid [OF assms] that by (cases "i = h") (force simp: set_point_def)+
  with assms show ?thesis unfolding co_wf_def clock_wf_def by (fastforce simp: set_point_def)
qed

lemma handles_wf_print:
  assumes "co_wf rqs [h] s"
  shows "handles_wf rqs (if q = Co_done then [] else [h]) (set_point h q (s\<lparr>cout := out\<rparr>))"
proof -
  have "insert h (set (ready s @ map snd (timers s))) = {i. i < length rqs \<and> points s ! i \<noteq> Co_done}"
    and h: "h \<notin> set (ready s @ map snd (timers s))" "h < length rqs" "length (points s) = length rqs"
    using assms by (auto simp: co_wf_def handles_wf_def)
  then have "set (ready s @ map snd (timers s)) = {i. i < length rqs \<and> points s ! i \<noteq> Co_done} - {h}" by blast
  moreover have "(points s)[h := q] ! i = (if i = h then q else points s ! i)" for i using h by (simp add: nth_list_update)
  ultimately show ?thesis using assms h by (auto simp: co_wf_def handles_wf_def set_point_def)
qed

lemma cout_wf_print:
  assumes "requests_ok rqs" "co_wf rqs [h] s"
    and "\<forall>e \<in> set es. ev_tick e = tick s \<and> ev_name e = rq_name (rqs ! h)"
    and "take (printed (points s ! h)) (expected (rqs ! h)) @ es = take (printed q) (expected (rqs ! h))"
  shows "cout_wf rqs (set_point h q (s\<lparr>cout := cout s @ es\<rparr>))"
proof -
  have h: "h < length rqs" "h < length (points s)" using running_valid [OF assms(2)] by auto
  have "filter (\<lambda>e. ev_name e = rq_name (rqs ! i)) es = (if i = h then es else [])" if "i < length rqs" for i
  proof (cases "i = h")
    case False
    then have "rq_name (rqs ! i) \<noteq> rq_name (rqs ! h)"
      using assms(1) h that by (auto simp: requests_ok_def distinct_conv_nth)
    then show ?thesis using False assms(3) by (auto simp: filter_empty_conv)
  qed (use assms(3) in auto)
  moreover have "sorted (map ev_tick es)"
  proof -
    have "map ev_tick es = replicate (length es) (tick s)" using assms(3) by (intro replicate_eqI) auto
    then show ?thesis by simp
  qed
  ultimately show ?thesis using assms(2-4) h
    by (auto simp: co_wf_def cout_wf_def set_point_def sorted_append nth_list_update)
qed

lemma co_wf_print:
  assumes "requests_ok rqs" "co_wf rqs [h] s"
    and "\<forall>e \<in> set es. ev_tick e = tick s \<and> ev_name e = rq_name (rqs ! h)"
    and "take (printed (points s ! h)) (expected (rqs ! h)) @ es = take (printed q) (expected (rqs ! h))"
  shows "co_wf rqs (if q = Co_done then [] else [h]) (set_point h q (s\<lparr>cout := cout s @ es\<rparr>))"
  unfolding co_wf_def
  using handles_wf_print [OF assms(2), of q] clock_wf_print [OF assms(2), of q] cout_wf_print [OF assms] by blast

lemma co_wf_sleep:
  assumes "co_wf rqs [h] s" "requests_ok rqs" "0 < ticks" "due (rqs ! h) (points s ! h) = tick s + ticks"
  shows "\<exists>s'. schedule_after h ticks s = Some s' \<and> co_wf rqs [] s' \<and> points s' = points s"
proof -
  have "rqs ! h \<in> set rqs" using running_valid [OF assms(1)] by simp
  then have "write_at (rqs ! h) \<le> INT_MAX" using assms(2) by (simp add: requests_ok_def)
  then have "tick s + ticks \<le> INT_MAX"
    using assms(4) by (cases "points s ! h") (auto simp: write_at_def INT_MAX_def)
  then show ?thesis using assms(1,3,4)
    by (auto simp: schedule_after_def co_wf_def handles_wf_def clock_wf_def cout_wf_def)
qed

lemma co_wf_pop:
  assumes "co_wf rqs [] s" "ready s = h # r"
  shows "co_wf rqs [h] (s\<lparr>ready := r\<rparr>) \<and> due (rqs ! h) (points s ! h) = tick s"
  using assms by (auto simp: co_wf_defs)

lemma co_work_set_point:
  assumes "h < length (points s)"
  shows "co_work (set_point h q s) + parts_left (points s ! h) = co_work s + parts_left q"
proof -
  have "parts_left (points s ! h) \<le> sum_list (map parts_left (points s))" using assms by (simp add: member_le_sum_list)
  then show ?thesis using assms by (simp add: co_work_def set_point_def map_update sum_list_update)
qed

text \<open>Each part of the body, entered when it is due, ends in a state with nothing running.\<close>

definition part_ok :: "request list \<Rightarrow> nat \<Rightarrow> co_point \<Rightarrow> (co_state \<Rightarrow> co_state option) \<Rightarrow> bool" where
  "part_ok rqs h p f \<longleftrightarrow>
     (\<forall>s. co_wf rqs [h] s \<longrightarrow> points s ! h = p \<longrightarrow> due (rqs ! h) p = tick s \<longrightarrow>
        (\<exists>s'. f s = Some s' \<and> co_wf rqs [] s' \<and> co_work s' < co_work s))"

lemma part_ok_await:
  assumes "requests_ok rqs" "part_ok rqs h q k" "q \<noteq> Co_done" "parts_left q < parts_left p"
    and "due (rqs ! h) q = due (rqs ! h) p + max 0 ticks"
    and "\<And>t. due (rqs ! h) p = t \<Longrightarrow> \<forall>e \<in> set (es t). ev_tick e = t \<and> ev_name e = rq_name (rqs ! h)"
    and "\<And>t. due (rqs ! h) p = t \<Longrightarrow> take (printed p) (expected (rqs ! h)) @ es t = take (printed q) (expected (rqs ! h))"
  shows "part_ok rqs h p (\<lambda>s. await_sleep h ticks k (set_point h q (s\<lparr>cout := cout s @ es (tick s)\<rparr>)))"
  unfolding part_ok_def
proof (intro allI impI)
  fix s assume s: "co_wf rqs [h] s" "points s ! h = p" "due (rqs ! h) p = tick s"
  let ?s = "set_point h q (s\<lparr>cout := cout s @ es (tick s)\<rparr>)"
  have wf: "co_wf rqs [h] ?s" using co_wf_print [OF assms(1) s(1), of "es (tick s)" q] assms(3,6,7) s(2,3) by simp
  have h: "h < length (points s)" using running_valid [OF s(1)] by simp
  have pt: "points ?s ! h = q" "tick ?s = tick s" using h by (simp_all add: set_point_def)
  have w: "co_work ?s < co_work s"
    using co_work_set_point [of h "s\<lparr>cout := cout s @ es (tick s)\<rparr>" q] h assms(4) s(2) by (simp add: co_work_def)
  show "\<exists>s'. await_sleep h ticks k ?s = Some s' \<and> co_wf rqs [] s' \<and> co_work s' < co_work s"
  proof (cases "ticks \<le> 0")
    case True
    then have "due (rqs ! h) q = tick ?s" using assms(5) s(3) pt(2) by simp
    then obtain s' where "k ?s = Some s'" "co_wf rqs [] s'" "co_work s' < co_work ?s"
      using assms(2) wf pt(1) unfolding part_ok_def by blast
    then show ?thesis using True w by (auto simp: await_sleep_def)
  next
    case False
    then obtain s' where "schedule_after h ticks ?s = Some s'" "co_wf rqs [] s'" "points s' = points ?s"
      using co_wf_sleep [OF wf assms(1), of ticks] assms(5) s(3) pt by auto
    moreover from this(3) have "co_work s' = co_work ?s" by (simp add: co_work_def)
    ultimately show ?thesis using False w by (auto simp: await_sleep_def)
  qed
qed

lemma part_ok_finish:
  assumes "requests_ok rqs"
  shows "part_ok rqs h After_write (co_finish (rqs ! h) h)"
  unfolding part_ok_def
proof (intro allI impI)
  fix s assume s: "co_wf rqs [h] s" "points s ! h = After_write" "due (rqs ! h) After_write = tick s"
  let ?s = "set_point h Co_done (s\<lparr>cout := cout s @ [Write_complete (tick s) (rq_name (rqs ! h))]\<rparr>)"
  have "co_wf rqs [] ?s" using co_wf_print [OF assms s(1), of "[Write_complete (tick s) (rq_name (rqs ! h))]" Co_done] s(2,3)
    by (simp add: expected_def)
  moreover have "co_work ?s < co_work s"
    using co_work_set_point [of h "s\<lparr>cout := cout s @ [Write_complete (tick s) (rq_name (rqs ! h))]\<rparr>" Co_done] running_valid [OF s(1)] s(2)
    by (simp add: co_work_def)
  ultimately show "\<exists>s'. co_finish (rqs ! h) h s = Some s' \<and> co_wf rqs [] s' \<and> co_work s' < co_work s"
    by (simp add: co_finish_def print_event_def)
qed

lemma part_ok_write:
  assumes "requests_ok rqs"
  shows "part_ok rqs h After_read (co_write (rqs ! h) h)"
proof -
  have "co_write (rqs ! h) h = (\<lambda>s. await_sleep h (write_delay (rqs ! h)) (co_finish (rqs ! h) h)
      (set_point h After_write (s\<lparr>cout := cout s @ [Read_complete (tick s) (rq_name (rqs ! h)), Start_write (tick s) (rq_name (rqs ! h)) (write_delay (rqs ! h))]\<rparr>)))"
    by (simp add: co_write_def print_event_def fun_eq_iff)
  moreover have "part_ok rqs h After_read \<dots>"
    by (rule part_ok_await [OF assms part_ok_finish [OF assms],
          where es = "\<lambda>t. [Read_complete t (rq_name (rqs ! h)), Start_write t (rq_name (rqs ! h)) (write_delay (rqs ! h))]"])
      (auto simp: write_at_def expected_def)
  ultimately show ?thesis by simp
qed

lemma part_ok_read:
  assumes "requests_ok rqs"
  shows "part_ok rqs h At_start (co_read (rqs ! h) h)"
proof -
  have "co_read (rqs ! h) h = (\<lambda>s. await_sleep h (read_delay (rqs ! h)) (co_write (rqs ! h) h)
      (set_point h After_read (s\<lparr>cout := cout s @ [Start_read (tick s) (rq_name (rqs ! h)) (read_delay (rqs ! h))]\<rparr>)))"
    by (simp add: co_read_def print_event_def fun_eq_iff)
  moreover have "part_ok rqs h At_start \<dots>"
    by (rule part_ok_await [OF assms part_ok_write [OF assms],
          where es = "\<lambda>t. [Start_read t (rq_name (rqs ! h)) (read_delay (rqs ! h))]"])
      (auto simp: read_at_def expected_def)
  ultimately show ?thesis by simp
qed

lemma handle_request_resumes:
  assumes "requests_ok rqs" "co_wf rqs [] s" "ready s = h # r"
  shows "\<exists>s'. handle_request rqs h (s\<lparr>ready := r\<rparr>) = Some s' \<and> co_wf rqs [] s' \<and> co_work s' < co_work s"
proof -
  have s: "co_wf rqs [h] (s\<lparr>ready := r\<rparr>)" "due (rqs ! h) (points s ! h) = tick s" "points s ! h \<noteq> Co_done"
    using co_wf_pop [OF assms(2,3)] assms(2,3) by (auto simp: co_wf_def handles_wf_def)
  note parts = part_ok_read [OF assms(1), of h] part_ok_write [OF assms(1), of h] part_ok_finish [OF assms(1), of h]
  have "co_work (s\<lparr>ready := r\<rparr>) = co_work s" by (simp add: co_work_def)
  with s parts show ?thesis unfolding part_ok_def handle_request_def
    by (cases "points s ! h") (auto dest!: spec [of _ "s\<lparr>ready := r\<rparr>"])
qed

section \<open>Advancing the clock\<close>

lemma wake_loop_eq:
  "wake_loop now ts rd = (rd @ map snd (filter (\<lambda>timer. fst timer \<le> now) ts), filter (\<lambda>timer. \<not> fst timer \<le> now) ts)"
  by (induction now ts rd rule: wake_loop.induct) (auto simp: map_prod_def)

lemma next_timer_tick_le: "timer \<in> set (timers s) \<Longrightarrow> next_timer_tick s \<le> fst timer"
proof -
  have "foldl (\<lambda>nxt timer. min nxt (fst timer)) m ts \<le> m \<and> (\<forall>timer \<in> set ts. foldl (\<lambda>nxt timer. min nxt (fst timer)) m ts \<le> fst timer)"
    for m and ts :: "(int \<times> nat) list"
  proof (induction ts arbitrary: m)
    case (Cons t ts)
    then show ?case using Cons [of "min m (fst t)"] by auto
  qed simp
  then show "timer \<in> set (timers s) \<Longrightarrow> ?thesis" unfolding next_timer_tick_def by blast
qed

lemma next_timer_tick_attained:
  "timers s \<noteq> [] \<Longrightarrow> \<forall>timer \<in> set (timers s). fst timer \<le> INT_MAX \<Longrightarrow> next_timer_tick s \<in> fst ` set (timers s)"
proof -
  have "foldl (\<lambda>nxt timer. min nxt (fst timer)) m ts \<in> insert m (fst ` set ts)" for m and ts :: "(int \<times> nat) list"
  proof (induction ts arbitrary: m)
    case (Cons t ts)
    then show ?case using Cons [of "min m (fst t)"] by (auto simp: min_def split: if_splits)
  qed simp
  from this [of INT_MAX "timers s"] show ?thesis if "timers s \<noteq> []" "\<forall>timer \<in> set (timers s). fst timer \<le> INT_MAX"
    using that next_timer_tick_le [of "hd (timers s)" s] unfolding next_timer_tick_def
    by (cases "timers s") (auto intro: order.antisym)
qed

lemma co_wf_advance:
  assumes "requests_ok rqs" "co_wf rqs [] s" "ready s = []" "timers s \<noteq> []"
  shows "co_wf rqs [] (advance s) \<and> ready (advance s) \<noteq> [] \<and> points (advance s) = points s"
proof -
  let ?t = "next_timer_tick s"
  have le: "\<forall>timer \<in> set (timers s). fst timer \<le> INT_MAX"
  proof
    fix timer assume t: "timer \<in> set (timers s)"
    then have "fst timer = due (rqs ! snd timer) (points s ! snd timer)" "snd timer < length rqs"
      using assms(2) by (auto simp: co_wf_defs)
    moreover have "due rq p \<le> write_at rq" for rq p by (cases p) (auto simp: write_at_def read_at_def)
    ultimately show "fst timer \<le> INT_MAX" using assms(1) unfolding requests_ok_def by (metis nth_mem order.trans)
  qed
  obtain first where first: "first \<in> set (timers s)" "fst first = ?t"
    using next_timer_tick_attained [OF assms(4) le] by auto
  then have t: "tick s < ?t" using assms(2) by (force simp: co_wf_def clock_wf_def)
  have adv: "advance s = s\<lparr>tick := ?t, ready := map snd (filter (\<lambda>timer. fst timer \<le> ?t) (timers s)),
      timers := filter (\<lambda>timer. \<not> fst timer \<le> ?t) (timers s)\<rparr>"
    using assms(3) by (simp add: advance_def wake_due_timers_def wake_loop_eq)
  let ?pend = "map snd (filter (\<lambda>timer. fst timer \<le> ?t) (timers s)) @ map snd (filter (\<lambda>timer. \<not> fst timer \<le> ?t) (timers s))"
  have "mset ?pend = mset (map snd (timers s))" by (simp add: mset_filter flip: image_mset_union)
  then have "distinct ?pend = distinct (map snd (timers s))" "set ?pend = set (map snd (timers s))"
    by (rule mset_eq_imp_distinct_iff, rule mset_eq_setD)
  then have "handles_wf rqs [] (advance s)" using assms(2,3) by (simp add: co_wf_def handles_wf_def adv)
  moreover have "clock_wf rqs (advance s)"
    using assms(2) next_timer_tick_le [of _ s] t by (force simp: adv co_wf_def clock_wf_def)
  moreover have "cout_wf rqs (advance s)" using assms(2) t by (force simp: adv co_wf_def cout_wf_def)
  moreover have "ready (advance s) \<noteq> []" using first by (auto simp: adv filter_empty_conv intro: bexI [of _ first])
  ultimately show ?thesis by (simp add: co_wf_def adv)
qed

interpretation coros: resumable "handle_request rqs" "\<lambda>s. requests_ok rqs \<and> co_wf rqs [] s" co_work for rqs
proof (unfold_locales, goal_cases)
  case 1
  then show ?case using handle_request_resumes by auto
next
  case 2
  then show ?case by (auto simp: co_wf_def handles_wf_def)
next
  case 3
  then show ?case by (auto simp: co_wf_def clock_wf_def)
next
  case 4
  then show ?case using co_wf_advance by (auto simp: co_work_def)
qed

lemma co_init_eq:
  "co_init rqs = \<lparr>tick = 0, ready = [0..<length rqs], timers = [], points = map (\<lambda>_. At_start) rqs, cout = []\<rparr>"
proof -
  have "foldl (\<lambda>s h. spawn h s) s hs = s\<lparr>ready := ready s @ hs\<rparr>" for s hs
    by (induction hs arbitrary: s) (simp_all add: spawn_def)
  then show ?thesis by (simp add: co_init_def)
qed

lemma co_wf_init: "co_wf rqs [] (co_init rqs)"
  by (auto simp: co_init_eq co_wf_defs)

text \<open>
  C21: Started with any requests of different names whose total delay fits an \<open>int\<close>, the scheduler runs to its
  end: no coroutine is lost, resumed after its end or left waiting, and the clock does not overflow. Every request
  prints its four lines in order, each exactly when due: the read completes at tick \<open>max 0 read_delay\<close> and the write
  \<open>max 0 write_delay\<close> ticks later, whatever the others do, and the lines of all requests together come in the order
  of time.
\<close>

theorem coroutines_run_on_time:
  assumes "distinct (map rq_name rqs)" "\<forall>rq \<in> set rqs. max 0 (read_delay rq) + max 0 (write_delay rq) \<le> INT_MAX"
  shows "\<exists>s. co_main rqs = Some s \<and> ready s = [] \<and> timers s = [] \<and> (\<forall>p \<in> set (points s). p = Co_done)
    \<and> sorted (map ev_tick (cout s))
    \<and> (\<forall>rq \<in> set rqs. filter (\<lambda>e. ev_name e = rq_name rq) (cout s) =
         (let r = max 0 (read_delay rq); w = r + max 0 (write_delay rq)
          in [Start_read 0 (rq_name rq) (read_delay rq), Read_complete r (rq_name rq),
              Start_write r (rq_name rq) (write_delay rq), Write_complete w (rq_name rq)]))"
proof -
  have "requests_ok rqs" using assms by (simp add: requests_ok_def write_at_def read_at_def)
  then obtain s where s: "co_main rqs = Some s" "co_wf rqs [] s" "ready s = []" "timers s = []"
    using coros.run_ends co_wf_init unfolding co_main_def by blast
  then have d: "length (points s) = length rqs" "\<And>h. h < length rqs \<Longrightarrow> points s ! h = Co_done"
    by (auto simp: co_wf_def handles_wf_def)
  then have "\<forall>p \<in> set (points s). p = Co_done" by (auto simp: in_set_conv_nth)
  moreover have "filter (\<lambda>e. ev_name e = rq_name rq) (cout s) = expected rq" if "rq \<in> set rqs" for rq
  proof -
    obtain h where "h < length rqs" "rq = rqs ! h" using \<open>rq \<in> set rqs\<close> by (auto simp: in_set_conv_nth)
    then show ?thesis using s(2) d(2) [of h] by (simp add: co_wf_def cout_wf_def expected_def)
  qed
  moreover have "sorted (map ev_tick (cout s))" using s(2) by (simp add: co_wf_def cout_wf_def)
  ultimately show ?thesis using s(1,3,4) by (simp add: expected_def write_at_def read_at_def Let_def)
qed

theorem coroutines_run_on_time_witness:
  "\<exists>s. co_main main_requests = Some s
     \<and> map event_text (filter (\<lambda>e. ev_name e = ''coroutine-C'') (cout s)) =
         [''[tick 0] coroutine-C: start read, await 2 ticks'' @ [CHR 0x0A],
          ''[tick 2] coroutine-C: read complete: request-from-coroutine-C'' @ [CHR 0x0A],
          ''[tick 2] coroutine-C: start write, await 1 ticks'' @ [CHR 0x0A],
          ''[tick 3] coroutine-C: write complete: echo(request-from-coroutine-C)'' @ [CHR 0x0A]]"
proof -
  obtain s where "co_main main_requests = Some s"
    "filter (\<lambda>e. ev_name e = ''coroutine-C'') (cout s) =
       [Start_read 0 ''coroutine-C'' 2, Read_complete 2 ''coroutine-C'', Start_write 2 ''coroutine-C'' 1, Write_complete 3 ''coroutine-C'']"
    using coroutines_run_on_time [of main_requests] by (auto simp: main_requests_def INT_MAX_def)
  moreover have "dec_int 0 = ''0''" "dec_int 1 = ''1''" "dec_int 2 = ''2''" "dec_int 3 = ''3''"
    by code_simp+
  ultimately show ?thesis by simp
qed

end
