(* ===== verification/Child_Control.thy ===== *)
theory Child_Control
  imports Processes Shell_Parse "HOL-Library.Multiset"
begin

text \<open>
  The programs of Chapter 8 that control children without a job table: the first shell
  (\<open>8.3-8.4/shell/main.c\<close>), the two reaping loops of \<open>8.3-8.4/wait/wait.c\<close> and the program of
  \<open>8.5-8.6/handler/main.c\<close>, whose handler waits for every child that is left.
\<close>

section \<open>The first shell\<close>

datatype fs_pc = F_prompt | F_forked pid bool bytes | F_exit int | F_undefined

record first_shell =
  fs_pc :: fs_pc
  fs_k :: kproc
  fs_jobs :: "pid set"
  fs_out :: "(pid \<times> bytes) list"

text \<open>
  \<open>eval\<close> up to the fork: what a command line asks for. \<open>fs_jobs\<close> records the processes started in the background.
\<close>

datatype fs_command = C_nothing | C_quit | C_undefined | C_run bool "bytes list"

definition eval_command :: "bytes \<Rightarrow> fs_command" where
  "eval_command cmdline =
     (case parseline cmdline of
        None \<Rightarrow> C_undefined
      | Some (bg, argv) \<Rightarrow>
          (if argv = [] then C_nothing
           else case builtin_command_84 argv of
                  Quit \<Rightarrow> C_quit
                | Ignore \<Rightarrow> C_nothing
                | _ \<Rightarrow> C_run bg argv))"

definition fs_fork :: "pid \<Rightarrow> bool \<Rightarrow> bytes \<Rightarrow> first_shell \<Rightarrow> first_shell" where
  "fs_fork p bg cmdline s =
     s\<lparr>fs_k := k_fork p (fs_k s), fs_pc := F_forked p bg cmdline, fs_jobs := (if bg then insert p (fs_jobs s) else fs_jobs s)\<rparr>"

definition fs_waitfg :: "pid \<Rightarrow> first_shell \<Rightarrow> first_shell" where
  "fs_waitfg p s = s\<lparr>fs_k := k_reap p (fs_k s), fs_pc := F_prompt\<rparr>"

definition fs_background :: "pid \<Rightarrow> bytes \<Rightarrow> first_shell \<Rightarrow> first_shell" where
  "fs_background p cmdline s = s\<lparr>fs_out := fs_out s @ [(p, cmdline)], fs_pc := F_prompt\<rparr>"

text \<open>\<open>main\<close> and \<open>eval\<close>, with children terminating at any time. \<open>waitpid\<close> for a process that is not a child fails, and
  \<open>unix_error\<close> leaves with status 0, as it does when \<open>fork\<close> fails.\<close>

inductive fs_step :: "first_shell \<Rightarrow> first_shell \<Rightarrow> bool" where
  fs_eof: "fs_pc s = F_prompt \<Longrightarrow> fs_step s (s\<lparr>fs_pc := F_exit 0\<rparr>)"
| fs_nothing: "fs_pc s = F_prompt \<Longrightarrow> eval_command cmdline = C_nothing \<Longrightarrow> fs_step s s"
| fs_quit: "fs_pc s = F_prompt \<Longrightarrow> eval_command cmdline = C_quit \<Longrightarrow> fs_step s (s\<lparr>fs_pc := F_exit 0\<rparr>)"
| fs_overflow: "fs_pc s = F_prompt \<Longrightarrow> eval_command cmdline = C_undefined \<Longrightarrow> fs_step s (s\<lparr>fs_pc := F_undefined\<rparr>)"
| fs_fork: "fs_pc s = F_prompt \<Longrightarrow> eval_command cmdline = C_run bg argv \<Longrightarrow> fork_ok p (fs_k s) \<Longrightarrow>
    fs_step s (fs_fork p bg cmdline s)"
| fs_fork_fails: "fs_pc s = F_prompt \<Longrightarrow> eval_command cmdline = C_run bg argv \<Longrightarrow> fs_step s (s\<lparr>fs_pc := F_exit 0\<rparr>)"
| fs_waits: "fs_pc s = F_forked p False cmdline \<Longrightarrow> p \<in> zombies (fs_k s) \<Longrightarrow> fs_step s (fs_waitfg p s)"
| fs_wait_fails: "fs_pc s = F_forked p False cmdline \<Longrightarrow> p \<notin> children (fs_k s) \<Longrightarrow> fs_step s (s\<lparr>fs_pc := F_exit 0\<rparr>)"
| fs_started: "fs_pc s = F_forked p True cmdline \<Longrightarrow> fs_step s (fs_background p cmdline s)"
| fs_child_exit: "p \<in> live (fs_k s) \<Longrightarrow> fs_step s (s\<lparr>fs_k := k_exit p (fs_k s)\<rparr>)"

definition fs_init :: first_shell where
  "fs_init = \<lparr>fs_pc = F_prompt, fs_k = \<lparr>live = {}, zombies = {}, mask = {}, pending = {}, saved = None\<rparr>, fs_jobs = {}, fs_out = []\<rparr>"

fun fs_foreground :: "fs_pc \<Rightarrow> pid set" where
  "fs_foreground (F_forked p False _) = {p}"
| "fs_foreground _ = {}"

definition fs_inv :: "first_shell \<Rightarrow> bool" where
  "fs_inv s \<longleftrightarrow> live (fs_k s) \<inter> zombies (fs_k s) = {} \<and> children (fs_k s) = fs_jobs s \<union> fs_foreground (fs_pc s)
     \<and> fs_jobs s \<inter> fs_foreground (fs_pc s) = {}"

lemma fs_inv_step: "fs_step s s' \<Longrightarrow> fs_inv s \<Longrightarrow> fs_inv s'"
proof (induction rule: fs_step.induct)
  case (fs_fork s cmdline bg argv p)
  then show ?case by (cases bg) (auto simp: fs_inv_def fs_fork_def kproc_defs)
next
  case (fs_waits s p cmdline)
  then show ?case by (auto simp: fs_inv_def fs_waitfg_def kproc_defs)
next
  case (fs_started s p cmdline)
  then show ?case by (simp add: fs_inv_def fs_background_def)
next
  case (fs_child_exit p s)
  then show ?case by (auto simp: fs_inv_def kproc_defs)
qed (auto simp: fs_inv_def)

lemma fs_inv_steps: "fs_step\<^sup>*\<^sup>* fs_init s \<Longrightarrow> fs_inv s"
proof (induction rule: rtranclp_induct)
  case base
  show ?case by (simp add: fs_inv_def fs_init_def children_def)
qed (auto intro: fs_inv_step)

text \<open>
  Whenever the first shell is back at its prompt, its children are exactly the background jobs it ever
  started: the foreground job of the last command was waited for, and no background job, even a terminated
  one, is ever reaped. While it waits for a foreground job the wait cannot fail, ends as soon as that job
  has terminated, and not before; and the shell never reaps a job it did not wait for.
\<close>

lemma first_shell_waits:
  assumes "fs_step\<^sup>*\<^sup>* fs_init s"
  shows "(fs_pc s = F_prompt \<longrightarrow> children (fs_k s) = fs_jobs s)
     \<and> (\<forall>p cmdline. fs_pc s = F_forked p False cmdline \<longrightarrow>
          p \<in> children (fs_k s) \<and> p \<notin> fs_jobs s
          \<and> (p \<in> zombies (fs_k s) \<longrightarrow> fs_step s (fs_waitfg p s))
          \<and> (\<forall>s'. fs_step s s' \<longrightarrow> fs_pc s' \<noteq> fs_pc s \<longrightarrow> p \<in> zombies (fs_k s) \<and> s' = fs_waitfg p s))"
proof (intro conjI allI impI)
  have inv: "fs_inv s" using assms by (rule fs_inv_steps)
  show "children (fs_k s) = fs_jobs s" if "fs_pc s = F_prompt" using inv that by (simp add: fs_inv_def)
  fix p cmdline assume pc: "fs_pc s = F_forked p False cmdline"
  show p: "p \<in> children (fs_k s)" "p \<notin> fs_jobs s" using inv pc by (auto simp: fs_inv_def)
  show "fs_step s (fs_waitfg p s)" if "p \<in> zombies (fs_k s)" using pc that by (rule fs_waits)
  fix s' assume "fs_step s s'" "fs_pc s' \<noteq> fs_pc s"
  then show "p \<in> zombies (fs_k s)" "s' = fs_waitfg p s" using pc p(1) by (auto elim!: fs_step.cases)
qed

lemma first_shell_waits_witness:
  "\<exists>s. fs_step\<^sup>*\<^sup>* fs_init s \<and> fs_pc s = F_prompt \<and> zombies (fs_k s) = {7} \<and> children (fs_k s) = fs_jobs s"
proof -
  have c: "eval_command (''/bin/a &'' @ [LF]) = C_run True [''/bin/a'']"
    using parse_args_words [of "[(''/bin/a'', 0), (''&'', 0)]" "[]"]
    by (simp add: eval_command_def parseline_def builtin_command_84_def is_word_def words_text_def MAXARGS_def skip_blanks_def)
  let ?s1 = "fs_fork 7 True (''/bin/a &'' @ [LF]) fs_init"
  let ?s2 = "fs_background 7 (''/bin/a &'' @ [LF]) ?s1"
  let ?s3 = "?s2\<lparr>fs_k := k_exit 7 (fs_k ?s2)\<rparr>"
  have "fs_step fs_init ?s1" by (rule fs_fork [OF _ c]) (simp_all add: fs_init_def fork_ok_def children_def)
  moreover have "fs_step ?s1 ?s2" by (rule fs_started) (simp add: fs_fork_def)
  moreover have "fs_step ?s2 ?s3" by (rule fs_child_exit) (simp add: fs_background_def fs_fork_def k_fork_def)
  ultimately have r: "fs_step\<^sup>*\<^sup>* fs_init ?s3" by (meson converse_rtranclp_into_rtranclp rtranclp.rtrancl_refl)
  have "fs_pc ?s3 = F_prompt" "zombies (fs_k ?s3) = {7}"
    by (simp_all add: fs_background_def fs_fork_def fs_init_def k_exit_def k_fork_def)
  with r first_shell_waits [OF r] show ?thesis by blast
qed

section \<open>Reaping in any order and in the order of creation\<close>

text \<open>
  \<open>wait.c\<close>: child \<open>i\<close> leaves with status \<open>100 + i\<close>, or was killed. The order in which \<open>waitpid(-1)\<close> finds the
  children is a choice of the kernel, \<open>pick\<close>. What a line of \<open>printf\<close> shows is the process id and the exit status.
\<close>

definition N_CHILDREN :: nat where "N_CHILDREN = 10"

datatype wstatus = Exited int | Signaled

datatype reap_line = Normally pid int | Abnormally pid

fun reap_text :: "pid \<times> wstatus \<Rightarrow> reap_line" where
  "reap_text (p, Exited n) = Normally p n"
| "reap_text (p, Signaled) = Abnormally p"

definition forked_children :: "nat set \<Rightarrow> pid list \<Rightarrow> (pid \<times> wstatus) list" where
  "forked_children killed ps = map (\<lambda>i. (ps ! i, if i \<in> killed then Signaled else Exited (100 + int i))) [0..<N_CHILDREN]"

function no_order_loop :: "(nat \<Rightarrow> nat) \<Rightarrow> (pid \<times> wstatus) list \<Rightarrow> reap_line list" where
  "no_order_loop pick [] = []"
| "no_order_loop pick (c # cs) =
     (let i = pick (length cs) mod Suc (length cs)
      in reap_text ((c # cs) ! i) # no_order_loop pick (take i (c # cs) @ drop (Suc i) (c # cs)))"
  by pat_completeness auto
termination by (relation "measure (length \<circ> snd)") (auto simp: min_def not_le less_Suc_eq_le)

definition no_order_wait :: "nat set \<Rightarrow> pid list \<Rightarrow> (nat \<Rightarrow> nat) \<Rightarrow> reap_line list" where
  "no_order_wait killed ps pick = no_order_loop pick (forked_children killed ps)"

text \<open>
  \<open>order_wait\<close> passes \<open>pid[i++]\<close> to \<open>waitpid\<close> and prints the address of the array where a process id is meant;
  only the status of a line is recorded. The first component is false when \<open>pid[i]\<close> was read outside the array.
\<close>

partial_function (option) order_loop :: "pid list \<Rightarrow> (pid \<rightharpoonup> wstatus) \<Rightarrow> nat \<Rightarrow> wstatus list \<Rightarrow> (bool \<times> wstatus list) option" where
  "order_loop ps cs i out =
     (if length ps \<le> i then Some (False, out)
      else case cs (ps ! i) of
             None \<Rightarrow> Some (True, out)
           | Some st \<Rightarrow> order_loop ps (cs(ps ! i := None)) (i + 1) (out @ [st]))"

definition order_wait :: "nat set \<Rightarrow> pid list \<Rightarrow> (bool \<times> wstatus list) option" where
  "order_wait killed ps = order_loop ps (map_of (forked_children killed ps)) 0 []"

lemma length_forked_children: "length (forked_children killed ps) = N_CHILDREN"
  by (simp add: forked_children_def)

lemma no_order_loop_mset: "mset (no_order_loop pick cs) = image_mset reap_text (mset cs)"
proof (induction pick cs rule: no_order_loop.induct)
  case (2 pick c cs)
  let ?i = "pick (length cs) mod Suc (length cs)"
  have "mset (c # cs) = add_mset ((c # cs) ! ?i) (mset (take ?i (c # cs) @ drop (Suc ?i) (c # cs)))"
    by (subst id_take_nth_drop [of ?i "c # cs"]) simp_all
  then have "image_mset reap_text (mset (c # cs)) = add_mset (reap_text ((c # cs) ! ?i)) (image_mset reap_text (mset (take ?i (c # cs) @ drop (Suc ?i) (c # cs))))"
    by simp
  then show ?case using 2 [OF refl] by (simp only: no_order_loop.simps Let_def mset.simps)
qed simp

lemma order_loop_all:
  assumes "distinct ps" "length sts = length ps" "i \<le> length ps"
    and "\<forall>j < length ps. cs (ps ! j) = (if j < i then None else Some (sts ! j))"
  shows "order_loop ps cs i out = Some (False, out @ drop i sts)"
  using assms(3,4)
proof (induction "length ps - i" arbitrary: i cs out)
  case 0
  then show ?case using assms(2) by (subst order_loop.simps) simp
next
  case (Suc n)
  then have i: "i < length ps" by simp
  have "\<forall>j < length ps. (cs(ps ! i := None)) (ps ! j) = (if j < i + 1 then None else Some (sts ! j))"
    using Suc.prems(2) i assms(1) by (auto simp: nth_eq_iff_index_eq)
  then have "order_loop ps (cs(ps ! i := None)) (i + 1) (out @ [sts ! i]) = Some (False, (out @ [sts ! i]) @ drop (i + 1) sts)"
    using Suc.hyps i by (intro Suc.hyps(1)) auto
  then show ?case using Suc.prems(2) i assms(2) by (subst order_loop.simps) (simp add: Cons_nth_drop_Suc)
qed

text \<open>
  With children of different process ids, \<open>no_order_wait\<close> ends and reports every child exactly once with its
  own status, whatever the order in which they terminate, and \<open>order_wait\<close> reaps all of them in the order of their
  creation; but it then always evaluates \<open>pid[N]\<close>, one past the end of its array.
\<close>

lemma wait_loops_reap_all:
  assumes "distinct ps" "length ps = N_CHILDREN"
  shows "mset (no_order_wait killed ps pick) = mset (map reap_text (forked_children killed ps))"
    and "order_wait killed ps = Some (False, map snd (forked_children killed ps))"
proof -
  show "mset (no_order_wait killed ps pick) = mset (map reap_text (forked_children killed ps))"
    by (simp add: no_order_wait_def no_order_loop_mset)
  have fst: "map fst (forked_children killed ps) = ps"
    using assms(2) by (simp add: forked_children_def o_def list_eq_iff_nth_eq)
  have "map_of (forked_children killed ps) (ps ! j) = Some (map snd (forked_children killed ps) ! j)" if "j < length ps" for j
  proof -
    have "forked_children killed ps ! j = (ps ! j, map snd (forked_children killed ps) ! j)"
      using that assms(2) by (simp add: forked_children_def)
    then have "(ps ! j, map snd (forked_children killed ps) ! j) \<in> set (forked_children killed ps)"
      using that assms(2) nth_mem [of j "forked_children killed ps"] by (simp add: length_forked_children)
    then show ?thesis using assms(1) fst by (intro map_of_is_SomeI) simp_all
  qed
  then show "order_wait killed ps = Some (False, map snd (forked_children killed ps))"
    unfolding order_wait_def using assms
    by (subst order_loop_all [where sts = "map snd (forked_children killed ps)"]) (simp_all add: forked_children_def)
qed

lemma wait_loops_reap_all_witness:
  "order_wait {3} [11, 12, 13, 14, 15, 16, 17, 18, 19, 20] =
     Some (False, [Exited 100, Exited 101, Exited 102, Signaled, Exited 104, Exited 105, Exited 106, Exited 107, Exited 108, Exited 109])"
proof -
  have "[0..<10] = [0, 1, 2, 3, 4, 5, 6, 7, 8, 9 :: nat]" by code_simp
  then show ?thesis using wait_loops_reap_all(2) [of "[11, 12, 13, 14, 15, 16, 17, 18, 19, 20]" "{3}"]
    by (simp add: N_CHILDREN_def forked_children_def)
qed

section \<open>A handler that waits for all children\<close>

datatype hp_pc = H_fork nat | H_read | H_spin | H_exit int

record handler_prog =
  hp_pc :: hp_pc
  hp_k :: kproc
  hp_reaped :: nat

text \<open>One turn of the loop of the handler: \<open>waitpid(-1, NULL, 0)\<close> returns a terminated child.\<close>

definition hp_reap :: "pid \<Rightarrow> handler_prog \<Rightarrow> handler_prog" where
  "hp_reap p s = s\<lparr>hp_k := k_reap p (hp_k s), hp_reaped := hp_reaped s + 1\<rparr>"

text \<open>The handler interrupts the main flow at any point; its \<open>waitpid\<close> blocks while a child is alive and fails with
  \<open>ECHILD\<close> when none is left.\<close>

inductive hp_step :: "handler_prog \<Rightarrow> handler_prog \<Rightarrow> bool" where
  hp_forks: "\<not> in_handler (hp_k s) \<Longrightarrow> hp_pc s = H_fork i \<Longrightarrow> i < 3 \<Longrightarrow> fork_ok p (hp_k s) \<Longrightarrow>
    hp_step s (s\<lparr>hp_k := k_fork p (hp_k s), hp_pc := H_fork (i + 1)\<rparr>)"
| hp_fork_fails: "\<not> in_handler (hp_k s) \<Longrightarrow> hp_pc s = H_fork i \<Longrightarrow> i < 3 \<Longrightarrow> hp_step s (s\<lparr>hp_pc := H_exit 0\<rparr>)"
| hp_forked: "\<not> in_handler (hp_k s) \<Longrightarrow> hp_pc s = H_fork 3 \<Longrightarrow> hp_step s (s\<lparr>hp_pc := H_read\<rparr>)"
| hp_read: "\<not> in_handler (hp_k s) \<Longrightarrow> hp_pc s = H_read \<Longrightarrow> hp_step s (s\<lparr>hp_pc := H_spin\<rparr>)"
| hp_read_error: "\<not> in_handler (hp_k s) \<Longrightarrow> hp_pc s = H_read \<Longrightarrow> hp_step s (s\<lparr>hp_pc := H_exit 0\<rparr>)"
| hp_child_exit: "p \<in> live (hp_k s) \<Longrightarrow> hp_step s (s\<lparr>hp_k := k_exit p (hp_k s)\<rparr>)"
| hp_deliver: "deliverable (mask (hp_k s)) (hp_k s) \<Longrightarrow> hp_step s (s\<lparr>hp_k := k_deliver (mask (hp_k s)) (hp_k s)\<rparr>)"
| hp_reaps: "in_handler (hp_k s) \<Longrightarrow> p \<in> zombies (hp_k s) \<Longrightarrow> hp_step s (hp_reap p s)"
| hp_return: "in_handler (hp_k s) \<Longrightarrow> children (hp_k s) = {} \<Longrightarrow> hp_step s (s\<lparr>hp_k := k_return (hp_k s)\<rparr>)"

definition hp_init :: handler_prog where
  "hp_init = \<lparr>hp_pc = H_fork 0, hp_k = \<lparr>live = {}, zombies = {}, mask = {}, pending = {}, saved = None\<rparr>, hp_reaped = 0\<rparr>"

fun hp_started :: "hp_pc \<Rightarrow> nat \<Rightarrow> bool" where
  "hp_started (H_fork i) n = (n = i)"
| "hp_started (H_exit _) n = (n \<le> 3)"
| "hp_started _ n = (n = 3)"

definition hp_inv :: "handler_prog \<Rightarrow> bool" where
  "hp_inv s \<longleftrightarrow> kernel_ok (hp_k s) \<and> main_mask (hp_k s) = {}
     \<and> hp_started (hp_pc s) (hp_reaped s + card (children (hp_k s)))
     \<and> (\<forall>i. hp_pc s = H_fork i \<longrightarrow> i \<le> 3)"

lemma hp_inv_step: "hp_step s s' \<Longrightarrow> hp_inv s \<Longrightarrow> hp_inv s'"
proof (induction rule: hp_step.induct)
  case (hp_forks s i p)
  then have "finite (children (hp_k s))" "p \<notin> children (hp_k s)" by (simp_all add: hp_inv_def kernel_ok_def fork_ok_def)
  with hp_forks show ?case by (auto simp: hp_inv_def intro: kernel_ok_fork)
next
  case (hp_child_exit p s)
  then show ?case by (auto simp: hp_inv_def intro: kernel_ok_exit)
next
  case (hp_deliver s)
  then have "\<not> in_handler (hp_k s)" by (simp add: deliverable_def in_handler_def)
  with hp_deliver show ?case by (auto simp: hp_inv_def intro: kernel_ok_deliver)
next
  case (hp_reaps s p)
  then have "finite (children (hp_k s))" "p \<in> children (hp_k s)" "kernel_ok (hp_k s)"
    by (auto simp: hp_inv_def kernel_ok_def children_def)
  then have "hp_reaped s + card (children (hp_k s)) = Suc (hp_reaped s) + card (children (k_reap p (hp_k s)))"
    using hp_reaps(2) card_Suc_Diff1 [of "children (hp_k s)" p] by simp
  moreover have "hp_started (hp_pc s) (hp_reaped s + card (children (hp_k s)))" using hp_reaps(3) by (simp add: hp_inv_def)
  ultimately show ?case using hp_reaps(3) by (simp add: hp_inv_def hp_reap_def kernel_ok_reap del: children_reap)
next
  case (hp_return s)
  then show ?case by (auto simp: hp_inv_def children_def intro: kernel_ok_return)
qed (auto simp: hp_inv_def)

lemma hp_inv_steps: "hp_step\<^sup>*\<^sup>* hp_init s \<Longrightarrow> hp_inv s"
proof (induction rule: rtranclp_induct)
  case base
  show ?case by (simp add: hp_inv_def hp_init_def kernel_ok_def kproc_defs main_mask_def)
qed (auto intro: hp_inv_step)

text \<open>
  The handler of \<open>handler/main.c\<close> loses no child although signals do not queue: a terminated child is always
  being reaped or has its \<open>SIGCHLD\<close> deliverable, the handler returns only when no child is left, alive or not, and
  when the main flow has passed the fork loop and neither applies, exactly three children have been reaped.
\<close>

lemma handler_loses_no_child:
  assumes "hp_step\<^sup>*\<^sup>* hp_init s"
  shows "(zombies (hp_k s) \<noteq> {} \<longrightarrow> in_handler (hp_k s) \<or> deliverable (mask (hp_k s)) (hp_k s))
     \<and> (\<forall>s'. hp_step s s' \<longrightarrow> in_handler (hp_k s) \<longrightarrow> \<not> in_handler (hp_k s') \<longrightarrow> children (hp_k s) = {})
     \<and> (hp_pc s \<in> {H_read, H_spin} \<and> \<not> in_handler (hp_k s) \<and> live (hp_k s) = {} \<and> \<not> deliverable (mask (hp_k s)) (hp_k s)
          \<longrightarrow> hp_reaped s = 3)"
proof (intro conjI allI impI)
  have inv: "hp_inv s" using assms by (rule hp_inv_steps)
  show z: "in_handler (hp_k s) \<or> deliverable (mask (hp_k s)) (hp_k s)" if "zombies (hp_k s) \<noteq> {}"
    using inv that by (auto simp: hp_inv_def kernel_ok_def deliverable_def main_mask_def in_handler_def)
  show "children (hp_k s) = {}" if "hp_step s s'" "in_handler (hp_k s)" "\<not> in_handler (hp_k s')" for s'
    using that by cases (auto simp: hp_reap_def deliverable_def)
  assume a: "hp_pc s \<in> {H_read, H_spin} \<and> \<not> in_handler (hp_k s) \<and> live (hp_k s) = {} \<and> \<not> deliverable (mask (hp_k s)) (hp_k s)"
  then have "children (hp_k s) = {}" using z by (auto simp: children_def)
  then show "hp_reaped s = 3" using inv a by (auto simp: hp_inv_def)
qed

lemma handler_loses_no_child_witness:
  "\<exists>s. hp_step\<^sup>*\<^sup>* hp_init s \<and> zombies (hp_k s) = {7} \<and> deliverable (mask (hp_k s)) (hp_k s)"
proof -
  let ?s1 = "hp_init\<lparr>hp_k := k_fork 7 (hp_k hp_init), hp_pc := H_fork 1\<rparr>"
  let ?s2 = "?s1\<lparr>hp_k := k_exit 7 (hp_k ?s1)\<rparr>"
  have "hp_step hp_init ?s1" using hp_forks [of hp_init 0 7] by (simp add: hp_init_def kproc_defs)
  moreover have "hp_step ?s1 ?s2" by (rule hp_child_exit) (simp add: k_fork_def)
  ultimately have r: "hp_step\<^sup>*\<^sup>* hp_init ?s2" by (meson converse_rtranclp_into_rtranclp rtranclp.rtrancl_refl)
  have z: "zombies (hp_k ?s2) = {7}" "\<not> in_handler (hp_k ?s2)" by (simp_all add: hp_init_def kproc_defs)
  with handler_loses_no_child [OF r] have "deliverable (mask (hp_k ?s2)) (hp_k ?s2)" by blast
  with r z(1) show ?thesis by blast
qed

end
