(* ===== verification/Ipc_Demo.thy ===== *)
theory Ipc_Demo
  imports Kernel_IO "HOL-Library.Sublist"
begin

text \<open>
  \<open>12.1/ipc_demo.c\<close>: a parent and a child that exchange a message through a Unix domain socket, through shared
  memory guarded by a semaphore, and through an eventfd. Each demonstration is a step relation in which the two
  processes interleave after the \<open>fork\<close>; \<open>die\<close> is the end of the process with status 1, and \<open>wait_child\<close> lets the
  parent end with status 1 if the child did not end with 0. \<open>write_all\<close> is also modelled as the loop it is.
\<close>

section \<open>Writing all bytes\<close>

text \<open>One turn of the loop after \<open>write\<close> answered \<open>r\<close>: the bytes left, or \<open>None\<close> for \<open>die\<close>.\<close>

fun write_turn :: "wr_res \<Rightarrow> bytes \<Rightarrow> bytes option" where
  "write_turn (Wrote k) left = Some (drop k left)"
| "write_turn (WroteZero e) left = Some left"
| "write_turn (WrErr e) left = (if e = EINTR then Some left else None)"

function write_all :: "bytes \<Rightarrow> chan \<Rightarrow> errno option \<times> chan" where
  "write_all left c =
     (if left = [] then (None, c)
      else case kwrite left c of (r, c') \<Rightarrow>
             (case write_turn r left of None \<Rightarrow> (wr_errno r, c') | Some left' \<Rightarrow> write_all left' c'))"
  by pat_completeness auto
termination
  by (relation "measure (\<lambda>(left, c). length left + length (k_wsched c))")
     (auto simp: kwrite_def split: list.splits wr_ev.splits if_splits)

declare write_all.simps [simp del]

text \<open>The bytes a successful answer accepts, and the answers \<open>write\<close> may give.\<close>

fun accepted :: "wr_res \<Rightarrow> bytes \<Rightarrow> bytes" where
  "accepted (Wrote k) left = take k left"
| "accepted _ left = []"

fun wr_answer :: "wr_res \<Rightarrow> bytes \<Rightarrow> bool" where
  "wr_answer (Wrote k) left \<longleftrightarrow> 0 < k \<and> k \<le> length left"
| "wr_answer _ left \<longleftrightarrow> True"

definition wr_goes_on :: "wr_res \<Rightarrow> bool" where
  "wr_goes_on r \<longleftrightarrow> (\<forall>e. r = WrErr e \<longrightarrow> e = EINTR)"

interpretation wa: write_fully kwrite k_out wr_only_eintr wr_goes_on "\<lambda>c. length (k_wsched c)" write_all
proof (unfold_locales, goal_cases)
  case (1 bs s k s')
  then show ?case using kw.wr_wrote by blast
next
  case (2 bs s r s')
  then show ?case using kw.wr_none by blast
next
  case (3 s bs r s')
  then show ?case using kw.wr_calm by (fastforce simp: wr_goes_on_def wr_again_def)
next
  case (4 bs s)
  show ?case by (subst write_all.simps) (auto simp: wr_goes_on_def split: prod.splits wr_res.splits)
qed

lemma write_turn_conserves: "write_turn r left = Some left' \<Longrightarrow> accepted r left @ left' = left"
  by (cases r) (auto split: if_splits)

section \<open>The socket\<close>

definition request_msg :: bytes where "request_msg = ''hello via UDS''"
definition reply_msg :: bytes where "reply_msg = ''reply from UDS server''"
abbreviation READ_SIZE :: nat where "READ_SIZE \<equiv> 127"

datatype up_pc = UP_accept | UP_read | UP_write bytes | UP_wait | UP_exit int
datatype uc_pc = UC_start | UC_write bytes | UC_read | UC_exit int

record uds_demo =
  us_p :: up_pc
  us_c :: uc_pc
  us_conn :: bool
  us_req :: bytes
  us_rep :: bytes
  us_got :: "bytes option"
  us_reply :: "bytes option"

definition parent_closed :: "uds_demo \<Rightarrow> bool" where
  "parent_closed s \<longleftrightarrow> (case us_p s of UP_wait \<Rightarrow> True | UP_exit _ \<Rightarrow> True | _ \<Rightarrow> False)"

definition wait_status :: "int \<Rightarrow> int" where
  "wait_status st = (if st = 0 then 0 else 1)"

inductive us_step :: "uds_demo \<Rightarrow> uds_demo \<Rightarrow> bool" where
  uc_connect: "us_c s = UC_start \<Longrightarrow> us_step s (s\<lparr>us_c := UC_write request_msg, us_conn := True\<rparr>)"
| uc_connect_fails: "us_c s = UC_start \<Longrightarrow> us_step s (s\<lparr>us_c := UC_exit 1\<rparr>)"
| uc_write: "us_c s = UC_write left \<Longrightarrow> left \<noteq> [] \<Longrightarrow> wr_answer r left \<Longrightarrow> write_turn r left = Some left' \<Longrightarrow>
    us_step s (s\<lparr>us_c := UC_write left', us_req := us_req s @ accepted r left\<rparr>)"
| uc_write_fails: "us_c s = UC_write left \<Longrightarrow> left \<noteq> [] \<Longrightarrow> write_turn r left = None \<Longrightarrow> us_step s (s\<lparr>us_c := UC_exit 1\<rparr>)"
| uc_written: "us_c s = UC_write [] \<Longrightarrow> us_step s (s\<lparr>us_c := UC_read\<rparr>)"
| uc_read: "us_c s = UC_read \<Longrightarrow> 0 < k \<Longrightarrow> k \<le> min READ_SIZE (length (us_rep s)) \<Longrightarrow>
    us_step s (s\<lparr>us_c := UC_exit 0, us_reply := Some (take k (us_rep s)), us_rep := drop k (us_rep s)\<rparr>)"
| uc_read_eof: "us_c s = UC_read \<Longrightarrow> us_rep s = [] \<Longrightarrow> parent_closed s \<Longrightarrow> us_step s (s\<lparr>us_c := UC_exit 0, us_reply := Some []\<rparr>)"
| uc_read_fails: "us_c s = UC_read \<Longrightarrow> us_step s (s\<lparr>us_c := UC_exit 1\<rparr>)"
| up_accept: "us_p s = UP_accept \<Longrightarrow> us_conn s \<Longrightarrow> us_step s (s\<lparr>us_p := UP_read\<rparr>)"
| up_accept_fails: "us_p s = UP_accept \<Longrightarrow> us_step s (s\<lparr>us_p := UP_exit 1\<rparr>)"
| up_read: "us_p s = UP_read \<Longrightarrow> 0 < k \<Longrightarrow> k \<le> min READ_SIZE (length (us_req s)) \<Longrightarrow>
    us_step s (s\<lparr>us_p := UP_write reply_msg, us_got := Some (take k (us_req s)), us_req := drop k (us_req s)\<rparr>)"
| up_read_eof: "us_p s = UP_read \<Longrightarrow> us_req s = [] \<Longrightarrow> us_c s = UC_exit st \<Longrightarrow>
    us_step s (s\<lparr>us_p := UP_write reply_msg, us_got := Some []\<rparr>)"
| up_read_fails: "us_p s = UP_read \<Longrightarrow> us_step s (s\<lparr>us_p := UP_exit 1\<rparr>)"
| up_write: "us_p s = UP_write left \<Longrightarrow> left \<noteq> [] \<Longrightarrow> wr_answer r left \<Longrightarrow> write_turn r left = Some left' \<Longrightarrow>
    us_step s (s\<lparr>us_p := UP_write left', us_rep := us_rep s @ accepted r left\<rparr>)"
| up_write_fails: "us_p s = UP_write left \<Longrightarrow> left \<noteq> [] \<Longrightarrow> write_turn r left = None \<Longrightarrow> us_step s (s\<lparr>us_p := UP_exit 1\<rparr>)"
| up_written: "us_p s = UP_write [] \<Longrightarrow> us_step s (s\<lparr>us_p := UP_wait\<rparr>)"
| up_wait: "us_p s = UP_wait \<Longrightarrow> us_c s = UC_exit st \<Longrightarrow> us_step s (s\<lparr>us_p := UP_exit (wait_status st)\<rparr>)"

definition us_init :: uds_demo where
  "us_init = \<lparr>us_p = UP_accept, us_c = UC_start, us_conn = False, us_req = [], us_rep = [], us_got = None, us_reply = None\<rparr>"

definition bytes_of :: "bytes option \<Rightarrow> bytes" where
  "bytes_of x = (case x of None \<Rightarrow> [] | Some bs \<Rightarrow> bs)"

lemma bytes_of_simps [simp]: "bytes_of None = []" "bytes_of (Some bs) = bs"
  by (simp_all add: bytes_of_def)

text \<open>What has been read, is in the socket and is still to be written makes up the message.\<close>

fun request_wf :: "uc_pc \<Rightarrow> bytes \<Rightarrow> bool" where
  "request_wf UC_start sent \<longleftrightarrow> sent = []"
| "request_wf (UC_write left) sent \<longleftrightarrow> sent @ left = request_msg"
| "request_wf UC_read sent \<longleftrightarrow> sent = request_msg"
| "request_wf (UC_exit st) sent \<longleftrightarrow> prefix sent request_msg"

fun reply_wf :: "up_pc \<Rightarrow> bytes \<Rightarrow> bool" where
  "reply_wf (UP_write left) sent \<longleftrightarrow> sent @ left = reply_msg"
| "reply_wf UP_wait sent \<longleftrightarrow> sent = reply_msg"
| "reply_wf (UP_exit st) sent \<longleftrightarrow> prefix sent reply_msg \<and> (st \<noteq> 1 \<longrightarrow> sent = reply_msg)"
| "reply_wf _ sent \<longleftrightarrow> sent = []"

definition us_inv :: "uds_demo \<Rightarrow> bool" where
  "us_inv s \<longleftrightarrow> request_wf (us_c s) (bytes_of (us_got s) @ us_req s)
     \<and> reply_wf (us_p s) (bytes_of (us_reply s) @ us_rep s)
     \<and> (us_reply s = None \<longleftrightarrow> us_c s \<noteq> UC_exit 0) \<and> (us_reply s = Some [] \<longrightarrow> us_p s = UP_exit 1)
     \<and> (case us_p s of UP_accept \<Rightarrow> us_got s = None | UP_read \<Rightarrow> us_got s = None
        | UP_exit st \<Rightarrow> (st = 1 \<or> st = 0 \<and> us_c s = UC_exit 0 \<and> us_got s \<noteq> None) | _ \<Rightarrow> us_got s \<noteq> None)
     \<and> (us_got s = Some [] \<longrightarrow> (\<exists>st. us_c s = UC_exit st \<and> st \<noteq> 0))"

lemma us_inv_step: "us_step s s' \<Longrightarrow> us_inv s \<Longrightarrow> us_inv s'"
proof (induction rule: us_step.induct)
  case (uc_write s left r left')
  then show ?case using write_turn_conserves [OF uc_write(4)] by (cases "us_p s") (auto simp: us_inv_def)
next
  case (up_write s left r left')
  then show ?case using write_turn_conserves [OF up_write(4)] by (auto simp: us_inv_def)
next
  case (uc_read_eof s)
  then show ?case by (cases "us_p s") (auto simp: us_inv_def parent_closed_def reply_msg_def)
next
  case (uc_read s k)
  then show ?case by (cases "us_p s") (auto simp: us_inv_def)
next
  case (uc_write_fails s left r)
  then have "(bytes_of (us_got s) @ us_req s) @ left = request_msg" by (simp add: us_inv_def)
  then have "prefix (bytes_of (us_got s) @ us_req s) request_msg" by (rule prefixI [OF sym])
  with uc_write_fails show ?case by (cases "us_p s") (auto simp: us_inv_def)
next
  case (up_write_fails s left r)
  then have "(bytes_of (us_reply s) @ us_rep s) @ left = reply_msg" by (simp add: us_inv_def)
  then have "prefix (bytes_of (us_reply s) @ us_rep s) reply_msg" by (rule prefixI [OF sym])
  with up_write_fails show ?case by (simp add: us_inv_def)
next
  case (uc_read_fails s)
  then show ?case by (cases "us_p s") (auto simp: us_inv_def)
next
  case (uc_connect_fails s)
  then show ?case by (cases "us_p s") (auto simp: us_inv_def)
next
  case (up_read s k)
  then show ?case by (auto simp: us_inv_def)
next
  case (up_wait s st)
  then show ?case by (cases "us_reply s") (auto simp: us_inv_def wait_status_def)
qed (auto simp: us_inv_def split: up_pc.splits)

lemma us_inv_steps: "us_step\<^sup>*\<^sup>* us_init s \<Longrightarrow> us_inv s"
proof (induction rule: rtranclp_induct)
  case base
  show ?case by (simp add: us_inv_def us_init_def)
qed (auto intro: us_inv_step)

section \<open>Shared memory\<close>

definition MSG_SIZE :: nat where "MSG_SIZE = 128"

definition shared_msg :: bytes where "shared_msg = ''hello via MAP_SHARED mmap''"

datatype mp_pc = MP_store nat | MP_post | MP_wait | MP_exit int
datatype mc_pc = MC_wait | MC_exit int

record mmap_demo =
  mm_p :: mp_pc
  mm_c :: mc_pc
  mm_mem :: bytes
  mm_sem :: nat
  mm_seen :: "bytes option"

text \<open>\<open>snprintf\<close> stores the bytes of the message one by one, so that nothing but the semaphore keeps the child from
  seeing a part of it.\<close>

inductive mm_step :: "mmap_demo \<Rightarrow> mmap_demo \<Rightarrow> bool" where
  mp_store: "mm_p s = MP_store i \<Longrightarrow> i < length (shared_msg @ [NUL]) \<Longrightarrow>
    mm_step s (s\<lparr>mm_mem := (mm_mem s)[i := (shared_msg @ [NUL]) ! i], mm_p := MP_store (i + 1)\<rparr>)"
| mp_stored: "mm_p s = MP_store (length (shared_msg @ [NUL])) \<Longrightarrow> mm_step s (s\<lparr>mm_p := MP_post\<rparr>)"
| mp_post: "mm_p s = MP_post \<Longrightarrow> mm_step s (s\<lparr>mm_sem := mm_sem s + 1, mm_p := MP_wait\<rparr>)"
| mp_post_fails: "mm_p s = MP_post \<Longrightarrow> mm_step s (s\<lparr>mm_p := MP_exit 1\<rparr>)"
| mc_wait: "mm_c s = MC_wait \<Longrightarrow> 0 < mm_sem s \<Longrightarrow>
    mm_step s (s\<lparr>mm_sem := mm_sem s - 1, mm_seen := Some (cstr (mm_mem s)), mm_c := MC_exit 0\<rparr>)"
| mc_wait_fails: "mm_c s = MC_wait \<Longrightarrow> mm_step s (s\<lparr>mm_c := MC_exit 1\<rparr>)"
| mp_wait: "mm_p s = MP_wait \<Longrightarrow> mm_c s = MC_exit st \<Longrightarrow> mm_step s (s\<lparr>mm_p := MP_exit (wait_status st)\<rparr>)"

definition mm_init :: mmap_demo where
  "mm_init = \<lparr>mm_p = MP_store 0, mm_c = MC_wait, mm_mem = replicate MSG_SIZE NUL, mm_sem = 0, mm_seen = None\<rparr>"

fun stored_wf :: "mp_pc \<Rightarrow> bytes \<Rightarrow> bool" where
  "stored_wf (MP_store i) mem \<longleftrightarrow> i \<le> length (shared_msg @ [NUL]) \<and> take i mem = take i (shared_msg @ [NUL])"
| "stored_wf _ mem \<longleftrightarrow> prefix (shared_msg @ [NUL]) mem"

definition mm_inv :: "mmap_demo \<Rightarrow> bool" where
  "mm_inv s \<longleftrightarrow> length (mm_mem s) = MSG_SIZE \<and> stored_wf (mm_p s) (mm_mem s)
     \<and> (mm_p s \<noteq> MP_wait \<longrightarrow> (\<forall>st. mm_p s \<noteq> MP_exit st) \<longrightarrow> mm_sem s = 0 \<and> mm_c s \<noteq> MC_exit 0)
     \<and> (mm_p s = MP_wait \<longrightarrow> mm_c s = MC_wait \<longrightarrow> 0 < mm_sem s)
     \<and> (mm_c s = MC_exit 0 \<longleftrightarrow> mm_seen s = Some shared_msg) \<and> (mm_seen s = None \<or> mm_seen s = Some shared_msg)
     \<and> (\<forall>st. mm_p s = MP_exit st \<longrightarrow> st = 1 \<or> st = 0 \<and> mm_c s = MC_exit 0)"

lemma cstr_stored: "prefix (shared_msg @ [NUL]) mem \<Longrightarrow> cstr mem = shared_msg"
  using cstr_NUL [of shared_msg] by (auto simp: prefix_def shared_msg_def)

lemma stored_next:
  assumes "i < length xs" "i < length mem" "take i mem = take i xs"
  shows "take (Suc i) (mem[i := xs ! i]) = take (Suc i) xs"
  using assms by (simp add: take_Suc_conv_app_nth)

lemma mm_inv_step: "mm_step s s' \<Longrightarrow> mm_inv s \<Longrightarrow> mm_inv s'"
proof (induction rule: mm_step.induct)
  case (mp_store s i)
  then have "take (Suc i) ((mm_mem s)[i := (shared_msg @ [NUL]) ! i]) = take (Suc i) (shared_msg @ [NUL])"
    by (intro stored_next) (simp_all add: mm_inv_def MSG_SIZE_def shared_msg_def)
  with mp_store show ?case by (auto simp: mm_inv_def)
next
  case (mp_stored s)
  then have "prefix (shared_msg @ [NUL]) (mm_mem s)"
    using take_is_prefix [of "length (shared_msg @ [NUL])" "mm_mem s"] by (simp add: mm_inv_def)
  with mp_stored show ?case by (auto simp: mm_inv_def)
next
  case (mc_wait s)
  then have "prefix (shared_msg @ [NUL]) (mm_mem s)" by (cases "mm_p s") (simp_all add: mm_inv_def)
  with mc_wait cstr_stored [OF this] show ?case by (cases "mm_p s") (simp_all add: mm_inv_def)
next
  case (mp_wait s st)
  then show ?case by (auto simp: mm_inv_def wait_status_def)
qed (auto simp: mm_inv_def)

lemma mm_inv_steps: "mm_step\<^sup>*\<^sup>* mm_init s \<Longrightarrow> mm_inv s"
proof (induction rule: rtranclp_induct)
  case base
  show ?case by (simp add: mm_inv_def mm_init_def)
qed (auto intro: mm_inv_step)

section \<open>The event counter\<close>

datatype ep_pc = EP_write | EP_wait | EP_exit int
datatype ec_pc = EC_read | EC_exit int

record eventfd_demo =
  ef_p :: ep_pc
  ef_c :: ec_pc
  ef_count :: nat
  ef_seen :: "nat option"

text \<open>The kernel takes the eight bytes of the value in one write and adds it to the counter; a read blocks while the
  counter is 0, returns it and resets it.\<close>

inductive ef_step :: "eventfd_demo \<Rightarrow> eventfd_demo \<Rightarrow> bool" where
  ep_write: "ef_p s = EP_write \<Longrightarrow> ef_step s (s\<lparr>ef_count := ef_count s + 3, ef_p := EP_wait\<rparr>)"
| ep_write_fails: "ef_p s = EP_write \<Longrightarrow> ef_step s (s\<lparr>ef_p := EP_exit 1\<rparr>)"
| ec_read: "ef_c s = EC_read \<Longrightarrow> 0 < ef_count s \<Longrightarrow>
    ef_step s (s\<lparr>ef_seen := Some (ef_count s), ef_count := 0, ef_c := EC_exit 0\<rparr>)"
| ec_read_fails: "ef_c s = EC_read \<Longrightarrow> ef_step s (s\<lparr>ef_c := EC_exit 1\<rparr>)"
| ep_wait: "ef_p s = EP_wait \<Longrightarrow> ef_c s = EC_exit st \<Longrightarrow> ef_step s (s\<lparr>ef_p := EP_exit (wait_status st)\<rparr>)"

definition ef_init :: eventfd_demo where
  "ef_init = \<lparr>ef_p = EP_write, ef_c = EC_read, ef_count = 0, ef_seen = None\<rparr>"

definition ef_inv :: "eventfd_demo \<Rightarrow> bool" where
  "ef_inv s \<longleftrightarrow> (ef_p s = EP_write \<longrightarrow> ef_count s = 0 \<and> ef_c s \<noteq> EC_exit 0)
     \<and> (ef_p s = EP_wait \<longrightarrow> ef_c s = EC_read \<longrightarrow> ef_count s = 3)
     \<and> (ef_c s = EC_exit 0 \<longleftrightarrow> ef_seen s = Some 3) \<and> (ef_count s = 0 \<or> ef_count s = 3)
     \<and> (\<forall>st. ef_p s = EP_exit st \<longrightarrow> st = 1 \<or> st = 0 \<and> ef_c s = EC_exit 0)"

lemma ef_inv_step: "ef_step s s' \<Longrightarrow> ef_inv s \<Longrightarrow> ef_inv s'"
  by (induction rule: ef_step.induct) (auto simp: ef_inv_def wait_status_def)

lemma ef_inv_steps: "ef_step\<^sup>*\<^sup>* ef_init s \<Longrightarrow> ef_inv s"
proof (induction rule: rtranclp_induct)
  case base
  show ?case by (simp add: ef_inv_def ef_init_def)
qed (auto intro: ef_inv_step)

section \<open>The main program and the properties\<close>

datatype demo = Demo_uds | Demo_mmap | Demo_eventfd

text \<open>The demonstrations \<open>main\<close> runs for its arguments; \<open>None\<close> is the usage message and status 1.\<close>

definition ipc_main :: "bytes list \<Rightarrow> demo list option" where
  "ipc_main argv =
     (if length argv \<noteq> 2 then None
      else if argv ! 1 = ''uds'' then Some [Demo_uds]
      else if argv ! 1 = ''mmap'' then Some [Demo_mmap]
      else if argv ! 1 = ''eventfd'' then Some [Demo_eventfd]
      else if argv ! 1 = ''all'' then Some [Demo_uds, Demo_mmap, Demo_eventfd]
      else None)"

lemma us_delivers:
  assumes "us_inv s" "us_p s = UP_exit 0"
  shows "us_c s = UC_exit 0 \<and> (\<exists>q. us_got s = Some q \<and> q \<noteq> [] \<and> prefix q request_msg)
     \<and> (\<exists>r. us_reply s = Some r \<and> r \<noteq> [] \<and> prefix r reply_msg)"
proof -
  have c: "us_c s = UC_exit 0" and g: "us_got s \<noteq> None" "us_got s \<noteq> Some []" and r: "us_reply s \<noteq> None" "us_reply s \<noteq> Some []"
    using assms by (auto simp: us_inv_def)
  have "prefix (bytes_of (us_got s) @ us_req s) request_msg" "prefix (bytes_of (us_reply s) @ us_rep s) reply_msg"
    using assms c by (simp_all add: us_inv_def)
  then show ?thesis using c g r append_prefixD by fastforce
qed

text \<open>When one process is blocked on the other, the other has done its part.\<close>

lemma us_not_stuck:
  assumes "us_inv s" "us_c s = UC_read"
  shows "us_p s = UP_read \<longrightarrow> us_req s = request_msg" "us_p s = UP_wait \<longrightarrow> us_rep s = reply_msg"
  using assms by (auto simp: us_inv_def)

lemma mm_delivers: "mm_inv s \<Longrightarrow> mm_p s = MP_exit 0 \<Longrightarrow> mm_seen s = Some shared_msg"
  by (auto simp: mm_inv_def)

lemma ef_delivers: "ef_inv s \<Longrightarrow> ef_p s = EP_exit 0 \<Longrightarrow> ef_seen s = Some 3"
  by (auto simp: ef_inv_def)

text \<open>
  C23: In every interleaving of parent and child, a demonstration whose parent ends with status 0 has exchanged its
  data: over the socket the parent has read a non-empty beginning of the request and the child one of the reply,
  through the shared memory the child has read the whole message, never a part of it, and from the eventfd exactly 3.
  And no process waits in vain for a living partner: when the parent waits for the child, or reads its request, and the child
  waits in turn, the awaited bytes, the semaphore or the counter are already there. \<open>write_all\<close> writes every byte in order
  and returns, whatever short counts and interruptions \<open>write\<close> answers with.
\<close>

theorem ipc_demos_deliver:
  assumes "us_step\<^sup>*\<^sup>* us_init u" "mm_step\<^sup>*\<^sup>* mm_init m" "ef_step\<^sup>*\<^sup>* ef_init e"
  shows "(us_p u = UP_exit 0 \<longrightarrow>
         (\<exists>q. us_got u = Some q \<and> q \<noteq> [] \<and> prefix q request_msg) \<and> (\<exists>r. us_reply u = Some r \<and> r \<noteq> [] \<and> prefix r reply_msg))
    \<and> (us_c u = UC_read \<longrightarrow> (us_p u = UP_read \<longrightarrow> us_req u = request_msg) \<and> (us_p u = UP_wait \<longrightarrow> us_rep u = reply_msg))
    \<and> (mm_p m = MP_exit 0 \<or> mm_seen m \<noteq> None \<longrightarrow> mm_seen m = Some shared_msg)
    \<and> (mm_p m = MP_wait \<and> mm_c m = MC_wait \<longrightarrow> 0 < mm_sem m)
    \<and> (ef_p e = EP_exit 0 \<longrightarrow> ef_seen e = Some 3)
    \<and> (ef_p e = EP_wait \<and> ef_c e = EC_read \<longrightarrow> ef_count e = 3)
    \<and> (wr_only_eintr c \<longrightarrow> (\<exists>c'. write_all bs c = (None, c') \<and> k_out c' = k_out c @ bs))"
proof (intro conjI)
  have inv: "us_inv u" "mm_inv m" "ef_inv e"
    using assms us_inv_steps mm_inv_steps ef_inv_steps by blast+
  show "us_p u = UP_exit 0 \<longrightarrow>
         (\<exists>q. us_got u = Some q \<and> q \<noteq> [] \<and> prefix q request_msg) \<and> (\<exists>r. us_reply u = Some r \<and> r \<noteq> [] \<and> prefix r reply_msg)"
    and "us_c u = UC_read \<longrightarrow> (us_p u = UP_read \<longrightarrow> us_req u = request_msg) \<and> (us_p u = UP_wait \<longrightarrow> us_rep u = reply_msg)"
    using us_delivers [OF inv(1)] us_not_stuck [OF inv(1)] by blast+
  show "mm_p m = MP_exit 0 \<or> mm_seen m \<noteq> None \<longrightarrow> mm_seen m = Some shared_msg"
    using mm_delivers [OF inv(2)] inv(2) by (auto simp: mm_inv_def)
  show "mm_p m = MP_wait \<and> mm_c m = MC_wait \<longrightarrow> 0 < mm_sem m" "ef_p e = EP_wait \<and> ef_c e = EC_read \<longrightarrow> ef_count e = 3"
    using inv by (simp_all add: mm_inv_def ef_inv_def)
  show "ef_p e = EP_exit 0 \<longrightarrow> ef_seen e = Some 3" using ef_delivers [OF inv(3)] by blast
  show "wr_only_eintr c \<longrightarrow> (\<exists>c'. write_all bs c = (None, c') \<and> k_out c' = k_out c @ bs)" using wa.wloop_calm by blast
qed

theorem ipc_demos_deliver_witness:
  "\<exists>e. ef_step\<^sup>*\<^sup>* ef_init e \<and> ef_p e = EP_exit 0 \<and> ef_seen e = Some 3"
proof -
  let ?e1 = "ef_init\<lparr>ef_count := 3, ef_p := EP_wait\<rparr>"
  let ?e2 = "?e1\<lparr>ef_seen := Some 3, ef_count := 0, ef_c := EC_exit 0\<rparr>"
  let ?e3 = "?e2\<lparr>ef_p := EP_exit 0\<rparr>"
  have "ef_step ef_init ?e1" using ep_write [of ef_init] by (simp add: ef_init_def)
  moreover have "ef_step ?e1 ?e2" using ec_read [of ?e1] by (simp add: ef_init_def)
  moreover have "ef_step ?e2 ?e3" using ep_wait [of ?e2 0] by (simp add: ef_init_def wait_status_def)
  ultimately have r: "ef_step\<^sup>*\<^sup>* ef_init ?e3" by (meson converse_rtranclp_into_rtranclp rtranclp.rtrancl_refl)
  have "ef_p ?e3 = EP_exit 0" by simp
  with r ipc_demos_deliver [OF rtranclp.rtrancl_refl rtranclp.rtrancl_refl r] show ?thesis by blast
qed

end
