(* ===== verification/Csapp.thy ===== *)
theory Csapp
  imports Passfd Processes
begin

text \<open>
  The error wrappers of \<open>8.5-8.6/shell/csapp.c\<close>, and the main programs that set sockets up around them: \<open>passfd_send.c\<close>,
  \<open>passfd_recv.c\<close> and \<open>addrinfo.c\<close>. What a system call answers is an argument; a wrapper returns its result (\<open>Inr\<close>) or ends
  the process with a status and a text on standard error (\<open>Inl\<close>).
\<close>

section \<open>Error wrappers\<close>

type_synonym 'a or_exit = "(nat \<times> bytes) + 'a"

definition unix_error :: "(errno \<Rightarrow> bytes) \<Rightarrow> bytes \<Rightarrow> errno \<Rightarrow> nat \<times> bytes" where
  "unix_error strerror msg e = (1, msg @ '': '' @ strerror e @ [LF])"

text \<open>\<open>fgets\<close> returns null at the end of the file and on an error; \<open>ferror\<close> tells them apart.\<close>

datatype gets_answer = Got bytes | At_eof | Gets_error errno

definition try_gets :: "(errno \<Rightarrow> bytes) \<Rightarrow> gets_answer \<Rightarrow> bytes option or_exit" where
  "try_gets strerror a =
     (case a of Got s \<Rightarrow> Inr (Some s) | At_eof \<Rightarrow> Inr None | Gets_error e \<Rightarrow> Inl (unix_error strerror ''fgets error'' e))"

definition try_fork :: "(errno \<Rightarrow> bytes) \<Rightarrow> errno + nat \<Rightarrow> nat or_exit" where
  "try_fork strerror r = (case r of Inl e \<Rightarrow> Inl (unix_error strerror ''fork error'' e) | Inr p \<Rightarrow> Inr p)"

text \<open>A successful \<open>execve\<close> does not return: the answer is the program that runs from then on.\<close>

definition try_execve :: "(errno \<Rightarrow> bytes) \<Rightarrow> errno + 'image \<Rightarrow> 'image or_exit" where
  "try_execve strerror r = (case r of Inl e \<Rightarrow> Inl (unix_error strerror ''execve error'' e) | Inr p \<Rightarrow> Inr p)"

text \<open>The action of a signal; a handler is a name.\<close>

record sigaction_t =
  sa_handler :: nat
  sa_mask :: "signal set"
  sa_restart :: bool

type_synonym actions = "signal \<Rightarrow> sigaction_t"

definition try_signal :: "(errno \<Rightarrow> bytes) \<Rightarrow> errno option \<Rightarrow> signal \<Rightarrow> nat \<Rightarrow> actions \<Rightarrow> (nat \<times> actions) or_exit" where
  "try_signal strerror r signum handler acts =
     (let action = \<lparr>sa_handler = handler, sa_mask = {}, sa_restart = True\<rparr>
      in case r of Some e \<Rightarrow> Inl (unix_error strerror ''signal error'' e)
         | None \<Rightarrow> Inr (sa_handler (acts signum), acts(signum := action)))"

definition try_sigprocmask :: "(errno \<Rightarrow> bytes) \<Rightarrow> errno option \<Rightarrow> how \<Rightarrow> signal set \<Rightarrow> kproc \<Rightarrow> (signal set \<times> kproc) or_exit" where
  "try_sigprocmask strerror r how ss k =
     (case r of Some e \<Rightarrow> Inl (unix_error strerror ''sigprocmask error'' e) | None \<Rightarrow> Inr (mask k, sigprocmask how ss k))"

definition try_sigemptyset :: "(errno \<Rightarrow> bytes) \<Rightarrow> errno option \<Rightarrow> signal set or_exit" where
  "try_sigemptyset strerror r = (case r of Some e \<Rightarrow> Inl (unix_error strerror ''sigemptyset error'' e) | None \<Rightarrow> Inr {})"

definition try_sigfillset :: "(errno \<Rightarrow> bytes) \<Rightarrow> errno option \<Rightarrow> signal set or_exit" where
  "try_sigfillset strerror r = (case r of Some e \<Rightarrow> Inl (unix_error strerror ''sigfillset error'' e) | None \<Rightarrow> Inr UNIV)"

definition try_sigaddset :: "(errno \<Rightarrow> bytes) \<Rightarrow> errno option \<Rightarrow> signal set \<Rightarrow> signal \<Rightarrow> signal set or_exit" where
  "try_sigaddset strerror r ss signum =
     (case r of Some e \<Rightarrow> Inl (unix_error strerror ''sigaddset error'' e) | None \<Rightarrow> Inr (insert signum ss))"

lemmas wrapper_defs = try_gets_def try_fork_def try_execve_def try_signal_def try_sigprocmask_def try_sigemptyset_def
  try_sigfillset_def try_sigaddset_def unix_error_def

text \<open>A wrapper that returns has succeeded; the only other end is status 1, and the end of a file is not an error.\<close>

lemma wrappers_return:
  "try_fork str r = Inr p \<longleftrightarrow> r = Inr p"
  "try_execve str x = Inr im \<longleftrightarrow> x = Inr im"
  "try_gets str g = Inr s \<longleftrightarrow> g = (case s of None \<Rightarrow> At_eof | Some l \<Rightarrow> Got l)"
  "try_signal str q sig h acts = Inr (old, acts') \<longleftrightarrow>
     q = None \<and> old = sa_handler (acts sig) \<and> acts' = acts(sig := \<lparr>sa_handler = h, sa_mask = {}, sa_restart = True\<rparr>)"
  by (auto simp: wrapper_defs Let_def split: sum.splits option.splits gets_answer.splits)

lemma wrappers_exit:
  "try_fork str r = Inl e \<Longrightarrow> fst e = 1" "try_execve str x = Inl e \<Longrightarrow> fst e = 1" "try_gets str g = Inl e \<Longrightarrow> fst e = 1"
  "try_signal str q sig h acts = Inl e \<Longrightarrow> fst e = 1" "try_sigprocmask str q hw ss k = Inl e \<Longrightarrow> fst e = 1"
  "try_sigaddset str q ss sig = Inl e \<Longrightarrow> fst e = 1"
  by (auto simp: wrapper_defs Let_def split: sum.splits option.splits gets_answer.splits)

text \<open>Blocking with the old mask saved and restoring it leaves the process as it was.\<close>

lemma block_restore:
  assumes "try_sigaddset str None {} SIGCHLD = Inr ss" and "try_sigprocmask str None SIG_BLOCK ss k = Inr (prev, k1)"
  shows "SIGCHLD \<in> mask k1 \<and> try_sigprocmask str None SIG_SETMASK prev k1 = Inr (mask k1, k)"
  using assms by (auto simp: wrapper_defs)

section \<open>Sending and receiving a descriptor in two programs\<close>

text \<open>What each call answers, \<open>None\<close> for success; the state is the set of socket files.\<close>

record send_answers =
  an_socket :: "errno option"
  an_bind :: "errno option"
  an_listen :: "errno option"
  an_accept :: "errno option"
  an_open :: "errno option"
  an_send :: "errno option"

definition DEFAULT_SOCK :: bytes where "DEFAULT_SOCK = ''/tmp/csapp_passfd.sock''"
definition DEFAULT_FILE :: bytes where "DEFAULT_FILE = ''/etc/hostname''"

definition arg_or :: "bytes list \<Rightarrow> nat \<Rightarrow> bytes \<Rightarrow> bytes" where
  "arg_or argv i d = (if i < length argv then argv ! i else d)"

text \<open>
  \<open>uds_die\<close> ends the process at once: the result is the name it prints, \<open>None\<close> when \<open>main\<close> returns 0. The second result is
  the file whose descriptor has been sent.
\<close>

definition passfd_send_main :: "send_answers \<Rightarrow> bytes list \<Rightarrow> bytes set \<Rightarrow> bytes option \<times> bytes option \<times> bytes set" where
  "passfd_send_main a argv socks =
     (let sock_path = arg_or argv 1 DEFAULT_SOCK; file_path = arg_or argv 2 DEFAULT_FILE
      in if an_socket a \<noteq> None then (Some ''socket'', None, socks)
         else case passfd_send_addr sock_path of
           None \<Rightarrow> (Some ''socket path too long'', None, socks)
         | Some addr \<Rightarrow>
             (let socks1 = socks - {sock_path}
              in if an_bind a \<noteq> None then (Some ''bind'', None, socks1)
                 else let socks2 = insert sock_path socks1
                 in if an_listen a \<noteq> None then (Some ''listen'', None, socks2)
                    else if an_accept a \<noteq> None then (Some ''accept'', None, socks2)
                    else if an_open a \<noteq> None then (Some ''open'', None, socks2)
                    else if an_send a \<noteq> None then (Some ''sendmsg'', None, socks2)
                    else (None, Some file_path, socks2 - {sock_path})))"

text \<open>\<open>strncpy\<close> without a length check: the address connected to is cut after 107 bytes.\<close>

definition passfd_recv_main :: "errno option \<Rightarrow> errno option \<Rightarrow> errno option \<Rightarrow> errno + bytes \<Rightarrow> bytes list \<Rightarrow> (bytes + bytes) \<times> sockaddr_un" where
  "passfd_recv_main s c m content argv =
     (let sock_path = arg_or argv 1 DEFAULT_SOCK; addr = passfd_recv_addr sock_path
      in if s \<noteq> None then (Inl ''socket'', addr)
         else if c \<noteq> None then (Inl ''connect'', addr)
         else if m \<noteq> None then (Inl ''recvmsg'', addr)
         else case content of Inl e \<Rightarrow> (Inl ''read'', addr) | Inr d \<Rightarrow> (Inr (cstr (take 255 d @ [NUL])), addr))"

text \<open>The sender removes its socket file when it succeeds, and leaves it behind on every failure after \<open>bind\<close>.\<close>

lemma passfd_send_socket_file:
  assumes "passfd_send_main a argv socks = (msg, sent, socks')" and "passfd_send_addr (arg_or argv 1 DEFAULT_SOCK) \<noteq> None"
    and "an_socket a = None"
  shows "arg_or argv 1 DEFAULT_SOCK \<in> socks' \<longleftrightarrow> msg \<noteq> None \<and> an_bind a = None"
    and "sent = (if msg = None then Some (arg_or argv 2 DEFAULT_FILE) else None)"
  using assms by (auto simp: passfd_send_main_def Let_def split: if_splits option.splits)

section \<open>Address lookup\<close>

text \<open>
  The result of \<open>getnameinfo\<close> is not tested: when it fails the line shows what the buffer held before, which for the first
  address was never assigned (\<open>None\<close>).
\<close>

fun addr_lines :: "bytes option list \<Rightarrow> bytes option \<Rightarrow> bytes option list" where
  "addr_lines [] buf = []"
| "addr_lines (n # ns) buf = (let buf1 = (case n of Some s \<Rightarrow> Some s | None \<Rightarrow> buf) in buf1 # addr_lines ns buf1)"

definition addrinfo_main :: "bytes list \<Rightarrow> int + bytes option list \<Rightarrow> nat \<times> bytes option list" where
  "addrinfo_main argv r =
     (if length argv \<noteq> 2 then (0, [])
      else case r of Inl rc \<Rightarrow> (1, []) | Inr ns \<Rightarrow> (0, addr_lines ns None))"

lemma addr_lines_all: "addr_lines (map Some ns) buf = map Some ns"
  by (induction ns arbitrary: buf) auto

lemma addrinfo_prints_all: "length argv = 2 \<Longrightarrow> addrinfo_main argv (Inr (map Some ns)) = (0, map Some ns)"
  by (simp add: addrinfo_main_def addr_lines_all)

lemma addrinfo_stale: "addrinfo_main [prog, host] (Inr [Some a, None]) = (0, [Some a, Some a])"
  by (simp add: addrinfo_main_def Let_def)

end
