(* ===== verification/Cpp_Socket.thy ===== *)
theory Cpp_Socket
  imports Passfd Ipc_Demo
begin

text \<open>
  \<open>Chapter10/experiments/unix_socket.hpp\<close> and its user \<open>passfd_cpp.cpp\<close>. An object of class \<open>Fd\<close> is an address with the
  value of its member \<open>fd_\<close>; the process has a set of open descriptors, and the ones the program holds as plain
  integers are in \<open>r_raw\<close>. Closing a descriptor that is not open, or using an object that does not exist, sets \<open>r_bad\<close>.
  An exception is \<open>Inl\<close>; the destructors that run when it leaves a function are part of that function.
\<close>

section \<open>The class Fd\<close>

record raii =
  r_open :: "nat set"
  r_raw :: "nat set"
  r_objs :: "nat \<Rightarrow> int option"
  r_bad :: bool

definition r_close :: "nat \<Rightarrow> raii \<Rightarrow> raii" where
  "r_close fd s = (if fd \<in> r_open s then s\<lparr>r_open := r_open s - {fd}\<rparr> else s\<lparr>r_bad := True\<rparr>)"

definition Fd_get :: "nat \<Rightarrow> raii \<Rightarrow> int" where
  "Fd_get a s = (case r_objs s a of Some v \<Rightarrow> v | None \<Rightarrow> - 1)"

definition Fd_bool :: "nat \<Rightarrow> raii \<Rightarrow> bool" where
  "Fd_bool a s \<longleftrightarrow> 0 \<le> Fd_get a s"

definition Fd_default :: "nat \<Rightarrow> raii \<Rightarrow> raii" where
  "Fd_default a s = s\<lparr>r_objs := (r_objs s)(a \<mapsto> - 1)\<rparr>"

text \<open>Handing a plain descriptor to an object takes it from \<open>r_raw\<close>.\<close>

definition Fd_make :: "nat \<Rightarrow> int \<Rightarrow> raii \<Rightarrow> raii" where
  "Fd_make a fd s = s\<lparr>r_objs := (r_objs s)(a \<mapsto> fd), r_raw := r_raw s - (if 0 \<le> fd then {nat fd} else {})\<rparr>"

definition Fd_reset :: "nat \<Rightarrow> int \<Rightarrow> raii \<Rightarrow> raii" where
  "Fd_reset a fd s = Fd_make a fd (if 0 \<le> Fd_get a s then r_close (nat (Fd_get a s)) s else s)"

definition Fd_dtor :: "nat \<Rightarrow> raii \<Rightarrow> raii" where
  "Fd_dtor a s = (let s1 = Fd_reset a (- 1) s in s1\<lparr>r_objs := (r_objs s1)(a := None)\<rparr>)"

text \<open>\<open>std::exchange(o.fd_, -1)\<close>, with the old value going to the object \<open>a\<close>.\<close>

definition Fd_exchange :: "nat \<Rightarrow> nat \<Rightarrow> raii \<Rightarrow> raii" where
  "Fd_exchange a b s = s\<lparr>r_objs := (r_objs s)(b \<mapsto> - 1, a \<mapsto> Fd_get b s)\<rparr>"

definition Fd_move_ctor :: "nat \<Rightarrow> nat \<Rightarrow> raii \<Rightarrow> raii" where
  "Fd_move_ctor a b s = Fd_exchange a b s"

definition Fd_move_assign :: "nat \<Rightarrow> nat \<Rightarrow> raii \<Rightarrow> raii" where
  "Fd_move_assign a b s = (if a \<noteq> b then Fd_exchange a b (Fd_reset a (- 1) s) else s)"

definition Fd_release :: "nat \<Rightarrow> raii \<Rightarrow> int \<times> raii" where
  "Fd_release a s =
     (let fd = Fd_get a s
      in (fd, s\<lparr>r_objs := (r_objs s)(a \<mapsto> - 1), r_raw := r_raw s \<union> (if 0 \<le> fd then {nat fd} else {})\<rparr>))"

text \<open>What a program does with descriptors and objects, and when it is allowed to.\<close>

datatype fd_op =
  K_open nat | K_close nat
| Op_default nat | Op_make nat int | Op_move_ctor nat nat | Op_move_assign nat nat
| Op_reset nat int | Op_release nat | Op_dtor nat

fun fd_exec :: "fd_op \<Rightarrow> raii \<Rightarrow> raii" where
  "fd_exec (K_open fd) s = s\<lparr>r_open := insert fd (r_open s), r_raw := insert fd (r_raw s)\<rparr>"
| "fd_exec (K_close fd) s = (r_close fd s)\<lparr>r_raw := r_raw s - {fd}\<rparr>"
| "fd_exec (Op_default a) s = Fd_default a s"
| "fd_exec (Op_make a fd) s = Fd_make a fd s"
| "fd_exec (Op_move_ctor a b) s = Fd_move_ctor a b s"
| "fd_exec (Op_move_assign a b) s = Fd_move_assign a b s"
| "fd_exec (Op_reset a fd) s = Fd_reset a fd s"
| "fd_exec (Op_release a) s = snd (Fd_release a s)"
| "fd_exec (Op_dtor a) s = Fd_dtor a s"

definition holds_raw :: "int \<Rightarrow> raii \<Rightarrow> bool" where
  "holds_raw fd s \<longleftrightarrow> (0 \<le> fd \<longrightarrow> nat fd \<in> r_raw s)"

fun fd_legal :: "fd_op \<Rightarrow> raii \<Rightarrow> bool" where
  "fd_legal (K_open fd) s \<longleftrightarrow> fd \<notin> r_open s"
| "fd_legal (K_close fd) s \<longleftrightarrow> fd \<in> r_raw s"
| "fd_legal (Op_default a) s \<longleftrightarrow> r_objs s a = None"
| "fd_legal (Op_make a fd) s \<longleftrightarrow> r_objs s a = None \<and> holds_raw fd s"
| "fd_legal (Op_move_ctor a b) s \<longleftrightarrow> r_objs s a = None \<and> r_objs s b \<noteq> None"
| "fd_legal (Op_move_assign a b) s \<longleftrightarrow> r_objs s a \<noteq> None \<and> r_objs s b \<noteq> None"
| "fd_legal (Op_reset a fd) s \<longleftrightarrow> r_objs s a \<noteq> None \<and> holds_raw fd s"
| "fd_legal (Op_release a) s \<longleftrightarrow> r_objs s a \<noteq> None"
| "fd_legal (Op_dtor a) s \<longleftrightarrow> r_objs s a \<noteq> None"

fun fd_run :: "fd_op list \<Rightarrow> raii \<Rightarrow> raii option" where
  "fd_run [] s = Some s"
| "fd_run (op # ops) s = (if fd_legal op s then fd_run ops (fd_exec op s) else None)"

section \<open>Ownership of descriptors\<close>

text \<open>A descriptor is owned by an object (\<open>Inl\<close>) or by the program itself (\<open>Inr\<close>).\<close>

definition fd_owner :: "raii \<Rightarrow> nat + nat \<Rightarrow> nat option" where
  "fd_owner s ow =
     (case ow of
        Inl a \<Rightarrow> (if 0 \<le> Fd_get a s then Some (nat (Fd_get a s)) else None)
      | Inr fd \<Rightarrow> (if fd \<in> r_raw s then Some fd else None))"

definition raii_inv :: "raii \<Rightarrow> bool" where
  "raii_inv s \<longleftrightarrow> \<not> r_bad s \<and> owns (fd_owner s) (r_open s)"

lemmas fd_defs = Fd_get_def Fd_default_def Fd_make_def Fd_exchange_def Fd_release_def

lemma raii_inv_close:
  assumes "raii_inv s" "0 \<le> Fd_get a s"
  shows "raii_inv ((r_close (nat (Fd_get a s)) s)\<lparr>r_objs := (r_objs s)(a \<mapsto> - 1)\<rparr>)"
proof -
  have f: "fd_owner s (Inl a) = Some (nat (Fd_get a s))" using assms(2) by (simp add: fd_owner_def)
  then have o: "nat (Fd_get a s) \<in> r_open s" using assms(1) owns_in [of "fd_owner s"] by (auto simp: raii_inv_def)
  have "fd_owner ((r_close (nat (Fd_get a s)) s)\<lparr>r_objs := (r_objs s)(a \<mapsto> - 1)\<rparr>) = (fd_owner s)(Inl a := None)"
    using o by (auto simp: fun_eq_iff fd_owner_def r_close_def Fd_get_def split: sum.splits)
  then show ?thesis using assms(1) o f owns_drop [of "fd_owner s" "r_open s" "Inl a"] by (simp add: raii_inv_def r_close_def)
qed

lemma raii_inv_make:
  assumes "raii_inv s" "Fd_get a s < 0" "holds_raw fd s"
  shows "raii_inv (Fd_make a fd s)"
proof (cases "0 \<le> fd")
  case True
  then have "fd_owner (Fd_make a fd s) = (fd_owner s)(Inr (nat fd) := None, Inl a := Some (nat fd))"
    by (auto simp: fun_eq_iff fd_owner_def fd_defs split: sum.splits)
  moreover have "fd_owner s (Inr (nat fd)) = Some (nat fd)" "fd_owner s (Inl a) = None"
    using True assms(2,3) by (simp_all add: fd_owner_def holds_raw_def)
  ultimately show ?thesis using assms(1) owns_move [of "fd_owner s" "r_open s"] by (simp add: raii_inv_def Fd_make_def)
next
  case False
  then have "fd_owner (Fd_make a fd s) = fd_owner s"
    using assms(2) by (auto simp: fun_eq_iff fd_owner_def fd_defs split: sum.splits)
  then show ?thesis using assms(1) by (simp add: raii_inv_def Fd_make_def)
qed

lemma raii_inv_reset:
  assumes "raii_inv s" "holds_raw fd s"
  shows "raii_inv (Fd_reset a fd s)"
proof (cases "0 \<le> Fd_get a s")
  case True
  let ?t = "(r_close (nat (Fd_get a s)) s)\<lparr>r_objs := (r_objs s)(a \<mapsto> - 1)\<rparr>"
  have "Fd_reset a fd s = Fd_make a fd ?t" using True by (simp add: Fd_reset_def Fd_make_def r_close_def)
  moreover have "Fd_get a ?t < 0" "holds_raw fd ?t" using assms(2) by (simp_all add: Fd_get_def holds_raw_def r_close_def)
  ultimately show ?thesis using raii_inv_make [OF raii_inv_close [OF assms(1) True]] by simp
next
  case False
  then show ?thesis using raii_inv_make [OF assms(1), of a fd] assms(2) by (simp add: Fd_reset_def)
qed

lemma raii_inv_exchange:
  assumes "raii_inv s" "a \<noteq> b" "Fd_get a s < 0"
  shows "raii_inv (Fd_exchange a b s)"
proof (cases "0 \<le> Fd_get b s")
  case True
  then have "fd_owner (Fd_exchange a b s) = (fd_owner s)(Inl b := None, Inl a := Some (nat (Fd_get b s)))"
    using assms(2) by (auto simp: fun_eq_iff fd_owner_def fd_defs split: sum.splits)
  moreover have "fd_owner s (Inl b) = Some (nat (Fd_get b s))" "fd_owner s (Inl a) = None"
    using True assms(3) by (simp_all add: fd_owner_def)
  ultimately show ?thesis using assms(1) owns_move [of "fd_owner s" "r_open s"] by (simp add: raii_inv_def Fd_exchange_def)
next
  case False
  then have "fd_owner (Fd_exchange a b s) = fd_owner s"
    using assms(2,3) by (auto simp: fun_eq_iff fd_owner_def fd_defs split: sum.splits)
  then show ?thesis using assms(1) by (simp add: raii_inv_def Fd_exchange_def)
qed

lemma raii_inv_release:
  assumes "raii_inv s"
  shows "raii_inv (snd (Fd_release a s))"
proof (cases "0 \<le> Fd_get a s")
  case True
  let ?fd = "nat (Fd_get a s)"
  have f: "fd_owner s (Inl a) = Some ?fd" using True by (simp add: fd_owner_def)
  have "?fd \<notin> r_raw s"
    using assms f owns_unique [of "fd_owner s" "r_open s" "Inl a" ?fd "Inr ?fd"] by (auto simp: raii_inv_def fd_owner_def)
  moreover have "fd_owner (snd (Fd_release a s)) = (fd_owner s)(Inl a := None, Inr ?fd := Some ?fd)"
    using True by (auto simp: fun_eq_iff fd_owner_def fd_defs Let_def split: sum.splits)
  moreover from calculation(1) have "fd_owner s (Inr ?fd) = None" by (simp add: fd_owner_def)
  ultimately show ?thesis using assms f owns_move [of "fd_owner s" "r_open s"] by (simp add: raii_inv_def Fd_release_def Let_def)
next
  case False
  then have "fd_owner (snd (Fd_release a s)) = fd_owner s"
    by (auto simp: fun_eq_iff fd_owner_def fd_defs Let_def split: sum.splits)
  then show ?thesis using assms by (simp add: raii_inv_def Fd_release_def Let_def)
qed

lemma Fd_get_reset: "Fd_get a (Fd_reset a (- 1) s) = - 1" "b \<noteq> a \<Longrightarrow> Fd_get b (Fd_reset a fd s) = Fd_get b s"
  by (simp_all add: Fd_reset_def Fd_make_def Fd_get_def r_close_def)

lemma raii_inv_dead: "raii_inv s \<Longrightarrow> Fd_get a s < 0 \<Longrightarrow> raii_inv (s\<lparr>r_objs := (r_objs s)(a := None)\<rparr>)"
proof -
  assume a: "raii_inv s" "Fd_get a s < 0"
  then have "fd_owner (s\<lparr>r_objs := (r_objs s)(a := None)\<rparr>) = fd_owner s"
    by (auto simp: fun_eq_iff fd_owner_def Fd_get_def split: sum.splits)
  with a(1) show ?thesis by (simp add: raii_inv_def)
qed

lemma raii_inv_dtor: "raii_inv s \<Longrightarrow> raii_inv (Fd_dtor a s)"
  unfolding Fd_dtor_def Let_def
  by (rule raii_inv_dead [OF raii_inv_reset]) (simp_all add: holds_raw_def Fd_get_reset)

lemma raii_inv_open: "raii_inv s \<Longrightarrow> fd \<notin> r_open s \<Longrightarrow> raii_inv (s\<lparr>r_open := insert fd (r_open s), r_raw := insert fd (r_raw s)\<rparr>)"
proof -
  assume a: "raii_inv s" "fd \<notin> r_open s"
  then have "fd_owner s (Inr fd) = None" using owns_in [of "fd_owner s" "r_open s" "Inr fd"] by (auto simp: raii_inv_def fd_owner_def)
  moreover have "fd_owner (s\<lparr>r_open := insert fd (r_open s), r_raw := insert fd (r_raw s)\<rparr>) = (fd_owner s)(Inr fd := Some fd)"
    by (auto simp: fun_eq_iff fd_owner_def Fd_get_def split: sum.splits)
  ultimately show ?thesis using a owns_take [of "fd_owner s" "r_open s"] by (simp add: raii_inv_def)
qed

lemma raii_inv_raw_close: "raii_inv s \<Longrightarrow> fd \<in> r_raw s \<Longrightarrow> raii_inv ((r_close fd s)\<lparr>r_raw := r_raw s - {fd}\<rparr>)"
proof -
  assume a: "raii_inv s" "fd \<in> r_raw s"
  then have f: "fd_owner s (Inr fd) = Some fd" by (simp add: fd_owner_def)
  then have o: "fd \<in> r_open s" using a(1) owns_in [of "fd_owner s" "r_open s"] by (auto simp: raii_inv_def)
  have "fd_owner ((r_close fd s)\<lparr>r_raw := r_raw s - {fd}\<rparr>) = (fd_owner s)(Inr fd := None)"
    using o by (auto simp: fun_eq_iff fd_owner_def Fd_get_def r_close_def split: sum.splits)
  then show ?thesis using a(1) o f owns_drop [of "fd_owner s" "r_open s" "Inr fd"] by (simp add: raii_inv_def r_close_def)
qed

lemma raii_inv_exec:
  assumes "raii_inv s" "fd_legal op s"
  shows "raii_inv (fd_exec op s)"
proof (cases op)
  case (Op_default a)
  then have "Fd_default a s = Fd_make a (- 1) s" by (simp add: Fd_default_def Fd_make_def)
  then show ?thesis using Op_default assms raii_inv_make [of s a "- 1"] by (simp add: Fd_get_def holds_raw_def)
next
  case (Op_move_ctor a b)
  then have "a \<noteq> b" "Fd_get a s < 0" using assms(2) by (auto simp: Fd_get_def)
  then show ?thesis using Op_move_ctor assms(1) by (simp add: Fd_move_ctor_def raii_inv_exchange)
next
  case (Op_move_assign a b)
  show ?thesis
  proof (cases "a = b")
    case False
    have "raii_inv (Fd_reset a (- 1) s)" using assms(1) by (rule raii_inv_reset) (simp add: holds_raw_def)
    then show ?thesis using Op_move_assign False by (simp add: Fd_move_assign_def raii_inv_exchange Fd_get_reset)
  qed (use Op_move_assign assms(1) in \<open>simp add: Fd_move_assign_def\<close>)
qed (use assms in \<open>auto simp: raii_inv_make raii_inv_reset raii_inv_release raii_inv_dtor raii_inv_open raii_inv_raw_close Fd_get_def\<close>)

lemma raii_inv_run: "raii_inv s \<Longrightarrow> fd_run ops s = Some s' \<Longrightarrow> raii_inv s'"
  by (induction ops s rule: fd_run.induct) (auto simp: raii_inv_exec split: if_splits)

definition raii_init :: raii where
  "raii_init = \<lparr>r_open = {}, r_raw = {}, r_objs = Map.empty, r_bad = False\<rparr>"

lemma raii_inv_init: "raii_inv raii_init"
  by (auto simp: raii_inv_def raii_init_def owns_def fd_owner_def Fd_get_def split: sum.splits)

text \<open>
  C33: However a program opens, closes and releases descriptors and constructs, moves, assigns, resets and destroys
  \<open>Fd\<close> objects, a move assignment of an object to itself included, no descriptor is ever closed twice or after it was
  closed elsewhere; every open descriptor has exactly one owner, an object or the program; and when the objects are
  destroyed and the program holds none itself, none is open.
\<close>

theorem fd_objects_own:
  assumes "fd_run ops raii_init = Some s"
  shows "\<not> r_bad s \<and> (\<forall>fd \<in> r_open s. \<exists>!ow. fd_owner s ow = Some fd)
     \<and> ((\<forall>a. r_objs s a = None) \<and> r_raw s = {} \<longrightarrow> r_open s = {})"
proof (intro conjI ballI impI)
  have inv: "raii_inv s" using raii_inv_run [OF raii_inv_init assms] .
  then show "\<not> r_bad s" by (simp add: raii_inv_def)
  have o: "owns (fd_owner s) (r_open s)" using inv by (simp add: raii_inv_def)
  then show "\<exists>!ow. fd_owner s ow = Some fd" if "fd \<in> r_open s" for fd using that unfolding owns_def by blast
  assume "(\<forall>a. r_objs s a = None) \<and> r_raw s = {}"
  then have "fd_owner s ow = None" for ow by (simp add: fd_owner_def Fd_get_def split: sum.splits)
  with o show "r_open s = {}" by (rule owns_none)
qed

theorem fd_objects_own_witness:
  "\<exists>s. fd_run [K_open 3, Op_make 1 3, K_open 4, Op_make 2 4, Op_move_assign 1 2, Op_move_assign 1 1, Op_dtor 2] raii_init = Some s
     \<and> r_open s = {4} \<and> \<not> r_bad s \<and> (\<exists>!ow. fd_owner s ow = Some 4)"
proof -
  let ?ops = "[K_open 3, Op_make 1 3, K_open 4, Op_make 2 4, Op_move_assign 1 2, Op_move_assign 1 1, Op_dtor 2]"
  have "{4, 3} - {3} = {4 :: nat}" by auto
  then obtain s where s: "fd_run ?ops raii_init = Some s" "r_open s = {4}"
    by (simp add: raii_init_def holds_raw_def Fd_move_assign_def Fd_dtor_def Fd_reset_def Fd_make_def Fd_exchange_def Fd_get_def r_close_def Let_def)
  with fd_objects_own [OF s(1)] show ?thesis by auto
qed

section \<open>The class UnixSocket\<close>

text \<open>A socket object is its \<open>Fd\<close> member. The answers of the system calls are arguments: a new descriptor or an
  \<open>errno\<close>. \<open>fs\<close> is the set of paths that exist.\<close>

datatype uds_exn = System_error errno string | Length_error | Runtime_error

definition make_socket :: "errno + nat \<Rightarrow> nat \<Rightarrow> raii \<Rightarrow> uds_exn option \<times> raii" where
  "make_socket ans a s =
     (case ans of
        Inl e \<Rightarrow> (Some (System_error e ''socket''), s)
      | Inr fd \<Rightarrow> (None, Fd_make a (int fd) (fd_exec (K_open fd) s)))"

definition make_addr :: "bytes \<Rightarrow> uds_exn + sockaddr_un" where
  "make_addr path =
     (if SUN_PATH_SIZE \<le> length path then Inl Length_error
      else Inr \<lparr>sun_family = AF_UNIX, sun_path = overlay path (replicate SUN_PATH_SIZE NUL)\<rparr>)"

definition sock_listen :: "errno + nat \<Rightarrow> errno option \<Rightarrow> errno option \<Rightarrow> bytes \<Rightarrow> nat \<Rightarrow> bytes set \<times> raii \<Rightarrow> uds_exn option \<times> bytes set \<times> raii" where
  "sock_listen ans bind_err listen_err path a fss =
     (case fss of (fs, s) \<Rightarrow>
        case make_socket ans a s of
          (Some x, s1) \<Rightarrow> (Some x, fs, s1)
        | (None, s1) \<Rightarrow>
            (case make_addr path of
               Inl x \<Rightarrow> (Some x, fs, Fd_dtor a s1)
             | Inr addr \<Rightarrow>
                 (let fs1 = fs - {cstr path}
                  in case bind_err of
                       Some e \<Rightarrow> (Some (System_error e ''bind''), fs1, Fd_dtor a s1)
                     | None \<Rightarrow>
                         (let fs2 = insert (cstr (sun_path addr)) fs1
                          in case listen_err of
                               Some e \<Rightarrow> (Some (System_error e ''listen''), fs2, Fd_dtor a s1)
                             | None \<Rightarrow> (None, fs2, s1)))))"

definition sock_connect :: "errno + nat \<Rightarrow> errno option \<Rightarrow> bytes \<Rightarrow> nat \<Rightarrow> raii \<Rightarrow> uds_exn option \<times> raii" where
  "sock_connect ans connect_err path a s =
     (case make_socket ans a s of
        (Some x, s1) \<Rightarrow> (Some x, s1)
      | (None, s1) \<Rightarrow>
          (case make_addr path of
             Inl x \<Rightarrow> (Some x, Fd_dtor a s1)
           | Inr addr \<Rightarrow>
               (case connect_err of
                  Some e \<Rightarrow> (Some (System_error e ''connect''), Fd_dtor a s1)
                | None \<Rightarrow> (None, s1))))"

definition sock_accept :: "errno + nat \<Rightarrow> nat \<Rightarrow> raii \<Rightarrow> uds_exn option \<times> raii" where
  "sock_accept ans a s =
     (case ans of
        Inl e \<Rightarrow> (Some (System_error e ''accept''), s)
      | Inr c \<Rightarrow> (None, Fd_make a (int c) (fd_exec (K_open c) s)))"

definition sock_write_all :: "bytes \<Rightarrow> chan \<Rightarrow> uds_exn option \<times> chan" where
  "sock_write_all buf c = (case write_all buf c of (r, c') \<Rightarrow> (map_option (\<lambda>e. System_error e ''write'') r, c'))"

function read_some :: "nat \<Rightarrow> chan \<Rightarrow> (uds_exn + nat) \<times> bytes \<times> chan" where
  "read_some len c =
     (case kread len c of
        (Inl e, bs, c') \<Rightarrow> if e = EINTR then read_some len c' else (Inl (System_error e ''read''), bs, c')
      | (Inr r, bs, c') \<Rightarrow> (Inr r, bs, c'))"
  by pat_completeness auto
termination by (relation "measure (\<lambda>(len, c). length (k_rsched c))") (auto dest: kread_Inl_less)

definition sock_send_fd :: "errno \<Rightarrow> fdtab \<Rightarrow> int \<Rightarrow> uds_exn + flight" where
  "sock_send_fd e tab fd_to_send =
     (case k_sendmsg tab (send_fd_msg fd_to_send) of
        None \<Rightarrow> Inl (System_error e ''sendmsg'')
      | Some m \<Rightarrow> Inr m)"

text \<open>\<open>recvmsg\<close> fails or delivers a message; a descriptor in it is opened under the number \<open>new\<close>.\<close>

definition sock_recv_fd :: "errno + flight \<Rightarrow> nat \<Rightarrow> nat \<Rightarrow> raii \<Rightarrow> uds_exn option \<times> raii" where
  "sock_recv_fd ans new a s =
     (case ans of
        Inl e \<Rightarrow> (Some (System_error e ''recvmsg''), s)
      | Inr m \<Rightarrow>
          (let s1 = (if snd m = None then s else fd_exec (K_open new) s)
           in case recv_fd_msg (fst (k_recvmsg new Map.empty m)) of
                None \<Rightarrow> (Some Runtime_error, s1)
              | Some received \<Rightarrow> (None, Fd_make a received s1)))"

text \<open>
  A step that yields a new object or throws: on an exception nothing has changed, on success the
  object at \<open>a\<close> owns exactly the new descriptor.
\<close>

definition yields :: "nat \<Rightarrow> raii \<Rightarrow> uds_exn option \<Rightarrow> raii \<Rightarrow> bool" where
  "yields a s x s' \<longleftrightarrow>
     (if x = None then \<exists>fd. fd \<notin> r_open s \<and> s' = s\<lparr>r_open := insert fd (r_open s), r_objs := (r_objs s)(a \<mapsto> int fd)\<rparr> else s' = s)"

lemma make_open:
  assumes "fd \<notin> r_open s" "r_raw s = {}"
  shows "Fd_make a (int fd) (fd_exec (K_open fd) s) = s\<lparr>r_open := insert fd (r_open s), r_objs := (r_objs s)(a \<mapsto> int fd)\<rparr>"
  using assms by (cases s) (simp add: Fd_make_def)

lemma dtor_new:
  assumes "fd \<notin> r_open s" "r_raw s = {}" "r_objs s a = None"
  shows "Fd_dtor a (s\<lparr>r_open := insert fd (r_open s), r_objs := (r_objs s)(a \<mapsto> int fd)\<rparr>) = s"
  using assms by (cases s) (auto simp: Fd_dtor_def Fd_reset_def Fd_make_def Fd_get_def r_close_def Let_def)

definition fresh_answer :: "errno + nat \<Rightarrow> raii \<Rightarrow> bool" where
  "fresh_answer ans s \<longleftrightarrow> (\<forall>fd. ans = Inr fd \<longrightarrow> fd \<notin> r_open s)"

lemma make_socket_yields: "fresh_answer ans s \<Longrightarrow> r_raw s = {} \<Longrightarrow> make_socket ans a s = (x, s') \<Longrightarrow> yields a s x s'"
  by (auto simp: make_socket_def yields_def fresh_answer_def make_open simp del: fd_exec.simps split: sum.splits)

lemma accept_yields: "fresh_answer ans s \<Longrightarrow> r_raw s = {} \<Longrightarrow> sock_accept ans a s = (x, s') \<Longrightarrow> yields a s x s'"
  by (auto simp: sock_accept_def yields_def fresh_answer_def make_open simp del: fd_exec.simps split: sum.splits)

lemma yields_dtor: "yields a s None s' \<Longrightarrow> r_raw s = {} \<Longrightarrow> r_objs s a = None \<Longrightarrow> Fd_dtor a s' = s"
  by (auto simp: yields_def dtor_new)

lemma listen_yields:
  assumes "fresh_answer ans s" "r_raw s = {}" "r_objs s a = None" "sock_listen ans be le path a (fs, s) = (x, fs', s')"
  shows "yields a s x s'"
proof -
  obtain y t where m: "make_socket ans a s = (y, t)" by (cases "make_socket ans a s")
  have y: "yields a s y t" using make_socket_yields [OF assms(1,2) m] .
  show ?thesis
  proof (cases y)
    case None
    then have "Fd_dtor a t = s" using y yields_dtor [OF _ assms(2,3)] by blast
    then show ?thesis using assms(4) m None y
      by (auto simp: sock_listen_def Let_def yields_def split: sum.splits option.splits)
  qed (use assms(4) m y in \<open>auto simp: sock_listen_def yields_def\<close>)
qed

lemma connect_yields:
  assumes "fresh_answer ans s" "r_raw s = {}" "r_objs s a = None" "sock_connect ans ce path a s = (x, s')"
  shows "yields a s x s'"
proof -
  obtain y t where m: "make_socket ans a s = (y, t)" by (cases "make_socket ans a s")
  have y: "yields a s y t" using make_socket_yields [OF assms(1,2) m] .
  show ?thesis
  proof (cases y)
    case None
    then have "Fd_dtor a t = s" using y yields_dtor [OF _ assms(2,3)] by blast
    then show ?thesis using assms(4) m None y
      by (auto simp: sock_connect_def yields_def split: sum.splits option.splits)
  qed (use assms(4) m y in \<open>auto simp: sock_connect_def yields_def\<close>)
qed

lemma recv_yields:
  assumes "new \<notin> r_open s" "r_raw s = {}" "sock_recv_fd ans new a s = (x, s')"
  shows "yields a s x s'"
  using assms
  by (auto simp: sock_recv_fd_def yields_def k_recvmsg_def recv_fd_msg_def make_open Let_def SOL_SOCKET_def SCM_RIGHTS_def CMSG_LEN_int_def
      simp del: fd_exec.simps split: sum.splits prod.splits option.splits if_splits)

lemma make_addr_fill: "\<not> is_abstract path \<Longrightarrow> make_addr path = (case fill_uds_addr path of None \<Rightarrow> Inl Length_error | Some a \<Rightarrow> Inr (fst a))"
  by (auto simp: make_addr_def fill_uds_addr_def is_abstract_def Let_def)

lemma read_some_calm:
  assumes "rd_only_eintr c"
  shows "\<exists>bs c'. read_some n c = (Inr (length bs), bs, c') \<and> bs @ k_in c' = k_in c \<and> length bs \<le> n \<and> (0 < n \<and> k_in c \<noteq> [] \<longrightarrow> bs \<noteq> [])"
  using assms
proof (induction n c rule: read_some.induct)
  case (1 n c)
  obtain r bs c' where k: "kread n c = (r, bs, c')" by (cases "kread n c")
  show ?case
  proof (cases r)
    case (Inl e)
    then have "e = EINTR" "rd_only_eintr c'" "bs @ k_in c' = k_in c" "bs = []"
      using k "1.prems" ks.rd_retry ks.rd_clean ks.rd_conserve ks.rd_fail by auto
    then show ?thesis using 1 k Inl by (subst read_some.simps) simp
  next
    case (Inr m)
    then have m: "m = length bs" "m \<le> n" "bs @ k_in c' = k_in c" using k ks.rd_count ks.rd_conserve by auto
    then have "0 < n \<Longrightarrow> bs = [] \<Longrightarrow> k_in c = []" using k Inr ks.rd_eof by auto
    with m show ?thesis using k Inr by (subst read_some.simps) auto
  qed
qed

section \<open>The program passfd\_cpp\<close>

definition kSockPath :: bytes where "kSockPath = ''/tmp/csapp_passfd_cpp.sock''"

text \<open>The loop that reads the file through the received descriptor; any failure of \<open>read\<close> ends it.\<close>

function read_content :: "bytes \<Rightarrow> chan \<Rightarrow> bytes \<times> chan" where
  "read_content content c =
     (case kread 256 c of
        (Inl e, bs, c') \<Rightarrow> (content, c')
      | (Inr n, bs, c') \<Rightarrow> if n = 0 then (content, c') else read_content (content @ bs) c')"
  by pat_completeness auto
termination
proof (relation "measure (\<lambda>(content, c). length (k_in c))", goal_cases)
  case (2 content c r rest n bs c')
  then have k: "kread 256 c = (Inr n, bs, c')" by simp
  then have "length bs + length (k_in c') = length (k_in c)" using ks.rd_conserve [OF TrueI k] by (metis length_append)
  moreover have "0 < length bs" using 2 ks.rd_count [OF TrueI k] by auto
  ultimately have "length (k_in c') < length (k_in c)" by linarith
  then show ?case by simp
qed simp

declare read_content.simps [simp del]

record child_answers =
  ca_socket :: "errno + nat"
  ca_connect :: "errno option"
  ca_recv :: "errno + flight"
  ca_new :: nat
  ca_file :: chan

record parent_answers =
  pa_accept :: "errno + nat"
  pa_open :: "errno + nat"
  pa_send :: "errno option"

text \<open>
  The objects are the listener at 1, the connection at 2 and the file at 3; they are destroyed in the reverse order
  of their construction, whichever way the block is left. The results are the exit status, the content read
  and the paths that exist.
\<close>

definition child_main :: "child_answers \<Rightarrow> bytes set \<times> raii \<Rightarrow> int \<times> bytes option \<times> bytes set \<times> raii" where
  "child_main k fss =
     (case fss of (fs, s) \<Rightarrow>
        case sock_connect (ca_socket k) (ca_connect k) kSockPath 2 s of
          (Some x, s1) \<Rightarrow> (1, None, fs - {kSockPath}, Fd_dtor 1 s1)
        | (None, s1) \<Rightarrow>
            (case sock_recv_fd (ca_recv k) (ca_new k) 3 s1 of
               (Some x, s2) \<Rightarrow> (1, None, fs - {kSockPath}, Fd_dtor 1 (Fd_dtor 2 s2))
             | (None, s2) \<Rightarrow> (0, Some (fst (read_content [] (ca_file k))), fs, Fd_dtor 1 (Fd_dtor 2 (Fd_dtor 3 s2)))))"

definition parent_main :: "parent_answers \<Rightarrow> bytes set \<times> raii \<Rightarrow> int \<times> bytes set \<times> raii" where
  "parent_main k fss =
     (case fss of (fs, s) \<Rightarrow>
        case sock_accept (pa_accept k) 2 s of
          (Some x, s1) \<Rightarrow> (1, fs - {kSockPath}, Fd_dtor 1 s1)
        | (None, s1) \<Rightarrow>
            (let s2 = (case pa_open k of
                         Inl e \<Rightarrow> Fd_make 3 (- 1) s1
                       | Inr fd \<Rightarrow> Fd_make 3 (int fd) (fd_exec (K_open fd) s1));
                 s3 = Fd_dtor 1 (Fd_dtor 2 (Fd_dtor 3 s2))
             in if \<not> Fd_bool 3 s2 then (1, fs, s3)
                else if pa_send k \<noteq> None then (1, fs - {kSockPath}, s3)
                else (0, fs - {kSockPath}, s3)))"

text \<open>The start of \<open>main\<close>: \<open>Inl\<close> when it ends there, \<open>Inr\<close> with the state parent and child go on from.\<close>

definition cpp_start :: "errno + nat \<Rightarrow> errno option \<Rightarrow> errno option \<Rightarrow> bool \<Rightarrow> bytes set \<Rightarrow> (int \<times> bytes set \<times> raii) + (bytes set \<times> raii)" where
  "cpp_start ans bind_err listen_err forks fs =
     (case sock_listen ans bind_err listen_err kSockPath 1 (fs, raii_init) of
        (Some x, fs1, s) \<Rightarrow> Inl (1, fs1 - {kSockPath}, s)
      | (None, fs1, s) \<Rightarrow> if forks then Inr (fs1, s) else Inl (1, fs1, Fd_dtor 1 s))"

lemma read_content_all:
  assumes "k_rsched c = []"
  shows "\<exists>c'. read_content content c = (content @ k_in c, c')"
  using assms
proof (induction content c rule: read_content.induct)
  case (1 content c)
  have k: "kread 256 c = (Inr (length (take 256 (k_in c))), take 256 (k_in c), c\<lparr>k_in := drop 256 (k_in c)\<rparr>)"
    using "1.prems" by (simp add: kread_def give_def)
  show ?case
  proof (cases "k_in c = []")
    case True
    then show ?thesis using k by (subst read_content.simps) simp
  next
    case False
    then show ?thesis using 1(1) [OF k [symmetric] refl refl] k "1.prems"
      by (subst read_content.simps) auto
  qed
qed

text \<open>A state with the objects below \<open>n\<close> constructed, on top of a state without objects.\<close>

lemma yields_unwind:
  assumes "yields a s None s'" "r_raw s = {}" "r_objs s a = None"
  shows "Fd_dtor a s' = s" "r_raw s' = {}" "b \<noteq> a \<Longrightarrow> r_objs s' b = r_objs s b" "r_open s \<subseteq> r_open s'"
proof -
  show "Fd_dtor a s' = s" using assms by (rule yields_dtor)
  show "r_raw s' = {}" "b \<noteq> a \<Longrightarrow> r_objs s' b = r_objs s b" "r_open s \<subseteq> r_open s'"
    using assms by (auto simp: yields_def)
qed

lemma passfd_cpp_child:
  assumes "yields 1 raii_init None s" "fresh_answer (ca_socket k) s"
    and "\<And>x t. sock_connect (ca_socket k) (ca_connect k) kSockPath 2 s = (x, t) \<Longrightarrow> ca_new k \<notin> r_open t"
  shows "snd (snd (snd (child_main k (fs, s)))) = raii_init"
proof -
  have i: "r_raw raii_init = {}" "\<And>a. r_objs raii_init a = None" by (simp_all add: raii_init_def)
  note s = yields_unwind [OF assms(1) i]
  obtain x t where c: "sock_connect (ca_socket k) (ca_connect k) kSockPath 2 s = (x, t)" by fastforce
  have y: "yields 2 s x t" using connect_yields [OF assms(2) s(2) _ c] s(3) i(2) by simp
  show ?thesis
  proof (cases x)
    case (Some e)
    then have "t = s" using y by (simp add: yields_def)
    then show ?thesis using c Some s(1) by (simp add: child_main_def)
  next
    case None
    then have y: "yields 2 s None t" using y by simp
    note t = yields_unwind [OF y s(2)]
    obtain z u where r: "sock_recv_fd (ca_recv k) (ca_new k) 3 t = (z, u)" by fastforce
    have z: "yields 3 t z u" using recv_yields [OF assms(3) [OF c] _ r] t(2) s(3) i(2) by simp
    have "Fd_dtor 1 (Fd_dtor 2 (if z = None then Fd_dtor 3 u else u)) = raii_init"
      using z t(1,2,3) s(1,3) i(2) yields_unwind(1) [of 3 t u] by (cases z) (auto simp: yields_def)
    then show ?thesis using c None r by (cases z) (auto simp: child_main_def)
  qed
qed

lemma passfd_cpp_parent:
  assumes "yields 1 raii_init None s" "fresh_answer (pa_accept k) s"
    and "\<And>x t. sock_accept (pa_accept k) 2 s = (x, t) \<Longrightarrow> fresh_answer (pa_open k) t"
  shows "snd (snd (parent_main k (fs, s))) = raii_init"
proof -
  have i: "r_raw raii_init = {}" "\<And>a. r_objs raii_init a = None" by (simp_all add: raii_init_def)
  note s = yields_unwind [OF assms(1) i]
  obtain x t where c: "sock_accept (pa_accept k) 2 s = (x, t)" by fastforce
  have y: "yields 2 s x t" using accept_yields [OF assms(2) s(2) c] .
  show ?thesis
  proof (cases x)
    case (Some e)
    then have "t = s" using y by (simp add: yields_def)
    then show ?thesis using c Some s(1) by (simp add: parent_main_def)
  next
    case None
    then have y: "yields 2 s None t" using y by simp
    note t = yields_unwind [OF y s(2)]
    have o: "r_objs t 3 = None" "r_raw t = {}" using t(2,3) s(3) i(2) by simp_all
    let ?u = "case pa_open k of Inl e \<Rightarrow> Fd_make 3 (- 1) t | Inr fd \<Rightarrow> Fd_make 3 (int fd) (fd_exec (K_open fd) t)"
    have "Fd_dtor 3 ?u = t"
    proof (cases "pa_open k")
      case (Inl e)
      then show ?thesis using o by (cases t) (auto simp: Fd_dtor_def Fd_reset_def Fd_make_def Fd_get_def Let_def)
    next
      case (Inr fd)
      then have "fd \<notin> r_open t" using assms(3) [OF c] by (simp add: fresh_answer_def)
      then show ?thesis using Inr o by (simp add: make_open dtor_new del: fd_exec.simps)
    qed
    then have "Fd_dtor 1 (Fd_dtor 2 (Fd_dtor 3 ?u)) = raii_init" using t(1) s(1,3) i(2) by simp
    then show ?thesis using c None by (simp add: parent_main_def Let_def)
  qed
qed

lemma cpp_start_listens:
  assumes "fresh_answer ans raii_init"
  shows "cpp_start ans be le forks fs = Inr (fs1, s) \<Longrightarrow> yields 1 raii_init None s"
    and "cpp_start ans be le forks fs = Inl (st, fs1, s) \<Longrightarrow> s = raii_init"
proof -
  have i: "r_raw raii_init = {}" "r_objs raii_init 1 = None" by (simp_all add: raii_init_def)
  obtain x fs2 t where l: "sock_listen ans be le kSockPath 1 (fs, raii_init) = (x, fs2, t)" by (metis prod_cases3)
  note y = listen_yields [OF assms i l]
  show "cpp_start ans be le forks fs = Inr (fs1, s) \<Longrightarrow> yields 1 raii_init None s"
    using l y by (auto simp: cpp_start_def split: option.splits if_splits)
  show "cpp_start ans be le forks fs = Inl (st, fs1, s) \<Longrightarrow> s = raii_init"
    using l y yields_unwind(1) [of 1 raii_init t] i by (auto simp: cpp_start_def yields_def split: option.splits if_splits)
qed

text \<open>
  Whichever system call of \<open>passfd_cpp.cpp\<close> fails, no descriptor and no object is left when a process
  ends, although no destructor is called by hand; a child that ends with status 0 has read the whole file through
  the descriptor it received, and a parent that ends with status 0 has removed the socket file.
\<close>

lemma passfd_cpp_releases:
  assumes "fresh_answer ans raii_init" "cpp_start ans be le True fs = Inr (fs1, s)"
    and "fresh_answer (ca_socket k) s" "fresh_answer (pa_accept p) s"
    and "\<And>x t. sock_connect (ca_socket k) (ca_connect k) kSockPath 2 s = (x, t) \<Longrightarrow> ca_new k \<notin> r_open t"
    and "\<And>x t. sock_accept (pa_accept p) 2 s = (x, t) \<Longrightarrow> fresh_answer (pa_open p) t"
    and "child_main k (fs1, s) = (cst, content, cfs, cs)" "parent_main p (fs1, s) = (pst, pfs, ps)"
  shows "cs = raii_init \<and> ps = raii_init
    \<and> (cst = 0 \<and> k_rsched (ca_file k) = [] \<longrightarrow> content = Some (k_in (ca_file k)))
    \<and> (pst = 0 \<longrightarrow> kSockPath \<notin> pfs)"
proof (intro conjI impI)
  have y: "yields 1 raii_init None s" using cpp_start_listens(1) [OF assms(1,2)] .
  show "cs = raii_init" using passfd_cpp_child [OF y assms(3,5), of "\<lambda>x t. x" fs1] assms(7) by auto
  show "ps = raii_init" using passfd_cpp_parent [OF y assms(4,6), of "\<lambda>x t. x" fs1] assms(8) by auto
  show "content = Some (k_in (ca_file k))" if "cst = 0 \<and> k_rsched (ca_file k) = []"
    using that assms(7) read_content_all [of "ca_file k" "[]"] by (auto simp: child_main_def split: prod.splits option.splits)
  show "kSockPath \<notin> pfs" if "pst = 0"
    using that assms(8) by (auto simp: parent_main_def Let_def split: prod.splits option.splits if_splits)
qed

lemma passfd_cpp_releases_witness:
  "\<exists>fs s cfs cs. cpp_start (Inr 3) None None True {} = Inr (fs, s)
     \<and> child_main \<lparr>ca_socket = Inr 4, ca_connect = None, ca_recv = Inr (''*'', Some 9), ca_new = 5,
          ca_file = \<lparr>k_in = ''host'', k_rsched = [], k_out = [], k_wsched = []\<rparr>\<rparr> (fs, s) = (0, Some ''host'', cfs, cs) \<and> cs = raii_init"
proof -
  let ?k = "\<lparr>ca_socket = Inr 4, ca_connect = None, ca_recv = Inr (''*'', Some 9), ca_new = 5, ca_file = \<lparr>k_in = ''host'', k_rsched = [], k_out = [], k_wsched = []\<rparr>\<rparr>"
  let ?p = "\<lparr>pa_accept = Inr 4, pa_open = Inr 5, pa_send = None\<rparr>"
  let ?s = "raii_init\<lparr>r_open := {3}, r_objs := [1 \<mapsto> 3]\<rparr>"
  have a: "make_addr kSockPath \<noteq> Inl x" for x by (simp add: make_addr_def kSockPath_def SUN_PATH_SIZE_def)
  then obtain addr where addr: "make_addr kSockPath = Inr addr" by (cases "make_addr kSockPath") auto
  then obtain fs where st: "cpp_start (Inr 3) None None True {} = Inr (fs, ?s)"
    by (simp add: cpp_start_def sock_listen_def make_socket_def Let_def raii_init_def Fd_make_def)
  obtain cfs cs c where ch: "child_main ?k (fs, ?s) = (0, c, cfs, cs)"
    by (simp add: child_main_def sock_connect_def make_socket_def addr sock_recv_fd_def k_recvmsg_def recv_fd_msg_def Let_def)
  obtain pst pfs ps where pa: "parent_main ?p (fs, ?s) = (pst, pfs, ps)" by (metis prod_cases3)
  have "cs = raii_init \<and> (0 = (0 :: int) \<and> k_rsched (ca_file ?k) = [] \<longrightarrow> c = Some (k_in (ca_file ?k)))"
    using passfd_cpp_releases [OF _ st _ _ _ _ ch pa]
    by (force simp: fresh_answer_def raii_init_def sock_connect_def make_socket_def addr sock_accept_def Fd_make_def)
  with st ch show ?thesis by auto
qed

end
