(* ===== verification/Http_Client.thy ===== *)
theory Http_Client
  imports CS_Prelude
begin

text \<open>
  \<open>Chapter11/experiments/http_client.cpp\<close>, a client over libcurl. The library is a parameter: \<open>curl\<close> answers
  the request that the options of the handle describe with the chunks of a body, a result code, a status and an error
  text, and calls the write callback for every chunk as it documents, ending the transfer when the callback
  does not return the size it was given. \<open>grow n\<close> says whether a string can grow to \<open>n\<close> bytes, and \<open>strerror\<close> is the
  text of a code. A header list lives in a heap; reading one that was freed is \<open>None\<close>.
  The client ignores the results of \<open>curl_easy_setopt\<close> and \<open>curl_slist_append\<close>; here these calls succeed.
\<close>

section \<open>Model\<close>

datatype http_method = M_get | M_post bytes

record wire_request =
  wr_method :: http_method
  wr_url :: bytes
  wr_headers :: "bytes list"

record curl_answer =
  an_chunks :: "bytes list"
  an_code :: nat
  an_status :: int
  an_err :: bytes

record easy_handle =
  ez_method :: http_method
  ez_url :: bytes
  ez_headers :: "nat option"

record http_client =
  cl_handle :: easy_handle
  cl_body :: bytes
  cl_errbuf :: bytes
  cl_slists :: "nat \<Rightarrow> bytes list option"

record http_response =
  rs_status :: int
  rs_body :: bytes

definition response_ok :: "http_response \<Rightarrow> bool" where
  "response_ok r \<longleftrightarrow> 200 \<le> rs_status r \<and> rs_status r < 300"

abbreviation CURLE_WRITE_ERROR :: nat where "CURLE_WRITE_ERROR \<equiv> 23"

definition new_client :: http_client where
  "new_client = \<lparr>cl_handle = \<lparr>ez_method = M_get, ez_url = [], ez_headers = None\<rparr>, cl_body = [], cl_errbuf = [], cl_slists = Map.empty\<rparr>"

text \<open>The callback: the value returned and the string it appends to.\<close>

definition write_to_string :: "(nat \<Rightarrow> bool) \<Rightarrow> bytes \<Rightarrow> nat \<Rightarrow> nat \<Rightarrow> bytes \<Rightarrow> nat \<times> bytes" where
  "write_to_string grow ptr sz nmemb out =
     (let total = (sz * nmemb) mod 2 ^ 64
      in if grow (length out + total) then (total, out @ take total ptr) else (0, out))"

fun deliver :: "(nat \<Rightarrow> bool) \<Rightarrow> bytes list \<Rightarrow> bytes \<Rightarrow> bool \<times> bytes" where
  "deliver grow [] body = (True, body)"
| "deliver grow (c # cs) body =
     (case write_to_string grow c 1 (length c) body of (r, body') \<Rightarrow>
        if r = length c then deliver grow cs body' else (False, body'))"

definition reset_per_request :: "http_client \<Rightarrow> http_client" where
  "reset_per_request cl = cl\<lparr>cl_body := [], cl_errbuf := [], cl_handle := (cl_handle cl)\<lparr>ez_headers := None\<rparr>\<rparr>"

text \<open>\<open>perform\<close>: the response, or the text of the exception.\<close>

definition perform :: "(wire_request \<Rightarrow> curl_answer) \<Rightarrow> (nat \<Rightarrow> bool) \<Rightarrow> (nat \<Rightarrow> bytes) \<Rightarrow> http_client \<Rightarrow> ((bytes + http_response) \<times> http_client) option" where
  "perform curl grow strerror cl =
     (let h = cl_handle cl
      in case (case ez_headers h of None \<Rightarrow> Some [] | Some p \<Rightarrow> cl_slists cl p) of
           None \<Rightarrow> None
         | Some hs \<Rightarrow>
             (let ans = curl \<lparr>wr_method = ez_method h, wr_url = ez_url h, wr_headers = hs\<rparr>;
                  d = deliver grow (an_chunks ans) (cl_body cl);
                  rc = (if fst d then an_code ans else CURLE_WRITE_ERROR);
                  cl1 = cl\<lparr>cl_body := snd d, cl_errbuf := (if rc = 0 then cl_errbuf cl else an_err ans)\<rparr>
              in if rc \<noteq> 0 then Some (Inl (if cl_errbuf cl1 \<noteq> [] then cl_errbuf cl1 else strerror rc), cl1)
                 else Some (Inr \<lparr>rs_status = an_status ans, rs_body = cl_body cl1\<rparr>, cl1)))"

definition http_get :: "(wire_request \<Rightarrow> curl_answer) \<Rightarrow> (nat \<Rightarrow> bool) \<Rightarrow> (nat \<Rightarrow> bytes) \<Rightarrow> bytes \<Rightarrow> http_client \<Rightarrow> ((bytes + http_response) \<times> http_client) option" where
  "http_get curl grow strerror url cl =
     (let cl1 = reset_per_request cl
      in perform curl grow strerror (cl1\<lparr>cl_handle := (cl_handle cl1)\<lparr>ez_url := cstr url, ez_method := M_get\<rparr>\<rparr>))"

text \<open>The list of headers is allocated at \<open>p\<close> and freed by its guard when the function is left, normally or by an
  exception; the handle keeps the pointer.\<close>

definition JSON_HEADER :: bytes where "JSON_HEADER = ''Content-Type: application/json''"

definition post_json :: "(wire_request \<Rightarrow> curl_answer) \<Rightarrow> (nat \<Rightarrow> bool) \<Rightarrow> (nat \<Rightarrow> bytes) \<Rightarrow> nat \<Rightarrow> bytes \<Rightarrow> bytes \<Rightarrow> http_client \<Rightarrow> ((bytes + http_response) \<times> http_client) option" where
  "post_json curl grow strerror p url json cl =
     (let cl1 = reset_per_request cl;
          cl2 = cl1\<lparr>cl_handle := (cl_handle cl1)\<lparr>ez_url := cstr url, ez_method := M_post (cstr json)\<rparr>\<rparr>;
          cl3 = cl2\<lparr>cl_slists := (cl_slists cl2)(p \<mapsto> [JSON_HEADER])\<rparr>;
          cl4 = cl3\<lparr>cl_handle := (cl_handle cl3)\<lparr>ez_headers := Some p\<rparr>\<rparr>
      in map_option (\<lambda>(r, cl5). (r, cl5\<lparr>cl_slists := (cl_slists cl5)(p := None)\<rparr>)) (perform curl grow strerror cl4))"

text \<open>A session with one client: every request with the answers libcurl has for it.\<close>

datatype http_call = Call_get bytes | Call_post nat bytes bytes

fun session :: "(nat \<Rightarrow> bool) \<Rightarrow> (nat \<Rightarrow> bytes) \<Rightarrow> (http_call \<times> (wire_request \<Rightarrow> curl_answer)) list \<Rightarrow> http_client \<Rightarrow> ((bytes + http_response) list \<times> http_client) option" where
  "session grow strerror [] cl = Some ([], cl)"
| "session grow strerror ((call, curl) # calls) cl =
     (case (case call of
              Call_get url \<Rightarrow> http_get curl grow strerror url cl
            | Call_post p url json \<Rightarrow> post_json curl grow strerror p url json cl) of
        None \<Rightarrow> None
      | Some (r, cl') \<Rightarrow> map_option (\<lambda>(rs, cl''). (r # rs, cl'')) (session grow strerror calls cl'))"

text \<open>\<open>main\<close>: a GET of the address given or the default one, then a POST; the first exception ends it with status 1.
  The responses are what it prints.\<close>

definition main_calls :: "bytes list \<Rightarrow> http_call \<times> http_call" where
  "main_calls argv =
     (Call_get (if 1 < length argv then argv ! 1 else ''https://httpbin.org/get''),
      Call_post 0 ''https://httpbin.org/post'' ([CHR 0x7B, CHR 0x22] @ ''name'' @ [CHR 0x22, CHR 0x3A, CHR 0x22] @ ''yanxu'' @
        [CHR 0x22, CHR 0x2C, CHR 0x22] @ ''chapter'' @ [CHR 0x22, CHR 0x3A] @ ''11'' @ [CHR 0x7D]))"

definition http_main :: "(nat \<Rightarrow> bool) \<Rightarrow> (nat \<Rightarrow> bytes) \<Rightarrow> (wire_request \<Rightarrow> curl_answer) \<Rightarrow> bytes list \<Rightarrow> (int \<times> http_response list) option" where
  "http_main grow strerror curl argv =
     (case session grow strerror [(fst (main_calls argv), curl)] new_client of
        None \<Rightarrow> None
      | Some (rs1, cl) \<Rightarrow>
          (case hd rs1 of
             Inl msg \<Rightarrow> Some (1, [])
           | Inr r \<Rightarrow>
               (case session grow strerror [(snd (main_calls argv), curl)] cl of
                  None \<Rightarrow> None
                | Some (rs2, cl2) \<Rightarrow> (case hd rs2 of Inl msg \<Rightarrow> Some (1, [r]) | Inr r2 \<Rightarrow> Some (0, [r, r2])))))"

section \<open>The reference: a request on its own\<close>

fun wire_of :: "http_call \<Rightarrow> wire_request" where
  "wire_of (Call_get url) = \<lparr>wr_method = M_get, wr_url = cstr url, wr_headers = []\<rparr>"
| "wire_of (Call_post p url json) = \<lparr>wr_method = M_post (cstr json), wr_url = cstr url, wr_headers = [JSON_HEADER]\<rparr>"

definition outcome :: "(nat \<Rightarrow> bool) \<Rightarrow> (nat \<Rightarrow> bytes) \<Rightarrow> curl_answer \<Rightarrow> bytes + http_response" where
  "outcome grow strerror ans =
     (let d = deliver grow (an_chunks ans) []; rc = (if fst d then an_code ans else CURLE_WRITE_ERROR)
      in if rc = 0 then Inr \<lparr>rs_status = an_status ans, rs_body = concat (an_chunks ans)\<rparr>
         else Inl (if an_err ans \<noteq> [] then an_err ans else strerror rc))"

lemma deliver_all:
  assumes "\<forall>c \<in> set cs. length c < 2 ^ 64" "deliver grow cs body = (True, out)"
  shows "out = body @ concat cs"
  using assms
proof (induction grow cs body rule: deliver.induct)
  case (2 grow c cs body)
  then have "length c mod 2 ^ 64 = length c" by simp
  with 2 show ?case by (cases "c = []") (auto simp: write_to_string_def Let_def split: if_splits)
qed simp

text \<open>Between requests no header list is alive: only the stale pointer in the handle is left.\<close>

lemma perform_outcome:
  assumes "\<forall>c \<in> set (an_chunks (curl w)). length c < 2 ^ 64"
    and "w = \<lparr>wr_method = ez_method (cl_handle cl), wr_url = ez_url (cl_handle cl), wr_headers = hs\<rparr>"
    and "(case ez_headers (cl_handle cl) of None \<Rightarrow> Some [] | Some p \<Rightarrow> cl_slists cl p) = Some hs" "cl_body cl = []" "cl_errbuf cl = []"
  shows "\<exists>cl'. perform curl grow strerror cl = Some (outcome grow strerror (curl w), cl') \<and> cl_slists cl' = cl_slists cl"
proof -
  obtain ok out where d: "deliver grow (an_chunks (curl w)) [] = (ok, out)" by fastforce
  have "ok \<Longrightarrow> out = concat (an_chunks (curl w))" using deliver_all [OF assms(1), of grow "[]"] d by simp
  then show ?thesis using assms(2-5) d by (auto simp: perform_def outcome_def Let_def)
qed

lemma call_outcome:
  assumes "\<forall>c \<in> set (an_chunks (curl (wire_of call))). length c < 2 ^ 64" "cl_slists cl = Map.empty"
  shows "\<exists>cl'. (case call of Call_get url \<Rightarrow> http_get curl grow strerror url cl | Call_post p url json \<Rightarrow> post_json curl grow strerror p url json cl)
       = Some (outcome grow strerror (curl (wire_of call)), cl') \<and> cl_slists cl' = Map.empty"
proof (cases call)
  case (Call_get url)
  let ?cl = "(reset_per_request cl)\<lparr>cl_handle := (cl_handle (reset_per_request cl))\<lparr>ez_url := cstr url, ez_method := M_get\<rparr>\<rparr>"
  obtain cl' where "perform curl grow strerror ?cl = Some (outcome grow strerror (curl (wire_of call)), cl')" "cl_slists cl' = cl_slists ?cl"
    using perform_outcome [of curl "wire_of call" ?cl "[]" grow strerror] assms Call_get by (auto simp: reset_per_request_def)
  then show ?thesis using Call_get assms(2) by (simp add: http_get_def Let_def reset_per_request_def)
next
  case (Call_post p url json)
  let ?cl = "(reset_per_request cl)\<lparr>cl_slists := [p \<mapsto> [JSON_HEADER]],
      cl_handle := (cl_handle (reset_per_request cl))\<lparr>ez_url := cstr url, ez_method := M_post (cstr json), ez_headers := Some p\<rparr>\<rparr>"
  obtain cl' where "perform curl grow strerror ?cl = Some (outcome grow strerror (curl (wire_of call)), cl')" "cl_slists cl' = cl_slists ?cl"
    using perform_outcome [of curl "wire_of call" ?cl "[JSON_HEADER]" grow strerror] assms(1) Call_post by (auto simp: reset_per_request_def)
  then show ?thesis using Call_post assms(2) by (simp add: post_json_def Let_def reset_per_request_def)
qed

text \<open>
  C34: A client answers every request of a session as if it were its only one: whatever was requested before and
  however that ended, libcurl is asked exactly for the method, address, headers and body of this call, in
  particular a GET after a POST carries no header and no body of it; the response has the bytes of this answer, in
  order and complete, or the call throws the message of libcurl. A freed header list is never read, and none is
  left allocated.
\<close>

theorem http_client_stateless:
  assumes "\<forall>(call, curl) \<in> set calls. \<forall>c \<in> set (an_chunks (curl (wire_of call))). length c < 2 ^ 64"
  shows "\<exists>cl. session grow strerror calls new_client = Some (map (\<lambda>(call, curl). outcome grow strerror (curl (wire_of call))) calls, cl)
     \<and> cl_slists cl = Map.empty"
proof -
  have "\<exists>cl'. session grow strerror calls cl = Some (map (\<lambda>(call, curl). outcome grow strerror (curl (wire_of call))) calls, cl') \<and> cl_slists cl' = Map.empty"
    if "cl_slists cl = Map.empty" for cl
    using assms that
  proof (induction calls arbitrary: cl)
    case (Cons x calls)
    obtain call curl where x: "x = (call, curl)" by (cases x)
    obtain cl1 where "(case call of Call_get url \<Rightarrow> http_get curl grow strerror url cl | Call_post p url json \<Rightarrow> post_json curl grow strerror p url json cl)
        = Some (outcome grow strerror (curl (wire_of call)), cl1)" "cl_slists cl1 = Map.empty"
      using call_outcome [OF _ Cons.prems(2), of curl call grow strerror] Cons.prems(1) x by auto
    then show ?case using Cons.IH [of cl1] Cons.prems(1) x by fastforce
  qed simp
  then show ?thesis by (simp add: new_client_def)
qed

lemma session_one:
  assumes "\<forall>c \<in> set (an_chunks (curl (wire_of call))). length c < 2 ^ 64" "cl_slists cl = Map.empty"
  shows "\<exists>cl'. session grow strerror [(call, curl)] cl = Some ([outcome grow strerror (curl (wire_of call))], cl') \<and> cl_slists cl' = Map.empty"
  using call_outcome [where curl = curl and call = call and cl = cl and grow = grow and strerror = strerror] assms by (cases call) auto

text \<open>A response that is not 2xx is no error of the program: only a failed transfer is.\<close>

lemma http_main_status:
  assumes "\<forall>w. \<forall>c \<in> set (an_chunks (curl w)). length c < 2 ^ 64" "\<And>n. grow n" "\<And>w. an_code (curl w) = 0"
  shows "\<exists>r r2. http_main grow strerror curl argv = Some (0, [r, r2])
     \<and> rs_status r = an_status (curl (wire_of (fst (main_calls argv)))) \<and> rs_body r = concat (an_chunks (curl (wire_of (fst (main_calls argv)))))"
proof -
  have d: "deliver grow cs body = (True, body @ concat cs)" if "\<forall>c \<in> set cs. length c < 2 ^ 64" for cs body
    using that assms(2) by (induction cs arbitrary: body) (auto simp: write_to_string_def Let_def)
  have o: "outcome grow strerror (curl w) = Inr \<lparr>rs_status = an_status (curl w), rs_body = concat (an_chunks (curl w))\<rparr>" for w
    using d assms(1,3) by (simp add: outcome_def)
  have e: "cl_slists new_client = Map.empty" by (simp add: new_client_def)
  obtain cl1 where 1: "session grow strerror [(fst (main_calls argv), curl)] new_client = Some ([outcome grow strerror (curl (wire_of (fst (main_calls argv))))], cl1)"
      "cl_slists cl1 = Map.empty"
    using session_one [where curl = curl and call = "fst (main_calls argv)" and cl = new_client] assms(1) e by blast
  obtain cl2 where 2: "session grow strerror [(snd (main_calls argv), curl)] cl1 = Some ([outcome grow strerror (curl (wire_of (snd (main_calls argv))))], cl2)"
    using session_one [where curl = curl and call = "snd (main_calls argv)" and cl = cl1] assms(1) 1(2) by blast
  from 1(1) 2 show ?thesis by (simp add: http_main_def o)
qed

definition demo_curl :: "wire_request \<Rightarrow> curl_answer" where
  "demo_curl w = \<lparr>an_chunks = [wr_url w, ''!''], an_code = 0, an_status = (if wr_headers w = [] then 200 else 201), an_err = []\<rparr>"

theorem http_client_stateless_witness:
  "\<exists>cl. session (\<lambda>_. True) (\<lambda>_. []) [(Call_post 0 ''u'' ''j'', demo_curl), (Call_get ''v'', demo_curl)] new_client =
     Some ([Inr \<lparr>rs_status = 201, rs_body = ''u!''\<rparr>, Inr \<lparr>rs_status = 200, rs_body = ''v!''\<rparr>], cl)"
proof -
  have "cstr ''u'' = ''u''" "cstr ''v'' = ''v''" by (simp_all add: cstr_id)
  then show ?thesis
    using http_client_stateless [of "[(Call_post 0 ''u'' ''j'', demo_curl), (Call_get ''v'', demo_curl)]" "\<lambda>_. True" "\<lambda>_. []"]
    by (auto simp: demo_curl_def outcome_def write_to_string_def Let_def)
qed

end
