(* ===== verification/Memory_Errors.thy ===== *)
theory Memory_Errors
  imports CS_Prelude
begin

text \<open>
  The memory of a C program as blocks, and the catalogue of errors \<open>Chapter9/9.11/experiments/mem_errors.c\<close> and
  \<open>9.9-9.10/expirements/leak.c\<close> written in it. A pointer is null, an integer used as an address, or an offset in a block.
  Every load and store is checked, so that undefined behaviour is a value of \<open>mem_error\<close>; a byte is
  \<open>None\<close> until it is written. The constants \<open>n\<close> of the functions are arguments, and so is whether each call of \<open>malloc\<close> succeeds.
\<close>

section \<open>Memory\<close>

datatype ptr = Null | Addr int | Ptr nat int

datatype mem_error = Bad_pointer | Uninitialised | Out_of_bounds | Misaligned | Use_after_free | Double_free | Dangling

record block =
  b_live :: bool
  b_stack :: bool
  b_bytes :: "nat option list"

type_synonym cmem = "block list"

text \<open>\<open>ok\<close>: \<open>malloc\<close> finds the memory.\<close>

definition m_malloc :: "bool \<Rightarrow> nat \<Rightarrow> cmem \<Rightarrow> ptr \<times> cmem" where
  "m_malloc ok n m =
     (if ok then (Ptr (length m) 0, m @ [\<lparr>b_live = True, b_stack = False, b_bytes = replicate n None\<rparr>]) else (Null, m))"

definition m_local :: "nat \<Rightarrow> cmem \<Rightarrow> ptr \<times> cmem" where
  "m_local n m = (Ptr (length m) 0, m @ [\<lparr>b_live = True, b_stack = True, b_bytes = replicate n None\<rparr>])"

definition m_free :: "ptr \<Rightarrow> cmem \<Rightarrow> mem_error + cmem" where
  "m_free p m =
     (case p of
        Null \<Rightarrow> Inr m
      | Addr a \<Rightarrow> Inl Bad_pointer
      | Ptr b off \<Rightarrow>
          (if length m \<le> b \<or> off \<noteq> 0 \<or> b_stack (m ! b) then Inl Bad_pointer
           else if \<not> b_live (m ! b) then Inl Double_free
           else Inr (m[b := (m ! b)\<lparr>b_live := False\<rparr>])))"

text \<open>The end of the function a local variable belongs to.\<close>

definition m_leave :: "ptr \<Rightarrow> cmem \<Rightarrow> cmem" where
  "m_leave p m = (case p of Ptr b off \<Rightarrow> m[b := (m ! b)\<lparr>b_live := False\<rparr>] | _ \<Rightarrow> m)"

text \<open>The check of an access of \<open>n\<close> bytes with the alignment \<open>al\<close>: the block and the offset.\<close>

definition m_check :: "ptr \<Rightarrow> nat \<Rightarrow> nat \<Rightarrow> cmem \<Rightarrow> mem_error + (nat \<times> nat)" where
  "m_check p n al m =
     (case p of
        Null \<Rightarrow> Inl Bad_pointer
      | Addr a \<Rightarrow> Inl Bad_pointer
      | Ptr b off \<Rightarrow>
          (if length m \<le> b then Inl Bad_pointer
           else if \<not> b_live (m ! b) then Inl (if b_stack (m ! b) then Dangling else Use_after_free)
           else if off < 0 \<or> int (length (b_bytes (m ! b))) < off + int n then Inl Out_of_bounds
           else if \<not> int al dvd off then Inl Misaligned
           else Inr (b, nat off)))"

definition m_store :: "ptr \<Rightarrow> nat \<Rightarrow> nat list \<Rightarrow> cmem \<Rightarrow> mem_error + cmem" where
  "m_store p al bs m =
     (case m_check p (length bs) al m of
        Inl e \<Rightarrow> Inl e
      | Inr (b, i) \<Rightarrow>
          Inr (m[b := (m ! b)\<lparr>b_bytes := take i (b_bytes (m ! b)) @ map Some bs @ drop (i + length bs) (b_bytes (m ! b))\<rparr>]))"

definition m_load :: "ptr \<Rightarrow> nat \<Rightarrow> nat \<Rightarrow> cmem \<Rightarrow> mem_error + nat list" where
  "m_load p n al m =
     (case m_check p n al m of
        Inl e \<Rightarrow> Inl e
      | Inr (b, i) \<Rightarrow>
          (let bs = take n (drop i (b_bytes (m ! b)))
           in if None \<in> set bs then Inl Uninitialised else Inr (map the bs)))"

text \<open>An \<open>int\<close> is four bytes, the low one first.\<close>

definition int_bytes :: "int \<Rightarrow> nat list" where
  "int_bytes v = map (\<lambda>i. nat (v div 256 ^ i mod 256)) [0..<4]"

fun bytes_int :: "nat list \<Rightarrow> int" where
  "bytes_int bs = c_int (foldr (\<lambda>b v. int b + 256 * v) bs 0)"

definition p_add :: "ptr \<Rightarrow> int \<Rightarrow> ptr" where
  "p_add p d = (case p of Ptr b off \<Rightarrow> Ptr b (off + d) | Addr a \<Rightarrow> Addr (a + d) | Null \<Rightarrow> Addr d)"

definition store_int :: "ptr \<Rightarrow> int \<Rightarrow> cmem \<Rightarrow> mem_error + cmem" where
  "store_int p v m = m_store p 4 (int_bytes v) m"

definition load_int :: "ptr \<Rightarrow> cmem \<Rightarrow> mem_error + int" where
  "load_int p m = map_sum id bytes_int (m_load p 4 4 m)"

fun for_each :: "('i \<Rightarrow> 's \<Rightarrow> mem_error + 's) \<Rightarrow> 'i list \<Rightarrow> 's \<Rightarrow> mem_error + 's" where
  "for_each f [] s = Inr s"
| "for_each f (i # is) s = (case f i s of Inl e \<Rightarrow> Inl e | Inr s' \<Rightarrow> for_each f is s')"

section \<open>The errors\<close>

text \<open>\<open>scanf\<close> stores when the input is a number.\<close>

definition err_badptr :: "int option \<Rightarrow> cmem \<Rightarrow> mem_error + int" where
  "err_badptr input m =
     (let val = 0
      in case input of
           None \<Rightarrow> Inr val
         | Some v \<Rightarrow> (case store_int (Addr val) v m of Inl e \<Rightarrow> Inl e | Inr m' \<Rightarrow> Inr val))"

definition err_uninit :: "bool \<Rightarrow> nat \<Rightarrow> cmem \<Rightarrow> mem_error + (int \<times> cmem)" where
  "err_uninit ok n m =
     (case m_malloc ok (n * 4) m of (y, m1) \<Rightarrow>
        (case for_each (\<lambda>i acc. case load_int (p_add y (4 * int i)) m1 of Inl e \<Rightarrow> Inl e | Inr v \<Rightarrow> Inr (acc + v)) [0..<n] 0 of
           Inl e \<Rightarrow> Inl e
         | Inr acc \<Rightarrow> (case m_free y m1 of Inl e \<Rightarrow> Inl e | Inr m2 \<Rightarrow> Inr (acc, m2))))"

text \<open>\<open>scanf("%s")\<close> stores the word and a final zero, whatever its length.\<close>

definition err_stack_overflow :: "bytes option \<Rightarrow> cmem \<Rightarrow> mem_error + cmem" where
  "err_stack_overflow word m =
     (case m_local 8 m of (buf, m1) \<Rightarrow>
        (case word of
           None \<Rightarrow> Inr (m_leave buf m1)
         | Some w \<Rightarrow> map_sum id (m_leave buf) (m_store buf 1 (map of_char w @ [0]) m1)))"

definition err_ptrsize :: "bool \<Rightarrow> nat \<Rightarrow> cmem \<Rightarrow> mem_error + cmem" where
  "err_ptrsize ok n m =
     (case m_malloc ok (n * 4) m of (a, m1) \<Rightarrow>
        (case for_each (\<lambda>i. m_store (p_add a (8 * int i)) 8 (replicate 8 0)) [0..<n] m1 of
           Inl e \<Rightarrow> Inl e
         | Inr m2 \<Rightarrow> m_free a m2))"

definition fill_ints :: "ptr \<Rightarrow> nat \<Rightarrow> cmem \<Rightarrow> mem_error + cmem" where
  "fill_ints a k m = for_each (\<lambda>i. store_int (p_add a (4 * int i)) (int i)) [0..<k] m"

definition err_offbyone :: "bool \<Rightarrow> nat \<Rightarrow> cmem \<Rightarrow> mem_error + cmem" where
  "err_offbyone ok n m =
     (case m_malloc ok (n * 4) m of (a, m1) \<Rightarrow>
        (case fill_ints a (n + 1) m1 of Inl e \<Rightarrow> Inl e | Inr m2 \<Rightarrow> m_free a m2))"

text \<open>The loop of \<open>err_deref_ptr\<close>: \<open>*size--\<close> reads the counter and moves the pointer.\<close>

fun deref_loop :: "nat \<Rightarrow> ptr \<Rightarrow> cmem \<Rightarrow> mem_error + unit" where
  "deref_loop left sz m =
     (case load_int sz m of
        Inl e \<Rightarrow> Inl e
      | Inr v \<Rightarrow>
          (if 0 < v then
             (case left of
                0 \<Rightarrow> Inr ()
              | Suc k \<Rightarrow> (case load_int sz m of Inl e \<Rightarrow> Inl e | Inr v \<Rightarrow> deref_loop k (p_add sz (- 4)) m))
           else Inr ()))"

definition err_deref_ptr :: "int \<Rightarrow> cmem \<Rightarrow> mem_error + unit" where
  "err_deref_ptr n m =
     (case m_local 4 m of (p, m1) \<Rightarrow> (case store_int p n m1 of Inl e \<Rightarrow> Inl e | Inr m2 \<Rightarrow> deref_loop 3 p m2))"

definition err_ptr_arith :: "cmem \<Rightarrow> mem_error + (int \<times> int)" where
  "err_ptr_arith m =
     (case m_local 16 m of (a, m1) \<Rightarrow>
        (case for_each (\<lambda>i. store_int (p_add a (4 * int i)) (10 * (int i + 1))) [0..<4] m1 of
           Inl e \<Rightarrow> Inl e
         | Inr m2 \<Rightarrow>
             (case load_int (p_add a (4 * 1)) m2 of
                Inl e \<Rightarrow> Inl e
              | Inr x \<Rightarrow> (case load_int (p_add a 1) m2 of Inl e \<Rightarrow> Inl e | Inr y \<Rightarrow> Inr (x, y)))))"

definition err_dangling_stack :: "cmem \<Rightarrow> mem_error + (ptr \<times> cmem)" where
  "err_dangling_stack m =
     (case m_local 4 m of (p, m1) \<Rightarrow> (case store_int p 42 m1 of Inl e \<Rightarrow> Inl e | Inr m2 \<Rightarrow> Inr (p, m_leave p m2)))"

text \<open>The block after its first \<open>free\<close>, and what the function does with it then.\<close>

definition freed_block :: "bool \<Rightarrow> cmem \<Rightarrow> mem_error + (ptr \<times> cmem)" where
  "freed_block ok m =
     (case m_malloc ok (4 * 4) m of (a, m1) \<Rightarrow>
        (case fill_ints a 4 m1 of
           Inl e \<Rightarrow> Inl e
         | Inr m2 \<Rightarrow> map_sum id (Pair a) (m_free a m2)))"

definition err_use_after_free :: "bool \<Rightarrow> cmem \<Rightarrow> mem_error + (int \<times> cmem)" where
  "err_use_after_free ok m =
     (case freed_block ok m of
        Inl e \<Rightarrow> Inl e
      | Inr (a, m3) \<Rightarrow>
          (case load_int a m3 of
             Inl e \<Rightarrow> Inl e
           | Inr v \<Rightarrow> map_sum id (Pair v) (m_free a m3)))"

text \<open>\<open>avail i\<close> says whether the \<open>i\<close>-th call of \<open>malloc\<close> succeeds; the first component is false when the loop was left early.\<close>

definition leak_turn :: "(nat \<Rightarrow> bool) \<Rightarrow> nat \<Rightarrow> bool \<times> cmem \<Rightarrow> mem_error + (bool \<times> cmem)" where
  "leak_turn avail i gm =
     (case gm of (go, m) \<Rightarrow>
        if \<not> go then Inr (False, m)
        else case m_malloc (avail i) 1024 m of (buf, m1) \<Rightarrow>
               if buf = Null then Inr (False, m1)
               else (case m_store buf 1 (replicate 1024 120) m1 of
                       Inl e \<Rightarrow> Inl e
                     | Inr m2 \<Rightarrow> if i = 1 then Inr (True, m2) else map_sum id (Pair True) (m_free buf m2)))"

definition err_leak :: "(nat \<Rightarrow> bool) \<Rightarrow> cmem \<Rightarrow> mem_error + cmem" where
  "err_leak avail m =
     (case for_each (leak_turn avail) [0..<3] (True, m) of
        Inl e \<Rightarrow> Inl e
      | Inr (go, m1) \<Rightarrow> if go then Inr (snd (m_malloc (avail 3) 4096 m1)) else Inr m1)"

text \<open>What the program ends with for each of its arguments: an error, or the blocks that are left; \<open>None\<close> is the usage message.\<close>

definition mem_errors_main :: "int option \<Rightarrow> bytes option \<Rightarrow> (nat \<Rightarrow> bool) \<Rightarrow> bytes \<Rightarrow> (mem_error + cmem) option" where
  "mem_errors_main num word avail w =
     (if w = ''badptr'' then Some (map_sum id (\<lambda>_. []) (err_badptr num []))
      else if w = ''uninit'' then Some (map_sum id snd (err_uninit (avail 0) 8 []))
      else if w = ''stack_overflow'' then Some (err_stack_overflow word [])
      else if w = ''ptrsize'' then Some (err_ptrsize (avail 0) 4 [])
      else if w = ''offbyone'' then Some (err_offbyone (avail 0) 4 [])
      else if w = ''deref_ptr'' then Some (map_sum id (\<lambda>_. []) (err_deref_ptr 5 []))
      else if w = ''ptr_arith'' then Some (map_sum id (\<lambda>_. []) (err_ptr_arith []))
      else if w = ''dangling_stack'' then
        Some (case err_dangling_stack [] of Inl e \<Rightarrow> Inl e | Inr (p, m) \<Rightarrow> map_sum id (\<lambda>_. m) (load_int p m))
      else if w = ''use_after_free'' then Some (map_sum id snd (err_use_after_free (avail 0) []))
      else if w = ''leak'' then Some (err_leak avail [])
      else None)"

text \<open>\<open>leak.c\<close>: one block that nothing refers to and one that the global \<open>g\<close> keeps.\<close>

definition lose :: "bool \<Rightarrow> cmem \<Rightarrow> cmem" where
  "lose ok m = snd (m_malloc ok 64 m)"

definition leak_main :: "bool \<Rightarrow> bool \<Rightarrow> ptr \<times> cmem" where
  "leak_main ok1 ok2 = m_malloc ok2 64 (lose ok1 [])"

definition live_bytes :: "cmem \<Rightarrow> nat" where
  "live_bytes m = sum_list (map (\<lambda>b. if b_live b \<and> \<not> b_stack b then length (b_bytes b) else 0) m)"

section \<open>Lemmas\<close>

text \<open>Accesses to the block allocated last.\<close>

lemma check_last:
  "m_check (Ptr (length m) off) n al (m @ [b]) =
     (if \<not> b_live b then Inl (if b_stack b then Dangling else Use_after_free)
      else if off < 0 \<or> int (length (b_bytes b)) < off + int n then Inl Out_of_bounds
      else if \<not> int al dvd off then Inl Misaligned
      else Inr (length m, nat off))"
  by (simp add: m_check_def)

lemma store_last:
  assumes "b_live b" "off + length bs \<le> length (b_bytes b)" "al dvd off"
  shows "\<exists>ys. length ys = length (b_bytes b) \<and> m_store (Ptr (length m) (int off)) al bs (m @ [b]) = Inr (m @ [b\<lparr>b_bytes := ys\<rparr>])"
  using assms by (intro exI [of _ "take off (b_bytes b) @ map Some bs @ drop (off + length bs) (b_bytes b)"])
    (simp add: m_store_def check_last)

lemma store_outside:
  "b_live b \<Longrightarrow> length (b_bytes b) < off + length bs \<Longrightarrow> m_store (Ptr (length m) (int off)) al bs (m @ [b]) = Inl Out_of_bounds"
  by (simp add: m_store_def check_last)

definition store_at :: "nat \<Rightarrow> (nat \<Rightarrow> nat list) \<Rightarrow> nat \<Rightarrow> nat \<Rightarrow> nat \<Rightarrow> cmem \<Rightarrow> mem_error + cmem" where
  "store_at blk g w al i = m_store (Ptr blk (int (w * i))) al (g i)"

lemma store_at_last:
  assumes "length (g i) = w" "al dvd w" "b_live b"
  shows "w * Suc i \<le> length (b_bytes b) \<Longrightarrow>
      \<exists>ys. length ys = length (b_bytes b) \<and> store_at (length m) g w al i (m @ [b]) = Inr (m @ [b\<lparr>b_bytes := ys\<rparr>])"
    and "length (b_bytes b) < w * Suc i \<Longrightarrow> store_at (length m) g w al i (m @ [b]) = Inl Out_of_bounds"
  using store_last [of b "w * i" "g i" al m] store_outside [of b "w * i" "g i" m al] assms
  by (simp_all add: store_at_def)

lemma store_loop_inside:
  assumes "\<And>i. length (g i) = w" "al dvd w" "b_live b" "w * k \<le> length (b_bytes b)"
  shows "\<exists>ys. length ys = length (b_bytes b) \<and> for_each (store_at (length m) g w al) [j..<k] (m @ [b]) = Inr (m @ [b\<lparr>b_bytes := ys\<rparr>])"
  using assms(3,4)
proof (induction "k - j" arbitrary: j b)
  case 0
  then show ?case by (intro exI [of _ "b_bytes b"]) simp
next
  case (Suc n)
  have u: "[j..<k] = j # [Suc j..<k]" and n: "n = k - Suc j" using Suc.hyps(2) by (simp_all add: upt_conv_Cons)
  have "w * Suc j \<le> w * k" using Suc.hyps(2) by (intro mult_le_mono2) simp
  then obtain ys where "length ys = length (b_bytes b)" "store_at (length m) g w al j (m @ [b]) = Inr (m @ [b\<lparr>b_bytes := ys\<rparr>])"
    using store_at_last(1) [of g j w al b m] assms(1,2) Suc.prems by auto
  then show ?case using Suc.hyps(1) [OF n, of "b\<lparr>b_bytes := ys\<rparr>"] Suc.prems u by auto
qed

lemma store_loop_outside:
  assumes "\<And>i. length (g i) = w" "al dvd w" "b_live b" "length (b_bytes b) < w * k" "j < k"
  shows "for_each (store_at (length m) g w al) [j..<k] (m @ [b]) = Inl Out_of_bounds"
  using assms(3-5)
proof (induction "k - j" arbitrary: j b)
  case (Suc n)
  have u: "[j..<k] = j # [Suc j..<k]" and n: "n = k - Suc j" using Suc.hyps(2) by (simp_all add: upt_conv_Cons)
  show ?case
  proof (cases "w * Suc j \<le> length (b_bytes b)")
    case True
    then obtain ys where ys: "length ys = length (b_bytes b)" "store_at (length m) g w al j (m @ [b]) = Inr (m @ [b\<lparr>b_bytes := ys\<rparr>])"
      using store_at_last(1) [of g j w al b m] assms(1,2) Suc.prems(1) by auto
    have "Suc j < k" using True Suc.prems(2,3) by (metis Suc_lessI leD)
    then show ?thesis using Suc.hyps(1) [OF n, of "b\<lparr>b_bytes := ys\<rparr>"] ys Suc.prems u by simp
  next
    case False
    then show ?thesis using store_at_last(2) [of g j w al b m] assms(1,2) Suc.prems(1) u by simp
  qed
qed simp

lemma length_int_bytes [simp]: "length (int_bytes v) = 4"
  by (simp add: int_bytes_def)

lemma fill_ints_last:
  assumes "b_live b"
  shows "4 * k \<le> length (b_bytes b) \<Longrightarrow> \<exists>ys. length ys = length (b_bytes b) \<and> fill_ints (Ptr (length m) 0) k (m @ [b]) = Inr (m @ [b\<lparr>b_bytes := ys\<rparr>])"
    and "length (b_bytes b) < 4 * k \<Longrightarrow> fill_ints (Ptr (length m) 0) k (m @ [b]) = Inl Out_of_bounds"
proof -
  have e: "fill_ints (Ptr (length m) 0) k = for_each (store_at (length m) (\<lambda>i. int_bytes (int i)) 4 4) [0..<k]"
    by (simp add: fill_ints_def [abs_def] store_int_def [abs_def] p_add_def store_at_def [abs_def])
  show "4 * k \<le> length (b_bytes b) \<Longrightarrow> \<exists>ys. length ys = length (b_bytes b) \<and> fill_ints (Ptr (length m) 0) k (m @ [b]) = Inr (m @ [b\<lparr>b_bytes := ys\<rparr>])"
    using store_loop_inside [of "\<lambda>i. int_bytes (int i)" 4 4 b k m 0] assms by (simp add: e)
  show "length (b_bytes b) < 4 * k \<Longrightarrow> fill_ints (Ptr (length m) 0) k (m @ [b]) = Inl Out_of_bounds"
    using store_loop_outside [of "\<lambda>i. int_bytes (int i)" 4 4 b k 0 m] assms by (cases "k = 0") (simp_all add: e)
qed

text \<open>A null pointer fails at the first access.\<close>

lemma null_access:
  "m_store (p_add Null d) al bs m = Inl Bad_pointer" "load_int (p_add Null d) m = Inl Bad_pointer"
  by (simp_all add: m_store_def m_load_def load_int_def m_check_def p_add_def)

lemma fill_ints_null: "0 < k \<Longrightarrow> fill_ints Null k m = Inl Bad_pointer"
  by (cases k) (simp_all add: fill_ints_def store_int_def null_access upt_conv_Cons del: upt_Suc)

lemma offbyone_fails: "err_offbyone ok n m = Inl (if ok then Out_of_bounds else Bad_pointer)"
  using fill_ints_last(2) [of "\<lparr>b_live = True, b_stack = False, b_bytes = replicate (n * 4) None\<rparr>" "n + 1" m] fill_ints_null [of "n + 1" m]
  by (simp add: err_offbyone_def m_malloc_def)

text \<open>One iteration less, and the loop and the \<open>free\<close> are valid.\<close>

lemma offbyone_repaired: "\<exists>a m1 m2 m3. m_malloc True (n * 4) m = (a, m1) \<and> fill_ints a n m1 = Inr m2 \<and> m_free a m2 = Inr m3"
proof -
  let ?b = "\<lparr>b_live = True, b_stack = False, b_bytes = replicate (n * 4) None\<rparr>"
  obtain ys where ys: "fill_ints (Ptr (length m) 0) n (m @ [?b]) = Inr (m @ [?b\<lparr>b_bytes := ys\<rparr>])"
    using fill_ints_last(1) [of ?b n m] by auto
  have "m_free (Ptr (length m) 0) (m @ [?b\<lparr>b_bytes := ys\<rparr>]) = Inr (m @ [?b\<lparr>b_bytes := ys, b_live := False\<rparr>])" by (simp add: m_free_def)
  with ys show ?thesis unfolding m_malloc_def by auto
qed

lemma ptrsize_fails: "0 < n \<Longrightarrow> err_ptrsize ok n m = Inl (if ok then Out_of_bounds else Bad_pointer)"
proof (cases ok)
  case True
  then show "0 < n \<Longrightarrow> ?thesis"
    using store_loop_outside [of "\<lambda>i. replicate 8 0" 8 8 "\<lparr>b_live = True, b_stack = False, b_bytes = replicate (n * 4) None\<rparr>" n 0 m]
    by (simp add: err_ptrsize_def m_malloc_def p_add_def store_at_def [abs_def])
next
  case False
  then show "0 < n \<Longrightarrow> ?thesis" by (simp add: err_ptrsize_def m_malloc_def upt_conv_Cons null_access)
qed

lemma uninit_fails:
  assumes "0 < n"
  shows "err_uninit ok n m = Inl (if ok then Uninitialised else Bad_pointer)"
proof -
  let ?m = "m @ [\<lparr>b_live = True, b_stack = False, b_bytes = replicate (n * 4) None\<rparr>]"
  have "m_load (Ptr (length m) 0) 4 4 ?m = Inl Uninitialised"
    using assms by (cases n) (simp_all add: m_load_def check_last Let_def take_replicate)
  moreover have "[0..<n] = 0 # [1..<n]" using assms by (simp add: upt_conv_Cons)
  ultimately show ?thesis by (cases ok) (simp_all add: err_uninit_def m_malloc_def null_access, simp add: p_add_def load_int_def)
qed

lemma stack_overflow_fails:
  "8 \<le> length w \<Longrightarrow> err_stack_overflow (Some w) m = Inl Out_of_bounds"
  "length w < 8 \<Longrightarrow> \<exists>m'. err_stack_overflow (Some w) m = Inr m'"
  by (simp_all add: err_stack_overflow_def m_local_def m_store_def check_last)

lemma freed_block_ok: "\<exists>a m3. freed_block True m = Inr (a, m3) \<and> load_int a m3 = Inl Use_after_free \<and> m_free a m3 = Inl Double_free"
proof -
  let ?b = "\<lparr>b_live = True, b_stack = False, b_bytes = replicate 16 None\<rparr>"
  obtain ys where "fill_ints (Ptr (length m) 0) 4 (m @ [?b]) = Inr (m @ [?b\<lparr>b_bytes := ys\<rparr>])"
    using fill_ints_last(1) [of ?b 4 m] by auto
  then show ?thesis by (simp add: freed_block_def m_malloc_def m_free_def load_int_def m_load_def check_last)
qed

lemma use_after_free_fails: "err_use_after_free ok m = Inl (if ok then Use_after_free else Bad_pointer)"
  using freed_block_ok [of m] fill_ints_null [of 4 m]
  by (cases ok) (auto simp: err_use_after_free_def, simp add: freed_block_def m_malloc_def)

lemma bytes_int_round:
  assumes "- (2 ^ 31) \<le> v" "v < 2 ^ 31"
  shows "bytes_int (int_bytes v) = v"
proof -
  have "[0..<4] = [0, 1, 2, 3 :: nat]" by code_simp
  then have "foldr (\<lambda>b v. int b + 256 * v) (int_bytes v) 0
    = v mod 256 + 256 * (v div 256 mod 256 + 256 * (v div 65536 mod 256 + 256 * (v div 16777216 mod 256)))"
    by (simp add: int_bytes_def)
  also have "\<dots> = v mod 4294967296"
  proof -
    have sum: "d0 + 256 * (d1 + 256 * (d2 + 256 * d3)) = A"
      if "A = 16777216 * d3 + B" "B = 65536 * d2 + C" "C = 256 * d1 + d0" for A B C d0 d1 d2 d3 :: int using that by simp
    have "v mod 4294967296 = 16777216 * (v div 16777216 mod 256) + v mod 16777216" using zmod_zmult2_eq [of 256 v 16777216] by simp
    moreover have "v mod 16777216 = 65536 * (v div 65536 mod 256) + v mod 65536" using zmod_zmult2_eq [of 256 v 65536] by simp
    moreover have "v mod 65536 = 256 * (v div 256 mod 256) + v mod 256" using zmod_zmult2_eq [of 256 v 256] by simp
    ultimately show ?thesis by (rule sum)
  qed
  finally have "bytes_int (int_bytes v) = c_int (v mod 4294967296)" by simp
  also have "\<dots> = v" using assms by (simp add: c_int_def mod_simps)
  finally show ?thesis .
qed

lemma deref_ptr_fails:
  assumes "0 < n" "n < 2 ^ 31"
  shows "err_deref_ptr n m = Inl Out_of_bounds"
proof -
  let ?b = "\<lparr>b_live = True, b_stack = True, b_bytes = map Some (int_bytes n)\<rparr>"
  have st: "store_int (Ptr (length m) 0) n (m @ [\<lparr>b_live = True, b_stack = True, b_bytes = replicate 4 None\<rparr>]) = Inr (m @ [?b])"
    by (simp add: store_int_def m_store_def check_last)
  have "load_int (Ptr (length m) 0) (m @ [?b]) = Inr n"
    using bytes_int_round [of n] assms by (simp add: load_int_def m_load_def check_last Let_def o_def image_iff del: bytes_int.simps)
  moreover have "load_int (Ptr (length m) (- 4)) (m @ [?b]) = Inl Out_of_bounds"
    by (simp add: load_int_def m_load_def check_last)
  ultimately have "deref_loop 3 (Ptr (length m) 0) (m @ [?b]) = Inl Out_of_bounds"
    using assms by (simp add: numeral_3_eq_3 p_add_def)
  then show ?thesis using st by (simp add: err_deref_ptr_def m_local_def)
qed

lemma leaks:
  "\<exists>m. err_leak avail [] = Inr m
     \<and> live_bytes m = (if avail 0 \<and> avail 1 then 1024 + (if avail 2 \<and> avail 3 then 4096 else 0) else 0)"
  by (cases "avail 0"; cases "avail 1"; cases "avail 2"; cases "avail 3")
     (simp_all add: err_leak_def leak_turn_def m_malloc_def m_store_def m_check_def m_free_def live_bytes_def upt_rec numeral_2_eq_2 numeral_3_eq_3)

section \<open>Properties\<close>

text \<open>
  C36: The first error of every function of the catalogue is the one it is named after, whatever the sizes, the inputs and the memory: writing
  through a number is a bad pointer, and no write happens when the input is not a number; the sum reads bytes that were never written; a word of
  eight or more characters leaves the buffer, and a shorter one does not; both loops over a heap array write past it, the second only with its
  last turn; the misplaced decrement makes the next test read below the counter; the byte offset is misaligned; and the last two read a
  variable of a finished call and a freed block, where the \<open>free\<close> that follows is an error of its own, a double free. Where \<open>malloc\<close>
  fails, the first access is the error, through a null pointer. The leak is no error: it leaves 5120 bytes allocated, or as many of them as \<open>malloc\<close> gave.
\<close>

theorem mem_errors_as_named:
  assumes "0 < n" "0 < k" "k < 2 ^ 31"
  shows "err_badptr (Some v) m = Inl Bad_pointer \<and> err_badptr None m = Inr 0
    \<and> err_uninit ok n m = Inl (if ok then Uninitialised else Bad_pointer)
    \<and> (if 8 \<le> length w then err_stack_overflow (Some w) m = Inl Out_of_bounds else \<exists>m'. err_stack_overflow (Some w) m = Inr m')
    \<and> err_ptrsize ok n m = Inl (if ok then Out_of_bounds else Bad_pointer)
    \<and> err_offbyone ok n m = Inl (if ok then Out_of_bounds else Bad_pointer)
    \<and> (\<exists>a m1 m2 m3. m_malloc True (n * 4) m = (a, m1) \<and> fill_ints a n m1 = Inr m2 \<and> m_free a m2 = Inr m3)
    \<and> err_deref_ptr k m = Inl Out_of_bounds
    \<and> mem_errors_main num word avail ''ptr_arith'' = Some (Inl Misaligned)
    \<and> mem_errors_main num word avail ''dangling_stack'' = Some (Inl Dangling)
    \<and> err_use_after_free ok m = Inl (if ok then Use_after_free else Bad_pointer)
    \<and> (\<exists>a m3. freed_block True m = Inr (a, m3) \<and> load_int a m3 = Inl Use_after_free \<and> m_free a m3 = Inl Double_free)
    \<and> (\<exists>m'. mem_errors_main num word avail ''leak'' = Some (Inr m')
         \<and> live_bytes m' = (if avail 0 \<and> avail 1 then 1024 + (if avail 2 \<and> avail 3 then 4096 else 0) else 0))"
proof (intro conjI)
  show "err_badptr (Some v) m = Inl Bad_pointer" by (simp add: err_badptr_def store_int_def m_store_def m_check_def)
  show "err_badptr None m = Inr 0" by (simp add: err_badptr_def)
  show "if 8 \<le> length w then err_stack_overflow (Some w) m = Inl Out_of_bounds else \<exists>m'. err_stack_overflow (Some w) m = Inr m'"
    using stack_overflow_fails [of w m] by auto
  show "mem_errors_main num word avail ''ptr_arith'' = Some (Inl Misaligned)"
    by (simp add: mem_errors_main_def) code_simp
  show "mem_errors_main num word avail ''dangling_stack'' = Some (Inl Dangling)"
    by (simp add: mem_errors_main_def) code_simp
  show "\<exists>m'. mem_errors_main num word avail ''leak'' = Some (Inr m')
         \<and> live_bytes m' = (if avail 0 \<and> avail 1 then 1024 + (if avail 2 \<and> avail 3 then 4096 else 0) else 0)"
    using leaks [of avail] by (simp add: mem_errors_main_def)
  show "\<exists>a m1 m2 m3. m_malloc True (n * 4) m = (a, m1) \<and> fill_ints a n m1 = Inr m2 \<and> m_free a m2 = Inr m3" by (rule offbyone_repaired)
  show "\<exists>a m3. freed_block True m = Inr (a, m3) \<and> load_int a m3 = Inl Use_after_free \<and> m_free a m3 = Inl Double_free" by (rule freed_block_ok)
qed (use assms in \<open>simp_all add: uninit_fails ptrsize_fails offbyone_fails deref_ptr_fails use_after_free_fails\<close>)

theorem mem_errors_as_named_witness:
  "mem_errors_main (Some 7) (Some ''abcdefgh'') (\<lambda>_. True) ''stack_overflow'' = Some (Inl Out_of_bounds)
   \<and> mem_errors_main (Some 7) (Some ''abcdefgh'') (\<lambda>_. True) ''deref_ptr'' = Some (Inl Out_of_bounds)
   \<and> mem_errors_main (Some 7) (Some ''abcdefgh'') (\<lambda>_. False) ''ptrsize'' = Some (Inl Bad_pointer)"
  using mem_errors_as_named [of 4 5 7 "[]" False "''abcdefgh''"] by (simp add: mem_errors_main_def)

text \<open>Of the two blocks \<open>leak.c\<close> leaves, one is still reachable through \<open>g\<close>.\<close>

lemma leak_main_blocks: "leak_main True True = (Ptr 1 0, m) \<Longrightarrow> length m = 2 \<and> live_bytes m = 128"
  by (auto simp: leak_main_def lose_def m_malloc_def live_bytes_def)

end
