(* ===== verification/Proc_Files.thy ===== *)
theory Proc_Files
  imports Rio C_Text
begin

text \<open>
  The readers of \<open>/proc\<close> in the virtual memory experiments of Chapter 9: \<open>read_faults\<close> and \<open>read_vmstat\<close>
  (\<open>vmstat_fault.c\<close>), \<open>show_faults\<close> (\<open>paging/main.c\<close>), \<open>read_rss_kb\<close> (\<open>zero_page.c\<close>) and \<open>meminfo_kb\<close>
  (\<open>dirty_writeback.c\<close>). \<open>scan\<close> is \<open>sscanf\<close> and \<open>fscanf\<close> for the conversions they use; a file is its content, \<open>None\<close>
  when it cannot be opened.
\<close>

section \<open>Formatted input\<close>

datatype conv = Lit byte | Sp | Skip_char | Skip_num | Num_lu | Num_ld | Str nat | Upto byte nat

datatype sval = VNum int | VStr bytes

definition scan_num :: "bytes \<Rightarrow> (int \<times> bytes) option" where
  "scan_num s =
     (let neg = (s \<noteq> [] \<and> hd s = CHR ''-'');
          u = (if s \<noteq> [] \<and> (hd s = CHR ''-'' \<or> hd s = CHR ''+'') then tl s else s);
          ds = takeWhile isdigit u
      in if ds = [] then None
         else Some (if neg then - int (digits_val ds) else int (digits_val ds), drop (length ds) u))"

definition ulong_of :: "int \<Rightarrow> int" where
  "ulong_of v = (if 2 ^ 64 \<le> \<bar>v\<bar> then 2 ^ 64 - 1 else v mod 2 ^ 64)"

definition long_of :: "int \<Rightarrow> int" where
  "long_of v = max LONG_MIN (min LONG_MAX v)"

text \<open>The values assigned before the first conversion that fails, and the input that is left.\<close>

fun scan :: "conv list \<Rightarrow> bytes \<Rightarrow> sval list \<times> bytes" where
  "scan [] s = ([], s)"
| "scan (Lit c # fs) s = (if s \<noteq> [] \<and> hd s = c then scan fs (tl s) else ([], s))"
| "scan (Sp # fs) s = scan fs (dropWhile isspace s)"
| "scan (Skip_char # fs) s = (if s \<noteq> [] then scan fs (tl s) else ([], s))"
| "scan (Skip_num # fs) s =
     (case scan_num (dropWhile isspace s) of None \<Rightarrow> ([], s) | Some (v, t) \<Rightarrow> scan fs t)"
| "scan (Num_lu # fs) s =
     (case scan_num (dropWhile isspace s) of None \<Rightarrow> ([], s) | Some (v, t) \<Rightarrow> map_prod (Cons (VNum (ulong_of v))) id (scan fs t))"
| "scan (Num_ld # fs) s =
     (case scan_num (dropWhile isspace s) of None \<Rightarrow> ([], s) | Some (v, t) \<Rightarrow> map_prod (Cons (VNum (long_of v))) id (scan fs t))"
| "scan (Str n # fs) s =
     (let t = dropWhile isspace s; w = take n (takeWhile (\<lambda>c. \<not> isspace c) t)
      in if w = [] then ([], t) else map_prod (Cons (VStr w)) id (scan fs (drop (length w) t)))"
| "scan (Upto c n # fs) s =
     (let w = take n (takeWhile (\<lambda>x. x \<noteq> c) s)
      in if w = [] then ([], s) else map_prod (Cons (VStr w)) id (scan fs (drop (length w) s)))"

lemma scan_num_shrinks: "scan_num s = Some (v, t) \<Longrightarrow> length t < length s"
proof -
  assume a: "scan_num s = Some (v, t)"
  let ?u = "if s \<noteq> [] \<and> (hd s = CHR ''-'' \<or> hd s = CHR ''+'') then tl s else s"
  from a have t: "takeWhile isdigit ?u \<noteq> []" "t = drop (length (takeWhile isdigit ?u)) ?u"
    by (auto simp: scan_num_def Let_def split: if_splits)
  have "length ?u \<le> length s" by simp
  moreover have "length (takeWhile isdigit ?u) \<le> length ?u" by (rule length_takeWhile_le)
  moreover have "0 < length (takeWhile isdigit ?u)" using t(1) by simp
  moreover have "length t = length ?u - length (takeWhile isdigit ?u)" using t(2) by simp
  ultimately show ?thesis by linarith
qed

text \<open>Every value takes at least one character.\<close>

lemma scan_step_shrinks:
  assumes "length w \<le> length t" and "w \<noteq> []" and "length (fst r) + length (snd r) \<le> length (drop (length w) t)"
  shows "length (fst (map_prod (Cons v) id r)) + length (snd (map_prod (Cons v) id r)) \<le> length t"
proof -
  have "0 < length w" using assms(2) by simp
  moreover have "length (drop (length w) t) = length t - length w" by simp
  ultimately have "Suc (length (fst r) + length (snd r)) \<le> length t" using assms(1,3) by linarith
  then show ?thesis by (cases r) simp
qed

lemma scan_shrinks: "length (fst (scan fs s)) + length (snd (scan fs s)) \<le> length s"
proof (induction fs s rule: scan.induct)
  case (3 fs s)
  then show ?case using length_dropWhile_le [of isspace s] by simp
next
  case (5 fs s)
  then show ?case using scan_num_shrinks [of "dropWhile isspace s"] length_dropWhile_le [of isspace s]
    by (fastforce split: option.split)
next
  case (6 fs s)
  then show ?case using scan_num_shrinks [of "dropWhile isspace s"] length_dropWhile_le [of isspace s]
    by (fastforce split: option.split)
next
  case (7 fs s)
  then show ?case using scan_num_shrinks [of "dropWhile isspace s"] length_dropWhile_le [of isspace s]
    by (fastforce split: option.split)
next
  case (8 n fs s)
  let ?t = "dropWhile isspace s"
  let ?w = "take n (takeWhile (\<lambda>c. \<not> isspace c) ?t)"
  have w: "length ?w \<le> length ?t" using length_takeWhile_le [of "\<lambda>c. \<not> isspace c" ?t] by (simp add: min_def)
  show ?case
  proof (cases "?w = []")
    case True
    then have "scan (Str n # fs) s = ([], ?t)" by (auto simp: Let_def)
    then show ?thesis using length_dropWhile_le [of isspace s] by simp
  next
    case False
    then have "scan (Str n # fs) s = map_prod (Cons (VStr ?w)) id (scan fs (drop (length ?w) ?t))"
      by (simp only: scan.simps Let_def if_False)
    then show ?thesis
      using scan_step_shrinks [OF w False 8 [OF refl refl False]] length_dropWhile_le [of isspace s]
      by (metis le_trans)
  qed
next
  case (9 c n fs s)
  let ?w = "take n (takeWhile (\<lambda>x. x \<noteq> c) s)"
  have w: "length ?w \<le> length s" using length_takeWhile_le [of "\<lambda>x. x \<noteq> c" s] by (simp add: min_def)
  show ?case
  proof (cases "?w = []")
    case True
    then have "scan (Upto c n # fs) s = ([], s)" by (auto simp: Let_def)
    then show ?thesis by simp
  next
    case False
    then have "scan (Upto c n # fs) s = map_prod (Cons (VStr ?w)) id (scan fs (drop (length ?w) s))"
      by (simp only: scan.simps Let_def if_False)
    then show ?thesis using scan_step_shrinks [OF w False 9 [OF refl False]] by metis
  qed
qed auto

section \<open>The fault counters\<close>

text \<open>The format of \<open>sscanf\<close> after the closing parenthesis of the command name.\<close>

definition fault_fields :: "conv \<Rightarrow> conv list" where
  "fault_fields num =
     [Skip_char, Sp, Skip_num, Sp, Skip_num, Sp, Skip_num, Sp, Skip_num, Sp, Skip_num, Sp, Skip_num, Sp, num, Sp, Skip_num, Sp, num]"

text \<open>The text is \<open>None\<close> when \<open>/proc/self/stat\<close> cannot be opened.\<close>

definition read_faults :: "bytes option \<Rightarrow> int \<times> int" where
  "read_faults f =
     (case f of None \<Rightarrow> (0, 0)
      | Some c \<Rightarrow>
          if c = [] then (0, 0)
          else let buf = cstr (line_take 4095 c)
               in case strrchr buf (CHR '')'') of None \<Rightarrow> (0, 0)
                  | Some i \<Rightarrow>
                      (case fst (scan (Lit (CHR '')'') # Sp # fault_fields Num_lu) (drop i buf)) of
                         [VNum a, VNum b] \<Rightarrow> (a, b)
                       | [VNum a] \<Rightarrow> (a, 0)
                       | _ \<Rightarrow> (0, 0)))"

text \<open>
  \<open>show_faults\<close> checks nothing: \<open>None\<close> is undefined behaviour (a null stream or pointer, a pointer past the string, or
  a variable printed that was never assigned), \<open>Some\<close> the two numbers it prints.
\<close>

definition show_faults :: "bytes option \<Rightarrow> (int \<times> int) option" where
  "show_faults f =
     (case f of None \<Rightarrow> None
      | Some c \<Rightarrow>
          if c = [] then None
          else let buf = cstr (line_take 511 c)
               in case strrchr buf (CHR '')'') of None \<Rightarrow> None
                  | Some i \<Rightarrow>
                      if length buf < i + 2 then None
                      else (case fst (scan (fault_fields Num_ld) (drop (i + 2) buf)) of
                              [VNum a, VNum b] \<Rightarrow> Some (a, b)
                            | _ \<Rightarrow> None))"

text \<open>\<open>/proc/self/stat\<close> as the kernel prints it: the command name is any text, the rest is numbers.\<close>

record stat_info =
  st_pid :: int
  st_comm :: bytes
  st_state :: byte
  st_ids :: "int \<times> int \<times> int \<times> int \<times> int"
  st_flags :: nat
  st_minflt :: nat
  st_cminflt :: nat
  st_majflt :: nat
  st_tail :: "int list"

definition spaced :: "int list \<Rightarrow> bytes" where
  "spaced xs = concat (map (\<lambda>x. CHR '' '' # dec_int x) xs)"

definition stat_fields :: "stat_info \<Rightarrow> bytes" where
  "stat_fields s =
     (case st_ids s of (p, g, n, t, u) \<Rightarrow>
        st_state s # spaced ([p, g, n, t, u, int (st_flags s), int (st_minflt s), int (st_cminflt s), int (st_majflt s)] @ st_tail s))"

definition stat_line :: "stat_info \<Rightarrow> bytes" where
  "stat_line s = dec_int (st_pid s) @ '' ('' @ st_comm s @ CHR '')'' # CHR '' '' # stat_fields s @ [LF]"

lemma dec_int_chars: "c \<in> set (dec_int x) \<Longrightarrow> isdigit c \<or> c = CHR ''-''"
  using dec_nat_digits by (auto simp: dec_int_def split: if_splits)

lemma dec_int_hd: "\<exists>c ds. dec_int x = c # ds \<and> (isdigit c \<or> c = CHR ''-'')"
proof (cases "x < 0")
  case False
  then show ?thesis using dec_nat_Cons [of "nat x"] by (metis dec_int_def)
qed (simp add: dec_int_def)

lemma scan_num_dec_int:
  assumes "rest = [] \<or> \<not> isdigit (hd rest)"
  shows "scan_num (dec_int x @ rest) = Some (x, rest)"
proof (cases "x < 0")
  case True
  then show ?thesis using takeWhile_dec_nat [OF assms, of "nat (- x)"] by (simp add: scan_num_def dec_int_def Let_def)
next
  case False
  obtain c ds where c: "dec_nat (nat x) = c # ds" "isdigit c" using dec_nat_Cons by blast
  with False have "scan_num (dec_int x @ rest) = scan_num (c # ds @ rest)" by (simp add: dec_int_def)
  also have "\<dots> = Some (x, rest)"
    using False c isdigit_not [OF c(2)] takeWhile_dec_nat [OF assms, of "nat x"] digits_val_dec_nat [of "nat x"]
    by (simp add: scan_num_def Let_def)
  finally show ?thesis .
qed

lemma dropWhile_dec_int: "dropWhile isspace (CHR '' '' # dec_int x @ rest) = dec_int x @ rest"
proof -
  obtain c ds where c: "dec_int x = c # ds" "isdigit c \<or> c = CHR ''-''" using dec_int_hd by blast
  from c(2) have "\<not> isspace c" using isdigit_not by (auto simp: isspace_def)
  moreover have "isspace CHR '' ''" by (simp add: isspace_def)
  ultimately show ?thesis using c(1) by simp
qed

lemma dropWhile_dec_int': "dropWhile isspace (dec_int x @ rest) = dec_int x @ rest"
  using dropWhile_dec_int [of x rest] by (simp add: isspace_def)

text \<open>A field is a blank and a number; what follows it is a blank, the newline or nothing.\<close>

lemma scan_field:
  assumes "rest = [] \<or> \<not> isdigit (hd rest)"
  shows "scan (Sp # Skip_num # fs) (CHR '' '' # dec_int x @ rest) = scan fs rest"
    and "scan (Sp # Num_lu # fs) (CHR '' '' # dec_int x @ rest) = map_prod (Cons (VNum (ulong_of x))) id (scan fs rest)"
    and "scan (Sp # Num_ld # fs) (CHR '' '' # dec_int x @ rest) = map_prod (Cons (VNum (long_of x))) id (scan fs rest)"
  by (simp_all add: dropWhile_dec_int dropWhile_dec_int' scan_num_dec_int [OF assms] del: dropWhile.simps)

lemma spaced_Cons: "spaced (x # xs) @ r = CHR '' '' # dec_int x @ spaced xs @ r"
  by (simp add: spaced_def)

lemma spaced_stop: "r = [] \<or> \<not> isdigit (hd r) \<Longrightarrow> spaced xs @ r = [] \<or> \<not> isdigit (hd (spaced xs @ r))"
  by (cases xs) (auto simp: spaced_def isdigit_def)

lemma scan_spaced:
  assumes "r = [] \<or> \<not> isdigit (hd r)"
  shows "scan (Sp # Skip_num # fs) (spaced (x # xs) @ r) = scan fs (spaced xs @ r)"
    and "scan (Sp # Num_lu # fs) (spaced (x # xs) @ r) = map_prod (Cons (VNum (ulong_of x))) id (scan fs (spaced xs @ r))"
    and "scan (Sp # Num_ld # fs) (spaced (x # xs) @ r) = map_prod (Cons (VNum (long_of x))) id (scan fs (spaced xs @ r))"
  using scan_field [OF spaced_stop [OF assms]] unfolding spaced_Cons by blast+

lemma LF_stops [simp]: "\<not> isdigit LF"
  by (simp add: isdigit_def)

lemma scan_fault_fields:
  shows "fst (scan (fault_fields Num_lu) (stat_fields s @ [LF])) = [VNum (ulong_of (int (st_minflt s))), VNum (ulong_of (int (st_majflt s)))]"
    and "fst (scan (fault_fields Num_ld) (stat_fields s @ [LF])) = [VNum (long_of (int (st_minflt s))), VNum (long_of (int (st_majflt s)))]"
proof -
  obtain p g n t u where i: "st_ids s = (p, g, n, t, u)" by (cases "st_ids s") auto
  have nl: "[LF] = [] \<or> \<not> isdigit (hd [LF])" by simp
  note sp = scan_spaced [OF nl]
  have c: "scan (Skip_char # fs) (c # r) = scan fs r" for fs c r by simp
  show "fst (scan (fault_fields Num_lu) (stat_fields s @ [LF])) = [VNum (ulong_of (int (st_minflt s))), VNum (ulong_of (int (st_majflt s)))]"
    unfolding fault_fields_def stat_fields_def i prod.case append_Cons c sp by simp
  show "fst (scan (fault_fields Num_ld) (stat_fields s @ [LF])) = [VNum (long_of (int (st_minflt s))), VNum (long_of (int (st_majflt s)))]"
    unfolding fault_fields_def stat_fields_def i prod.case append_Cons c sp by simp
qed

lemma spaced_chars: "c \<in> set (spaced xs) \<Longrightarrow> c = CHR '' '' \<or> isdigit c \<or> c = CHR ''-''"
  using dec_int_chars by (auto simp: spaced_def split: if_splits)

lemma stat_fields_chars: "c \<in> set (stat_fields s) \<Longrightarrow> c = st_state s \<or> c = CHR '' '' \<or> isdigit c \<or> c = CHR ''-''"
  using spaced_chars by (fastforce simp: stat_fields_def split: prod.splits)

lemma not_digits [simp]: "\<not> isdigit NUL" "\<not> isdigit (CHR '')'')"
  by (simp_all add: isdigit_def)

abbreviation stat_ok :: "stat_info \<Rightarrow> bool" where
  "stat_ok s \<equiv> NUL \<notin> set (st_comm s) \<and> LF \<notin> set (st_comm s) \<and> st_state s \<notin> {NUL, LF, CHR '')''}"

lemma stat_fields_clean: "stat_ok s \<Longrightarrow> c \<in> {NUL, LF, CHR '')''} \<Longrightarrow> c \<notin> set (stat_fields s)"
  using stat_fields_chars [of c s] by auto

lemma stat_line_clean:
  assumes "stat_ok s"
  shows "NUL \<notin> set (stat_line s)" and "LF \<notin> set (butlast (stat_line s))"
  using assms stat_fields_clean [OF assms, of NUL] stat_fields_clean [OF assms, of LF] dec_int_chars [of LF "st_pid s"]
  by (auto simp: stat_line_def butlast_append)

lemma stat_buffer:
  assumes "stat_ok s" and "length (stat_line s) \<le> m"
  shows "cstr (line_take m (stat_line s)) = stat_line s"
    and "strrchr (stat_line s) (CHR '')'') = Some (length (dec_int (st_pid s) @ '' ('' @ st_comm s))"
proof -
  have l: "stat_line s = butlast (stat_line s) @ [LF]" by (simp add: stat_line_def butlast_append)
  then have "length (butlast (stat_line s)) < m" using assms(2) by (metis length_append_singleton Suc_le_eq)
  then have "line_take m (stat_line s) = stat_line s" using line_take_line [OF stat_line_clean(2) [OF assms(1)], of m "[]"] l by metis
  then show "cstr (line_take m (stat_line s)) = stat_line s" using stat_line_clean(1) [OF assms(1)] by (simp add: cstr_id)
  have "CHR '')'' \<notin> set (CHR '' '' # stat_fields s @ [LF])" using stat_fields_clean [OF assms(1), of "CHR '')''"] by simp
  then show "strrchr (stat_line s) (CHR '')'') = Some (length (dec_int (st_pid s) @ '' ('' @ st_comm s))"
    using strrchr_append [of "CHR '')''" "CHR '' '' # stat_fields s @ [LF]" "dec_int (st_pid s) @ '' ('' @ st_comm s"]
    by (simp add: stat_line_def)
qed

lemma drop_at: "drop (length xs) (xs @ ys) = ys" "drop (length xs + 2) (xs @ a # b # ys) = ys"
  by simp_all

lemma stat_line_drop:
  "drop (length (dec_int (st_pid s) @ '' ('' @ st_comm s)) (stat_line s) = CHR '')'' # CHR '' '' # stat_fields s @ [LF]"
  "drop (length (dec_int (st_pid s) @ '' ('' @ st_comm s) + 2) (stat_line s) = stat_fields s @ [LF]"
proof -
  have l: "stat_line s = (dec_int (st_pid s) @ '' ('' @ st_comm s) @ CHR '')'' # CHR '' '' # stat_fields s @ [LF]"
    by (simp add: stat_line_def)
  show "drop (length (dec_int (st_pid s) @ '' ('' @ st_comm s)) (stat_line s) = CHR '')'' # CHR '' '' # stat_fields s @ [LF]"
    unfolding l by (rule drop_at(1))
  show "drop (length (dec_int (st_pid s) @ '' ('' @ st_comm s) + 2) (stat_line s) = stat_fields s @ [LF]"
    unfolding l by (rule drop_at(2))
qed

lemma scan_paren:
  assumes "\<not> isspace (st_state s)"
  shows "scan (Lit (CHR '')'') # Sp # fs) (CHR '')'' # CHR '' '' # stat_fields s @ r) = scan fs (stat_fields s @ r)"
proof -
  have "isspace CHR '' ''" by (simp add: isspace_def)
  then show ?thesis using assms by (simp add: stat_fields_def split: prod.split)
qed

lemma ulong_of_nat: "n < 2 ^ 64 \<Longrightarrow> ulong_of (int n) = int n"
  by (simp add: ulong_of_def)

lemma long_of_nat: "n < 2 ^ 63 \<Longrightarrow> long_of (int n) = int n"
  by (simp add: long_of_def LONG_MAX_def LONG_MIN_def)

lemma stat_line_nonempty: "stat_line s \<noteq> []"
  by (simp add: stat_line_def)

lemma read_faults_stat_line:
  assumes "stat_ok s" and "\<not> isspace (st_state s)" and "length (stat_line s) \<le> 4095"
  shows "read_faults (Some (stat_line s)) = (ulong_of (int (st_minflt s)), ulong_of (int (st_majflt s)))"
  by (simp only: read_faults_def option.case Let_def stat_line_nonempty stat_buffer [OF assms(1,3)] stat_line_drop
      scan_paren [OF assms(2)] scan_fault_fields if_False list.case sval.case)

lemma show_faults_stat_line:
  assumes "stat_ok s" and "length (stat_line s) \<le> 511"
  shows "show_faults (Some (stat_line s)) = Some (long_of (int (st_minflt s)), long_of (int (st_majflt s)))"
proof -
  have "\<not> length (stat_line s) < length (dec_int (st_pid s) @ '' ('' @ st_comm s) + 2" by (simp add: stat_line_def)
  then show ?thesis
    by (simp only: show_faults_def option.case Let_def stat_line_nonempty stat_buffer [OF assms] stat_line_drop
        scan_fault_fields if_False list.case sval.case)
qed

text \<open>
  \<open>read_faults\<close> returns the two fault counters that the kernel printed into \<open>/proc/self/stat\<close>, whatever the command
  name in parentheses is (it may hold blanks, parentheses and digits), for a line that fits the 4096-byte buffer; so
  does \<open>show_faults\<close> when the line fits its 512 bytes and the counters fit a signed \<open>long\<close>.
\<close>

lemma faults_read_back:
  assumes "NUL \<notin> set (st_comm s)" and "LF \<notin> set (st_comm s)"
    and "st_state s \<notin> {NUL, CHR '')''}" and "\<not> isspace (st_state s)"
    and "st_minflt s < 2 ^ 64" and "st_majflt s < 2 ^ 64" and "length (stat_line s) \<le> 4095"
  shows "read_faults (Some (stat_line s)) = (int (st_minflt s), int (st_majflt s))
    \<and> (length (stat_line s) \<le> 511 \<and> st_minflt s < 2 ^ 63 \<and> st_majflt s < 2 ^ 63 \<longrightarrow>
         show_faults (Some (stat_line s)) = Some (int (st_minflt s), int (st_majflt s)))"
proof -
  have "isspace LF" by (simp add: isspace_def)
  with assms(1-4) have ok: "stat_ok s" by auto
  from read_faults_stat_line [OF ok assms(4,7)] show ?thesis
    using show_faults_stat_line [OF ok] ulong_of_nat [OF assms(5)] ulong_of_nat [OF assms(6)] by (simp add: long_of_nat)
qed

definition stat_example :: stat_info where
  "stat_example = \<lparr> st_pid = 7, st_comm = ''a) 9 (b'', st_state = CHR ''R'', st_ids = (1, 7, 7, 0, -1),
     st_flags = 64, st_minflt = 96, st_cminflt = 0, st_majflt = 2, st_tail = [0, 5] \<rparr>"

lemma faults_read_back_witness:
  "read_faults (Some (stat_line stat_example)) = (96, 2) \<and> show_faults (Some (stat_line stat_example)) = Some (96, 2)"
proof -
  have l: "length (stat_line stat_example) \<le> 511" by code_simp
  have s: "\<not> isspace (st_state stat_example)" by code_simp
  have v: "st_minflt stat_example = 96" "st_majflt stat_example = 2" by (simp_all add: stat_example_def)
  have c: "NUL \<notin> set (st_comm stat_example)" "LF \<notin> set (st_comm stat_example)" "st_state stat_example \<notin> {NUL, CHR '')''}"
    by (simp_all add: stat_example_def)
  show ?thesis using faults_read_back [OF c s, unfolded v] l by simp
qed

section \<open>Looking a key up\<close>

text \<open>One turn of each loop: \<open>None\<close> when \<open>fscanf\<close> returns fewer than two values and the loop ends.\<close>

definition next_vmstat :: "bytes \<Rightarrow> (bytes \<times> int \<times> bytes) option" where
  "next_vmstat c =
     (case scan [Str 63, Sp, Num_lu] c of
        ([VStr n, VNum v], r) \<Rightarrow> Some (cstr n, v, r)
      | _ \<Rightarrow> None)"

definition next_meminfo :: "bytes \<Rightarrow> (bytes \<times> int \<times> bytes) option" where
  "next_meminfo c =
     (case scan [Upto (CHR '':'') 63, Lit (CHR '':''), Sp, Num_ld, Sp, Str 15, Sp] c of
        (VStr n # VNum v # _, r) \<Rightarrow> Some (cstr n, v, r)
      | _ \<Rightarrow> None)"

lemma next_vmstat_shrinks: "next_vmstat c = Some (n, v, r) \<Longrightarrow> length r < length c"
  using scan_shrinks [of "[Str 63, Sp, Num_lu]" c]
  by (auto simp: next_vmstat_def simp del: scan.simps split: prod.splits list.splits sval.splits)

lemma next_meminfo_shrinks: "next_meminfo c = Some (n, v, r) \<Longrightarrow> length r < length c"
  using scan_shrinks [of "[Upto (CHR '':'') 63, Lit (CHR '':''), Sp, Num_ld, Sp, Str 15, Sp]" c]
  by (auto simp: next_meminfo_def simp del: scan.simps split: prod.splits list.splits sval.splits)

function vmstat_loop :: "bytes \<Rightarrow> bytes \<Rightarrow> int" where
  "vmstat_loop key c =
     (case next_vmstat c of None \<Rightarrow> 0 | Some (n, v, r) \<Rightarrow> if n = key then v else vmstat_loop key r)"
  by auto
termination
  by (relation "measure (\<lambda>(key, c). length c)") (auto simp: next_vmstat_shrinks)

function meminfo_loop :: "bytes \<Rightarrow> bytes \<Rightarrow> int" where
  "meminfo_loop key c =
     (case next_meminfo c of None \<Rightarrow> -1 | Some (n, v, r) \<Rightarrow> if n = key then v else meminfo_loop key r)"
  by auto
termination
  by (relation "measure (\<lambda>(key, c). length c)") (auto simp: next_meminfo_shrinks)

declare vmstat_loop.simps [simp del] meminfo_loop.simps [simp del]

definition read_vmstat :: "bytes option \<Rightarrow> bytes \<Rightarrow> int" where
  "read_vmstat f key = (case f of None \<Rightarrow> 0 | Some c \<Rightarrow> vmstat_loop key c)"

definition meminfo_kb :: "bytes option \<Rightarrow> bytes \<Rightarrow> int" where
  "meminfo_kb f key = (case f of None \<Rightarrow> -1 | Some c \<Rightarrow> meminfo_loop key c)"

definition read_rss_kb :: "int \<Rightarrow> bytes option \<Rightarrow> int" where
  "read_rss_kb pagesize f =
     (let res = (case f of None \<Rightarrow> 0
                 | Some c \<Rightarrow> (case fst (scan [Num_ld, Sp, Num_ld] c) of [VNum sz, VNum r] \<Rightarrow> r | _ \<Rightarrow> 0))
      in res * (pagesize div 1024))"

text \<open>
  Both loops look a key up in a table of lines. The interface is the reader of one line: what it returns on a line of
  the table, and that what it leaves is, to the loop, the lines that follow.
\<close>

locale keyed_lines =
  fixes next_item :: "bytes \<Rightarrow> (bytes \<times> int \<times> bytes) option"
    and lookup :: "bytes \<Rightarrow> bytes \<Rightarrow> int"
    and absent :: int
    and row :: "bytes \<times> int \<Rightarrow> bytes"
    and row_ok :: "bytes \<times> int \<Rightarrow> bool"
  assumes lookup_step:
      "lookup key c = (case next_item c of None \<Rightarrow> absent | Some (n, v, r) \<Rightarrow> if n = key then v else lookup key r)"
    and item_row: "row_ok e \<Longrightarrow> list_all row_ok es \<Longrightarrow>
      \<exists>r. next_item (row e @ concat (map row es)) = Some (fst e, snd e, r)
        \<and> (\<forall>key. lookup key r = lookup key (concat (map row es)))"
    and item_none: "next_item [] = None"
begin

lemma lookup_table:
  assumes "list_all row_ok es"
  shows "lookup key (concat (map row es)) = (case map_of es key of None \<Rightarrow> absent | Some v \<Rightarrow> v)"
  using assms
proof (induction es)
  case Nil
  then show ?case using lookup_step [of key "[]"] item_none by simp
next
  case (Cons e es)
  then obtain r where r: "next_item (row e @ concat (map row es)) = Some (fst e, snd e, r)"
    "lookup key r = lookup key (concat (map row es))" using item_row [of e es] by auto
  then have "lookup key (row e @ concat (map row es)) = (if fst e = key then snd e else lookup key (concat (map row es)))"
    using lookup_step [of key "row e @ concat (map row es)"] by simp
  with Cons show ?case by (cases e) simp
qed

end

definition vm_row :: "bytes \<times> int \<Rightarrow> bytes" where
  "vm_row e = fst e @ CHR '' '' # dec_int (snd e) @ [LF]"

definition vm_row_ok :: "bytes \<times> int \<Rightarrow> bool" where
  "vm_row_ok e \<longleftrightarrow> fst e \<noteq> [] \<and> length (fst e) \<le> 63 \<and> (\<forall>c \<in> set (fst e). \<not> isspace c) \<and> NUL \<notin> set (fst e)
     \<and> 0 \<le> snd e \<and> snd e < 2 ^ 64"

definition mem_row :: "bytes \<times> int \<Rightarrow> bytes" where
  "mem_row e = fst e @ CHR '':'' # CHR '' '' # dec_int (snd e) @ '' kB'' @ [LF]"

definition mem_row_ok :: "bytes \<times> int \<Rightarrow> bool" where
  "mem_row_ok e \<longleftrightarrow> fst e \<noteq> [] \<and> length (fst e) \<le> 63 \<and> CHR '':'' \<notin> set (fst e) \<and> NUL \<notin> set (fst e)
     \<and> \<not> isspace (hd (fst e)) \<and> LONG_MIN \<le> snd e \<and> snd e \<le> LONG_MAX"

lemma next_vmstat_row:
  assumes "vm_row_ok e"
  shows "next_vmstat (vm_row e @ rest) = Some (fst e, snd e, LF # rest)"
proof -
  let ?r = "CHR '' '' # dec_int (snd e) @ LF # rest"
  have e: "fst e \<noteq> []" "length (fst e) \<le> 63" "\<forall>c \<in> set (fst e). \<not> isspace c" "cstr (fst e) = fst e" "ulong_of (snd e) = snd e"
    using assms by (auto simp: vm_row_ok_def cstr_id ulong_of_def)
  have "isspace CHR '' ''" by (simp add: isspace_def)
  then have "takeWhile (\<lambda>c. \<not> isspace c) (fst e @ ?r) = fst e"
    using e(3) takeWhile_append_stop [of "fst e" "\<lambda>c. \<not> isspace c"] by simp
  moreover have "dropWhile isspace (fst e @ ?r) = fst e @ ?r" using e(1,3) by (cases "fst e") auto
  ultimately have "scan [Str 63, Sp, Num_lu] (fst e @ ?r) = map_prod (Cons (VStr (fst e))) id (scan [Sp, Num_lu] ?r)"
    using e(1,2) by (simp add: Let_def del: scan.simps(3,6))
  also have "scan [Sp, Num_lu] ?r = ([VNum (snd e)], LF # rest)"
    using scan_field(2) [of "LF # rest" "[]" "snd e"] e(5) by simp
  finally show ?thesis using e(4) by (simp add: next_vmstat_def vm_row_def del: scan.simps)
qed

lemma vmstat_loop_LF: "vmstat_loop key (LF # c) = vmstat_loop key c"
proof -
  have "isspace LF" by (simp add: isspace_def)
  then have "next_vmstat (LF # c) = next_vmstat c" by (simp add: next_vmstat_def)
  then show ?thesis using vmstat_loop.simps [of key "LF # c"] vmstat_loop.simps [of key c] by simp
qed

interpretation vmstat: keyed_lines next_vmstat vmstat_loop 0 vm_row vm_row_ok
proof unfold_locales
  fix key c
  show "vmstat_loop key c = (case next_vmstat c of None \<Rightarrow> 0 | Some (n, v, r) \<Rightarrow> if n = key then v else vmstat_loop key r)"
    by (rule vmstat_loop.simps)
next
  fix e es
  assume "vm_row_ok e"
  then show "\<exists>r. next_vmstat (vm_row e @ concat (map vm_row es)) = Some (fst e, snd e, r)
      \<and> (\<forall>key. vmstat_loop key r = vmstat_loop key (concat (map vm_row es)))"
    using next_vmstat_row vmstat_loop_LF by blast
qed (simp add: next_vmstat_def)

lemma mem_rows_start: "list_all mem_row_ok es \<Longrightarrow> dropWhile isspace (concat (map mem_row es)) = concat (map mem_row es)"
proof (cases es)
  case (Cons e r)
  moreover assume "list_all mem_row_ok es"
  ultimately have "fst e \<noteq> []" "\<not> isspace (hd (fst e))" by (auto simp: mem_row_ok_def)
  with Cons show ?thesis by (cases "fst e") (auto simp: mem_row_def)
qed simp

lemma scan_unit: "scan [Sp, Str 15, Sp] ('' kB'' @ LF # rest) = ([VStr ''kB''], dropWhile isspace rest)"
proof -
  have "isspace CHR '' ''" "isspace LF" "\<not> isspace CHR ''k''" "\<not> isspace CHR ''B''" by (simp_all add: isspace_def)
  then show ?thesis by (simp add: Let_def)
qed

lemma next_meminfo_row:
  assumes "mem_row_ok e"
  shows "next_meminfo (mem_row e @ rest) = Some (fst e, snd e, dropWhile isspace rest)"
proof -
  let ?u = "'' kB'' @ LF # rest"
  let ?r = "CHR '' '' # dec_int (snd e) @ ?u"
  have e: "fst e \<noteq> []" "length (fst e) \<le> 63" "cstr (fst e) = fst e" "long_of (snd e) = snd e"
    using assms by (auto simp: mem_row_ok_def cstr_id long_of_def)
  have "takeWhile (\<lambda>x. x \<noteq> CHR '':'') (fst e @ CHR '':'' # ?r) = fst e"
    using assms by (intro takeWhile_append_stop) (auto simp: mem_row_ok_def)
  then have "scan [Upto (CHR '':'') 63, Lit (CHR '':''), Sp, Num_ld, Sp, Str 15, Sp] (fst e @ CHR '':'' # ?r)
      = map_prod (Cons (VStr (fst e))) id (scan [Sp, Num_ld, Sp, Str 15, Sp] ?r)"
    using e(1,2) by (simp add: Let_def del: scan.simps(3,5-8))
  also have "scan [Sp, Num_ld, Sp, Str 15, Sp] ?r = map_prod (Cons (VNum (snd e))) id (scan [Sp, Str 15, Sp] ?u)"
    using scan_field(3) [of ?u "[Sp, Str 15, Sp]" "snd e"] e(4) by (simp add: isdigit_def)
  also note scan_unit
  finally show ?thesis using e(3) by (simp add: next_meminfo_def mem_row_def del: scan.simps)
qed

interpretation meminfo: keyed_lines next_meminfo meminfo_loop "-1" mem_row mem_row_ok
proof unfold_locales
  fix key c
  show "meminfo_loop key c = (case next_meminfo c of None \<Rightarrow> -1 | Some (n, v, r) \<Rightarrow> if n = key then v else meminfo_loop key r)"
    by (rule meminfo_loop.simps)
next
  fix e es
  assume "mem_row_ok e" "list_all mem_row_ok es"
  then show "\<exists>r. next_meminfo (mem_row e @ concat (map mem_row es)) = Some (fst e, snd e, r)
      \<and> (\<forall>key. meminfo_loop key r = meminfo_loop key (concat (map mem_row es)))"
    using next_meminfo_row mem_rows_start by metis
qed (simp add: next_meminfo_def)

text \<open>
  On a table of well-formed lines \<open>read_vmstat\<close> and \<open>meminfo_kb\<close> return the value of the first line that has the key,
  and their default when no line has it.
\<close>

lemma proc_lookup:
  "list_all vm_row_ok es \<Longrightarrow>
     read_vmstat (Some (concat (map vm_row es))) key = (case map_of es key of None \<Rightarrow> 0 | Some v \<Rightarrow> v)"
  "list_all mem_row_ok fs \<Longrightarrow>
     meminfo_kb (Some (concat (map mem_row fs))) key = (case map_of fs key of None \<Rightarrow> -1 | Some v \<Rightarrow> v)"
  using vmstat.lookup_table [of es key] meminfo.lookup_table [of fs key] by (simp_all add: read_vmstat_def meminfo_kb_def)

lemma read_rss_kb_statm:
  assumes "0 \<le> sz" "sz \<le> LONG_MAX" "0 \<le> res" "res \<le> LONG_MAX"
  shows "read_rss_kb pagesize (Some (dec_int sz @ CHR '' '' # dec_int res @ CHR '' '' # rest)) = res * (pagesize div 1024)"
proof -
  have r: "scan [Sp, Num_ld] (CHR '' '' # dec_int res @ CHR '' '' # rest) = ([VNum (long_of res)], CHR '' '' # rest)"
    using scan_field(3) [of "CHR '' '' # rest" "[]" res] by (simp add: isdigit_def)
  have "scan [Num_ld, Sp, Num_ld] (dec_int sz @ CHR '' '' # dec_int res @ CHR '' '' # rest)
      = map_prod (Cons (VNum (long_of sz))) id (scan [Sp, Num_ld] (CHR '' '' # dec_int res @ CHR '' '' # rest))"
    by (simp add: dropWhile_dec_int' scan_num_dec_int isdigit_def del: scan.simps(3))
  with r have "fst (scan [Num_ld, Sp, Num_ld] (dec_int sz @ CHR '' '' # dec_int res @ CHR '' '' # rest)) = [VNum (long_of sz), VNum (long_of res)]"
    by simp
  moreover have "long_of res = res" using assms by (simp add: long_of_def LONG_MIN_def)
  ultimately show ?thesis by (simp add: read_rss_kb_def Let_def del: scan.simps)
qed

text \<open>
  A line without a unit: \<open>%15s\<close> takes the next line's name for the unit, and the line after it is not found.
\<close>

lemma meminfo_kb_no_unit:
  "meminfo_kb (Some (''Dirty: 4 kB'' @ [LF] @ ''Huge: 3'' @ [LF] @ ''Hugetlb: 8 kB'' @ [LF])) ''Dirty'' = 4
   \<and> meminfo_kb (Some (''Dirty: 4 kB'' @ [LF] @ ''Huge: 3'' @ [LF] @ ''Hugetlb: 8 kB'' @ [LF])) ''Hugetlb'' = -1"
  by code_simp

end
