(* ===== verification/Page_Faults.thy ===== *)
theory Page_Faults
  imports Proc_Files
begin

text \<open>
  The page fault experiments of Chapter 9: \<open>paging/main.c\<close>, \<open>zero_page.c\<close>, \<open>cow_minflt.c\<close>, \<open>cow_trace.c\<close> and
  \<open>vmstat_fault.c\<close>. The kernel is a parameter: what a load, a store, a \<open>fork\<close> or a mapping does to its state, and the text
  of the files of \<open>/proc\<close> in a state, which the readers of \<open>Proc_Files\<close> parse. What the experiments rely on (demand-zero
  pages, copy on write, file pages) are the hypotheses \<open>paging_rules\<close> and \<open>counters_shown\<close>; the theorems say what the
  programs then print.
\<close>

section \<open>The kernel\<close>

text \<open>Addresses are offsets in the region the program works on.\<close>

record 'k vm_kernel =
  vm_load :: "nat \<Rightarrow> 'k \<Rightarrow> 'k"
  vm_store :: "nat \<Rightarrow> 'k \<Rightarrow> 'k"
  vm_anon :: "'k \<Rightarrow> 'k option"
  vm_free :: "'k \<Rightarrow> 'k"
  vm_fork :: "'k \<Rightarrow> 'k option"
  vm_open :: "'k \<Rightarrow> 'k option"
  vm_write_mb :: "'k \<Rightarrow> bool \<times> 'k"
  vm_drop_cache :: "'k \<Rightarrow> 'k"
  vm_map_file :: "'k \<Rightarrow> 'k option"
  vm_minflt :: "'k \<Rightarrow> int"
  proc_stat :: "'k \<Rightarrow> bytes option"
  proc_statm :: "'k \<Rightarrow> bytes option"
  proc_vmstat :: "'k \<Rightarrow> bytes option"

text \<open>
  The loop \<open>for (i = 0; i < N; i += step)\<close> that loads or stores one byte per turn; it does not end when the step is 0
  (\<open>None\<close>).
\<close>

function touch :: "(nat \<Rightarrow> 'k \<Rightarrow> 'k) \<Rightarrow> nat \<Rightarrow> nat \<Rightarrow> nat \<Rightarrow> 'k \<Rightarrow> 'k option" where
  "touch acc i n step k =
     (if i < n then if step = 0 then None else touch acc (i + step) n step (acc i k) else Some k)"
  by auto
termination
  by (relation "measure (\<lambda>(acc, i, n, step, k). n - i)") auto

declare touch.simps [simp del]

definition MB :: nat where "MB = 2 ^ 20"

text \<open>The difference of two unsigned counters.\<close>

definition udiff :: "int \<Rightarrow> int \<Rightarrow> int" where
  "udiff a b = (a - b) mod 2 ^ 64"

section \<open>The programs\<close>

text \<open>
  A program exits with status 1 (\<open>Inl\<close>) or prints (\<open>Inr\<close>); \<open>None\<close> is a run that does not end or that is undefined.
  \<open>paging/main.c\<close> prints the two counters four times; it does not test what \<open>malloc\<close> returns.
\<close>

definition paging_main :: "'k vm_kernel \<Rightarrow> 'k \<Rightarrow> (int \<times> int) list option" where
  "paging_main K k0 =
     Option.bind (show_faults (proc_stat K k0)) (\<lambda>f0.
     Option.bind (vm_anon K k0) (\<lambda>k1.
     Option.bind (show_faults (proc_stat K k1)) (\<lambda>f1.
     Option.bind (touch (vm_store K) 0 (256 * 1024 * 1024) 4096 k1) (\<lambda>k2.
     Option.bind (show_faults (proc_stat K k2)) (\<lambda>f2.
     Option.bind (touch (vm_store K) 0 (256 * 1024 * 1024) 4096 k2) (\<lambda>k3.
     Option.bind (show_faults (proc_stat K k3)) (\<lambda>f3. Some [f0, f1, f2, f3])))))))"

record zero_report =
  rss_at_map :: int
  rss_read_diff :: int
  rss_write_diff :: int
  read_minflt :: int
  write_minflt :: int
  all_majflt :: int

definition zero_page_main :: "'k vm_kernel \<Rightarrow> nat \<Rightarrow> 'k \<Rightarrow> (int + zero_report) option" where
  "zero_page_main K pg k0 =
     (let n = 256 * MB
      in case vm_anon K k0 of None \<Rightarrow> Some (Inl 1)
         | Some k1 \<Rightarrow>
             (let rss_map = read_rss_kb (int pg) (proc_statm K k1); (mf_a, jf_a) = read_faults (proc_stat K k1)
              in Option.bind (touch (vm_load K) 0 n pg k1) (\<lambda>k2.
                 let rss_read = read_rss_kb (int pg) (proc_statm K k2); (mf_b, jf_b) = read_faults (proc_stat K k2)
                 in Option.bind (touch (vm_store K) 0 n pg k2) (\<lambda>k3.
                    let rss_write = read_rss_kb (int pg) (proc_statm K k3); (mf_c, jf_c) = read_faults (proc_stat K k3)
                    in Some (Inr \<lparr>rss_at_map = rss_map, rss_read_diff = rss_read - rss_map, rss_write_diff = rss_write - rss_read,
                                  read_minflt = udiff mf_b mf_a, write_minflt = udiff mf_c mf_b, all_majflt = udiff jf_c jf_a\<rparr>)))))"

text \<open>
  \<open>cow_minflt.c\<close> and \<open>cow_trace.c\<close>: the parent fills the region, the child loads and then stores one byte per page and
  prints how many faults each phase took. \<open>memset\<close> stores every byte. The child's part is a definition of its own.
\<close>

definition cow_child :: "'k vm_kernel \<Rightarrow> nat \<Rightarrow> 'k \<Rightarrow> (int \<times> int) option" where
  "cow_child K pg k0 =
     (let n = 64 * MB; before_read = vm_minflt K k0
      in Option.bind (touch (vm_load K) 0 n pg k0) (\<lambda>k1.
         let after_read = vm_minflt K k1; before_write = after_read
         in Option.bind (touch (vm_store K) 0 n pg k1) (\<lambda>k2.
            let after_write = vm_minflt K k2 in Some (after_read - before_read, after_write - before_write))))"

definition cow_main :: "'k vm_kernel \<Rightarrow> nat \<Rightarrow> 'k \<Rightarrow> (int + int \<times> int) option" where
  "cow_main K pg k0 =
     (case vm_anon K k0 of None \<Rightarrow> Some (Inl 1)
      | Some k1 \<Rightarrow>
          Option.bind (touch (vm_store K) 0 (64 * MB) 1 k1) (\<lambda>k2.
            case vm_fork K k2 of None \<Rightarrow> Some (Inl 1)
            | Some c \<Rightarrow> map_option Inr (cow_child K pg c)))"

definition trace_child :: "'k vm_kernel \<Rightarrow> nat \<Rightarrow> 'k \<Rightarrow> (int \<times> int) option" where
  "trace_child K pg k0 =
     (let n = 64 * MB; m0 = vm_minflt K k0 mod 2 ^ 64
      in Option.bind (touch (vm_load K) 0 n pg k0) (\<lambda>k1.
         let m1 = vm_minflt K k1 mod 2 ^ 64
         in Option.bind (touch (vm_store K) 0 n pg k1) (\<lambda>k2.
            let m2 = vm_minflt K k2 mod 2 ^ 64 in Some (udiff m1 m0, udiff m2 m1))))"

definition trace_main :: "'k vm_kernel \<Rightarrow> nat \<Rightarrow> 'k \<Rightarrow> (int + int \<times> int) option" where
  "trace_main K pg k0 =
     (case vm_anon K k0 of None \<Rightarrow> Some (Inl 1)
      | Some k1 \<Rightarrow>
          Option.bind (touch (vm_store K) 0 (64 * MB) 1 k1) (\<lambda>k2.
            case vm_fork K k2 of None \<Rightarrow> Some (Inl 1)
            | Some c \<Rightarrow> map_option Inr (trace_child K pg c)))"

text \<open>The first half of \<open>vmstat_fault.c\<close>: the increments of \<open>minflt\<close>, \<open>majflt\<close>, \<open>pgfault\<close> and \<open>pgmajfault\<close>.\<close>

definition vmstat_minor :: "'k vm_kernel \<Rightarrow> 'k \<Rightarrow> (int + (int \<times> int \<times> int \<times> int) \<times> 'k) option" where
  "vmstat_minor K k0 =
     (let (mf0, jf0) = read_faults (proc_stat K k0);
          vpf0 = read_vmstat (proc_vmstat K k0) ''pgfault''; vpmf0 = read_vmstat (proc_vmstat K k0) ''pgmajfault''
      in case vm_anon K k0 of None \<Rightarrow> Some (Inl 1)
         | Some k1 \<Rightarrow>
             Option.bind (touch (vm_store K) 0 (128 * MB) 1 k1) (\<lambda>k2.
             let (mf1, jf1) = read_faults (proc_stat K k2);
                 vpf1 = read_vmstat (proc_vmstat K k2) ''pgfault''; vpmf1 = read_vmstat (proc_vmstat K k2) ''pgmajfault''
             in Some (Inr ((udiff mf1 mf0, udiff jf1 jf0, udiff vpf1 vpf0, udiff vpmf1 vpmf0), k2))))"

text \<open>The loop that writes the file one megabyte at a time; \<open>None\<close> when a \<open>write\<close> is short or fails.\<close>

fun write_chunks :: "'k vm_kernel \<Rightarrow> nat \<Rightarrow> 'k \<Rightarrow> 'k option" where
  "write_chunks K 0 k = Some k"
| "write_chunks K (Suc m) k = (let (ok, k1) = vm_write_mb K k in if ok then write_chunks K m k1 else None)"

text \<open>
  The second half: the increments of \<open>majflt\<close>, \<open>minflt\<close> and \<open>pgmajfault\<close>, and whether the warning is printed.
\<close>

definition vmstat_major :: "'k vm_kernel \<Rightarrow> nat \<Rightarrow> 'k \<Rightarrow> (int + int \<times> int \<times> int \<times> bool) option" where
  "vmstat_major K pg k0 =
     (case vm_open K k0 of None \<Rightarrow> Some (Inl 1)
      | Some k1 \<Rightarrow>
          (case write_chunks K 128 k1 of None \<Rightarrow> Some (Inl 1)
           | Some k2 \<Rightarrow>
               (case vm_map_file K (vm_drop_cache K k2) of None \<Rightarrow> Some (Inl 1)
                | Some k3 \<Rightarrow>
                    (let (mf1, jf1) = read_faults (proc_stat K k3); vpf0 = read_vmstat (proc_vmstat K k3) ''pgmajfault''
                     in Option.bind (touch (vm_load K) 0 (128 * MB) pg k3) (\<lambda>k4.
                        let (mf2, jf2) = read_faults (proc_stat K k4); vpf1 = read_vmstat (proc_vmstat K k4) ''pgmajfault''
                        in Some (Inr (udiff jf2 jf1, udiff mf2 mf1, udiff vpf1 vpf0, udiff jf2 jf1 = 0)))))))"

definition vmstat_main :: "'k vm_kernel \<Rightarrow> nat \<Rightarrow> 'k \<Rightarrow> (int + (int \<times> int \<times> int \<times> int) \<times> (int \<times> int \<times> int \<times> bool)) option" where
  "vmstat_main K pg k0 =
     Option.bind (vmstat_minor K k0) (\<lambda>r.
       case r of Inl e \<Rightarrow> Some (Inl e)
       | Inr (a, k) \<Rightarrow> map_option (map_sum id (Pair a)) (vmstat_major K pg (vm_free K k)))"

section \<open>What the experiments rely on\<close>

text \<open>
  The state of a page: never touched; mapped to the shared zero page; shared with the parent after \<open>fork\<close>; the process's
  own; a file page on disk, in the page cache, or mapped.
\<close>

datatype page = Untouched | Zero_page | Shared_page | Own | On_disk | Cached | Mapped

fun load_page :: "page \<Rightarrow> page" where
  "load_page Untouched = Zero_page"
| "load_page On_disk = Mapped"
| "load_page Cached = Mapped"
| "load_page p = p"

text \<open>Minor faults, major faults and resident pages that a load or a store adds.\<close>

fun load_cost :: "page \<Rightarrow> nat \<times> nat \<times> nat" where
  "load_cost Untouched = (1, 0, 0)"
| "load_cost On_disk = (0, 1, 1)"
| "load_cost Cached = (1, 0, 1)"
| "load_cost p = (0, 0, 0)"

fun store_cost :: "page \<Rightarrow> nat \<times> nat \<times> nat" where
  "store_cost Own = (0, 0, 0)"
| "store_cost Shared_page = (1, 0, 0)"
| "store_cost p = (1, 0, 1)"

text \<open>The kernel's state seen through its page table and its counters of minor and major faults and resident pages.\<close>

record vm_view =
  ptab :: "nat \<Rightarrow> page"
  n_min :: nat
  n_maj :: nat
  n_rss :: nat

definition charge :: "nat \<Rightarrow> page \<Rightarrow> nat \<times> nat \<times> nat \<Rightarrow> vm_view \<Rightarrow> vm_view" where
  "charge p q c v =
     (case c of (a, b, r) \<Rightarrow> v\<lparr>ptab := (ptab v)(p := q), n_min := n_min v + a, n_maj := n_maj v + b, n_rss := n_rss v + r\<rparr>)"

definition paging_rules :: "'k vm_kernel \<Rightarrow> nat \<Rightarrow> ('k \<Rightarrow> vm_view) \<Rightarrow> bool" where
  "paging_rules K pg view \<longleftrightarrow>
     (\<forall>a k. view (vm_load K a k) = charge (a div pg) (load_page (ptab (view k) (a div pg))) (load_cost (ptab (view k) (a div pg))) (view k))
     \<and> (\<forall>a k. view (vm_store K a k) = charge (a div pg) Own (store_cost (ptab (view k) (a div pg))) (view k))
     \<and> (\<forall>k k'. vm_anon K k = Some k' \<longrightarrow> view k' = (view k)\<lparr>ptab := (\<lambda>_. Untouched)\<rparr>)
     \<and> (\<forall>k k'. vm_fork K k = Some k' \<longrightarrow> ptab (view k') = (\<lambda>p. if ptab (view k) p = Own then Shared_page else ptab (view k) p)
          \<and> n_min (view k') = 0 \<and> n_maj (view k') = 0 \<and> n_rss (view k') = n_rss (view k))"

definition in_range :: "vm_view \<Rightarrow> bool" where
  "in_range v \<longleftrightarrow> n_min v < 2 ^ 63 \<and> n_maj v < 2 ^ 63 \<and> int (n_rss v) \<le> LONG_MAX"

text \<open>As long as they fit a \<open>long\<close>, the counters are what \<open>getrusage\<close> and the files of \<open>/proc\<close> show.\<close>

definition counters_shown :: "'k vm_kernel \<Rightarrow> ('k \<Rightarrow> vm_view) \<Rightarrow> ('k \<Rightarrow> stat_info) \<Rightarrow> bool" where
  "counters_shown K view info \<longleftrightarrow>
     (\<forall>k. in_range (view k) \<longrightarrow>
        proc_stat K k = Some (stat_line (info k)) \<and> stat_ok (info k) \<and> \<not> isspace (st_state (info k))
        \<and> length (stat_line (info k)) \<le> 511 \<and> st_minflt (info k) = n_min (view k) \<and> st_majflt (info k) = n_maj (view k)
        \<and> vm_minflt K k = int (n_min (view k))
        \<and> (\<exists>sz rest. 0 \<le> sz \<and> sz \<le> LONG_MAX
             \<and> proc_statm K k = Some (dec_int sz @ CHR '' '' # dec_int (int (n_rss (view k))) @ CHR '' '' # rest)))"

section \<open>Walking over the pages\<close>

text \<open>One access per page, all pages in the same state: each is charged once.\<close>

lemma touch_pages:
  assumes acc: "\<And>a k. view (acc a k) = charge (a div pg) (q (ptab (view k) (a div pg))) (c (ptab (view k) (a div pg))) (view k)"
    and pg: "0 < pg" and cu: "c u = (x, y, z)"
  shows "j \<le> n \<Longrightarrow> \<forall>p. j \<le> p \<and> p < n \<longrightarrow> ptab (view k) p = u \<Longrightarrow>
    \<exists>k'. touch acc (pg * j) (pg * n) pg k = Some k'
      \<and> view k' = (view k)\<lparr>ptab := (\<lambda>p. if j \<le> p \<and> p < n then q u else ptab (view k) p),
                          n_min := n_min (view k) + (n - j) * x, n_maj := n_maj (view k) + (n - j) * y, n_rss := n_rss (view k) + (n - j) * z\<rparr>"
proof (induction "n - j" arbitrary: j k)
  case 0
  then have j: "j = n" by simp
  then have "(\<lambda>p. if j \<le> p \<and> p < n then q u else ptab (view k) p) = ptab (view k)" by (auto simp: fun_eq_iff)
  with j show ?case by (subst touch.simps) simp
next
  case (Suc m)
  let ?k = "acc (pg * j) k"
  have j: "j < n" "m = n - Suc j" using Suc.hyps(2) by auto
  have v: "view ?k = charge j (q u) (x, y, z) (view k)" using acc [of "pg * j" k] pg Suc.prems(2) j cu by simp
  have "\<forall>p. Suc j \<le> p \<and> p < n \<longrightarrow> ptab (view ?k) p = u" using Suc.prems(2) by (simp add: v charge_def)
  from Suc.hyps(1) [OF j(2) _ this] j obtain k' where k': "touch acc (pg * Suc j) (pg * n) pg ?k = Some k'"
    "view k' = (view ?k)\<lparr>ptab := (\<lambda>p. if Suc j \<le> p \<and> p < n then q u else ptab (view ?k) p),
       n_min := n_min (view ?k) + (n - Suc j) * x, n_maj := n_maj (view ?k) + (n - Suc j) * y, n_rss := n_rss (view ?k) + (n - Suc j) * z\<rparr>"
    by auto
  have "touch acc (pg * j) (pg * n) pg k = Some k'" using k'(1) pg j by (subst touch.simps) (simp add: add.commute)
  moreover have "(\<lambda>p. if Suc j \<le> p \<and> p < n then q u else ptab (view ?k) p)
      = (\<lambda>p. if j \<le> p \<and> p < n then q u else ptab (view k) p)" using j by (auto simp: fun_eq_iff v charge_def)
  moreover have "n - j = Suc (n - Suc j)" using j by simp
  ultimately show ?case using k'(2) by (simp add: v charge_def add.assoc)
qed

text \<open>Filling the region byte by byte: the first byte of a page is charged, the others are not.\<close>

lemma memset_pages:
  assumes acc: "\<And>a k. view (acc a k) = charge (a div pg) Own (store_cost (ptab (view k) (a div pg))) (view k)" and pg: "0 < pg"
  shows "i \<le> pg * n \<Longrightarrow> \<forall>p < n. ptab (view k) p = (if pg * p < i then Own else Untouched) \<Longrightarrow>
    \<exists>k'. touch acc i (pg * n) 1 k = Some k' \<and> (\<forall>p < n. ptab (view k') p = Own)
      \<and> n_min (view k') = n_min (view k) + card {p. p < n \<and> i \<le> pg * p} \<and> n_maj (view k') = n_maj (view k)
      \<and> n_rss (view k') = n_rss (view k) + card {p. p < n \<and> i \<le> pg * p}"
proof (induction "pg * n - i" arbitrary: i k)
  case 0
  then have i: "i = pg * n" by simp
  then have "{p. p < n \<and> i \<le> pg * p} = {}" using pg by auto
  with i 0 pg show ?case by (subst touch.simps) simp
next
  case (Suc m)
  let ?k = "acc i k" and ?p = "i div pg"
  have i: "i < pg * n" "m = pg * n - Suc i" using Suc.hyps(2) by auto
  then have p: "?p < n" using pg by (simp add: div_less_iff_less_mult mult.commute)
  have split: "i = pg * ?p + i mod pg" "i mod pg < pg" using pg by simp_all
  have first: "pg * ?p < i \<longleftrightarrow> i mod pg \<noteq> 0" using split by linarith
  have v: "view ?k = charge ?p Own (store_cost (if pg * ?p < i then Own else Untouched)) (view k)"
    using acc [of i k] Suc.prems(2) p by simp
  have pages: "\<forall>p < n. ptab (view ?k) p = (if pg * p < Suc i then Own else Untouched)"
  proof (intro allI impI)
    fix r assume r: "r < n"
    show "ptab (view ?k) r = (if pg * r < Suc i then Own else Untouched)"
    proof (cases "r = ?p")
      case True
      moreover have "pg * ?p \<le> i" using split(1) by linarith
      ultimately show ?thesis by (simp add: v charge_def less_Suc_eq_le split: prod.split)
    next
      case False
      then have "pg * r \<noteq> i" using pg by auto
      then show ?thesis using False r Suc.prems(2) by (auto simp: v charge_def split: prod.split)
    qed
  qed
  from Suc.hyps(1) [OF i(2) _ pages] i(1) obtain k' where k': "touch acc (Suc i) (pg * n) 1 ?k = Some k'"
    "\<forall>p < n. ptab (view k') p = Own" "n_min (view k') = n_min (view ?k) + card {p. p < n \<and> Suc i \<le> pg * p}"
    "n_maj (view k') = n_maj (view ?k)" "n_rss (view k') = n_rss (view ?k) + card {p. p < n \<and> Suc i \<le> pg * p}" by auto
  have t: "touch acc i (pg * n) 1 k = Some k'" using k'(1) i(1) by (subst touch.simps) simp
  have c: "card {p. p < n \<and> i \<le> pg * p} = card {p. p < n \<and> Suc i \<le> pg * p} + (if pg * ?p < i then 0 else 1)"
  proof (cases "pg * ?p < i")
    case True
    then have "i \<noteq> pg * p" for p using first pg by auto
    then have "{p. p < n \<and> i \<le> pg * p} = {p. p < n \<and> Suc i \<le> pg * p}" by (auto simp: Suc_le_eq order.order_iff_strict)
    with True show ?thesis by simp
  next
    case False
    then have e: "pg * ?p = i" using split by linarith
    have "{p. p < n \<and> i \<le> pg * p} = insert ?p {p. p < n \<and> Suc i \<le> pg * p}" using p e pg
      by (auto simp: Suc_le_eq) (metis le_neq_implies_less nonzero_mult_div_cancel_left not_gr_zero)
    moreover have "?p \<notin> {p. p < n \<and> Suc i \<le> pg * p}" using e by simp
    ultimately show ?thesis using False by simp
  qed
  show ?case using t k' c by (auto simp: v charge_def split: if_splits)
qed

section \<open>What the programs print\<close>

lemma counters_read:
  assumes "counters_shown K view info" and "in_range (view k)"
  shows "read_faults (proc_stat K k) = (int (n_min (view k)), int (n_maj (view k)))"
    and "show_faults (proc_stat K k) = Some (int (n_min (view k)), int (n_maj (view k)))"
    and "read_rss_kb pagesize (proc_statm K k) = int (n_rss (view k)) * (pagesize div 1024)"
    and "vm_minflt K k = int (n_min (view k))"
proof -
  from assms have c: "proc_stat K k = Some (stat_line (info k))" "stat_ok (info k)" "\<not> isspace (st_state (info k))"
    "length (stat_line (info k)) \<le> 511" "st_minflt (info k) = n_min (view k)" "st_majflt (info k) = n_maj (view k)"
    "vm_minflt K k = int (n_min (view k))" unfolding counters_shown_def by blast+
  from assms obtain sz rest where s: "0 \<le> sz" "sz \<le> LONG_MAX"
    "proc_statm K k = Some (dec_int sz @ CHR '' '' # dec_int (int (n_rss (view k))) @ CHR '' '' # rest)"
    unfolding counters_shown_def by blast
  have r: "n_min (view k) < 2 ^ 63" "n_maj (view k) < 2 ^ 63" "int (n_rss (view k)) \<le> LONG_MAX"
    using assms(2) by (simp_all add: in_range_def)
  have l: "length (stat_line (info k)) \<le> 4095" using c(4) by linarith
  show "read_faults (proc_stat K k) = (int (n_min (view k)), int (n_maj (view k)))"
    unfolding c(1) read_faults_stat_line [OF c(2,3) l] using r by (simp add: c ulong_of_nat)
  show "show_faults (proc_stat K k) = Some (int (n_min (view k)), int (n_maj (view k)))"
    unfolding c(1) show_faults_stat_line [OF c(2,4)] using r by (simp add: c long_of_nat)
  show "read_rss_kb pagesize (proc_statm K k) = int (n_rss (view k)) * (pagesize div 1024)"
    unfolding s(3) using s(1,2) r(3) by (intro read_rss_kb_statm) auto
  show "vm_minflt K k = int (n_min (view k))" by (rule c(7))
qed

lemma paging_rulesD:
  assumes "paging_rules K pg view"
  shows "view (vm_load K a k) = charge (a div pg) (load_page (ptab (view k) (a div pg))) (load_cost (ptab (view k) (a div pg))) (view k)"
    and "view (vm_store K a k) = charge (a div pg) Own (store_cost (ptab (view k) (a div pg))) (view k)"
    and "vm_anon K k = Some k' \<Longrightarrow> view k' = (view k)\<lparr>ptab := (\<lambda>_. Untouched)\<rparr>"
    and "vm_fork K k = Some k' \<Longrightarrow> ptab (view k') = (\<lambda>p. if ptab (view k) p = Own then Shared_page else ptab (view k) p)
       \<and> n_min (view k') = 0 \<and> n_maj (view k') = 0 \<and> n_rss (view k') = n_rss (view k)"
  using assms unfolding paging_rules_def by blast+

text \<open>One pass over \<open>n\<close> pages that are all in state \<open>u\<close>.\<close>

lemma load_pass:
  assumes "paging_rules K pg view" "0 < pg" "load_cost u = (x, y, z)" "\<forall>p < n. ptab (view k) p = u"
  shows "\<exists>k'. touch (vm_load K) 0 (pg * n) pg k = Some k' \<and> (\<forall>p < n. ptab (view k') p = load_page u)
    \<and> n_min (view k') = n_min (view k) + n * x \<and> n_maj (view k') = n_maj (view k) + n * y \<and> n_rss (view k') = n_rss (view k) + n * z"
  using touch_pages [OF paging_rulesD(1) [OF assms(1)] assms(2,3), of 0 n] assms(4) by fastforce

lemma store_pass:
  assumes "paging_rules K pg view" "0 < pg" "store_cost u = (x, y, z)" "\<forall>p < n. ptab (view k) p = u"
  shows "\<exists>k'. touch (vm_store K) 0 (pg * n) pg k = Some k' \<and> (\<forall>p < n. ptab (view k') p = Own)
    \<and> n_min (view k') = n_min (view k) + n * x \<and> n_maj (view k') = n_maj (view k) + n * y \<and> n_rss (view k') = n_rss (view k) + n * z"
  using touch_pages [where q = "\<lambda>_. Own", OF paging_rulesD(2) [OF assms(1)] assms(2,3), of 0 n] assms(4) by fastforce

lemma memset_pass:
  assumes "paging_rules K pg view" "0 < pg" "\<forall>p < n. ptab (view k) p = Untouched"
  shows "\<exists>k'. touch (vm_store K) 0 (pg * n) 1 k = Some k' \<and> (\<forall>p < n. ptab (view k') p = Own)
    \<and> n_min (view k') = n_min (view k) + n \<and> n_maj (view k') = n_maj (view k) \<and> n_rss (view k') = n_rss (view k) + n"
proof -
  have "{p. p < n \<and> 0 \<le> pg * p} = {..<n}" by auto
  then show ?thesis using memset_pages [OF paging_rulesD(2) [OF assms(1)] assms(2), of 0 n] assms(3) by simp
qed

lemma udiff_nat: "m < 2 ^ 63 \<Longrightarrow> udiff (int (m + d)) (int m) = int d mod 2 ^ 64"
  by (simp add: udiff_def)

text \<open>
  On a kernel with demand-zero paging whose counters \<open>/proc\<close> shows, \<open>zero_page.c\<close> reports what its comments claim:
  loading one byte of each of the \<open>n\<close> pages costs one minor fault per page and no memory, storing one byte costs another
  minor fault per page and then the whole block becomes resident, and no fault reads the disk.
\<close>

lemma zero_page_report:
  assumes "paging_rules K pg view" and "counters_shown K view info" and "vm_anon K k0 = Some k1"
    and "0 < pg" and "256 * MB = pg * n"
    and "n_min (view k0) < 2 ^ 62" and "n_maj (view k0) < 2 ^ 62" and "n_rss (view k0) < 2 ^ 62"
  shows "zero_page_main K pg k0 = Some (Inr \<lparr>rss_at_map = int (n_rss (view k0)) * (int pg div 1024), rss_read_diff = 0,
    rss_write_diff = int n * (int pg div 1024), read_minflt = int n, write_minflt = int n, all_majflt = 0\<rparr>)"
proof -
  have "n \<le> pg * n" using assms(4) by simp
  then have n: "n \<le> 256 * MB" using assms(5) by simp
  have v1: "view k1 = (view k0)\<lparr>ptab := (\<lambda>_. Untouched)\<rparr>" by (rule paging_rulesD(3) [OF assms(1,3)])
  obtain k2 where k2: "touch (vm_load K) 0 (pg * n) pg k1 = Some k2" "\<forall>p < n. ptab (view k2) p = Zero_page"
    "n_min (view k2) = n_min (view k0) + n" "n_maj (view k2) = n_maj (view k0)" "n_rss (view k2) = n_rss (view k0)"
    using load_pass [OF assms(1,4), of Untouched 1 0 0 n k1] v1 by auto
  obtain k3 where k3: "touch (vm_store K) 0 (pg * n) pg k2 = Some k3"
    "n_min (view k3) = n_min (view k0) + n + n" "n_maj (view k3) = n_maj (view k0)" "n_rss (view k3) = n_rss (view k0) + n"
    using store_pass [OF assms(1,4), of Zero_page 1 0 1 n k2] k2 by auto
  have r: "in_range (view k1)" "in_range (view k2)" "in_range (view k3)"
    using assms(6-8) n v1 k2(3-5) k3(2-4) by (simp_all add: in_range_def MB_def LONG_MAX_def)
  note c = counters_read [OF assms(2)]
  have d: "udiff (int (n_min (view k0)) + int n) (int (n_min (view k0))) = int n"
    "udiff (int (n_min (view k0)) + int n + int n) (int (n_min (view k0)) + int n) = int n"
    "udiff (2 * int n + int (n_min (view k0))) (int (n_min (view k0)) + int n) = int n" "udiff x x = 0" for x
    using n by (simp_all add: udiff_def MB_def)
  note t = k2(1) [folded assms(5)] k3(1) [folded assms(5)]
  show ?thesis
    by (simp add: zero_page_main_def assms(3) Let_def t c [OF r(1)] c [OF r(2)] c [OF r(3)] k2(3-5) k3(2-4) v1 d distrib_right)
qed

text \<open>A kernel that is its own view, for the witnesses.\<close>

definition view_info :: "vm_view \<Rightarrow> stat_info" where
  "view_info v = \<lparr> st_pid = 1, st_comm = ''prog'', st_state = CHR ''R'', st_ids = (1, 1, 1, 1, 1), st_flags = 0,
     st_minflt = n_min v, st_cminflt = 0, st_majflt = n_maj v, st_tail = [] \<rparr>"

definition view_kernel :: "nat \<Rightarrow> vm_view vm_kernel" where
  "view_kernel pg =
     \<lparr> vm_load = (\<lambda>a v. charge (a div pg) (load_page (ptab v (a div pg))) (load_cost (ptab v (a div pg))) v),
       vm_store = (\<lambda>a v. charge (a div pg) Own (store_cost (ptab v (a div pg))) v),
       vm_anon = (\<lambda>v. Some (v\<lparr>ptab := (\<lambda>_. Untouched)\<rparr>)),
       vm_free = id,
       vm_fork = (\<lambda>v. Some (v\<lparr>ptab := (\<lambda>p. if ptab v p = Own then Shared_page else ptab v p), n_min := 0, n_maj := 0\<rparr>)),
       vm_open = Some, vm_write_mb = Pair True, vm_drop_cache = id, vm_map_file = (\<lambda>v. Some (v\<lparr>ptab := (\<lambda>_. On_disk)\<rparr>)),
       vm_minflt = (\<lambda>v. int (n_min v)), proc_stat = (\<lambda>v. Some (stat_line (view_info v))),
       proc_statm = (\<lambda>v. Some (dec_int 0 @ CHR '' '' # dec_int (int (n_rss v)) @ '' 0'')), proc_vmstat = (\<lambda>v. None) \<rparr>"

lemma length_spaced: "\<forall>x \<in> set xs. LONG_MIN \<le> x \<and> x \<le> LONG_MAX \<Longrightarrow> length (spaced xs) \<le> 21 * length xs"
  using length_dec_int by (induction xs) (fastforce simp: spaced_def)+

lemma view_kernel_rules: "paging_rules (view_kernel pg) pg id"
  by (simp add: paging_rules_def view_kernel_def id_def)

lemma view_kernel_shown: "counters_shown (view_kernel pg) id view_info"
proof -
  have l: "length (stat_line (view_info v)) \<le> 511" if "in_range v" for v
  proof -
    let ?xs = "[1, 1, 1, 1, 1, 0, int (n_min v), 0, int (n_maj v)]"
    have "\<forall>x \<in> set ?xs. LONG_MIN \<le> x \<and> x \<le> LONG_MAX" using that by (auto simp: in_range_def LONG_MIN_def LONG_MAX_def)
    from length_spaced [OF this] have "length (spaced ?xs) \<le> 189" by simp
    moreover have "length (dec_int 1) \<le> 20" by (rule length_dec_int) (simp_all add: LONG_MIN_def LONG_MAX_def)
    ultimately show ?thesis by (simp add: stat_line_def stat_fields_def view_info_def)
  qed
  have "isspace (CHR ''R'') = False" by code_simp
  moreover have "\<exists>sz rest. 0 \<le> sz \<and> sz \<le> LONG_MAX
      \<and> Some (dec_int 0 @ CHR '' '' # d @ '' 0'') = Some (dec_int sz @ CHR '' '' # d @ CHR '' '' # rest)" for d
    by (rule exI [of _ 0], rule exI [of _ "''0''"]) (simp add: LONG_MAX_def)
  ultimately show ?thesis using l unfolding counters_shown_def by (simp add: view_kernel_def view_info_def)
qed

definition view_start :: vm_view where
  "view_start = \<lparr> ptab = (\<lambda>_. Untouched), n_min = 90, n_maj = 2, n_rss = 300 \<rparr>"

lemma zero_page_report_witness:
  "map_option (map_sum id write_minflt) (zero_page_main (view_kernel 4096) 4096 view_start) = Some (Inr 65536)"
proof -
  have a: "vm_anon (view_kernel 4096) view_start = Some (view_start\<lparr>ptab := (\<lambda>_. Untouched)\<rparr>)" by (simp add: view_kernel_def)
  have "256 * MB = 4096 * 65536" by (simp add: MB_def)
  from zero_page_report [OF view_kernel_rules view_kernel_shown a _ this] show ?thesis by (simp add: view_start_def)
qed

section \<open>Copy on write\<close>

lemma small_mod: "n \<le> 64 * MB \<Longrightarrow> int n mod 2 ^ 64 = int n" "m \<le> 128 * MB \<Longrightarrow> int m mod 2 ^ 64 = int m"
  by (simp_all add: MB_def)

lemma cow_children:
  assumes "paging_rules K pg view" "counters_shown K view info" "0 < pg" "64 * MB = pg * n"
    and "\<forall>p < n. ptab (view c) p = Shared_page" "n_min (view c) = 0" "n_maj (view c) = 0" "n_rss (view c) < 2 ^ 62"
  shows "cow_child K pg c = Some (0, int n)" and "trace_child K pg c = Some (0, int n)"
proof -
  have "n \<le> pg * n" using assms(3) by simp
  then have n: "n \<le> 64 * MB" using assms(4) by simp
  obtain k2 where k2: "touch (vm_load K) 0 (pg * n) pg c = Some k2" "\<forall>p < n. ptab (view k2) p = Shared_page"
    "n_min (view k2) = 0" "n_maj (view k2) = 0" "n_rss (view k2) = n_rss (view c)"
    using load_pass [OF assms(1,3), of Shared_page 0 0 0 n c] assms(5-7) by auto
  obtain k3 where k3: "touch (vm_store K) 0 (pg * n) pg k2 = Some k3" "n_min (view k3) = n" "n_maj (view k3) = 0"
    "n_rss (view k3) = n_rss (view c)"
    using store_pass [OF assms(1,3), of Shared_page 1 0 0 n k2] k2 by auto
  have r: "in_range (view c)" "in_range (view k2)" "in_range (view k3)"
    using n assms(6-8) k2 k3 by (simp_all add: in_range_def MB_def LONG_MAX_def)
  note c = counters_read(4) [OF assms(2)]
  note t = k2(1) [folded assms(4)] k3(1) [folded assms(4)]
  show "cow_child K pg c = Some (0, int n)"
    by (simp add: cow_child_def Let_def t c [OF r(1)] c [OF r(2)] c [OF r(3)] k2(3) k3(2) assms(6))
  show "trace_child K pg c = Some (0, int n)"
    by (simp add: trace_child_def Let_def t c [OF r(1)] c [OF r(2)] c [OF r(3)] k2(3) k3(2) assms(6) udiff_def small_mod(1) [OF n, simplified])
qed

text \<open>
  In \<open>cow_minflt.c\<close> and \<open>cow_trace.c\<close> the child that inherits the filled region takes no fault while it loads one byte
  per page and exactly one minor fault per page (the copy) while it stores one: on a kernel with copy on write the two
  increments printed are 0 and the number of pages.
\<close>

lemma cow_report:
  assumes "paging_rules K pg view" and "counters_shown K view info" and "0 < pg" and "64 * MB = pg * n"
    and "\<forall>k. vm_anon K k \<noteq> None \<and> vm_fork K k \<noteq> None" and "n_rss (view k0) < 2 ^ 61"
  shows "cow_main K pg k0 = Some (Inr (0, int n)) \<and> trace_main K pg k0 = Some (Inr (0, int n))"
proof -
  have "n \<le> pg * n" using assms(3) by simp
  then have n: "n \<le> 64 * MB" using assms(4) by simp
  obtain k1 where k1: "vm_anon K k0 = Some k1" using assms(5) by blast
  have v1: "view k1 = (view k0)\<lparr>ptab := (\<lambda>_. Untouched)\<rparr>" by (rule paging_rulesD(3) [OF assms(1) k1])
  obtain k2 where k2: "touch (vm_store K) 0 (pg * n) 1 k1 = Some k2" "\<forall>p < n. ptab (view k2) p = Own"
    "n_rss (view k2) = n_rss (view k0) + n" using memset_pass [OF assms(1,3), of n k1] v1 by auto
  obtain c where c: "vm_fork K k2 = Some c" using assms(5) by blast
  have f: "\<forall>p < n. ptab (view c) p = Shared_page" "n_min (view c) = 0" "n_maj (view c) = 0" "n_rss (view c) < 2 ^ 62"
    using paging_rulesD(4) [OF assms(1) c] k2(2,3) assms(6) n by (simp_all add: MB_def)
  show ?thesis using cow_children [OF assms(1-4) f] k1 c k2(1) [folded assms(4)] by (simp add: cow_main_def trace_main_def)
qed

lemma cow_report_witness: "cow_main (view_kernel 4096) 4096 view_start = Some (Inr (0, 16384))"
proof -
  have "64 * MB = 4096 * 16384" by (simp add: MB_def)
  moreover have "\<forall>k. vm_anon (view_kernel 4096) k \<noteq> None \<and> vm_fork (view_kernel 4096) k \<noteq> None" by (simp add: view_kernel_def)
  moreover have "n_rss (id view_start) < 2 ^ 61" by (simp add: view_start_def)
  ultimately show ?thesis using cow_report [OF view_kernel_rules view_kernel_shown, of 4096 16384 view_start] by simp
qed

section \<open>The other two\<close>

lemma paging_main_report:
  assumes "paging_rules K 4096 view" and "counters_shown K view info" and "vm_anon K k0 = Some k1"
    and "n_min (view k0) < 2 ^ 62" and "n_maj (view k0) < 2 ^ 62" and "n_rss (view k0) < 2 ^ 62"
  shows "paging_main K k0 =
    (let m = int (n_min (view k0)); j = int (n_maj (view k0)) in Some [(m, j), (m, j), (m + 65536, j), (m + 65536, j)])"
proof -
  have n: "256 * 1024 * 1024 = 4096 * (65536 :: nat)" by simp
  have v1: "view k1 = (view k0)\<lparr>ptab := (\<lambda>_. Untouched)\<rparr>" by (rule paging_rulesD(3) [OF assms(1,3)])
  obtain k2 where k2: "touch (vm_store K) 0 (4096 * 65536) 4096 k1 = Some k2" "\<forall>p < 65536. ptab (view k2) p = Own"
    "n_min (view k2) = n_min (view k0) + 65536" "n_maj (view k2) = n_maj (view k0)" "n_rss (view k2) = n_rss (view k0) + 65536"
    using store_pass [OF assms(1), of Untouched 1 0 1 65536 k1] v1 by auto
  obtain k3 where k3: "touch (vm_store K) 0 (4096 * 65536) 4096 k2 = Some k3"
    "n_min (view k3) = n_min (view k0) + 65536" "n_maj (view k3) = n_maj (view k0)" "n_rss (view k3) = n_rss (view k0) + 65536"
    using store_pass [OF assms(1), of Own 0 0 0 65536 k2] k2 by auto
  have r: "in_range (view k0)" "in_range (view k1)" "in_range (view k2)" "in_range (view k3)"
    using assms(4-6) v1 k2(3-5) k3(2-4) by (simp_all add: in_range_def LONG_MAX_def)
  note c = counters_read(2) [OF assms(2)]
  show ?thesis unfolding paging_main_def n Let_def
    by (simp only: c [OF r(1)] c [OF r(2)] c [OF r(3)] c [OF r(4)] assms(3) k2(1) k3(1) Option.bind.bind_lunit k2(3-5) k3(2-4) v1
        vm_view.simps of_nat_add) simp
qed

text \<open>Filling anonymous memory takes minor faults only; reading a file whose pages are on disk takes major faults only.\<close>

lemma vmstat_minor_report:
  assumes "paging_rules K pg view" and "counters_shown K view info" and "vm_anon K k0 = Some k1" and "0 < pg" and "128 * MB = pg * n"
    and "n_min (view k0) < 2 ^ 62" and "n_maj (view k0) < 2 ^ 62" and "n_rss (view k0) < 2 ^ 62"
  shows "\<exists>a b k. vmstat_minor K k0 = Some (Inr ((int n, 0, a, b), k))"
proof -
  have "n \<le> pg * n" using assms(4) by simp
  then have n: "n \<le> 128 * MB" using assms(5) by simp
  have v1: "view k1 = (view k0)\<lparr>ptab := (\<lambda>_. Untouched)\<rparr>" by (rule paging_rulesD(3) [OF assms(1,3)])
  obtain k2 where k2: "touch (vm_store K) 0 (pg * n) 1 k1 = Some k2"
    "n_min (view k2) = n_min (view k0) + n" "n_maj (view k2) = n_maj (view k0)" "n_rss (view k2) = n_rss (view k0) + n"
    using memset_pass [OF assms(1,4), of n k1] v1 by auto
  have r: "in_range (view k0)" "in_range (view k2)"
    using assms(6-8) n k2(2-4) by (simp_all add: in_range_def MB_def LONG_MAX_def)
  note c = counters_read(1) [OF assms(2)]
  show ?thesis
    by (simp add: vmstat_minor_def Let_def c [OF r(1)] c [OF r(2)] assms(3) k2(1) [folded assms(5), simplified] k2(2,3) udiff_def
        small_mod(2) [OF n, simplified])
qed

lemma write_chunks_all: "\<forall>k. fst (vm_write_mb K k) \<Longrightarrow> \<exists>k'. write_chunks K m k = Some k'"
  by (induction m arbitrary: k) (auto split: prod.split, metis fst_conv)

lemma vmstat_major_report:
  assumes "paging_rules K pg view" and "counters_shown K view info" and "0 < pg" and "128 * MB = pg * n"
    and "vm_open K k0 = Some k1" and "write_chunks K 128 k1 = Some k2" and "vm_map_file K (vm_drop_cache K k2) = Some k3"
    and "\<forall>p < n. ptab (view k3) p = u" and "u = On_disk \<or> u = Cached"
    and "n_min (view k3) < 2 ^ 62" and "n_maj (view k3) < 2 ^ 62" and "n_rss (view k3) < 2 ^ 62"
  shows "\<exists>a. vmstat_major K pg k0 = Some (Inr (if u = On_disk then int n else 0, if u = Cached then int n else 0, a, u = Cached))"
proof -
  have "n \<le> pg * n" using assms(3) by simp
  then have n: "n \<le> 128 * MB" using assms(4) by simp
  have "n \<noteq> 0" using assms(4) by (intro notI) (simp add: MB_def)
  obtain x y where xy: "load_cost u = (x, y, 1)" "x = (if u = Cached then 1 else 0)" "y = (if u = On_disk then 1 else 0)"
    using assms(9) by auto
  obtain k4 where k4: "touch (vm_load K) 0 (pg * n) pg k3 = Some k4" "n_min (view k4) = n_min (view k3) + n * x"
    "n_maj (view k4) = n_maj (view k3) + n * y" "n_rss (view k4) = n_rss (view k3) + n"
    using load_pass [OF assms(1,3) xy(1) assms(8)] by auto
  have r: "in_range (view k3)" "in_range (view k4)"
    using assms(10-12) n k4(2-4) xy(2,3) by (simp_all add: in_range_def MB_def LONG_MAX_def)
  note c = counters_read(1) [OF assms(2)]
  show ?thesis using \<open>n \<noteq> 0\<close> assms(9)
    by (auto simp add: vmstat_major_def Let_def c [OF r(1)] c [OF r(2)] assms(5-7) k4(1) [folded assms(4)] k4(2,3) xy udiff_def
        small_mod(2) [OF n, simplified])
qed

end
