(* ===== verification/Writeback.thy ===== *)
theory Writeback
  imports Proc_Files "HOL-Library.Signed_Division"
begin

text \<open>
  \<open>main\<close> of \<open>dirty_writeback.c\<close>: 64 writes of one megabyte per round, a line of the report after every fourth round. The
  kernel is a parameter: whether each \<open>write\<close> takes the whole megabyte, and the text of \<open>/proc/meminfo\<close>. The throughput
  column is a quotient of times and not modelled.
\<close>

record 'k wb_kernel =
  wb_open :: "'k \<Rightarrow> 'k option"
  wb_malloc :: bool
  wb_write :: "'k \<Rightarrow> bool \<times> 'k"
  wb_meminfo :: "'k \<Rightarrow> bytes option"

definition WB_MB :: nat where "WB_MB = 2 ^ 20"
definition WB_ROUND :: nat where "WB_ROUND = 64 * WB_MB"
definition WB_REPORT :: nat where "WB_REPORT = 256 * WB_MB"

text \<open>The inner loop; \<open>None\<close> when a \<open>write\<close> is short or fails and the program goes to \<open>done\<close>.\<close>

function round_writes :: "'k wb_kernel \<Rightarrow> nat \<Rightarrow> 'k \<Rightarrow> 'k option" where
  "round_writes K w k =
     (if w < WB_ROUND then let (ok, k1) = wb_write K k in if ok then round_writes K (w + WB_MB) k1 else None else Some k)"
  by auto
termination
  by (relation "measure (\<lambda>(K, w, k). WB_ROUND - w)") (auto simp: WB_ROUND_def WB_MB_def)

definition wb_line :: "'k wb_kernel \<Rightarrow> nat \<Rightarrow> 'k \<Rightarrow> nat \<times> int \<times> int" where
  "wb_line K written k =
     (written div WB_MB, meminfo_kb (wb_meminfo K k) ''Dirty'' sdiv 1024, meminfo_kb (wb_meminfo K k) ''Writeback'' sdiv 1024)"

function wb_loop :: "'k wb_kernel \<Rightarrow> nat \<Rightarrow> nat \<Rightarrow> nat \<Rightarrow> 'k \<Rightarrow> (nat \<times> int \<times> int) list" where
  "wb_loop K limit written since k =
     (if written < limit then
        case round_writes K 0 k of None \<Rightarrow> []
        | Some k1 \<Rightarrow>
            (let written1 = written + WB_ROUND; since1 = since + WB_ROUND
             in if WB_REPORT \<le> since1 then wb_line K written1 k1 # wb_loop K limit written1 0 k1
                else wb_loop K limit written1 since1 k1)
      else [])"
  by auto
termination
  by (relation "measure (\<lambda>(K, limit, written, since, k). limit - written)") (auto simp: WB_ROUND_def WB_MB_def)

declare round_writes.simps [simp del] wb_loop.simps [simp del]

text \<open>The limit in gigabytes: \<open>strtoul\<close> of the first argument, 10 without one; the product is modulo \<open>2 ^ 64\<close>.\<close>

definition limit_gb :: "bytes list \<Rightarrow> int" where
  "limit_gb argv =
     (if length argv > 1 then
        case scan_num (dropWhile isspace (argv ! 1)) of None \<Rightarrow> 0 | Some (v, r) \<Rightarrow> ulong_of v
      else 10)"

definition wb_limit :: "bytes list \<Rightarrow> nat" where
  "wb_limit argv = nat ((limit_gb argv * (1024 * int WB_MB)) mod 2 ^ 64)"

text \<open>\<open>Inl\<close> is the exit status 1, \<open>Inr\<close> the memory size and the lines printed before the program ends with 0.\<close>

definition writeback_main :: "'k wb_kernel \<Rightarrow> bytes list \<Rightarrow> 'k \<Rightarrow> int + (int \<times> (nat \<times> int \<times> int) list)" where
  "writeback_main K argv k0 =
     (case wb_open K k0 of None \<Rightarrow> Inl 1
      | Some k1 \<Rightarrow>
          if \<not> wb_malloc K then Inl 1
          else Inr (meminfo_kb (wb_meminfo K k1) ''MemTotal'' sdiv 1024, wb_loop K (wb_limit argv) 0 0 k1))"

lemma round_writes_all: "\<forall>k. fst (wb_write K k) \<Longrightarrow> \<exists>k'. round_writes K w k = Some k'"
proof (induction K w k rule: round_writes.induct)
  case (1 K w k)
  obtain ok k1 where w: "wb_write K k = (ok, k1)" by (cases "wb_write K k")
  moreover from this 1(2) have "ok" by (metis fst_conv)
  ultimately show ?case using 1 by (subst round_writes.simps) auto
qed

lemma WB_sizes: "WB_REPORT = 4 * WB_ROUND" "0 < WB_ROUND" "WB_ROUND div WB_MB = 64" "WB_MB * 64 = WB_ROUND" "0 < WB_MB"
  by (simp_all add: WB_REPORT_def WB_ROUND_def WB_MB_def)

lemma wb_loop_lines:
  assumes "\<forall>k. fst (wb_write K k)"
  shows "r \<le> 4 * g \<Longrightarrow>
    map fst (wb_loop K (WB_REPORT * g) (WB_ROUND * r) (WB_ROUND * (r mod 4)) k) = map (\<lambda>i. 256 * i) [r div 4 + 1..<g + 1]"
proof (induction "4 * g - r" arbitrary: r k)
  case 0
  then have "r = 4 * g" by simp
  then show ?case by (subst wb_loop.simps) (simp add: WB_sizes(1))
next
  case (Suc m)
  then have r: "r < 4 * g" "m = 4 * g - Suc r" by auto
  obtain k1 where k1: "round_writes K 0 k = Some k1" using round_writes_all [OF assms] by blast
  have "WB_ROUND * r < WB_ROUND * (4 * g)" using r(1) WB_sizes(2) by simp
  then have lt: "WB_ROUND * r < WB_REPORT * g" by (simp add: WB_sizes(1) mult_ac)
  have s: "WB_ROUND * r + WB_ROUND = WB_ROUND * Suc r" "WB_ROUND * (r mod 4) + WB_ROUND = WB_ROUND * (r mod 4 + 1)" by simp_all
  have IH: "map fst (wb_loop K (WB_REPORT * g) (WB_ROUND * Suc r) (WB_ROUND * (Suc r mod 4)) k1)
      = map (\<lambda>i. 256 * i) [Suc r div 4 + 1..<g + 1]" using Suc.hyps(1) [OF r(2)] r(1) by simp
  show ?case
  proof (cases "r mod 4 = 3")
    case True
    then have m: "Suc r mod 4 = 0" "Suc r div 4 = r div 4 + 1" by presburger+
    have q: "Suc r = 4 * (r div 4 + 1)" using True by presburger
    have e: "64 * Suc r = 256 * (r div 4 + 1)" by (subst q) simp
    have "WB_ROUND * Suc r div WB_MB = 64 * Suc r"
      unfolding WB_sizes(4) [symmetric] using WB_sizes(5) by (simp add: mult.assoc)
    then have d: "WB_ROUND * Suc r div WB_MB = 256 * (r div 4 + 1)" using e by (rule trans)
    have "r div 4 + 1 < g + 1" using r(1) by presburger
    then have u: "[r div 4 + 1..<g + 1] = (r div 4 + 1) # [r div 4 + 1 + 1..<g + 1]" by (simp add: upt_conv_Cons del: upt_Suc)
    have "map fst (wb_loop K (WB_REPORT * g) (WB_ROUND * r) (WB_ROUND * (r mod 4)) k)
        = 256 * (r div 4 + 1) # map fst (wb_loop K (WB_REPORT * g) (WB_ROUND * Suc r) 0 k1)"
      using lt k1 True d WB_sizes(1) unfolding s by (subst wb_loop.simps) (simp add: Let_def s wb_line_def)
    with IH m u show ?thesis by simp
  next
    case False
    then have m: "Suc r mod 4 = r mod 4 + 1" "Suc r div 4 = r div 4" "r mod 4 + 1 < 4" by presburger+
    then have "WB_ROUND * (r mod 4 + 1) < WB_ROUND * 4" using WB_sizes(2) by (intro mult_strict_left_mono)
    then have "\<not> WB_REPORT \<le> WB_ROUND * (r mod 4 + 1)" by (simp add: WB_sizes(1))
    then have "wb_loop K (WB_REPORT * g) (WB_ROUND * r) (WB_ROUND * (r mod 4)) k
        = wb_loop K (WB_REPORT * g) (WB_ROUND * Suc r) (WB_ROUND * (Suc r mod 4)) k1"
      using lt k1 m unfolding s by (subst wb_loop.simps) (simp add: Let_def s)
    with IH m show ?thesis by simp
  qed
qed

text \<open>While every \<open>write\<close> succeeds the report has one line per 256 megabytes, up to the limit.\<close>

lemma writeback_lines:
  assumes "\<forall>k. fst (wb_write K k)" and "wb_limit argv = WB_REPORT * g"
  shows "map fst (wb_loop K (wb_limit argv) 0 0 k) = map (\<lambda>i. 256 * i) [1..<g + 1]"
  using wb_loop_lines [OF assms(1), of 0 g k] assms(2) by simp

lemma wb_limit_default: "wb_limit [prog] = WB_REPORT * 40"
  by (simp add: wb_limit_def limit_gb_def WB_REPORT_def WB_MB_def)

end
