(* ===== verification/Machine_Code.thy ===== *)
theory Machine_Code
  imports CS_Prelude "HOL-Library.Signed_Division"
begin

text \<open>
  The functions of Chapter 3 whose machine code is studied. A \<open>long\<close> is a 64-bit word read with \<open>sint\<close>; an operation
  on signed numbers whose result does not fit is undefined in C, which is \<open>None\<close>. The instruction sequences the sources
  quote in comments are programs of a small x86-64 fragment; they are shown to compute what the C function does
  wherever it is defined.
\<close>

unbundle bit_operations_syntax

type_synonym c_word = "64 word"

definition in_long :: "int \<Rightarrow> bool" where
  "in_long v \<longleftrightarrow> LONG_MIN \<le> v \<and> v \<le> LONG_MAX"

definition long_res :: "int \<Rightarrow> c_word option" where
  "long_res v = (if in_long v then Some (word_of_int v) else None)"

section \<open>Moves and conversions (3.4)\<close>

definition func :: "c_word \<Rightarrow> c_word" where
  "func x = (let y = ucast x :: 32 word in ucast y)"

definition extend_sign :: "8 word \<Rightarrow> c_word" where
  "extend_sign x = scast x"

definition extend_zero :: "8 word \<Rightarrow> c_word" where
  "extend_zero x = ucast x"

definition copy_long :: "nat \<Rightarrow> nat \<Rightarrow> (nat \<Rightarrow> c_word) \<Rightarrow> (nat \<Rightarrow> c_word)" where
  "copy_long src dst mem = mem(dst := mem src)"

definition g_inc :: "c_word \<Rightarrow> c_word option" where
  "g_inc x = long_res (sint x + 1)"

text \<open>What \<open>main\<close> prints: both calls pass \<open>0xff\<close>.\<close>

definition conv_main :: "int list" where
  "conv_main = [sint (extend_sign 0xFF), sint (extend_zero 0xFF)]"

section \<open>Arithmetic (3.5)\<close>

definition mul5 :: "c_word \<Rightarrow> c_word option" where
  "mul5 x = long_res (sint x * 5)"

definition mul15 :: "c_word \<Rightarrow> c_word option" where
  "mul15 x = long_res (sint x * 15)"

definition mul6 :: "c_word \<Rightarrow> c_word option" where
  "mul6 x = long_res (sint x * 6)"

text \<open>Shifting a negative number right is arithmetic in gcc.\<close>

definition signed_shift :: "c_word \<Rightarrow> c_word" where
  "signed_shift x = word_of_int (sint x div 2 ^ 3)"

definition unsigned_shift :: "c_word \<Rightarrow> c_word" where
  "unsigned_shift x = word_of_int (uint x div 2 ^ 3)"

definition div_by_4 :: "c_word \<Rightarrow> c_word" where
  "div_by_4 x = word_of_int (sint x sdiv 4)"

section \<open>A fragment of x86-64\<close>

datatype reg = RDI | RAX

record cpu =
  regs :: "reg \<Rightarrow> c_word"
  sign_flag :: bool

datatype instr =
    Leaq int "reg option" "(reg \<times> nat) option" reg
  | Movq reg reg | Salq nat reg | Sarq nat reg | Shrq nat reg | Addq reg reg | Subq reg reg
  | Testq reg reg | Cmovns reg reg

definition set_reg :: "reg \<Rightarrow> c_word \<Rightarrow> cpu \<Rightarrow> cpu" where
  "set_reg r v c = c\<lparr>regs := (regs c)(r := v)\<rparr>"

definition flags_of :: "c_word \<Rightarrow> cpu \<Rightarrow> cpu" where
  "flags_of v c = c\<lparr>sign_flag := (sint v < 0)\<rparr>"

fun exec_instr :: "instr \<Rightarrow> cpu \<Rightarrow> cpu" where
  "exec_instr (Leaq disp base ix d) c =
     set_reg d (word_of_int disp + (case base of None \<Rightarrow> 0 | Some b \<Rightarrow> regs c b)
                + (case ix of None \<Rightarrow> 0 | Some (i, k) \<Rightarrow> regs c i * of_nat k)) c"
| "exec_instr (Movq s d) c = set_reg d (regs c s) c"
| "exec_instr (Salq n d) c = (let v = push_bit n (regs c d) in flags_of v (set_reg d v c))"
| "exec_instr (Sarq n d) c = (let v = signed_drop_bit n (regs c d) in flags_of v (set_reg d v c))"
| "exec_instr (Shrq n d) c = (let v = drop_bit n (regs c d) in flags_of v (set_reg d v c))"
| "exec_instr (Addq s d) c = (let v = regs c d + regs c s in flags_of v (set_reg d v c))"
| "exec_instr (Subq s d) c = (let v = regs c d - regs c s in flags_of v (set_reg d v c))"
| "exec_instr (Testq a b) c = flags_of (regs c a AND regs c b) c"
| "exec_instr (Cmovns s d) c = (if sign_flag c then c else set_reg d (regs c s) c)"

text \<open>A call: the argument in \<open>rdi\<close>, the result in \<open>rax\<close>; \<open>rax\<close> and the flags hold anything before.\<close>

definition asm_call :: "instr list \<Rightarrow> cpu \<Rightarrow> c_word \<Rightarrow> c_word" where
  "asm_call code c x = regs (fold exec_instr code (set_reg RDI x c)) RAX"

definition mul5_asm :: "instr list" where
  "mul5_asm = [Leaq 0 (Some RDI) (Some (RDI, 4)) RAX]"

definition mul15_asm :: "instr list" where
  "mul15_asm = [Movq RDI RAX, Salq 4 RAX, Subq RDI RAX]"

definition mul6_asm :: "instr list" where
  "mul6_asm = [Leaq 0 (Some RDI) (Some (RDI, 2)) RAX, Addq RAX RAX]"

definition signed_shift_asm :: "instr list" where
  "signed_shift_asm = [Movq RDI RAX, Sarq 3 RAX]"

definition unsigned_shift_asm :: "instr list" where
  "unsigned_shift_asm = [Movq RDI RAX, Shrq 3 RAX]"

definition div_by_4_asm :: "instr list" where
  "div_by_4_asm = [Leaq 3 (Some RDI) None RAX, Testq RDI RDI, Cmovns RDI RAX, Sarq 2 RAX]"

section \<open>Branches, loops and switches (3.6)\<close>

definition simple_branch :: "c_word \<Rightarrow> c_word \<Rightarrow> c_word option" where
  "simple_branch x y = (if sint y < sint x then long_res (sint x - sint y) else long_res (sint y - sint x))"

text \<open>The second value is what the global pointer's target holds afterwards.\<close>

definition side_effect_branch :: "c_word \<Rightarrow> c_word \<Rightarrow> c_word \<Rightarrow> (c_word \<times> c_word) option" where
  "side_effect_branch x y gp =
     (if sint y < sint x then map_option (\<lambda>r. (r, x)) (long_res (sint x - sint y))
      else map_option (\<lambda>r. (r, gp)) (long_res (sint y - sint x)))"

definition cube :: "c_word \<Rightarrow> c_word option" where
  "cube x = Option.bind (long_res (sint x * sint x)) (\<lambda>q. long_res (sint q * sint x))"

definition expensive_branch :: "c_word \<Rightarrow> c_word \<Rightarrow> c_word option" where
  "expensive_branch x y =
     Option.bind (cube x) (\<lambda>a. Option.bind (cube y) (\<lambda>b. Some (if 0 < sint x then a else b)))"

function sum_while_loop :: "int \<Rightarrow> int \<Rightarrow> int \<Rightarrow> int option" where
  "sum_while_loop n i s =
     (if i \<le> n then
        if in_long (s + i) then if in_long (i + 1) then sum_while_loop n (i + 1) (s + i) else None else None
      else Some s)"
  by auto
termination
  by (relation "measure (\<lambda>(n, i, s). nat (n + 1 - i))") auto

definition sum_while :: "int \<Rightarrow> int option" where
  "sum_while n = sum_while_loop n 1 0"

text \<open>The \<open>for\<close> loop has the same test, body and step; it is written as the fold of its body over the values of \<open>i\<close>.\<close>

definition sum_for_turn :: "int \<Rightarrow> int option \<Rightarrow> int option" where
  "sum_for_turn i r = Option.bind r (\<lambda>s. if in_long (s + i) \<and> in_long (i + 1) then Some (s + i) else None)"

definition sum_for :: "int \<Rightarrow> int option" where
  "sum_for n = fold sum_for_turn [1..n] (Some 0)"

definition switch_demo :: "c_word \<Rightarrow> c_word" where
  "switch_demo x =
     (if x = 1 then 10 else if x = 2 then 20 else if x = 3 then 30 else if x = 4 then 40
      else if x = 5 then 50 else -1)"

definition switch_main :: "(nat \<times> int) list" where
  "switch_main = map (\<lambda>i. (i, sint (switch_demo (of_nat i)))) [0..<7]"

definition switch_sparse :: "c_word \<Rightarrow> c_word" where
  "switch_sparse x = (if x = 1 then 10 else if x = 100 then 20 else if x = 1000 then 30 else -1)"

text \<open>The compiled \<open>switch_demo\<close>: one unsigned comparison with 5, then an indirect jump through a table of six entries.\<close>

definition switch_table :: "c_word \<Rightarrow> c_word" where
  "switch_table x = (if 5 < x then -1 else [-1, 10, 20, 30, 40, 50] ! unat x)"

section \<open>Procedures (3.7)\<close>

definition leaf :: "c_word \<Rightarrow> c_word option" where
  "leaf y = long_res (sint y + 2)"

definition g_local :: "c_word \<Rightarrow> c_word option" where
  "g_local y = Option.bind (long_res (sint y + 2)) (\<lambda>a. long_res (sint a + 1))"

definition top_call :: "c_word \<Rightarrow> c_word option" where
  "top_call x = Option.bind (long_res (sint x - 5)) (\<lambda>tmp. Option.bind (leaf tmp) (\<lambda>ret. long_res (sint tmp + sint ret)))"

definition process_main :: "int option" where
  "process_main = map_option (\<lambda>r. c_int (sint r)) (top_call 100)"

section \<open>Lemmas\<close>

lemma sint_word_of_int_long: "in_long v \<Longrightarrow> sint (word_of_int v :: c_word) = v"
  by (simp add: in_long_def LONG_MIN_def LONG_MAX_def sint_sbintrunc' signed_take_bit_int_eq_self)

lemma in_long_sint [simp]: "in_long (sint (x :: c_word))"
  using sint_greater_eq [of x] sint_less [of x] by (simp add: in_long_def LONG_MIN_def LONG_MAX_def)

lemma long_resD: "long_res v = Some r \<Longrightarrow> r = word_of_int v \<and> sint r = v"
  by (auto simp: long_res_def sint_word_of_int_long split: if_splits)

lemma long_res_ex: "in_long v \<Longrightarrow> \<exists>r. long_res v = Some r \<and> sint r = v"
  by (simp add: long_res_def sint_word_of_int_long)

lemma set_reg_simps [simp]:
  "regs (set_reg r v c) q = (if q = r then v else regs c q)" "sign_flag (set_reg r v c) = sign_flag c"
  "regs (flags_of v c) = regs c" "sign_flag (flags_of v c) = (sint v < 0)"
  by (simp_all add: set_reg_def flags_of_def)

lemma asm_mul:
  "asm_call mul5_asm c x = word_of_int (sint x * 5)"
  "asm_call mul15_asm c x = word_of_int (sint x * 15)"
  "asm_call mul6_asm c x = word_of_int (sint x * 6)"
  by (simp_all add: asm_call_def mul5_asm_def mul15_asm_def mul6_asm_def Let_def push_bit_eq_mult algebra_simps)

lemma asm_shift:
  "asm_call signed_shift_asm c x = signed_shift x" "asm_call unsigned_shift_asm c x = unsigned_shift x"
proof -
  have "signed_drop_bit 3 x = word_of_int (sint (signed_drop_bit 3 x))" by simp
  then show "asm_call signed_shift_asm c x = signed_shift x"
    by (simp add: asm_call_def signed_shift_asm_def Let_def signed_shift_def sint_signed_drop_bit_eq drop_bit_eq_div)
  have "asm_call unsigned_shift_asm c x = word_of_int (uint (drop_bit 3 x))"
    by (simp add: asm_call_def unsigned_shift_asm_def Let_def)
  then show "asm_call unsigned_shift_asm c x = unsigned_shift x"
    by (simp add: unsigned_shift_def drop_bit_eq_div uint_div)
qed

text \<open>Adding 3 to a negative number first makes the arithmetic shift round towards zero.\<close>

lemma sdiv_4: "(a :: int) sdiv 4 = (if a < 0 then (a + 3) div 4 else a div 4)"
  by (auto simp: signed_divide_int_def sgn_if)

lemma asm_div: "asm_call div_by_4_asm c x = div_by_4 x"
proof -
  let ?t = "if sint x < 0 then x + 3 else x"
  have t: "sint ?t = (if sint x < 0 then sint x + 3 else sint x)"
  proof (cases "sint x < 0")
    case True
    then have "in_long (sint x + 3)" using in_long_sint [of x] by (simp add: in_long_def LONG_MAX_def)
    moreover have "x + 3 = word_of_int (sint x + 3)" by simp
    ultimately show ?thesis using True sint_word_of_int_long by metis
  qed simp
  have "asm_call div_by_4_asm c x = signed_drop_bit 2 ?t"
    by (simp add: asm_call_def div_by_4_asm_def Let_def add.commute)
  also have "\<dots> = word_of_int (sint (signed_drop_bit 2 ?t))" by simp
  also have "\<dots> = div_by_4 x" unfolding sint_signed_drop_bit_eq t by (simp add: div_by_4_def sdiv_4 drop_bit_eq_div)
  finally show ?thesis .
qed

text \<open>
  The instruction sequences quoted in \<open>3.5/test.c\<close> compute the C functions above them. Whatever the registers and
  flags hold, the shifts and the division by 4 agree with C on every \<open>long\<close>, negative ones included (the bias of 3 makes
  the arithmetic shift round towards zero as \<open>/\<close> does), and the products by 5, 15 and 6 agree whenever the product is
  defined in C; where it overflows, the instructions return it modulo \<open>2 ^ 64\<close>.
\<close>

lemma compiled_arith_agrees:
  shows "asm_call signed_shift_asm c x = signed_shift x \<and> asm_call unsigned_shift_asm c x = unsigned_shift x
    \<and> asm_call div_by_4_asm c x = div_by_4 x \<and> sint (div_by_4 x) = sint x sdiv 4
    \<and> (\<forall>(f, code, k) \<in> {(mul5, mul5_asm, 5), (mul15, mul15_asm, 15), (mul6, mul6_asm, 6)}.
         (case f x of Some r \<Rightarrow> asm_call code c x = r \<and> sint r = sint x * k
          | None \<Rightarrow> \<not> in_long (sint x * k) \<and> uint (asm_call code c x) = (sint x * k) mod 2 ^ 64))"
proof -
  have m: "case long_res (sint x * k) of Some r \<Rightarrow> a = r \<and> sint r = sint x * k
      | None \<Rightarrow> \<not> in_long (sint x * k) \<and> uint a = (sint x * k) mod 2 ^ 64"
    if a: "a = word_of_int (sint x * k)" for a :: c_word and k
  proof (cases "in_long (sint x * k)")
    case True
    then show ?thesis using sint_word_of_int_long [OF True] a by (simp add: long_res_def)
  next
    case False
    then show ?thesis using uint_word_of_int [of "sint x * k", where 'a = 64] unfolding a by (simp add: long_res_def)
  qed
  have "\<bar>sint x sdiv 4\<bar> \<le> \<bar>sint x\<bar>" by (auto simp: sdiv_4)
  then have "in_long (sint x sdiv 4)" using in_long_sint [of x] unfolding in_long_def LONG_MIN_def LONG_MAX_def
    by (auto simp: sdiv_4)
  then have "sint (div_by_4 x) = sint x sdiv 4" by (simp add: div_by_4_def sint_word_of_int_long)
  with asm_shift asm_div m [OF asm_mul(1)] m [OF asm_mul(2)] m [OF asm_mul(3)] show ?thesis
    by (simp add: mul5_def mul15_def mul6_def)
qed

lemma compiled_arith_agrees_witness:
  "asm_call div_by_4_asm \<lparr>regs = (\<lambda>_. 7), sign_flag = False\<rparr> (-7) = -1
   \<and> asm_call mul15_asm \<lparr>regs = (\<lambda>_. 7), sign_flag = False\<rparr> 3 = 45"
proof -
  have "div_by_4 (-7) = -1" by code_simp
  moreover have "mul15 3 = Some 45" by code_simp
  ultimately show ?thesis
    using compiled_arith_agrees [of "\<lparr>regs = (\<lambda>_. 7), sign_flag = False\<rparr>" "-7"]
      compiled_arith_agrees [of "\<lparr>regs = (\<lambda>_. 7), sign_flag = False\<rparr>" 3] by simp
qed

section \<open>Sums and their bound\<close>

definition tri :: "int \<Rightarrow> int" where
  "tri n = n * (n + 1) div 2"

lemma tri_step: "tri (i - 1) + i = tri i"
proof -
  have "i * (i + 1) = (i - 1) * i + i * 2" by (simp add: algebra_simps)
  then have "tri i = ((i - 1) * i + i * 2) div 2" by (simp add: tri_def)
  also have "\<dots> = (i - 1) * i div 2 + i" by simp
  finally show ?thesis by (simp add: tri_def mult.commute)
qed

lemma tri_mono: "0 \<le> i \<Longrightarrow> i \<le> n \<Longrightarrow> tri i \<le> tri n"
  unfolding tri_def by (intro zdiv_mono1 mult_mono) auto

lemma tri_ge: "1 \<le> i \<Longrightarrow> i \<le> tri i"
proof -
  assume "1 \<le> i"
  then have "tri 0 \<le> tri (i - 1)" by (intro tri_mono) auto
  moreover have "tri 0 = 0" by (simp add: tri_def)
  ultimately show ?thesis using tri_step [of i] by linarith
qed

declare sum_while_loop.simps [simp del]

text \<open>The counter never overflows before the sum does, except at the very end of a sum that is in range.\<close>

lemma in_long_step: "1 \<le> i \<Longrightarrow> tri i \<le> LONG_MAX \<Longrightarrow> in_long (tri i) \<and> in_long (i + 1)"
proof -
  assume i: "1 \<le> i" and t: "tri i \<le> LONG_MAX"
  have "i + 1 \<le> LONG_MAX"
  proof (cases "i = 1")
    case False
    then have "i - 1 \<le> tri (i - 1)" "1 \<le> i - 1" using tri_ge [of "i - 1"] i by auto
    then have "2 * i - 1 \<le> tri i" using tri_step [of i] by simp
    with t False i show ?thesis by simp
  qed (simp add: LONG_MAX_def)
  with i t tri_ge [OF i] show ?thesis by (simp add: in_long_def LONG_MIN_def)
qed

lemma sum_while_loop_tri:
  "1 \<le> i \<Longrightarrow> i \<le> n + 1 \<Longrightarrow> tri (i - 1) \<le> LONG_MAX \<Longrightarrow>
   sum_while_loop n i (tri (i - 1)) = (if tri n \<le> LONG_MAX then Some (tri n) else None)"
proof (induction "nat (n + 1 - i)" arbitrary: i)
  case 0
  then have "i = n + 1" by simp
  with 0 show ?case by (simp add: sum_while_loop.simps)
next
  case (Suc k)
  then have i: "i \<le> n" by simp
  show ?case
  proof (cases "tri i \<le> LONG_MAX")
    case True
    then show ?thesis using Suc.hyps(1) [of "i + 1"] Suc.hyps(2) Suc.prems i in_long_step [of i]
      by (subst sum_while_loop.simps) (simp add: tri_step)
  next
    case False
    then have "\<not> tri n \<le> LONG_MAX" using tri_mono [of i n] Suc.prems(1) i by linarith
    with False i show ?thesis by (subst sum_while_loop.simps) (simp add: tri_step in_long_def)
  qed
qed

lemma sum_for_tri: "0 \<le> n \<Longrightarrow> sum_for n = (if tri n \<le> LONG_MAX then Some (tri n) else None)"
proof (induction "nat n" arbitrary: n)
  case 0
  then show ?case by (simp add: sum_for_def tri_def LONG_MAX_def)
next
  case (Suc k)
  then have n: "1 \<le> n" and IH: "sum_for (n - 1) = (if tri (n - 1) \<le> LONG_MAX then Some (tri (n - 1)) else None)" by auto
  have "sum_for n = sum_for_turn n (sum_for (n - 1))" using n by (simp add: sum_for_def upto_rec2)
  also have "\<dots> = (if tri n \<le> LONG_MAX then Some (tri n) else None)"
    using IH tri_step [of n] tri_mono [of "n - 1" n] in_long_step [of n] n by (auto simp: sum_for_turn_def in_long_def)
  finally show ?case .
qed

text \<open>
  C37: \<open>sum_while\<close> and \<open>sum_for\<close> compute the same function on every \<open>long\<close>: 0 below 1, and \<open>n * (n + 1) / 2\<close> exactly when
  that fits a \<open>long\<close>; the largest argument for which they are defined is 4294967295, and for every larger one the addition
  overflows.
\<close>

theorem loop_sums_bounded:
  shows "sum_while n = sum_for n
    \<and> sum_while n = (if n < 1 then Some 0 else if n \<le> 4294967295 then Some (n * (n + 1) div 2) else None)"
proof -
  have m: "tri 4294967295 \<le> LONG_MAX" "LONG_MAX < tri 4294967296" by (simp_all add: tri_def LONG_MAX_def)
  have b: "tri n \<le> LONG_MAX \<longleftrightarrow> n \<le> 4294967295" if "1 \<le> n"
    using m tri_mono [of n 4294967295] tri_mono [of 4294967296 n] that by linarith
  show ?thesis
  proof (cases "n < 1")
    case True
    then show ?thesis by (simp add: sum_while_def sum_for_def sum_while_loop.simps)
  next
    case False
    then show ?thesis using sum_while_loop_tri [of 1 n] sum_for_tri [of n] b
      by (simp add: sum_while_def tri_def LONG_MAX_def)
  qed
qed

section \<open>Branches and switches\<close>

text \<open>The jump table needs only the upper bound check: a negative argument is a large unsigned one.\<close>

lemma switch_table_agrees: "switch_demo x = switch_table x"
proof (cases "5 < x")
  case True
  then have "x \<noteq> 1 \<and> x \<noteq> 2 \<and> x \<noteq> 3 \<and> x \<noteq> 4 \<and> x \<noteq> 5" by auto
  with True show ?thesis by (simp add: switch_demo_def switch_table_def)
next
  case False
  then have "unat x \<le> 5" by (simp add: word_less_nat_alt)
  then have "unat x \<in> {0, 1, 2, 3, 4, 5}" by auto
  then have "(of_nat (unat x) :: c_word) \<in> {0, 1, 2, 3, 4, 5}" by (elim insertE) auto
  then have "x \<in> {0, 1, 2, 3, 4, 5}" by simp
  with False show ?thesis by (auto simp: switch_demo_def switch_table_def)
qed

text \<open>The branch on side effects stores through the pointer only on the branch that does so in the source.\<close>

lemma branches_abs:
  "simple_branch x y = long_res \<bar>sint x - sint y\<bar>"
  "side_effect_branch x y gp = map_option (\<lambda>r. (r, if sint y < sint x then x else gp)) (long_res \<bar>sint x - sint y\<bar>)"
  by (auto simp: simple_branch_def side_effect_branch_def)

lemma cube_Some: "cube x = Some r \<Longrightarrow> sint r = sint x ^ 3"
  by (auto simp: cube_def power3_eq_cube split: Option.bind_splits dest!: long_resD)

lemma expensive_branch_Some: "expensive_branch x y = Some r \<Longrightarrow> sint r = (if 0 < sint x then sint x ^ 3 else sint y ^ 3)"
  by (auto simp: expensive_branch_def cube_Some split: Option.bind_splits if_splits)

text \<open>Both cubes are computed, so the call is undefined when the one that is not returned overflows.\<close>

lemma expensive_branch_both: "expensive_branch 2 (2 ^ 62) = None \<and> cube 2 = Some 8"
  by code_simp

lemma chapter3_mains:
  "conv_main = [-1, 255] \<and> process_main = Some 192
   \<and> switch_main = [(0, -1), (1, 10), (2, 20), (3, 30), (4, 40), (5, 50), (6, -1)]"
  by code_simp

lemma top_call_value: "in_long (sint x - 5) \<Longrightarrow> in_long (2 * sint x - 8) \<Longrightarrow> in_long (sint x - 3) \<Longrightarrow>
  map_option sint (top_call x) = Some (2 * sint x - 8)"
proof -
  assume a: "in_long (sint x - 5)" "in_long (2 * sint x - 8)" "in_long (sint x - 3)"
  obtain t where t: "long_res (sint x - 5) = Some t" "sint t = sint x - 5" using long_res_ex [OF a(1)] by blast
  obtain r where r: "long_res (sint x - 3) = Some r" "sint r = sint x - 3" using long_res_ex [OF a(3)] by blast
  have "leaf t = Some r" using r t(2) by (simp add: leaf_def)
  with t r show ?thesis using long_res_ex [OF a(2)] by (auto simp: top_call_def)
qed

lemma func_low_half: "uint (func x) = uint x mod 2 ^ 32"
  by (simp add: func_def Let_def unsigned_ucast_eq take_bit_eq_mod uint_mod)

lemma extend_value: "sint (extend_sign b) = sint b \<and> sint (extend_zero b) = uint b"
proof -
  have "uint b < 2 ^ 8" using uint_lt2p [of b] by simp
  moreover have "0 \<le> uint b" by simp
  moreover have "LONG_MIN \<le> 0" "2 ^ 8 \<le> LONG_MAX" by (simp_all add: LONG_MIN_def LONG_MAX_def)
  ultimately have "in_long (uint b)" unfolding in_long_def by linarith
  moreover have "extend_zero b = word_of_int (uint b)" by (simp add: extend_zero_def)
  ultimately have "sint (extend_zero b) = uint b" using sint_word_of_int_long by metis
  moreover have "in_long (sint b)" using sint_greater_eq [of b] sint_less [of b] by (simp add: in_long_def LONG_MIN_def LONG_MAX_def)
  then have "sint (extend_sign b) = sint b" using sint_word_of_int_long [of "sint b"] by (simp add: extend_sign_def)
  ultimately show ?thesis by simp
qed

end
