(* ===== verification/Data_Layout.thy ===== *)
theory Data_Layout
  imports Machine_Code C_Text
begin

text \<open>
  How data is represented: the bytes of an object and the conversions between integer types (Chapter 2), arrays and
  their traversals (\<open>3.8/expirements.c\<close>) and the layout of structures (\<open>3.9/expirements.c\<close>). Integers are words of their
  width; the machine is little endian.
\<close>

section \<open>The bytes of an object (2.1)\<close>

definition hex_digit :: "nat \<Rightarrow> char" where
  "hex_digit d = (if d < 10 then char_of (48 + d) else char_of (87 + d))"

definition byte_at :: "c_word \<Rightarrow> nat \<Rightarrow> 8 word" where
  "byte_at x i = ucast (drop_bit (8 * i) x)"

text \<open>\<open>memcpy\<close> of an object of \<open>n\<close> bytes whose value is \<open>x\<close>.\<close>

definition object_bytes :: "nat \<Rightarrow> c_word \<Rightarrow> 8 word list" where
  "object_bytes n x = map (byte_at x) [0..<n]"

definition show_bytes :: "8 word list \<Rightarrow> nat \<Rightarrow> string" where
  "show_bytes start len =
     concat (map (\<lambda>i. let b = unat (start ! i) in [hex_digit (b div 16), hex_digit (b mod 16), CHR '' '']) [0..<len]) @ [LF]"

definition show_int :: "32 word \<Rightarrow> string" where
  "show_int x = show_bytes (object_bytes 4 (ucast x)) 4"

definition show_pointer :: "c_word \<Rightarrow> string" where
  "show_pointer p = show_bytes (object_bytes 8 p) 8"

text \<open>A \<open>float\<close> is its bit pattern.\<close>

definition show_float :: "32 word \<Rightarrow> string" where
  "show_float x = show_bytes (object_bytes 4 (ucast x)) 4"

definition show_string :: "bytes \<Rightarrow> string" where
  "show_string s = show_bytes (map (\<lambda>c. of_nat (of_char c)) s) (length (cstr s))"

text \<open>\<open>0x4640E400\<close> is the single precision pattern of 12345.0; \<open>p\<close> is the address of \<open>i\<close>.\<close>

definition show_main :: "c_word \<Rightarrow> string list" where
  "show_main p = [show_int 12345, show_float 0x4640E400, show_pointer p, show_string (''abcdef'' @ [NUL])]"

section \<open>Implicit conversions (2.2)\<close>

text \<open>An \<open>int\<close> compared with an \<open>unsigned\<close> is converted to it; compared with a \<open>size_t\<close> it is first extended with its sign.\<close>

definition exp_mixed_compare :: "bool \<times> int" where
  "exp_mixed_compare = (let a = -1 :: 32 word; b = 0 :: 32 word in (a < b, uint a))"

definition exp_strlen_sub :: "int \<times> bool" where
  "exp_strlen_sub =
     (let d = of_nat (length (cstr (''abc'' @ [NUL]))) - of_nat (length (cstr (''adbc'' @ [NUL]))) :: c_word in (uint d, 0 < d))"

text \<open>The test \<open>i >= 0\<close> of an unsigned counter is always true; only the count of turns ends the loop.\<close>

function unsigned_loop :: "c_word \<Rightarrow> nat \<Rightarrow> int list" where
  "unsigned_loop i cnt =
     (if 0 \<le> i then if 5 < cnt + 1 then [] else uint i # unsigned_loop (i - 1) (cnt + 1) else [])"
  by auto
termination
  by (relation "measure (\<lambda>(i, cnt). 6 - cnt)") auto

definition exp_unsigned_loop :: "int list" where
  "exp_unsigned_loop = (let v = [10, 20, 30 :: int] in unsigned_loop (of_nat (length v) - 1) 0)"

definition exp_sizet_int :: "bool \<times> bool \<times> int" where
  "exp_sizet_int =
     (let n = -1 :: 32 word; sz = 3 :: c_word
      in (sint n < sint (ucast sz :: 32 word), (scast n :: c_word) < sz, uint (scast n :: c_word)))"

section \<open>The fields of a floating-point number (2.4)\<close>

definition printFloatBits :: "32 word \<Rightarrow> 32 word \<times> 32 word \<times> 32 word" where
  "printFloatBits bits = (drop_bit 31 bits AND 1, drop_bit 23 bits AND 0xFF, bits AND 0x7FFFFF)"

definition printDoubleBits :: "c_word \<Rightarrow> c_word \<times> c_word \<times> c_word" where
  "printDoubleBits bits = (drop_bit 63 bits AND 1, drop_bit 52 bits AND 0x7FF, bits AND 0x000FFFFFFFFFFFFF)"

section \<open>Arrays (3.8)\<close>

definition in_int :: "int \<Rightarrow> bool" where
  "in_int v \<longleftrightarrow> - (2 ^ 31) \<le> v \<and> v \<le> INT_MAX"

text \<open>\<open>None\<close> is undefined behaviour: an overflow or an access outside the array.\<close>

function sum_index_loop :: "int list \<Rightarrow> int \<Rightarrow> int \<Rightarrow> int \<Rightarrow> int option" where
  "sum_index_loop a n i s =
     (if i < n then
        if 0 \<le> i \<and> nat i < length a \<and> in_int (s + a ! nat i) then sum_index_loop a n (i + 1) (s + a ! nat i) else None
      else Some s)"
  by auto
termination
  by (relation "measure (\<lambda>(a, n, i, s). nat (n - i))") auto

definition sum_index :: "int list \<Rightarrow> int \<Rightarrow> int option" where
  "sum_index a n = sum_index_loop a n 0 0"

text \<open>The pointer walks over the array; the second argument is the distance to \<open>end\<close>.\<close>

fun sum_ptr_loop :: "int list \<Rightarrow> nat \<Rightarrow> int \<Rightarrow> int option" where
  "sum_ptr_loop a 0 s = Some s"
| "sum_ptr_loop [] (Suc k) s = None"
| "sum_ptr_loop (x # a) (Suc k) s = (if in_int (s + x) then sum_ptr_loop a k (s + x) else None)"

definition sum_ptr :: "int list \<Rightarrow> int \<Rightarrow> int option" where
  "sum_ptr a n = sum_ptr_loop a (nat n) 0"

text \<open>A two-dimensional array is stored row by row; \<open>A[i][j]\<close> is at \<open>cols * i + j\<close>.\<close>

definition get_2d :: "int \<Rightarrow> int \<Rightarrow> int list \<Rightarrow> int \<Rightarrow> int \<Rightarrow> int option" where
  "get_2d rows cols mem i j =
     (if 0 \<le> i \<and> i < rows \<and> 0 \<le> j \<and> j < cols then Some (mem ! nat (cols * i + j)) else None)"

definition get_3x5 :: "int list \<Rightarrow> int \<Rightarrow> int \<Rightarrow> int option" where
  "get_3x5 = get_2d 3 5"

definition get_4x7 :: "int list \<Rightarrow> int \<Rightarrow> int \<Rightarrow> int option" where
  "get_4x7 = get_2d 4 7"

definition get_3x6 :: "int list \<Rightarrow> int \<Rightarrow> int \<Rightarrow> int option" where
  "get_3x6 = get_2d 3 6"

definition DIM :: nat where
  "DIM = 2048"

definition add_long :: "int \<Rightarrow> int option \<Rightarrow> int option" where
  "add_long v r = Option.bind r (\<lambda>s. if in_long (s + v) then Some (s + v) else None)"

definition sum_row_major :: "(nat \<Rightarrow> nat \<Rightarrow> int) \<Rightarrow> int option" where
  "sum_row_major A = fold (\<lambda>i. fold (\<lambda>j. add_long (A i j)) [0..<DIM]) [0..<DIM] (Some 0)"

definition sum_col_major :: "(nat \<Rightarrow> nat \<Rightarrow> int) \<Rightarrow> int option" where
  "sum_col_major A = fold (\<lambda>j. fold (\<lambda>i. add_long (A i j)) [0..<DIM]) [0..<DIM] (Some 0)"

text \<open>The exit status and what is printed.\<close>

definition matrix_main :: "bytes list \<Rightarrow> (nat \<Rightarrow> nat \<Rightarrow> int) \<Rightarrow> int \<times> int option" where
  "matrix_main argv A =
     (if length argv < 2 then (1, None)
      else (0, if take 1 (argv ! 1) = ''r'' then sum_row_major A else sum_col_major A))"

section \<open>Structures (3.9)\<close>

text \<open>A field: its name, size and alignment. The compiler puts each at the next multiple of its alignment.\<close>

type_synonym c_field = "string \<times> nat \<times> nat"

definition round_up :: "nat \<Rightarrow> nat \<Rightarrow> nat" where
  "round_up al n = (n + al - 1) div al * al"

fun place :: "nat \<Rightarrow> c_field list \<Rightarrow> (string \<times> nat) list" where
  "place n [] = []"
| "place n ((f, sz, al) # fs) = (f, round_up al n) # place (round_up al n + sz) fs"

fun end_of :: "nat \<Rightarrow> c_field list \<Rightarrow> nat" where
  "end_of n [] = n"
| "end_of n ((f, sz, al) # fs) = end_of (round_up al n + sz) fs"

definition struct_align :: "c_field list \<Rightarrow> nat" where
  "struct_align fs = foldr max (map (\<lambda>(f, sz, al). al) fs) 1"

definition struct_size :: "c_field list \<Rightarrow> nat" where
  "struct_size fs = round_up (struct_align fs) (end_of 0 fs)"

definition c_char :: "string \<Rightarrow> c_field" where "c_char f = (f, 1, 1)"
definition c_short :: "string \<Rightarrow> c_field" where "c_short f = (f, 2, 2)"
definition c_int_field :: "string \<Rightarrow> c_field" where "c_int_field f = (f, 4, 4)"

definition struct_A :: "c_field list" where
  "struct_A = [c_char ''a'', c_int_field ''b'', c_char ''c'', c_short ''d'']"

definition struct_B :: "c_field list" where
  "struct_B = [c_int_field ''b'', c_short ''d'', c_char ''a'', c_char ''c'']"

definition struct_C :: "c_field list" where
  "struct_C = [c_char ''a'', c_char ''c'', c_short ''d'', c_int_field ''b'']"

definition struct_Normal :: "c_field list" where
  "struct_Normal = [c_char ''a'', c_int_field ''b'']"

text \<open>The attribute \<open>packed\<close> sets every alignment to 1.\<close>

definition struct_Packed :: "c_field list" where
  "struct_Packed = map (\<lambda>(f, sz, al). (f, sz, 1)) struct_Normal"

definition offsetof :: "c_field list \<Rightarrow> string \<Rightarrow> nat option" where
  "offsetof fs f = map_of (place 0 fs) f"

definition dump_struct :: "c_field list \<Rightarrow> nat \<times> nat \<times> nat option list" where
  "dump_struct S = (struct_size S, struct_align S, map (offsetof S) [''a'', ''b'', ''c'', ''d''])"

definition layout_main :: "(nat \<times> nat \<times> nat option list) list" where
  "layout_main = [dump_struct struct_A, dump_struct struct_B, dump_struct struct_C]"

definition int_at :: "8 word list \<Rightarrow> nat \<Rightarrow> 32 word" where
  "int_at mem n = foldr (\<lambda>b v. ucast b OR push_bit 8 v) (take 4 (drop n mem)) 0"

definition read_normal :: "8 word list \<Rightarrow> 32 word option" where
  "read_normal s = map_option (int_at s) (offsetof struct_Normal ''b'')"

definition read_packed :: "8 word list \<Rightarrow> 32 word option" where
  "read_packed s = map_option (int_at s) (offsetof struct_Packed ''b'')"

section \<open>Sums over arrays\<close>

declare sum_index_loop.simps [simp del]

lemma sum_index_loop_ptr:
  "0 \<le> i \<Longrightarrow> sum_index_loop a n i s = sum_ptr_loop (drop (nat i) a) (nat (n - i)) s"
proof (induction "nat (n - i)" arbitrary: i s)
  case 0
  then show ?case by (simp add: sum_index_loop.simps)
next
  case (Suc k)
  then have i: "i < n" "nat (n - i) = Suc (nat (n - (i + 1)))" by auto
  show ?case
  proof (cases "nat i < length a")
    case True
    then have "drop (nat i) a = a ! nat i # drop (nat (i + 1)) a" using Suc.prems by (simp add: Cons_nth_drop_Suc nat_add_distrib)
    with True i Suc.prems Suc.hyps(1) [of "i + 1" "s + a ! nat i"] Suc.hyps(2) show ?thesis
      by (subst sum_index_loop.simps) simp
  next
    case False
    with i show ?thesis by (subst sum_index_loop.simps) simp
  qed
qed

text \<open>Indexing and pointer arithmetic read the same elements and overflow together.\<close>

lemma sum_index_ptr: "sum_index a n = sum_ptr a n"
  using sum_index_loop_ptr [of 0 a n 0] by (simp add: sum_index_def sum_ptr_def)

lemma get_2d_injective:
  fixes i j i' j' rows cols :: int
  assumes "0 \<le> i" "i < rows" "0 \<le> j" "j < cols" "0 \<le> i'" "i' < rows" "0 \<le> j'" "j' < cols"
  shows "0 \<le> cols * i + j \<and> cols * i + j < rows * cols" and "cols * i + j = cols * i' + j' \<Longrightarrow> i = i' \<and> j = j'"
proof -
  have "cols * i + j < cols * (i + 1)" using assms(4) by (simp add: algebra_simps)
  also have "\<dots> \<le> cols * rows" using assms by (intro mult_left_mono) auto
  finally show "0 \<le> cols * i + j \<and> cols * i + j < rows * cols" using assms by (simp add: mult.commute)
  assume e: "cols * i + j = cols * i' + j'"
  have "(cols * i + j) div cols = i" "(cols * i' + j') div cols = i'" using assms by simp_all
  with e show "i = i' \<and> j = j'" by auto
qed

definition add_all :: "int list \<Rightarrow> int option \<Rightarrow> int option" where
  "add_all = fold add_long"

lemma add_all_Some:
  "\<forall>v \<in> set vs. in_int v \<Longrightarrow> \<bar>s\<bar> + int (length vs) * 2 ^ 31 \<le> LONG_MAX \<Longrightarrow> add_all vs (Some s) = Some (s + sum_list vs)"
proof (induction vs arbitrary: s)
  case (Cons v vs)
  have v: "\<bar>v\<bar> \<le> 2 ^ 31" using Cons.prems(1) by (auto simp: in_int_def INT_MAX_def)
  have b: "\<bar>s + v\<bar> + int (length vs) * 2 ^ 31 \<le> LONG_MAX" using Cons.prems(2) v by (simp add: algebra_simps)
  moreover have "0 \<le> int (length vs) * 2 ^ 31" by simp
  ultimately have "\<bar>s + v\<bar> \<le> LONG_MAX" by linarith
  then have "in_long (s + v)" unfolding in_long_def LONG_MIN_def LONG_MAX_def by linarith
  with Cons.IH [OF _ b] Cons.prems(1) show ?case by (simp add: add_all_def add_long_def)
qed (simp add: add_all_def)

lemma fold_add_long: "fold (\<lambda>i. fold (\<lambda>j. add_long (B i j)) ys) xs r = add_all (concat (map (\<lambda>i. map (B i) ys) xs)) r"
  by (induction xs arbitrary: r) (simp_all add: add_all_def fold_map comp_def)

lemma sum_list_rows: "sum_list (concat (map (\<lambda>i. map (B i) [0..<n]) [0..<m])) = (\<Sum>i<m. \<Sum>j<n. B i j :: int)"
proof -
  have "sum_list (concat (map (\<lambda>i. map (B i) [0..<n]) [0..<m])) = (\<Sum>i\<leftarrow>[0..<m]. \<Sum>j\<leftarrow>[0..<n]. B i j)"
    by (induction m) simp_all
  then show ?thesis by (simp add: interv_sum_list_conv_sum_set_nat atLeast0LessThan)
qed

lemma sum_matrix:
  assumes "\<forall>i < DIM. \<forall>j < DIM. in_int (B i j)"
  shows "fold (\<lambda>i. fold (\<lambda>j. add_long (B i j)) [0..<DIM]) [0..<DIM] (Some 0) = Some (\<Sum>i<DIM. \<Sum>j<DIM. B i j)"
proof -
  let ?vs = "concat (map (\<lambda>i. map (B i) [0..<DIM]) [0..<DIM])"
  have "length ?vs = DIM * DIM" by (simp add: length_concat comp_def sum_list_triv)
  then have "int (length ?vs) * 2 ^ 31 \<le> LONG_MAX" by (simp add: DIM_def LONG_MAX_def)
  then have "add_all ?vs (Some 0) = Some (0 + sum_list ?vs)" using assms by (intro add_all_Some) auto
  then show ?thesis unfolding fold_add_long sum_list_rows by simp
qed

text \<open>
  The two traversals of the 2048 by 2048 array of \<open>3.8/expirements.c\<close> are defined for every content of the array (the
  \<open>long\<close> sum of 4194304 \<open>int\<close>s cannot overflow) and return the same number, the sum of all elements; so the program prints
  it whatever its argument.
\<close>

lemma matrix_sums_agree:
  assumes "\<forall>i < DIM. \<forall>j < DIM. in_int (A i j)"
  shows "sum_row_major A = Some (\<Sum>i<DIM. \<Sum>j<DIM. A i j) \<and> sum_col_major A = sum_row_major A
    \<and> (\<forall>argv. 2 \<le> length argv \<longrightarrow> matrix_main argv A = (0, Some (\<Sum>i<DIM. \<Sum>j<DIM. A i j)))"
proof -
  have r: "sum_row_major A = Some (\<Sum>i<DIM. \<Sum>j<DIM. A i j)" unfolding sum_row_major_def by (rule sum_matrix [OF assms])
  have "sum_col_major A = Some (\<Sum>j<DIM. \<Sum>i<DIM. A i j)" unfolding sum_col_major_def
    using sum_matrix [of "\<lambda>j i. A i j"] assms by simp
  also have "(\<Sum>j<DIM. \<Sum>i<DIM. A i j) = (\<Sum>i<DIM. \<Sum>j<DIM. A i j)" by (rule sum.swap)
  finally show ?thesis using r by (simp add: matrix_main_def)
qed

lemma matrix_sums_agree_witness: "matrix_main [''matrix'', ''c''] (\<lambda>i j. 3) = (0, Some 12582912)"
proof -
  have "\<forall>i < DIM. \<forall>j < DIM. in_int ((\<lambda>i j. 3) i j)" by (simp add: in_int_def INT_MAX_def)
  from matrix_sums_agree [OF this] show ?thesis by (simp add: DIM_def)
qed

section \<open>Layout\<close>

lemma round_up_props:
  assumes "0 < al"
  shows "n \<le> round_up al n" and "round_up al n < n + al" and "al dvd round_up al n"
proof -
  have d: "(n + al - 1) div al * al = (n + al - 1) - (n + al - 1) mod al" by (simp add: minus_mod_eq_div_mult)
  have "(n + al - 1) mod al < al" using assms by simp
  with d show "n \<le> round_up al n" "round_up al n < n + al" using assms unfolding round_up_def by linarith+
  show "al dvd round_up al n" by (simp add: round_up_def)
qed

text \<open>
  The placed fields, in order, are aligned, follow one another without overlap and end where \<open>end_of\<close> says.
\<close>

fun laid_out :: "nat \<Rightarrow> c_field list \<Rightarrow> (string \<times> nat) list \<Rightarrow> nat \<Rightarrow> bool" where
  "laid_out n [] os e \<longleftrightarrow> os = [] \<and> n \<le> e"
| "laid_out n ((f, sz, al) # fs) os e \<longleftrightarrow>
     (case os of [] \<Rightarrow> False | (g, off) # rest \<Rightarrow> g = f \<and> n \<le> off \<and> off < n + al \<and> al dvd off \<and> laid_out (off + sz) fs rest e)"

lemma place_laid_out: "\<forall>(f, sz, al) \<in> set fs. 0 < al \<Longrightarrow> end_of n fs \<le> e \<Longrightarrow> laid_out n fs (place n fs) e"
  by (induction n fs rule: place.induct) (auto simp: round_up_props)

lemma struct_align_pos: "0 < struct_align fs"
  by (induction fs) (auto simp: struct_align_def)

lemma struct_laid_out:
  assumes "\<forall>(f, sz, al) \<in> set fs. 0 < al"
  shows "laid_out 0 fs (place 0 fs) (struct_size fs) \<and> struct_align fs dvd struct_size fs"
  using place_laid_out [OF assms] round_up_props [OF struct_align_pos [of fs]] by (simp add: struct_size_def)

text \<open>
  The layout rule of the compiler: for every list of fields with positive alignments the layout gives each field an offset that is a multiple of its
  alignment, in the order of declaration, after the end of the field before it and with less padding than its alignment,
  all inside a size that is a multiple of the structure's alignment, so that the elements of an array stay aligned; for
  the structures of \<open>3.9/expirements.c\<close> the program prints the sizes 12, 8 and 8, and the packed one has 5 bytes
  instead of 8.
\<close>

lemma struct_layout:
  assumes "\<forall>(f, sz, al) \<in> set fs. 0 < al"
  shows "laid_out 0 fs (place 0 fs) (struct_size fs) \<and> struct_align fs dvd struct_size fs
    \<and> layout_main =
     [(12, 4, [Some 0, Some 4, Some 8, Some 10]), (8, 4, [Some 6, Some 0, Some 7, Some 4]), (8, 4, [Some 0, Some 4, Some 1, Some 2])]
    \<and> struct_size struct_Normal = 8 \<and> struct_size struct_Packed = 5"
proof -
  have "layout_main =
     [(12, 4, [Some 0, Some 4, Some 8, Some 10]), (8, 4, [Some 6, Some 0, Some 7, Some 4]), (8, 4, [Some 0, Some 4, Some 1, Some 2])]
    \<and> struct_size struct_Normal = 8 \<and> struct_size struct_Packed = 5" by code_simp
  with struct_laid_out [OF assms] show ?thesis by simp
qed

lemma struct_layout_witness: "laid_out 0 struct_A (place 0 struct_A) 12 \<and> struct_align struct_A dvd 12"
proof -
  have p: "\<forall>(f, sz, al) \<in> set struct_A. 0 < al" by (simp add: struct_A_def c_char_def c_int_field_def c_short_def)
  have "struct_size struct_A = 12" by code_simp
  with struct_layout [OF p] show ?thesis by simp
qed

section \<open>Bytes and bits\<close>

lemma drop_at_4: "length pre = k \<Longrightarrow> length xs = 4 \<Longrightarrow> take 4 (drop k (pre @ xs @ post)) = xs"
  by simp

lemma object_bytes_4: "object_bytes 4 x = [byte_at x 0, byte_at x 1, byte_at x 2, byte_at x 3]"
  by (simp add: object_bytes_def upt_rec numeral_2_eq_2 numeral_3_eq_3)

lemma int_at_bytes: "length pre = k \<Longrightarrow> int_at (pre @ object_bytes 4 (ucast x) @ post) k = x"
proof -
  assume k: "length pre = k"
  have "int_at (pre @ object_bytes 4 (ucast x) @ post) k = foldr (\<lambda>b v. ucast b OR push_bit 8 v) (object_bytes 4 (ucast x)) 0"
    using k by (simp add: int_at_def object_bytes_def)
  also have "\<dots> = x"
    by (rule bit_word_eqI) (auto simp: object_bytes_4 byte_at_def bit_simps)
  finally show ?thesis .
qed

text \<open>Reading the field \<open>b\<close> gives back what was stored, at offset 4 after three bytes of padding or at offset 1.\<close>

lemma read_struct_field:
  "length pad = 3 \<Longrightarrow> read_normal (a # pad @ object_bytes 4 (ucast v) @ post) = Some v"
  "read_packed (a # object_bytes 4 (ucast v) @ post) = Some v"
proof -
  have o: "offsetof struct_Normal ''b'' = Some 4" "offsetof struct_Packed ''b'' = Some 1" by code_simp+
  show "length pad = 3 \<Longrightarrow> read_normal (a # pad @ object_bytes 4 (ucast v) @ post) = Some v"
    using int_at_bytes [of "a # pad" 4 v post] o by (simp add: read_normal_def)
  show "read_packed (a # object_bytes 4 (ucast v) @ post) = Some v"
    using int_at_bytes [of "[a]" 1 v post] o by (simp add: read_packed_def)
qed

text \<open>The three fields printed for a \<open>float\<close> or a \<open>double\<close> determine its bits.\<close>

lemma float_fields:
  "printFloatBits bits = (s, e, f) \<Longrightarrow> bits = push_bit 31 s OR push_bit 23 e OR f"
  "printDoubleBits d = (s', e', f') \<Longrightarrow> d = push_bit 63 s' OR push_bit 52 e' OR f'"
proof -
  have m: "(1 :: 32 word) = mask 1" "(0xFF :: 32 word) = mask 8" "(0x7FFFFF :: 32 word) = mask 23"
    "(1 :: c_word) = mask 1" "(0x7FF :: c_word) = mask 11" "(0x000FFFFFFFFFFFFF :: c_word) = mask 52"
    by (simp_all add: mask_eq_exp_minus_1)
  show "bits = push_bit 31 s OR push_bit 23 e OR f" if "printFloatBits bits = (s, e, f)"
  proof (rule bit_word_eqI)
    fix n
    assume "n < LENGTH(32)"
    then consider "n < 23" | "23 \<le> n" "n < 31" | "n = 31" by force
    then show "bit bits n = bit (push_bit 31 s OR push_bit 23 e OR f) n"
      using that unfolding printFloatBits_def m by cases (auto simp: bit_simps)
  qed
  show "d = push_bit 63 s' OR push_bit 52 e' OR f'" if "printDoubleBits d = (s', e', f')"
  proof (rule bit_word_eqI)
    fix n
    assume "n < LENGTH(64)"
    then consider "n < 52" | "52 \<le> n" "n < 63" | "n = 63" by force
    then show "bit d n = bit (push_bit 63 s' OR push_bit 52 e' OR f') n"
      using that unfolding printDoubleBits_def m by cases (auto simp: bit_simps)
  qed
qed

lemma conversion_outputs:
  "exp_mixed_compare = (False, 4294967295) \<and> exp_sizet_int = (True, False, 18446744073709551615)
   \<and> exp_strlen_sub = (18446744073709551615, True)
   \<and> exp_unsigned_loop = [2, 1, 0, 18446744073709551615, 18446744073709551614]"
  by code_simp

lemma show_outputs:
  "show_main 0x7FFC0 = [''39 30 00 00 '' @ [LF], ''00 e4 40 46 '' @ [LF], ''c0 ff 07 00 00 00 00 00 '' @ [LF], ''61 62 63 64 65 66 '' @ [LF]]"
  by code_simp

section \<open>The vector library and the linked sum (Chapter 7)\<close>

text \<open>
  \<open>addvec\<close> and \<open>multvec\<close> store into \<open>z\<close>, an array apart from \<open>x\<close> and \<open>y\<close>, and count their calls. \<open>None\<close> is an access outside
  an array or an overflow.
\<close>

fun vec_loop :: "(int \<Rightarrow> int \<Rightarrow> int) \<Rightarrow> nat \<Rightarrow> int list \<Rightarrow> int list \<Rightarrow> int list \<Rightarrow> nat \<Rightarrow> int list option" where
  "vec_loop f i x y z 0 = Some z"
| "vec_loop f i x y z (Suc k) =
     (if i < length x \<and> i < length y \<and> i < length z \<and> in_int (f (x ! i) (y ! i))
      then vec_loop f (i + 1) x y (z[i := f (x ! i) (y ! i)]) k else None)"

definition addvec :: "int list \<Rightarrow> int list \<Rightarrow> int list \<Rightarrow> int \<Rightarrow> int \<Rightarrow> (int list \<times> int) option" where
  "addvec x y z n add_cnt = map_option (\<lambda>z. (z, add_cnt + 1)) (vec_loop (+) 0 x y z (nat n))"

definition multvec :: "int list \<Rightarrow> int list \<Rightarrow> int list \<Rightarrow> int \<Rightarrow> int \<Rightarrow> (int list \<times> int) option" where
  "multvec x y z n mult_cnt = map_option (\<lambda>z. (z, mult_cnt + 1)) (vec_loop (*) 0 x y z (nat n))"

text \<open>What \<open>main\<close> prints: the two elements of \<open>z\<close> and \<open>add_cnt\<close>.\<close>

definition vec_main :: "(int list \<times> int) option" where
  "vec_main = addvec [1, 2] [3, 4] [0, 0] 2 0"

text \<open>\<open>link/sum.c\<close> counts with an \<open>int\<close>; \<open>link/main.c\<close> returns its result.\<close>

fun link_sum_loop :: "int list \<Rightarrow> nat \<Rightarrow> int \<Rightarrow> nat \<Rightarrow> int option" where
  "link_sum_loop a i s 0 = Some s"
| "link_sum_loop a i s (Suc k) =
     (if i < length a \<and> in_int (s + a ! i) then link_sum_loop a (i + 1) (s + a ! i) k else None)"

definition link_sum :: "int list \<Rightarrow> int \<Rightarrow> int option" where
  "link_sum a n = link_sum_loop a 0 0 (nat n)"

definition link_main :: "int option" where
  "link_main = link_sum [1, 2] 2"

lemma vec_loop_map2:
  "i + k \<le> length x \<Longrightarrow> i + k \<le> length y \<Longrightarrow> i + k \<le> length z \<Longrightarrow> \<forall>j < i + k. in_int (f (x ! j) (y ! j)) \<Longrightarrow>
   vec_loop f i x y z k = Some (take i z @ map (\<lambda>j. f (x ! j) (y ! j)) [i..<i + k] @ drop (i + k) z)"
proof (induction k arbitrary: i z)
  case (Suc k)
  let ?v = "f (x ! i) (y ! i)"
  have "vec_loop f i x y z (Suc k) = vec_loop f (i + 1) x y (z[i := ?v]) k" using Suc.prems by simp
  moreover have "vec_loop f (i + 1) x y (z[i := ?v]) k = Some (take (i + 1) (z[i := ?v]) @ map (\<lambda>j. f (x ! j) (y ! j)) [i + 1..<i + 1 + k] @ drop (i + 1 + k) (z[i := ?v]))"
    using Suc.prems by (intro Suc.IH) auto
  moreover have "take (i + 1) (z[i := ?v]) = take i z @ [?v]" using Suc.prems by (simp add: take_Suc_conv_app_nth)
  moreover have "[i..<i + Suc k] = i # [i + 1..<i + 1 + k]" by (simp add: upt_conv_Cons del: upt_Suc)
  ultimately show ?case by (simp del: upt_Suc vec_loop.simps)
qed simp

text \<open>Within the arrays and without overflow the routines are the element-wise sum and product.\<close>

lemma addvec_map2:
  assumes "length x = n" "length y = n" "length z = n" "\<forall>j < n. in_int (x ! j + y ! j)"
  shows "addvec x y z (int n) c = Some (map (\<lambda>j. x ! j + y ! j) [0..<n], c + 1)"
  using vec_loop_map2 [of 0 n x y z "(+)"] assms by (simp add: addvec_def)

lemma multvec_map2:
  assumes "length x = n" "length y = n" "length z = n" "\<forall>j < n. in_int (x ! j * y ! j)"
  shows "multvec x y z (int n) c = Some (map (\<lambda>j. x ! j * y ! j) [0..<n], c + 1)"
  using vec_loop_map2 [of 0 n x y z "(*)"] assms by (simp add: multvec_def)

lemma link_sum_index: "link_sum_loop a i s k = sum_ptr_loop (drop i a) k s"
proof (induction k arbitrary: i s)
  case (Suc k)
  then show ?case by (cases "i < length a") (simp_all add: Cons_nth_drop_Suc [symmetric])
qed simp

lemma chapter7_mains: "vec_main = Some ([4, 6], 1) \<and> link_main = Some 3 \<and> link_sum a n = sum_ptr a n"
proof -
  have "vec_main = Some ([4, 6], 1)" "link_main = Some 3" by code_simp+
  then show ?thesis by (simp add: link_sum_def sum_ptr_def link_sum_index)
qed

end
