(* ===== verification/Shared_State.thy ===== *)
theory Shared_State
  imports CS_Prelude
begin

text \<open>
  Programs in which two processes or threads share something: the file of \<open>race_write.c\<close> (each process with its own
  offset, with and without \<open>O_APPEND\<close>), the open file description of \<open>shared.c\<close>, the mapping of \<open>shm.c\<close> and the two
  mutexes of \<open>deadlock.c\<close>. The order in which the two run is an explicit schedule or a step relation.
\<close>

section \<open>Two writers of one file\<close>

text \<open>\<open>snprintf(line, 8, "%c line...", tag)\<close>.\<close>

definition race_line :: "byte \<Rightarrow> bytes" where
  "race_line tag = tag # '' line'' @ [LF]"

text \<open>
  A \<open>write\<close> of a process: with \<open>O_APPEND\<close> the offset first moves to the end of the file. The kernel serialises the writes
  to a file, so a call is one step; every \<open>open\<close> succeeds and every \<open>write\<close> takes the whole line.
\<close>

definition write_at :: "bool \<Rightarrow> bytes \<Rightarrow> nat \<times> bytes \<Rightarrow> nat \<times> bytes" where
  "write_at use_append bs s =
     (let (off, f) = s; p = (if use_append then length f else off)
      in (p + length bs, take p f @ replicate (p - length f) NUL @ bs @ drop (p + length bs) f))"

record race_state =
  race_file :: bytes
  off_child :: nat
  off_parent :: nat

text \<open>One turn of the loop of \<open>writer\<close>, in the child (\<open>True\<close>, tag B) or in the parent (tag A).\<close>

definition writer_turn :: "bool \<Rightarrow> bool \<Rightarrow> race_state \<Rightarrow> race_state" where
  "writer_turn use_append child s =
     (if child then let (o1, f1) = write_at use_append (race_line (CHR ''B'')) (off_child s, race_file s)
                    in s\<lparr>race_file := f1, off_child := o1\<rparr>
      else let (o1, f1) = write_at use_append (race_line (CHR ''A'')) (off_parent s, race_file s)
           in s\<lparr>race_file := f1, off_parent := o1\<rparr>)"

definition RACE_M :: nat where "RACE_M = 40000"
definition RACE_N :: nat where "RACE_N = 50000"

text \<open>
  \<open>main\<close>: truncate the file, then both processes open it (offset 0 each) and write; \<open>wait\<close> returns after the child's last
  write. The schedule says who makes the next \<open>write\<close>; the second result is the number of lines the program announces.
\<close>

definition race_main :: "bytes list \<Rightarrow> bool list \<Rightarrow> bytes \<times> nat" where
  "race_main argv sched =
     (let use_append = (1 < length argv \<and> take 1 (argv ! 1) = ''1'')
      in (race_file (fold (writer_turn use_append) sched \<lparr>race_file = [], off_child = 0, off_parent = 0\<rparr>), RACE_M + RACE_N))"

definition complete_sched :: "bool list \<Rightarrow> bool" where
  "complete_sched sched \<longleftrightarrow> count_list sched True = RACE_N \<and> count_list sched False = RACE_M"

section \<open>Lines\<close>

definition race_text :: "bytes \<Rightarrow> bytes" where
  "race_text tags = concat (map race_line tags)"

lemma length_race_line [simp]: "length (race_line t) = 7"
  by (simp add: race_line_def)

lemma length_race_text [simp]: "length (race_text tags) = 7 * length tags"
  by (induction tags) (simp_all add: race_text_def)

lemma race_text_append [simp]: "race_text (xs @ ys) = race_text xs @ race_text ys"
  by (simp add: race_text_def)

lemma race_text_single [simp]: "race_text [t] = race_line t"
  by (simp add: race_text_def)

lemma race_text_lines: "LF \<notin> set tags \<Longrightarrow> count_list (race_text tags) LF = length tags"
  by (induction tags) (auto simp: race_text_def race_line_def)

lemma race_text_update:
  assumes "i < length tags"
  shows "take (7 * i) (race_text tags) @ race_line t @ drop (7 * i + 7) (race_text tags) = race_text (tags[i := t])"
proof -
  have "tags = take i tags @ tags ! i # drop (Suc i) tags" using assms by (simp add: id_take_nth_drop)
  then have s: "race_text tags = race_text (take i tags) @ race_line (tags ! i) @ race_text (drop (Suc i) tags)"
    by (metis append_Cons append_Nil race_text_append race_text_single append.assoc)
  have "take (7 * i) (race_text tags) = race_text (take i tags)" unfolding s using assms by simp
  moreover have "drop (7 * i + 7) (race_text tags) = race_text (drop (Suc i) tags)" unfolding s using assms by simp
  moreover have "tags[i := t] = take i tags @ [t] @ drop (Suc i) tags" using assms by (simp add: upd_conv_take_nth_drop)
  ultimately show ?thesis by (simp add: race_text_def)
qed

text \<open>The file of tags: an append, or a write at slot \<open>k\<close> that is at most the number of lines.\<close>

lemma write_at_append: "write_at True (race_line t) (off, race_text tags) = (7 * length tags + 7, race_text (tags @ [t]))"
  by (simp add: write_at_def)

definition put_slot :: "nat \<Rightarrow> byte \<Rightarrow> bytes \<Rightarrow> bytes" where
  "put_slot k t tags = (if k < length tags then tags[k := t] else tags @ [t])"

lemma write_at_slot:
  assumes "k \<le> length tags"
  shows "write_at False (race_line t) (7 * k, race_text tags) = (7 * (k + 1), race_text (put_slot k t tags))"
proof (cases "k < length tags")
  case True
  then show ?thesis using race_text_update [OF True, of t] by (simp add: write_at_def put_slot_def)
next
  case False
  with assms have "k = length tags" by simp
  then show ?thesis by (simp add: write_at_def put_slot_def)
qed

section \<open>What is in the file\<close>

definition tag_of :: "bool \<Rightarrow> byte" where
  "tag_of child = (if child then CHR ''B'' else CHR ''A'')"

lemma append_run:
  "race_file s = race_text tags \<Longrightarrow> race_file (fold (writer_turn True) sched s) = race_text (tags @ map tag_of sched)"
proof (induction sched arbitrary: s tags)
  case (Cons b sched)
  then have "race_file (writer_turn True b s) = race_text (tags @ [tag_of b])"
    by (simp add: writer_turn_def write_at_append tag_of_def)
  from Cons.IH [OF this] show ?case by simp
qed simp

text \<open>Without \<open>O_APPEND\<close> both writers fill the same slots from the start: slot \<open>i\<close> holds the line written there last.\<close>

definition slots_inv :: "nat \<Rightarrow> nat \<Rightarrow> race_state \<Rightarrow> bytes \<Rightarrow> bool" where
  "slots_inv c p s tags \<longleftrightarrow> race_file s = race_text tags \<and> off_child s = 7 * c \<and> off_parent s = 7 * p
     \<and> length tags = max c p \<and> set tags \<subseteq> {CHR ''A'', CHR ''B''}
     \<and> (\<forall>i < length tags. (p \<le> i \<longrightarrow> tags ! i = CHR ''B'') \<and> (c \<le> i \<longrightarrow> tags ! i = CHR ''A''))"

lemma put_slot_props:
  assumes "k \<le> length tags"
  shows "length (put_slot k t tags) = max (k + 1) (length tags)"
    and "set (put_slot k t tags) \<subseteq> insert t (set tags)"
    and "i < length (put_slot k t tags) \<Longrightarrow> put_slot k t tags ! i = (if i = k then t else tags ! i)"
  using assms by (auto simp: put_slot_def nth_append dest: set_update_subset_insert [THEN subsetD])

lemma slots_step:
  assumes "slots_inv c p s tags"
  shows "slots_inv (c + 1) p (writer_turn False True s) (put_slot c (CHR ''B'') tags)"
    and "slots_inv c (p + 1) (writer_turn False False s) (put_slot p (CHR ''A'') tags)"
proof -
  have c: "c \<le> length tags" and p: "p \<le> length tags" using assms by (auto simp: slots_inv_def)
  show "slots_inv (c + 1) p (writer_turn False True s) (put_slot c (CHR ''B'') tags)"
    using assms put_slot_props [OF c, where t = "CHR ''B''"] write_at_slot [OF c, where t = "CHR ''B''"]
    by (auto simp: slots_inv_def writer_turn_def)
  show "slots_inv c (p + 1) (writer_turn False False s) (put_slot p (CHR ''A'') tags)"
    using assms put_slot_props [OF p, where t = "CHR ''A''"] write_at_slot [OF p, where t = "CHR ''A''"]
    by (auto simp: slots_inv_def writer_turn_def)
qed

lemma slots_run:
  "slots_inv c p s tags \<Longrightarrow>
   \<exists>tags'. slots_inv (c + count_list sched True) (p + count_list sched False) (fold (writer_turn False) sched s) tags'"
proof (induction sched arbitrary: c p s tags)
  case (Cons b sched)
  show ?case
  proof (cases b)
    case True
    then show ?thesis using Cons.IH [OF slots_step(1) [OF Cons.prems]] by simp
  next
    case False
    then show ?thesis using Cons.IH [OF slots_step(2) [OF Cons.prems]] by simp
  qed
qed auto

text \<open>
  C35: Whatever the order of the two processes of \<open>race_write.c\<close>, with \<open>O_APPEND\<close> the file ends with one line per
  \<open>write\<close>, in the order of the writes, which is the announced number of 90000 lines. Without it no line is torn, but both
  processes fill the same slots: the file has exactly 50000 lines, the number of the longer writer, all from slot 40000
  on from the child, and 40000 lines are lost.
\<close>

theorem race_write_lines:
  assumes "complete_sched sched"
  shows "fst (race_main [prog, ''1''] sched) = race_text (map tag_of sched)
    \<and> count_list (fst (race_main [prog, ''1''] sched)) LF = snd (race_main [prog, ''1''] sched)
    \<and> (\<exists>tags. fst (race_main [prog, ''0''] sched) = race_text tags \<and> length tags = RACE_N
         \<and> set tags \<subseteq> {CHR ''A'', CHR ''B''} \<and> (\<forall>i < RACE_N. RACE_M \<le> i \<longrightarrow> tags ! i = CHR ''B''))
    \<and> count_list (fst (race_main [prog, ''0''] sched)) LF = RACE_N"
proof -
  let ?s = "\<lparr>race_file = [], off_child = 0, off_parent = 0\<rparr>"
  have a: "fst (race_main [prog, ''1''] sched) = race_text (map tag_of sched)"
    using append_run [of ?s "[]" sched] by (simp add: race_main_def race_text_def)
  have "length sched = count_list sched True + count_list sched False" by (induction sched) auto
  then have "length sched = RACE_M + RACE_N" using assms by (simp add: complete_sched_def)
  moreover have "LF \<notin> set (map tag_of sched)" by (auto simp: tag_of_def)
  ultimately have n: "count_list (race_text (map tag_of sched)) LF = RACE_M + RACE_N" by (simp add: race_text_lines)
  have "slots_inv 0 0 ?s []" by (simp add: slots_inv_def race_text_def)
  from slots_run [OF this, of sched] obtain tags where t: "slots_inv RACE_N RACE_M (fold (writer_turn False) sched ?s) tags"
    using assms by (auto simp: complete_sched_def)
  then have l: "length tags = RACE_N" "set tags \<subseteq> {CHR ''A'', CHR ''B''}" "fst (race_main [prog, ''0''] sched) = race_text tags"
    by (auto simp: slots_inv_def race_main_def RACE_M_def RACE_N_def)
  then have "LF \<notin> set tags" by auto
  with l have "count_list (fst (race_main [prog, ''0''] sched)) LF = RACE_N" by (simp add: race_text_lines)
  with a n l t show ?thesis by (auto simp: slots_inv_def race_main_def)
qed

lemma complete_sched_blocks: "complete_sched (replicate RACE_N True @ replicate RACE_M False)"
proof -
  have c: "count_list (replicate n x) y = (if x = y then n else 0)" for n and x y :: bool by (induction n) auto
  show ?thesis by (simp add: complete_sched_def c)
qed

theorem race_write_lines_witness:
  "count_list (fst (race_main [''race'', ''0''] (replicate RACE_N True @ replicate RACE_M False))) LF = 50000
   \<and> count_list (fst (race_main [''race'', ''1''] (replicate RACE_N True @ replicate RACE_M False))) LF = 90000"
proof -
  have "snd (race_main [''race'', ''1''] (replicate RACE_N True @ replicate RACE_M False)) = 90000"
    by (simp add: race_main_def RACE_M_def RACE_N_def)
  moreover have "RACE_N = 50000" by (simp add: RACE_N_def)
  ultimately show ?thesis using race_write_lines [OF complete_sched_blocks, of "''race''"] by metis
qed

section \<open>A shared open file description\<close>

text \<open>
  \<open>fork\<close> copies the descriptor, not the description: both processes move the same offset. A \<open>read\<close> of one byte returns
  \<open>None\<close> at the end of the file; the variable then keeps what it held, which the child never assigned.
\<close>

definition read_byte :: "bytes \<Rightarrow> nat \<Rightarrow> byte option \<times> nat" where
  "read_byte f off = (if off < length f then (Some (f ! off), off + 1) else (None, off))"

text \<open>What the child and the parent print; \<open>None\<close> is an unassigned variable (or a file that could not be opened).\<close>

definition shared_main :: "bytes option \<Rightarrow> byte option \<times> byte option" where
  "shared_main file =
     (case file of None \<Rightarrow> (None, None)
      | Some f \<Rightarrow> let (c1, off1) = read_byte f 0; (c2, off2) = read_byte f off1 in (c1, c2))"

lemma shared_main_two: "shared_main (Some (a # b # f)) = (Some a, Some b) \<and> shared_main (Some [a]) = (Some a, None)"
  by (simp add: shared_main_def read_byte_def)

text \<open>
  \<open>shm.c\<close>: the anonymous shared mapping is one array for both processes; \<open>mmap\<close> returns zeroed memory or fails, and the
  failure is not tested (\<open>None\<close>). The parent reads after \<open>wait\<close>.
\<close>

definition shm_child :: "bytes \<Rightarrow> bytes" where
  "shm_child shm = overlay (''hello from child'' @ [NUL]) shm"

definition shm_main :: "bytes option \<Rightarrow> bytes option" where
  "shm_main shm = map_option (\<lambda>m. cstr (shm_child m)) shm"

lemma shm_main_reads: "shm_main (Some (replicate 4096 NUL)) = Some ''hello from child''"
  using cstr_overlay_NUL [of "''hello from child''"] by (simp add: shm_main_def shm_child_def)

section \<open>Two mutexes taken in opposite orders\<close>

datatype mutex = MA | MB

datatype lock_op = Lock mutex | Sleep_op | Unlock mutex

definition t1_code :: "lock_op list" where
  "t1_code = [Lock MA, Sleep_op, Lock MB, Unlock MB, Unlock MA]"

definition t2_code :: "lock_op list" where
  "t2_code = [Lock MB, Sleep_op, Lock MA, Unlock MA, Unlock MB]"

text \<open>What each thread still has to do, and who holds each mutex (\<open>True\<close> is the first thread).\<close>

record locks =
  todo1 :: "lock_op list"
  todo2 :: "lock_op list"
  holder :: "mutex \<Rightarrow> bool option"

definition threads_start :: locks where
  "threads_start = \<lparr>todo1 = t1_code, todo2 = t2_code, holder = (\<lambda>_. None)\<rparr>"

definition lock_exec :: "bool \<Rightarrow> lock_op \<Rightarrow> (mutex \<Rightarrow> bool option) \<Rightarrow> (mutex \<Rightarrow> bool option) option" where
  "lock_exec me a h =
     (case a of Sleep_op \<Rightarrow> Some h
      | Lock m \<Rightarrow> if h m = None then Some (h(m := Some me)) else None
      | Unlock m \<Rightarrow> Some (h(m := None)))"

inductive lock_step :: "locks \<Rightarrow> locks \<Rightarrow> bool" where
  step1: "todo1 s = a # r \<Longrightarrow> lock_exec True a (holder s) = Some h \<Longrightarrow> lock_step s (s\<lparr>todo1 := r, holder := h\<rparr>)"
| step2: "todo2 s = a # r \<Longrightarrow> lock_exec False a (holder s) = Some h \<Longrightarrow> lock_step s (s\<lparr>todo2 := r, holder := h\<rparr>)"

text \<open>\<open>main\<close> joins both threads: it returns when neither has anything left to do.\<close>

definition threads_done :: "locks \<Rightarrow> bool" where
  "threads_done s \<longleftrightarrow> todo1 s = [] \<and> todo2 s = []"

definition crossed :: "locks \<Rightarrow> bool" where
  "crossed s \<longleftrightarrow> todo1 s = drop 2 t1_code \<and> todo2 s = drop 2 t2_code \<and> holder s MA = Some True \<and> holder s MB = Some False"

inductive lock_reach :: "locks \<Rightarrow> bool" where
  lock_init: "lock_reach threads_start"
| lock_more: "lock_reach s \<Longrightarrow> lock_step s s' \<Longrightarrow> lock_reach s'"

inductive_cases lock_stepE: "lock_step s s'"

text \<open>Who holds what follows from the two positions; no two positions hold the same mutex.\<close>

definition owners :: "nat \<Rightarrow> nat \<Rightarrow> mutex \<Rightarrow> bool option" where
  "owners i j m =
     (case m of MA \<Rightarrow> if 1 \<le> i \<and> i \<le> 4 then Some True else if j = 3 then Some False else None
      | MB \<Rightarrow> if 1 \<le> j \<and> j \<le> 4 then Some False else if i = 3 then Some True else None)"

definition positions :: "locks \<Rightarrow> nat \<Rightarrow> nat \<Rightarrow> bool" where
  "positions s i j \<longleftrightarrow> i \<le> 5 \<and> j \<le> 5 \<and> todo1 s = drop i t1_code \<and> todo2 s = drop j t2_code \<and> holder s = owners i j
     \<and> \<not> (1 \<le> i \<and> i \<le> 4 \<and> j = 3) \<and> \<not> (1 \<le> j \<and> j \<le> 4 \<and> i = 3)"

lemma upto5: "(i :: nat) \<le> 5 \<Longrightarrow> i = 0 \<or> i = 1 \<or> i = 2 \<or> i = 3 \<or> i = 4 \<or> i = 5"
  by arith

lemma owners_1:
  "owners 0 j MA = None \<Longrightarrow> (owners 0 j)(MA := Some True) = owners 1 j"
  "owners 1 j = owners 2 j"
  "owners 2 j MB = None \<Longrightarrow> (owners 2 j)(MB := Some True) = owners 3 j"
  "j = 0 \<or> 5 \<le> j \<Longrightarrow> (owners 3 j)(MB := None) = owners 4 j"
  "j \<noteq> 3 \<Longrightarrow> (owners 4 j)(MA := None) = owners 5 j"
  by (auto simp: owners_def fun_eq_iff split: mutex.split if_splits)

lemma owners_2:
  "owners i 0 MB = None \<Longrightarrow> (owners i 0)(MB := Some False) = owners i 1"
  "owners i 1 = owners i 2"
  "owners i 2 MA = None \<Longrightarrow> (owners i 2)(MA := Some False) = owners i 3"
  "i = 0 \<or> 5 \<le> i \<Longrightarrow> (owners i 3)(MA := None) = owners i 4"
  "i \<noteq> 3 \<Longrightarrow> (owners i 4)(MB := None) = owners i 5"
  by (auto simp: owners_def fun_eq_iff split: mutex.split if_splits)

lemma owners_free:
  "owners 0 j MA = None \<longleftrightarrow> j \<noteq> 3" "owners 2 j MB = None \<longleftrightarrow> j = 0 \<or> 5 \<le> j"
  "owners i 0 MB = None \<longleftrightarrow> i \<noteq> 3" "owners i 2 MA = None \<longleftrightarrow> i = 0 \<or> 5 \<le> i"
  by (auto simp: owners_def)

lemma code_at:
  "drop 0 t1_code = Lock MA # drop 1 t1_code" "drop 1 t1_code = Sleep_op # drop 2 t1_code"
  "drop 2 t1_code = Lock MB # drop 3 t1_code" "drop 3 t1_code = Unlock MB # drop 4 t1_code"
  "drop 4 t1_code = Unlock MA # drop 5 t1_code" "drop 5 t1_code = []"
  "drop 0 t2_code = Lock MB # drop 1 t2_code" "drop 1 t2_code = Sleep_op # drop 2 t2_code"
  "drop 2 t2_code = Lock MA # drop 3 t2_code" "drop 3 t2_code = Unlock MA # drop 4 t2_code"
  "drop 4 t2_code = Unlock MB # drop 5 t2_code" "drop 5 t2_code = []"
  by (simp_all add: t1_code_def t2_code_def)

lemma positions_step1:
  assumes "positions s i j" "todo1 s = a # r" "lock_exec True a (holder s) = Some h"
  shows "positions (s\<lparr>todo1 := r, holder := h\<rparr>) (Suc i) j"
proof -
  have p: "i \<le> 5" "j \<le> 5" "todo1 s = drop i t1_code" "todo2 s = drop j t2_code" "holder s = owners i j"
    "\<not> (1 \<le> i \<and> i \<le> 4 \<and> j = 3)" "\<not> (1 \<le> j \<and> j \<le> 4 \<and> i = 3)" using assms(1) by (auto simp: positions_def)
  from p(2) have j: "\<not> (1 \<le> j \<and> j \<le> 4) \<longleftrightarrow> j = 0 \<or> 5 \<le> j" by auto
  from upto5 [OF p(1)] consider "i = 0" | "i = 1" | "i = 2" | "i = 3" | "i = 4" | "i = 5" by blast
  then have "r = drop (Suc i) t1_code \<and> h = owners (Suc i) j \<and> i < 5
      \<and> \<not> (1 \<le> Suc i \<and> Suc i \<le> 4 \<and> j = 3) \<and> \<not> (1 \<le> j \<and> j \<le> 4 \<and> Suc i = 3)"
  proof cases
    case 1
    then have "a = Lock MA" "r = drop 1 t1_code" using assms(2) p(3) by (simp_all add: t1_code_def)
    with 1 assms(3) p(5) show ?thesis using owners_1(1) by (auto simp: lock_exec_def owners_free split: if_splits)
  next
    case 2
    then have "a = Sleep_op" "r = drop 2 t1_code" using assms(2) p(3) code_at(2) by simp_all
    with 2 assms(3) p(5,6) show ?thesis using owners_1(2) by (auto simp: lock_exec_def numeral_2_eq_2)
  next
    case 3
    then have "a = Lock MB" "r = drop 3 t1_code" using assms(2) p(3) code_at(3) by simp_all
    with 3 assms(3) p(5,6) show ?thesis using owners_1(3) j by (auto simp: lock_exec_def owners_free split: if_splits)
  next
    case 4
    then have "a = Unlock MB" "r = drop 4 t1_code" using assms(2) p(3) code_at(4) by simp_all
    with 4 assms(3) p(5,6,7) show ?thesis using owners_1(4) j by (auto simp: lock_exec_def)
  next
    case 5
    then have "a = Unlock MA" "r = drop 5 t1_code" using assms(2) p(3) code_at(5) by simp_all
    with 5 assms(3) p(5,6) show ?thesis using owners_1(5) by (auto simp: lock_exec_def)
  next
    case 6
    then show ?thesis using assms(2) p(3) code_at(6) by simp
  qed
  with p show ?thesis by (simp add: positions_def)
qed

lemma positions_step2:
  assumes "positions s i j" "todo2 s = a # r" "lock_exec False a (holder s) = Some h"
  shows "positions (s\<lparr>todo2 := r, holder := h\<rparr>) i (Suc j)"
proof -
  have p: "i \<le> 5" "j \<le> 5" "todo1 s = drop i t1_code" "todo2 s = drop j t2_code" "holder s = owners i j"
    "\<not> (1 \<le> i \<and> i \<le> 4 \<and> j = 3)" "\<not> (1 \<le> j \<and> j \<le> 4 \<and> i = 3)" using assms(1) by (auto simp: positions_def)
  from p(1) have i: "\<not> (1 \<le> i \<and> i \<le> 4) \<longleftrightarrow> i = 0 \<or> 5 \<le> i" by auto
  from upto5 [OF p(2)] consider "j = 0" | "j = 1" | "j = 2" | "j = 3" | "j = 4" | "j = 5" by blast
  then have "r = drop (Suc j) t2_code \<and> h = owners i (Suc j) \<and> j < 5
      \<and> \<not> (1 \<le> i \<and> i \<le> 4 \<and> Suc j = 3) \<and> \<not> (1 \<le> Suc j \<and> Suc j \<le> 4 \<and> i = 3)"
  proof cases
    case 1
    then have "a = Lock MB" "r = drop 1 t2_code" using assms(2) p(4) by (simp_all add: t2_code_def)
    with 1 assms(3) p(5) show ?thesis using owners_2(1) by (auto simp: lock_exec_def owners_free split: if_splits)
  next
    case 2
    then have "a = Sleep_op" "r = drop 2 t2_code" using assms(2) p(4) code_at(8) by simp_all
    with 2 assms(3) p(5,7) show ?thesis using owners_2(2) by (auto simp: lock_exec_def numeral_2_eq_2)
  next
    case 3
    then have "a = Lock MA" "r = drop 3 t2_code" using assms(2) p(4) code_at(9) by simp_all
    with 3 assms(3) p(5,7) show ?thesis using owners_2(3) i by (auto simp: lock_exec_def owners_free split: if_splits)
  next
    case 4
    then have "a = Unlock MA" "r = drop 4 t2_code" using assms(2) p(4) code_at(10) by simp_all
    with 4 assms(3) p(5,6,7) show ?thesis using owners_2(4) i by (auto simp: lock_exec_def)
  next
    case 5
    then have "a = Unlock MB" "r = drop 5 t2_code" using assms(2) p(4) code_at(11) by simp_all
    with 5 assms(3) p(5,7) show ?thesis using owners_2(5) by (auto simp: lock_exec_def)
  next
    case 6
    then show ?thesis using assms(2) p(4) code_at(12) by simp
  qed
  with p show ?thesis by (simp add: positions_def)
qed

lemma reach_positions: "lock_reach s \<Longrightarrow> \<exists>i j. positions s i j"
proof (induction rule: lock_reach.induct)
  case lock_init
  have "positions threads_start 0 0" by (auto simp: positions_def threads_start_def owners_def split: mutex.split)
  then show ?case by blast
next
  case (lock_more s s')
  then show ?case using positions_step1 positions_step2 by (metis lock_stepE)
qed

text \<open>A thread that cannot move has finished or waits for a mutex the other one holds.\<close>

lemma stuck_positions:
  assumes "positions s i j" and "\<forall>s'. \<not> lock_step s s'"
  shows "i = 5 \<and> j = 5 \<or> i = 2 \<and> j = 2"
proof -
  have i: "i \<le> 5" "j \<le> 5" using assms(1) by (simp_all add: positions_def)
  have 1: "lock_exec True a (holder s) = None" if "todo1 s = a # r" for a r
    using assms(2) step1 [OF that] by (cases "lock_exec True a (holder s)") auto
  have 2: "lock_exec False a (holder s) = None" if "todo2 s = a # r" for a r
    using assms(2) step2 [OF that] by (cases "lock_exec False a (holder s)") auto
  have "i = 5 \<or> i = 2 \<or> i = 0 \<and> j = 3" using upto5 [OF i(1)] assms(1) 1
    by (elim disjE) (auto simp: positions_def t1_code_def lock_exec_def owners_def split: if_splits)
  moreover have "j = 5 \<or> j = 2 \<or> j = 0 \<and> i = 3" using upto5 [OF i(2)] assms(1) 2
    by (elim disjE) (auto simp: positions_def t2_code_def lock_exec_def owners_def split: if_splits)
  moreover have "\<not> (i = 2 \<and> j = 5)" "\<not> (i = 5 \<and> j = 2)" using assms(1) 1 2
    by (auto simp: positions_def t1_code_def t2_code_def lock_exec_def owners_def split: if_splits)
  ultimately show ?thesis by auto
qed

text \<open>The run that a schedule (\<open>True\<close> is the first thread) forces; \<open>None\<close> if the thread chosen is blocked or has finished.\<close>

definition lock_move :: "bool \<Rightarrow> locks \<Rightarrow> locks option" where
  "lock_move me s =
     (case (if me then todo1 s else todo2 s) of [] \<Rightarrow> None
      | a # r \<Rightarrow> map_option (\<lambda>h. if me then s\<lparr>todo1 := r, holder := h\<rparr> else s\<lparr>todo2 := r, holder := h\<rparr>)
                  (lock_exec me a (holder s)))"

fun lock_run :: "bool list \<Rightarrow> locks \<Rightarrow> locks option" where
  "lock_run [] s = Some s"
| "lock_run (me # sched) s = Option.bind (lock_move me s) (lock_run sched)"

lemma lock_move_step: "lock_step s s' \<longleftrightarrow> (\<exists>me. lock_move me s = Some s')"
proof
  assume "lock_step s s'"
  then show "\<exists>me. lock_move me s = Some s'"
  proof (cases rule: lock_step.cases)
    case (step1 a r h)
    then have "lock_move True s = Some s'" by (simp add: lock_move_def)
    then show ?thesis ..
  next
    case (step2 a r h)
    then have "lock_move False s = Some s'" by (simp add: lock_move_def)
    then show ?thesis ..
  qed
next
  assume "\<exists>me. lock_move me s = Some s'"
  then obtain me where m: "lock_move me s = Some s'" ..
  show "lock_step s s'"
  proof (cases me)
    case True
    with m show ?thesis by (cases "todo1 s") (auto simp: lock_move_def intro: step1)
  next
    case False
    with m show ?thesis by (cases "todo2 s") (auto simp: lock_move_def intro: step2)
  qed
qed

lemma lock_run_reach: "lock_reach s \<Longrightarrow> lock_run sched s = Some s' \<Longrightarrow> lock_reach s'"
proof (induction sched arbitrary: s)
  case (Cons me sched)
  then obtain x where x: "lock_move me s = Some x" "lock_run sched x = Some s'" by (auto split: Option.bind_splits)
  then have "lock_step s x" by (auto simp: lock_move_step)
  with Cons.prems(1) have "lock_reach x" by (rule lock_more)
  with Cons.IH x(2) show ?case by blast
qed simp

lemma lock_runs:
  "\<exists>s. lock_run [True, True, False, False] threads_start = Some s \<and> crossed s"
  "\<exists>s. lock_run (replicate 5 True @ replicate 5 False) threads_start = Some s \<and> threads_done s"
  by (simp_all add: threads_start_def t1_code_def t2_code_def lock_move_def lock_exec_def crossed_def threads_done_def numeral_eq_Suc)

lemma stuck_iff:
  assumes "lock_reach s"
  shows "(\<forall>s'. \<not> lock_step s s') \<longleftrightarrow> threads_done s \<or> crossed s"
proof
  obtain i j where p: "positions s i j" using reach_positions [OF assms] by blast
  assume "\<forall>s'. \<not> lock_step s s'"
  from stuck_positions [OF p this] show "threads_done s \<or> crossed s"
  proof
    assume "i = 5 \<and> j = 5"
    with p show ?thesis by (simp add: positions_def threads_done_def t1_code_def t2_code_def)
  next
    assume "i = 2 \<and> j = 2"
    with p show ?thesis by (simp add: positions_def crossed_def owners_def)
  qed
next
  assume "threads_done s \<or> crossed s"
  then have "lock_move me s = None" for me
    by (auto simp: lock_move_def threads_done_def crossed_def t1_code_def t2_code_def lock_exec_def)
  then show "\<forall>s'. \<not> lock_step s s'" by (simp add: lock_move_step)
qed

lemma lock_step_work: "lock_step s s' \<Longrightarrow> length (todo1 s') + length (todo2 s') < length (todo1 s) + length (todo2 s)"
  by (erule lock_stepE) auto

text \<open>
  The program of \<open>deadlock.c\<close> can stop in two ways only, and both happen: every reachable state in which no thread can
  move is the end of both threads or the crossing, in which each holds the mutex the other waits for; the crossing is
  reached when each thread takes its first mutex before the other takes its second, and every run gets to one of the two
  within ten steps because each step does one call of a thread.
\<close>

lemma deadlock_or_done:
  shows "(\<forall>s. lock_reach s \<longrightarrow> ((\<forall>s'. \<not> lock_step s s') \<longleftrightarrow> threads_done s \<or> crossed s))
    \<and> (\<forall>s s'. lock_step s s' \<longrightarrow> length (todo1 s') + length (todo2 s') < length (todo1 s) + length (todo2 s))
    \<and> (\<exists>s. lock_reach s \<and> crossed s) \<and> (\<exists>s. lock_reach s \<and> threads_done s)"
  using stuck_iff lock_step_work lock_runs lock_run_reach [OF lock_init] by blast

lemma deadlock_or_done_witness:
  "lock_reach threads_start \<and> \<not> (\<forall>s'. \<not> lock_step threads_start s')"
proof -
  have "\<not> (threads_done threads_start \<or> crossed threads_start)"
    by (simp add: threads_done_def crossed_def threads_start_def t1_code_def)
  then show ?thesis using deadlock_or_done lock_init by blast
qed

end
