(* ===== verification/Interposition.thy ===== *)
theory Interposition
  imports CS_Prelude
begin

text \<open>
  The run-time interposition of \<open>Chapter7/preload/mymalloc.c\<close>: \<open>malloc\<close> and \<open>free\<close> of the preloaded library forward to the
  C library's and print a line, and \<open>printf\<close> itself calls \<open>malloc\<close> and \<open>free\<close>, that is, the wrappers again. The C library is a
  parameter: what its \<open>malloc\<close> and \<open>free\<close> do to its heap, whether \<open>dlsym\<close> finds them, and which requests a \<open>printf\<close> makes in
  a given heap. The calls are counted by fuel, so that not returning is \<open>None\<close>; fuel 2 is shown to be enough for every
  request because of the guard \<open>in_hook\<close>.
\<close>

section \<open>The library\<close>

datatype mreq = RMalloc int | RFree nat

text \<open>The lines printed; a null pointer is address 0.\<close>

datatype hook_line = LMalloc int nat | LFree nat

record 'h libc =
  libc_malloc :: "int \<Rightarrow> 'h \<Rightarrow> nat \<times> 'h"
  libc_free :: "nat \<Rightarrow> 'h \<Rightarrow> 'h"
  dlsym_malloc :: bool
  dlsym_free :: bool
  printf_reqs :: "hook_line \<Rightarrow> 'h \<Rightarrow> mreq list"

record 'h hook_state =
  heap :: 'h
  in_hook :: bool
  printed :: "hook_line list"

text \<open>
  What a call ends with: \<open>None\<close> when it does not return, \<open>Inl\<close> the status when the process exits, \<open>Inr\<close> the value returned
  and the state.
\<close>

type_synonym 'h hook_res = "(int + nat \<times> 'h hook_state) option"

section \<open>The wrappers\<close>

text \<open>\<open>printf\<close> of one line; its requests are served by \<open>serve\<close>, one after the other.\<close>

fun serve_all :: "(mreq \<Rightarrow> 'h hook_state \<Rightarrow> 'h hook_res) \<Rightarrow> mreq list \<Rightarrow> 'h hook_state \<Rightarrow> (int + 'h hook_state) option" where
  "serve_all serve [] s = Some (Inr s)"
| "serve_all serve (r # rs) s =
     (case serve r s of None \<Rightarrow> None | Some (Inl e) \<Rightarrow> Some (Inl e) | Some (Inr (v, s1)) \<Rightarrow> serve_all serve rs s1)"

definition printf_line ::
  "'h libc \<Rightarrow> (mreq \<Rightarrow> 'h hook_state \<Rightarrow> 'h hook_res) \<Rightarrow> hook_line \<Rightarrow> 'h hook_state \<Rightarrow> (int + 'h hook_state) option" where
  "printf_line L serve l s =
     (case serve_all serve (printf_reqs L l (heap s)) s of
        Some (Inr s1) \<Rightarrow> Some (Inr (s1\<lparr>printed := printed s1 @ [l]\<rparr>))
      | r \<Rightarrow> r)"

text \<open>The block \<open>if (!in_hook) { ... }\<close> that ends both wrappers.\<close>

definition log_once ::
  "'h libc \<Rightarrow> (mreq \<Rightarrow> 'h hook_state \<Rightarrow> 'h hook_res) \<Rightarrow> hook_line \<Rightarrow> 'h hook_state \<Rightarrow> (int + 'h hook_state) option" where
  "log_once L serve l s =
     (if in_hook s then Some (Inr s)
      else case printf_line L serve l (s\<lparr>in_hook := True\<rparr>) of
             Some (Inr s1) \<Rightarrow> Some (Inr (s1\<lparr>in_hook := False\<rparr>))
           | r \<Rightarrow> r)"

definition hook_return :: "nat \<Rightarrow> (int + 'h hook_state) option \<Rightarrow> 'h hook_res" where
  "hook_return v r = (case r of None \<Rightarrow> None | Some (Inl e) \<Rightarrow> Some (Inl e) | Some (Inr s) \<Rightarrow> Some (Inr (v, s)))"

definition malloc_hook :: "'h libc \<Rightarrow> (mreq \<Rightarrow> 'h hook_state \<Rightarrow> 'h hook_res) \<Rightarrow> int \<Rightarrow> 'h hook_state \<Rightarrow> 'h hook_res" where
  "malloc_hook L serve sz s =
     (if \<not> dlsym_malloc L then Some (Inl 1)
      else let (ptr, h) = libc_malloc L sz (heap s)
           in hook_return ptr (log_once L serve (LMalloc (c_int sz) ptr) (s\<lparr>heap := h\<rparr>)))"

definition free_hook :: "'h libc \<Rightarrow> (mreq \<Rightarrow> 'h hook_state \<Rightarrow> 'h hook_res) \<Rightarrow> nat \<Rightarrow> 'h hook_state \<Rightarrow> 'h hook_res" where
  "free_hook L serve ptr s =
     (if ptr = 0 then Some (Inr (0, s))
      else if \<not> dlsym_free L then Some (Inl 1)
      else hook_return 0 (log_once L serve (LFree ptr) (s\<lparr>heap := libc_free L ptr (heap s)\<rparr>)))"

text \<open>The two wrappers call each other through \<open>printf\<close>; the fuel is the depth of that recursion.\<close>

fun hook :: "'h libc \<Rightarrow> nat \<Rightarrow> mreq \<Rightarrow> 'h hook_state \<Rightarrow> 'h hook_res" where
  "hook L 0 r s = None"
| "hook L (Suc n) (RMalloc sz) s = malloc_hook L (hook L n) sz s"
| "hook L (Suc n) (RFree ptr) s = free_hook L (hook L n) ptr s"

section \<open>What the C library alone would do\<close>

fun plain :: "'h libc \<Rightarrow> mreq \<Rightarrow> 'h \<Rightarrow> nat \<times> 'h" where
  "plain L (RMalloc sz) h = libc_malloc L sz h"
| "plain L (RFree ptr) h = (0, if ptr = 0 then h else libc_free L ptr h)"

fun line_of :: "mreq \<Rightarrow> nat \<Rightarrow> hook_line list" where
  "line_of (RMalloc sz) v = [LMalloc (c_int sz) v]"
| "line_of (RFree ptr) v = (if ptr = 0 then [] else [LFree ptr])"

text \<open>The heap after the requests that printing the lines makes.\<close>

definition after_printf :: "'h libc \<Rightarrow> hook_line list \<Rightarrow> 'h \<Rightarrow> 'h" where
  "after_printf L ls h = fold (\<lambda>l h. fold (\<lambda>r h. snd (plain L r h)) (printf_reqs L l h) h) ls h"

abbreviation found :: "'h libc \<Rightarrow> bool" where
  "found L \<equiv> dlsym_malloc L \<and> dlsym_free L"

lemma hook_inner:
  assumes "found L" and "in_hook s"
  shows "hook L (Suc n) r s = Some (Inr (fst (plain L r (heap s)), s\<lparr>heap := snd (plain L r (heap s))\<rparr>))"
  using assms by (cases r) (auto simp: malloc_hook_def free_hook_def log_once_def hook_return_def split: prod.split)

lemma serve_all_inner:
  assumes "found L"
  shows "in_hook s \<Longrightarrow> serve_all (hook L (Suc n)) rs s = Some (Inr (s\<lparr>heap := fold (\<lambda>r h. snd (plain L r h)) rs (heap s)\<rparr>))"
  by (induction rs arbitrary: s) (simp_all add: hook_inner [OF assms] del: hook.simps)

lemma log_once_outer:
  assumes "found L" and "\<not> in_hook s"
  shows "log_once L (hook L (Suc n)) l s = Some (Inr (s\<lparr>heap := after_printf L [l] (heap s), printed := printed s @ [l]\<rparr>))"
  using assms serve_all_inner [OF assms(1), of "s\<lparr>in_hook := True\<rparr>"]
  by (simp add: log_once_def printf_line_def after_printf_def)

lemma hook_outer:
  assumes "found L" and "\<not> in_hook s" and "plain L r (heap s) = (v, h)"
  shows "hook L (Suc (Suc n)) r s =
    Some (Inr (v, s\<lparr>heap := after_printf L (line_of r v) h, printed := printed s @ line_of r v\<rparr>))"
proof (cases r)
  case (RMalloc sz)
  with assms log_once_outer [OF assms(1), of "s\<lparr>heap := h\<rparr>"] show ?thesis
    by (simp add: malloc_hook_def hook_return_def)
next
  case (RFree ptr)
  with assms log_once_outer [OF assms(1), of "s\<lparr>heap := h\<rparr>"] show ?thesis
    by (auto simp: free_hook_def hook_return_def after_printf_def)
qed

section \<open>Without the guard\<close>

text \<open>The book's version prints in every call.\<close>

fun hook_book :: "'h libc \<Rightarrow> nat \<Rightarrow> mreq \<Rightarrow> 'h hook_state \<Rightarrow> 'h hook_res" where
  "hook_book L 0 r s = None"
| "hook_book L (Suc n) (RMalloc sz) s =
     (if \<not> dlsym_malloc L then Some (Inl 1)
      else let (ptr, h) = libc_malloc L sz (heap s)
           in hook_return ptr (printf_line L (hook_book L n) (LMalloc (c_int sz) ptr) (s\<lparr>heap := h\<rparr>)))"
| "hook_book L (Suc n) (RFree ptr) s =
     (if ptr = 0 then Some (Inr (0, s))
      else if \<not> dlsym_free L then Some (Inl 1)
      else hook_return 0 (printf_line L (hook_book L n) (LFree ptr) (s\<lparr>heap := libc_free L ptr (heap s)\<rparr>)))"

lemma hook_book_never:
  assumes "dlsym_malloc L" and "\<forall>l h. \<exists>sz rs. printf_reqs L l h = RMalloc sz # rs"
  shows "hook_book L n (RMalloc sz) s = None"
proof (induction n arbitrary: sz s)
  case (Suc n)
  obtain ptr h where p: "libc_malloc L sz (heap s) = (ptr, h)" by (cases "libc_malloc L sz (heap s)")
  obtain sz' rs where r: "printf_reqs L (LMalloc (c_int sz) ptr) h = RMalloc sz' # rs" using assms(2) by metis
  from p r Suc assms(1) show ?case by (simp add: printf_line_def hook_return_def)
qed simp

text \<open>
  C32: With the guard \<open>in_hook\<close> the interposed \<open>malloc\<close> and \<open>free\<close> return for every request and every C library, however
  often \<open>printf\<close> allocates and frees: depth 2 is enough. They return what the C library's function returns, print exactly
  one line per outermost call (none for \<open>free\<close> of a null pointer), leave the guard off, and change the heap only by the request itself and by
  those of \<open>printf\<close>. A call that comes while a line is being printed is forwarded and prints nothing; without the guard, when
  every \<open>printf\<close> allocates, \<open>malloc\<close> does not return at any depth.
\<close>

theorem interposition_terminates:
  assumes "dlsym_malloc L" and "dlsym_free L" and "2 \<le> n"
  shows "\<exists>v s'. hook L n r s = Some (Inr (v, s')) \<and> v = fst (plain L r (heap s)) \<and> in_hook s' = in_hook s
    \<and> printed s' = printed s @ (if in_hook s then [] else line_of r v)
    \<and> heap s' = (if in_hook s then snd (plain L r (heap s)) else after_printf L (line_of r v) (snd (plain L r (heap s))))
    \<and> ((\<forall>l h. \<exists>sz rs. printf_reqs L l h = RMalloc sz # rs) \<longrightarrow> (\<forall>m sz. hook_book L m (RMalloc sz) s = None))"
proof -
  obtain m where n: "n = Suc (Suc m)" using assms(3) by (metis add_2_eq_Suc le_Suc_ex)
  obtain v h where p: "plain L r (heap s) = (v, h)" by (cases "plain L r (heap s)")
  have f: "found L" using assms by simp
  show ?thesis using hook_inner [OF f, of s "Suc m" r] hook_outer [OF f _ p, of m] p n hook_book_never [OF assms(1)]
    by (cases "in_hook s") (simp_all del: hook.simps)
qed

text \<open>A C library whose heap is the number of bytes given out and whose \<open>printf\<close> allocates a buffer each time.\<close>

definition bump_libc :: "int libc" where
  "bump_libc = \<lparr>libc_malloc = (\<lambda>sz h. (nat h + 16, h + sz)), libc_free = (\<lambda>ptr h. h), dlsym_malloc = True, dlsym_free = True,
     printf_reqs = (\<lambda>l h. [RMalloc 1024])\<rparr>"

theorem interposition_terminates_witness:
  "\<exists>s'. hook bump_libc 2 (RMalloc 32) \<lparr>heap = 0, in_hook = False, printed = []\<rparr> = Some (Inr (16, s'))
     \<and> printed s' = [LMalloc 32 16] \<and> heap s' = 1056 \<and> \<not> in_hook s'"
proof -
  have d: "dlsym_malloc bump_libc" "dlsym_free bump_libc" by (simp_all add: bump_libc_def)
  have p: "plain bump_libc (RMalloc 32) 0 = (16, 32)" by (simp add: bump_libc_def)
  have a: "after_printf bump_libc [LMalloc (c_int 32) 16] 32 = 1056" by (simp add: after_printf_def bump_libc_def)
  have c: "c_int 32 = 32" by (simp add: c_int_def)
  show ?thesis
    using interposition_terminates [OF d order_refl, of "RMalloc 32" "\<lparr>heap = 0, in_hook = False, printed = []\<rparr>"] p a c
    by auto
qed

section \<open>The target program\<close>

text \<open>\<open>int.c\<close> makes one call of each; started with the library preloaded, both go to the wrappers.\<close>

definition int_main :: "'h libc \<Rightarrow> nat \<Rightarrow> 'h hook_state \<Rightarrow> 'h hook_res" where
  "int_main L fuel s =
     (case hook L fuel (RMalloc 32) s of
        Some (Inr (p, s1)) \<Rightarrow> hook L fuel (RFree p) s1
      | r \<Rightarrow> r)"

lemma int_main_prints:
  assumes "dlsym_malloc L" "dlsym_free L" "libc_malloc L 32 (heap s) = (p, h)" "p \<noteq> 0" "\<not> in_hook s"
  shows "\<exists>s'. int_main L 2 s = Some (Inr (0, s')) \<and> printed s' = printed s @ [LMalloc 32 p, LFree p]"
proof -
  have f: "found L" using assms by simp
  have c: "c_int 32 = 32" by (simp add: c_int_def)
  let ?s = "s\<lparr>heap := after_printf L [LMalloc 32 p] h, printed := printed s @ [LMalloc 32 p]\<rparr>"
  have m: "hook L 2 (RMalloc 32) s = Some (Inr (p, ?s))"
    using hook_outer [OF f assms(5), of "RMalloc 32" p h 0] assms(3) c by (simp add: numeral_2_eq_2 del: hook.simps)
  have "\<not> in_hook ?s" using assms(5) by simp
  from hook_outer [OF f this, of "RFree p" 0 _ 0] show ?thesis using m assms(4)
    by (simp add: int_main_def numeral_2_eq_2 del: hook.simps)
qed

end
