(* ===== verification/Server_Start.thy ===== *)
theory Server_Start
  imports Csapp Epoll_ET Event_Servers Concurrent_Servers Net Ipc_Demo
begin

unbundle bit_operations_syntax

text \<open>
  How the servers start: the number of arguments, the signal actions, the listening socket and, for the \<open>epoll\<close> servers,
  the instance it is registered with. The state is what the process has set up so far: its signal actions, its open
  descriptors with their status flags, the interest lists and what it has written on standard error. What each system call
  answers is an argument. The interface \<open>action_setup\<close> states what the servers' \<open>install_handlers\<close> have in common; the
  start of every server is proved from it.
\<close>

section \<open>The process that starts\<close>

datatype disposition = SIG_DFL | SIG_IGN | Handler bytes

record action_t =
  act_handler :: disposition
  act_mask :: "signal set"
  act_restart :: bool

definition SIGPIPE :: signal where "SIGPIPE = SIGOTHER 13"
definition O_NONBLOCK :: "32 word" where "O_NONBLOCK = 0x800"

record startup =
  su_acts :: "signal \<Rightarrow> action_t"
  su_fds :: "nat set"
  su_flags :: "nat \<Rightarrow> 32 word"
  su_interest :: "nat \<times> nat \<Rightarrow> (epev set \<times> nat option) option"
  su_err :: "bytes list"

record start_answers =
  on_sigaction :: "signal \<Rightarrow> errno option"
  on_gai :: "addr_try list option"
  on_listen :: bool
  on_getfl :: "errno option"
  on_setfl :: "errno option"
  on_epoll :: "errno + nat"
  on_ctl :: "errno option"

definition say :: "bytes \<Rightarrow> startup \<Rightarrow> startup" where
  "say msg s = s\<lparr>su_err := su_err s @ [msg]\<rparr>"

text \<open>Closing a descriptor takes it out of every interest list, and its own list goes with it.\<close>

definition su_close :: "nat \<Rightarrow> startup \<Rightarrow> startup" where
  "su_close fd s = s\<lparr>su_fds := su_fds s - {fd},
     su_interest := (\<lambda>(e, f). if e = fd \<or> f = fd then None else su_interest s (e, f))\<rparr>"

definition k_sigaction :: "start_answers \<Rightarrow> signal \<Rightarrow> action_t \<Rightarrow> startup \<Rightarrow> int \<times> startup" where
  "k_sigaction a sig act s =
     (case on_sigaction a sig of Some e \<Rightarrow> (-1, s) | None \<Rightarrow> (0, s\<lparr>su_acts := (su_acts s)(sig := act)\<rparr>))"

definition k_epoll_add :: "start_answers \<Rightarrow> nat \<Rightarrow> nat \<Rightarrow> epev set \<Rightarrow> nat option \<Rightarrow> startup \<Rightarrow> int \<times> startup" where
  "k_epoll_add a epfd fd events ptr s =
     (case on_ctl a of Some e \<Rightarrow> (-1, s)
      | None \<Rightarrow> (0, s\<lparr>su_interest := (su_interest s)((epfd, fd) \<mapsto> (events, ptr))\<rparr>))"

text \<open>A step of the start that ends the process with a status (\<open>Inl\<close>), or goes on.\<close>

type_synonym 'a start = "startup \<Rightarrow> (nat \<times> startup) + 'a \<times> startup"

section \<open>Signal actions\<close>

text \<open>\<open>install_handlers\<close> of the four event servers and \<open>ignore_sigpipe\<close> of the thread server.\<close>

definition install_handlers :: "start_answers \<Rightarrow> unit start" where
  "install_handlers a s =
     (let ign = \<lparr>act_handler = SIG_IGN, act_mask = {}, act_restart = False\<rparr>
      in case k_sigaction a SIGPIPE ign s of (rc, s1) \<Rightarrow>
           if rc < 0 then Inl (1, say ''sigaction(SIGPIPE)'' s1) else Inr ((), s1))"

definition epoll_install_handlers :: "start_answers \<Rightarrow> unit start" where
  "epoll_install_handlers a s =
     (let ign = \<lparr>act_handler = SIG_IGN, act_mask = {}, act_restart = False\<rparr>
      in case k_sigaction a SIGPIPE ign s of (rc, s1) \<Rightarrow>
           if rc < 0 then Inl (1, say ''sigaction(SIGPIPE)'' s1) else Inr ((), s1))"

definition poll_install_handlers :: "start_answers \<Rightarrow> unit start" where
  "poll_install_handlers a s =
     (let ign = \<lparr>act_handler = SIG_IGN, act_mask = {}, act_restart = False\<rparr>
      in case k_sigaction a SIGPIPE ign s of (rc, s1) \<Rightarrow>
           if rc < 0 then Inl (1, say ''sigaction(SIGPIPE)'' s1) else Inr ((), s1))"

definition select_install_handlers :: "start_answers \<Rightarrow> unit start" where
  "select_install_handlers a s =
     (let ign = \<lparr>act_handler = SIG_IGN, act_mask = {}, act_restart = False\<rparr>
      in case k_sigaction a SIGPIPE ign s of (rc, s1) \<Rightarrow>
           if rc < 0 then Inl (1, say ''sigaction(SIGPIPE)'' s1) else Inr ((), s1))"

definition ignore_sigpipe :: "start_answers \<Rightarrow> unit start" where
  "ignore_sigpipe a s =
     (let action = \<lparr>act_handler = SIG_IGN, act_mask = {}, act_restart = False\<rparr>
      in case k_sigaction a SIGPIPE action s of (rc, s1) \<Rightarrow>
           if rc < 0 then Inl (1, say ''sigaction(SIGPIPE)'' s1) else Inr ((), s1))"

definition process_install_handlers :: "start_answers \<Rightarrow> unit start" where
  "process_install_handlers a s =
     (let sa = \<lparr>act_handler = Handler ''sigchld_handler'', act_mask = {}, act_restart = True\<rparr>
      in case k_sigaction a SIGCHLD sa s of (rc, s1) \<Rightarrow>
           if rc < 0 then Inl (1, say ''sigaction(SIGCHLD)'' s1)
           else let ign = \<lparr>act_handler = SIG_IGN, act_mask = {}, act_restart = False\<rparr>
                in case k_sigaction a SIGPIPE ign s1 of (rc2, s2) \<Rightarrow>
                     if rc2 < 0 then Inl (1, say ''sigaction(SIGPIPE)'' s2) else Inr ((), s2))"

text \<open>
  \<open>sigchld_handler\<close> of the process server, with \<open>errno\<close>: \<open>waitpid\<close> returns the zombies in the order of the list; the call
  that finds none sets \<open>errno\<close> when there is no child at all.
\<close>

fun reap_loop :: "pid list \<Rightarrow> errno \<times> kproc \<Rightarrow> errno \<times> kproc" where
  "reap_loop [] (e, k) = (if live k = {} then ECHILD else e, k)"
| "reap_loop (p # ps) (e, k) = reap_loop ps (e, k_reap p k)"

definition sigchld_handler :: "pid list \<Rightarrow> errno \<times> kproc \<Rightarrow> errno \<times> kproc" where
  "sigchld_handler ps ek =
     (let olderrno = fst ek in case reap_loop ps ek of (e, k) \<Rightarrow> (olderrno, k))"

section \<open>The start of each server\<close>

text \<open>Arguments, actions and the listening socket, as all the servers begin.\<close>

definition open_listener :: "(start_answers \<Rightarrow> unit start) \<Rightarrow> bytes list \<Rightarrow> start_answers \<Rightarrow> nat start" where
  "open_listener install argv a s =
     (if length argv \<noteq> 2 then Inl (1, say ''usage'' s)
      else case install a s of
             Inl x \<Rightarrow> Inl x
           | Inr (_, s1) \<Rightarrow>
               (case open_serverfd (on_gai a) (on_listen a) (su_fds s1) of (listenfd, fds) \<Rightarrow>
                  let s2 = s1\<lparr>su_fds := fds\<rparr>
                  in if listenfd < 0 then Inl (1, say ''open_serverfd failed'' s2) else Inr (nat listenfd, s2)))"

definition set_nonblocking :: "start_answers \<Rightarrow> nat \<Rightarrow> startup \<Rightarrow> int \<times> startup" where
  "set_nonblocking a fd s =
     (case on_getfl a of
        Some e \<Rightarrow> (-1, s)
      | None \<Rightarrow>
          (let flags = su_flags s fd
           in if flags AND O_NONBLOCK \<noteq> 0 then (0, s)
              else case on_setfl a of
                     Some e \<Rightarrow> (-1, s)
                   | None \<Rightarrow> (0, s\<lparr>su_flags := (su_flags s)(fd := flags OR O_NONBLOCK)\<rparr>)))"

definition add_listenfd :: "start_answers \<Rightarrow> nat \<Rightarrow> nat \<Rightarrow> startup \<Rightarrow> int \<times> startup" where
  "add_listenfd a epfd listenfd s = k_epoll_add a epfd listenfd {EPOLLIN, EPOLLET} None s"

definition add_connection :: "start_answers \<Rightarrow> nat \<Rightarrow> nat \<Rightarrow> nat \<Rightarrow> connection \<Rightarrow> startup \<Rightarrow> int \<times> startup" where
  "add_connection a epfd fd ptr conn s = k_epoll_add a epfd fd (connection_events conn) (Some ptr) s"

definition et_start :: "bytes list \<Rightarrow> start_answers \<Rightarrow> (nat \<times> nat) start" where
  "et_start argv a s =
     (case open_listener install_handlers argv a s of
        Inl x \<Rightarrow> Inl x
      | Inr (listenfd, s2) \<Rightarrow>
          (case set_nonblocking a listenfd s2 of (rc, s3) \<Rightarrow>
             if rc < 0 then Inl (1, su_close listenfd (say ''set_nonblocking listenfd'' s3))
             else case on_epoll a of
                    Inl e \<Rightarrow> Inl (1, su_close listenfd (say ''epoll_create1'' s3))
                  | Inr epfd \<Rightarrow>
                      (let s4 = s3\<lparr>su_fds := insert epfd (su_fds s3)\<rparr>
                       in case add_listenfd a epfd listenfd s4 of (rc2, s5) \<Rightarrow>
                            if rc2 < 0 then Inl (1, su_close listenfd (su_close epfd (say ''epoll_ctl ADD listenfd'' s5)))
                            else Inr ((listenfd, epfd), s5))))"

text \<open>\<open>main\<close> of the edge-triggered server: the exit status, or \<open>None\<close> while it is in its loop.\<close>

definition et_server_main ::
  "bytes list \<Rightarrow> start_answers \<Rightarrow> (nat \<Rightarrow> bytes option) \<Rightarrow> wait_res list \<Rightarrow> startup \<Rightarrow> (nat option \<times> startup) option" where
  "et_server_main argv a alloc ws s =
     (case et_start argv a s of
        Inl (st, s1) \<Rightarrow> Some (Some st, s1)
      | Inr ((listenfd, epfd), s1) \<Rightarrow>
          (case et_main alloc ws \<lparr>et_conns = Map.empty, et_interest = Map.empty, et_next = 0\<rparr> of
             None \<Rightarrow> None
           | Some (running, es) \<Rightarrow>
               if running then Some (None, s1) else Some (Some 0, su_close listenfd (su_close epfd s1))))"

definition epoll_start :: "bytes list \<Rightarrow> start_answers \<Rightarrow> (nat \<Rightarrow> chan) \<Rightarrow> (nat \<times> nat \<times> epoll_st) start" where
  "epoll_start argv a socks s =
     (case open_listener epoll_install_handlers argv a s of
        Inl x \<Rightarrow> Inl x
      | Inr (listenfd, s1) \<Rightarrow>
          (case on_epoll a of
             Inl e \<Rightarrow> Inl (1, su_close listenfd (say ''epoll_create1'' s1))
           | Inr epfd \<Rightarrow>
               (let s2 = s1\<lparr>su_fds := insert epfd (su_fds s1)\<rparr>
                in case k_epoll_add a epfd listenfd {EPOLLIN} (Some listenfd) s2 of (rc, s3) \<Rightarrow>
                     let s4 = if rc < 0 then su_close listenfd (say ''epoll_ctl ADD'' s3) else s3
                     in Inr ((listenfd, epfd, epoll_init listenfd (0 \<le> rc) socks), s4))))"

definition poll_start :: "bytes list \<Rightarrow> start_answers \<Rightarrow> (nat \<Rightarrow> chan) \<Rightarrow> (nat \<times> poll_st) start" where
  "poll_start argv a socks s =
     (case open_listener poll_install_handlers argv a s of
        Inl x \<Rightarrow> Inl x | Inr (listenfd, s1) \<Rightarrow> Inr ((listenfd, poll_init listenfd socks), s1))"

definition select_start :: "bytes list \<Rightarrow> start_answers \<Rightarrow> (nat \<Rightarrow> chan) \<Rightarrow> (nat \<times> select_st) start" where
  "select_start argv a socks s =
     (case open_listener select_install_handlers argv a s of
        Inl x \<Rightarrow> Inl x
      | Inr (listenfd, s1) \<Rightarrow>
          (case select_init listenfd socks of
             None \<Rightarrow> Inl (1, su_close listenfd (say ''listenfd >= FD_SETSIZE'' s1))
           | Some st \<Rightarrow> Inr ((listenfd, st), s1)))"

definition thread_start :: "bytes list \<Rightarrow> start_answers \<Rightarrow> (nat \<Rightarrow> chan) \<Rightarrow> (nat \<times> thread_server) start" where
  "thread_start argv a socks s =
     (case open_listener ignore_sigpipe argv a s of
        Inl x \<Rightarrow> Inl x | Inr (listenfd, s1) \<Rightarrow> Inr ((listenfd, th_init socks), s1))"

definition process_start :: "bytes list \<Rightarrow> start_answers \<Rightarrow> (nat \<times> process_server) start" where
  "process_start argv a s =
     (case open_listener process_install_handlers argv a s of
        Inl x \<Rightarrow> Inl x | Inr (listenfd, s1) \<Rightarrow> Inr ((listenfd, pr_init), s1))"

section \<open>The small servers and clients\<close>

text \<open>
  \<open>echo_server.c\<close>: no signal action. For every answer of \<open>accept\<close> (\<open>None\<close> is a failure, which is ignored) one connection is
  served to its end and closed; the result lists the connections as they were left.
\<close>

fun plain_server_loop :: "(nat \<times> chan) option list \<Rightarrow> nat set \<Rightarrow> chan list \<times> nat set" where
  "plain_server_loop [] fds = ([], fds)"
| "plain_server_loop (None # cs) fds = plain_server_loop cs fds"
| "plain_server_loop (Some (connfd, c) # cs) fds =
     (let fds1 = insert connfd fds; c1 = echo_plain c
      in case plain_server_loop cs (fds1 - {connfd}) of (done, fds2) \<Rightarrow> (c1 # done, fds2))"

definition plain_server_main ::
  "bytes list \<Rightarrow> start_answers \<Rightarrow> (nat \<times> chan) option list \<Rightarrow> startup \<Rightarrow> (nat \<times> startup) + chan list \<times> startup" where
  "plain_server_main argv a conns s =
     (if length argv \<noteq> 2 then Inl (1, say ''usage'' s)
      else case open_serverfd (on_gai a) (on_listen a) (su_fds s) of (listenfd, fds) \<Rightarrow>
             let s1 = s\<lparr>su_fds := fds\<rparr>
             in if listenfd < 0 then Inl (1, say ''open_serverfd failed'' s1)
                else case plain_server_loop conns fds of (done, fds2) \<Rightarrow> Inr (done, s1\<lparr>su_fds := fds2\<rparr>))"

text \<open>\<open>echo_client.c\<close>: the exit status, what is printed, and the connection afterwards.\<close>

definition plain_client_main ::
  "bytes list \<Rightarrow> addr_try list option \<Rightarrow> bytes list \<Rightarrow> chan \<Rightarrow> startup \<Rightarrow> nat \<times> bytes \<times> chan \<times> startup" where
  "plain_client_main argv gai stdin c s =
     (if length argv \<noteq> 3 then (1, [], c, say ''usage'' s)
      else case open_clientfd gai (su_fds s) of (clientfd, fds) \<Rightarrow>
             let s1 = s\<lparr>su_fds := fds\<rparr>
             in if clientfd < 0 then (1, [], c, say ''open_clientfd failed'' s1)
                else case plain_client stdin c [] of (out, c1) \<Rightarrow> (0, out, c1, su_close (nat clientfd) s1))"

text \<open>
  The beginning of \<open>demo_uds\<close>, up to \<open>fork\<close>: every failure ends the process through \<open>die\<close> with status 1; the state is the
  set of socket files. \<open>Inr\<close> is the demonstration that begins.
\<close>

definition DEMO_PATH :: bytes where "DEMO_PATH = ''/tmp/csapp_ipc_demo.sock''"

record demo_answers =
  do_socket :: bool
  do_bind :: bool
  do_listen :: bool
  do_fork :: bool

definition die :: "bytes \<Rightarrow> 'a \<Rightarrow> nat \<times> bytes \<times> 'a" where
  "die msg st = (1, msg, st)"

definition demo_uds_start :: "demo_answers \<Rightarrow> bytes set \<Rightarrow> (nat \<times> bytes \<times> bytes set) + uds_demo \<times> bytes set" where
  "demo_uds_start a files =
     (let files1 = files - {DEMO_PATH}
      in if \<not> do_socket a then Inl (die ''socket(AF_UNIX)'' files1)
         else if \<not> do_bind a then Inl (die ''bind(AF_UNIX)'' files1)
         else let files2 = insert DEMO_PATH files1
              in if \<not> do_listen a then Inl (die ''listen(AF_UNIX)'' files2)
                 else if \<not> do_fork a then Inl (die ''fork'' files2)
                 else Inr (us_init, files2))"

text \<open>The end of \<open>demo_uds\<close>: \<open>wait_child\<close> and \<open>unlink\<close>.\<close>

definition demo_uds_end :: "uds_demo \<Rightarrow> bytes set \<Rightarrow> bytes set" where
  "demo_uds_end s files = (case us_p s of UP_exit st \<Rightarrow> if st = 0 then files - {DEMO_PATH} else files | _ \<Rightarrow> files)"

text \<open>The other two demonstrations leave nothing behind: the mapping and the counter go with the process.\<close>

definition demo_mmap_start :: "bool \<Rightarrow> bool \<Rightarrow> bool \<Rightarrow> (nat \<times> bytes \<times> unit) + mmap_demo" where
  "demo_mmap_start mmap_ok sem_ok forked =
     (if \<not> mmap_ok then Inl (die ''mmap'' ())
      else if \<not> sem_ok then Inl (die ''sem_init'' ())
      else if \<not> forked then Inl (die ''fork'' ())
      else Inr mm_init)"

definition demo_eventfd_start :: "bool \<Rightarrow> bool \<Rightarrow> (nat \<times> bytes \<times> unit) + eventfd_demo" where
  "demo_eventfd_start eventfd_ok forked =
     (if \<not> eventfd_ok then Inl (die ''eventfd'' ())
      else if \<not> forked then Inl (die ''fork'' ())
      else Inr ef_init)"

section \<open>The interface of the starts\<close>

definition fresh_answers :: "start_answers \<Rightarrow> startup \<Rightarrow> bool" where
  "fresh_answers a s \<longleftrightarrow>
     (\<forall>plist. on_gai a = Some plist \<longrightarrow> (\<forall>p \<in> set plist. \<forall>fd. at_socket p = Some fd \<longrightarrow> fd \<notin> su_fds s \<and> on_epoll a \<noteq> Inr fd))
     \<and> (\<forall>epfd. on_epoll a = Inr epfd \<longrightarrow> epfd \<notin> su_fds s)"

text \<open>
  A clean start: the process ends with status 1, a message and the descriptors it was started with, or it goes on
  with just the new descriptors \<open>fds x\<close>, no message, and \<open>SIGPIPE\<close> ignored.
\<close>

definition clean_start :: "('a \<Rightarrow> nat set) \<Rightarrow> startup \<Rightarrow> (nat \<times> startup) + 'a \<times> startup \<Rightarrow> bool" where
  "clean_start fds s r \<longleftrightarrow>
     (case r of
        Inl (st, s1) \<Rightarrow> st = 1 \<and> su_fds s1 = su_fds s \<and> length (su_err s) < length (su_err s1)
      | Inr (x, s1) \<Rightarrow> su_fds s1 = su_fds s \<union> fds x \<and> fds x \<inter> su_fds s = {} \<and> su_err s1 = su_err s
          \<and> act_handler (su_acts s1 SIGPIPE) = SIG_IGN)"

lemma say_simps [simp]:
  "su_fds (say msg s) = su_fds s" "su_err (say msg s) = su_err s @ [msg]" "su_acts (say msg s) = su_acts s"
  "su_flags (say msg s) = su_flags s" "su_interest (say msg s) = su_interest s"
  by (simp_all add: say_def)

lemma su_close_simps [simp]:
  "su_fds (su_close fd s) = su_fds s - {fd}" "su_err (su_close fd s) = su_err s" "su_acts (su_close fd s) = su_acts s"
  "su_flags (su_close fd s) = su_flags s"
  by (simp_all add: su_close_def)

text \<open>What \<open>open_serverfd\<close> gives for fresh answers of the kernel.\<close>

lemma open_serverfd_cases:
  assumes "fresh_answers a s"
  obtains "open_serverfd (on_gai a) (on_listen a) (su_fds s) = (-1, su_fds s)"
  | l where "open_serverfd (on_gai a) (on_listen a) (su_fds s) = (int l, insert l (su_fds s))" "l \<notin> su_fds s" "on_epoll a \<noteq> Inr l"
proof (cases "on_gai a")
  case None
  then show ?thesis using that(1) by (simp add: open_serverfd_def)
next
  case (Some plist)
  then have f: "\<forall>p \<in> set plist. \<forall>fd. at_socket p = Some fd \<longrightarrow> fd \<notin> su_fds s" using assms by (auto simp: fresh_answers_def)
  note n = net_open_no_leak [OF f, THEN conjunct2]
  show ?thesis
  proof (cases "find usable plist")
    case None
    then show ?thesis using that(1) Some n by simp
  next
    case p: (Some p)
    then have "p \<in> set plist" "usable p" by (auto simp: find_Some_iff)
    then obtain l where l: "at_socket p = Some l" "l \<notin> su_fds s" "on_epoll a \<noteq> Inr l"
      using assms Some by (auto simp: fresh_answers_def usable_def)
    show ?thesis
      using n [of "on_listen a"] p l Some that by (cases "on_listen a") simp_all
  qed
qed

locale action_setup =
  fixes install :: "start_answers \<Rightarrow> unit start"
  assumes install_ok: "install a s = Inr (u, s1) \<Longrightarrow> su_fds s1 = su_fds s \<and> su_err s1 = su_err s
      \<and> act_handler (su_acts s1 SIGPIPE) = SIG_IGN"
    and install_fails: "install a s = Inl (st, s1) \<Longrightarrow> st = 1 \<and> su_fds s1 = su_fds s \<and> length (su_err s) < length (su_err s1)"
begin

lemma open_listener_clean:
  assumes "fresh_answers a s"
  shows "clean_start (\<lambda>l. {l}) s (open_listener install argv a s)
    \<and> (\<forall>l s1. open_listener install argv a s = Inr (l, s1) \<longrightarrow> on_epoll a \<noteq> Inr l)"
proof (cases "length argv = 2")
  case True
  show ?thesis
  proof (cases "install a s")
    case (Inl x)
    then show ?thesis using True install_fails [of a s "fst x" "snd x"]
      by (cases x) (simp add: open_listener_def clean_start_def)
  next
    case (Inr y)
    then obtain u s1 where i: "install a s = Inr (u, s1)" by (cases y) auto
    note k = install_ok [OF i]
    show ?thesis
    proof (rule open_serverfd_cases [OF assms])
      assume "open_serverfd (on_gai a) (on_listen a) (su_fds s) = (- 1, su_fds s)"
      with True i k show ?thesis by (simp add: open_listener_def clean_start_def)
    next
      fix l assume "open_serverfd (on_gai a) (on_listen a) (su_fds s) = (int l, insert l (su_fds s))" "l \<notin> su_fds s" "on_epoll a \<noteq> Inr l"
      with True i k show ?thesis by (simp add: open_listener_def clean_start_def)
    qed
  qed
qed (simp add: open_listener_def clean_start_def)

end

lemmas sigpipe_defs = install_handlers_def epoll_install_handlers_def poll_install_handlers_def select_install_handlers_def
  ignore_sigpipe_def process_install_handlers_def k_sigaction_def Let_def

interpretation et_setup: action_setup install_handlers
  by unfold_locales (auto simp: sigpipe_defs split: option.splits)

interpretation epoll_setup: action_setup epoll_install_handlers
  by unfold_locales (auto simp: sigpipe_defs split: option.splits)

interpretation poll_setup: action_setup poll_install_handlers
  by unfold_locales (auto simp: sigpipe_defs split: option.splits)

interpretation select_setup: action_setup select_install_handlers
  by unfold_locales (auto simp: sigpipe_defs split: option.splits)

interpretation thread_setup: action_setup ignore_sigpipe
  by unfold_locales (auto simp: sigpipe_defs split: option.splits)

interpretation process_setup: action_setup process_install_handlers
  by unfold_locales (auto simp: sigpipe_defs split: option.splits)

text \<open>The process server also has its \<open>SIGCHLD\<close> handler, and system calls are restarted after it.\<close>

lemma process_handlers:
  "process_install_handlers a s = Inr (u, s1) \<Longrightarrow>
     su_acts s1 SIGCHLD = \<lparr>act_handler = Handler ''sigchld_handler'', act_mask = {}, act_restart = True\<rparr>"
  by (auto simp: sigpipe_defs SIGPIPE_def split: option.splits)

section \<open>What the handler of the process server does\<close>

lemma reap_loop_zombies: "snd (reap_loop ps (e, k)) = k\<lparr>zombies := zombies k - set ps\<rparr>"
  by (induction ps arbitrary: k) (auto simp: k_reap_def intro: arg_cong [where f = "\<lambda>z. k\<lparr>zombies := z\<rparr>" for k])

text \<open>
  Run to its end the handler leaves no zombie, the running children and the value of \<open>errno\<close> as they were, and it is what
  the steps of the server's model do one by one.
\<close>

lemma sigchld_handler_reaps:
  assumes "set ps = zombies k"
  shows "sigchld_handler ps (e, k) = (e, k\<lparr>zombies := {}\<rparr>)"
  using reap_loop_zombies [of ps e k] assms by (cases "reap_loop ps (e, k)") (simp add: sigchld_handler_def)

lemma reap_loop_steps:
  assumes "in_handler (pr_k s)" "set ps \<subseteq> zombies (pr_k s)" "distinct ps"
  shows "pr_step\<^sup>*\<^sup>* s (s\<lparr>pr_k := snd (reap_loop ps (e, pr_k s))\<rparr>)"
  using assms
proof (induction ps arbitrary: s)
  case (Cons p ps)
  then have "pr_step s (pr_reap p s)" by (auto intro: pr_reaps)
  moreover have "pr_step\<^sup>*\<^sup>* (pr_reap p s) ((pr_reap p s)\<lparr>pr_k := snd (reap_loop ps (e, pr_k (pr_reap p s)))\<rparr>)"
    by (rule Cons.IH) (use Cons.prems in \<open>auto simp: pr_reap_def k_reap_def in_handler_def\<close>)
  ultimately show ?case by (simp add: pr_reap_def)
qed simp

section \<open>The starts\<close>

lemma clean_start_map:
  assumes "clean_start fds s r" "\<And>x. fds' (f x) = fds x"
  shows "clean_start fds' s (case r of Inl y \<Rightarrow> Inl y | Inr (x, s1) \<Rightarrow> Inr (f x, s1))"
  using assms by (auto simp: clean_start_def split: sum.splits)

lemma set_nonblocking_result:
  assumes "set_nonblocking a fd s = (rc, s1)"
  shows "s1\<lparr>su_flags := su_flags s\<rparr> = s" and "0 \<le> rc \<Longrightarrow> su_flags s1 fd AND O_NONBLOCK \<noteq> 0"
  using assms by (auto simp: set_nonblocking_def Let_def O_NONBLOCK_def bit.conj_disj_distrib2 split: option.splits if_splits)

lemma et_start_clean:
  assumes "fresh_answers a s"
  shows "clean_start (\<lambda>(l, e). {l, e}) s (et_start argv a s)"
    and "et_start argv a s = Inr ((l, e), s1) \<Longrightarrow>
      su_flags s1 l AND O_NONBLOCK \<noteq> 0 \<and> su_interest s1 (e, l) = Some ({EPOLLIN, EPOLLET}, None)"
proof -
  note c = et_setup.open_listener_clean [OF assms, of argv]
  have f: "on_epoll a = Inr e \<Longrightarrow> e \<notin> su_fds s" for e using assms by (simp add: fresh_answers_def)
  show "clean_start (\<lambda>(l, e). {l, e}) s (et_start argv a s)"
  proof (cases "open_listener install_handlers argv a s")
    case (Inl x)
    then show ?thesis using c by (cases x) (simp add: et_start_def clean_start_def)
  next
    case (Inr y)
    then obtain l s2 where l: "open_listener install_handlers argv a s = Inr (l, s2)" by (cases y) auto
    obtain rc s3 where n: "set_nonblocking a l s2 = (rc, s3)" by (cases "set_nonblocking a l s2")
    have s3: "su_fds s3 = su_fds s2" "su_err s3 = su_err s2" "su_acts s3 = su_acts s2"
      using set_nonblocking_result(1) [OF n] by (metis startup.select_convs startup.surjective startup.update_convs(3))+
    show ?thesis using c l n s3 f
      by (auto simp: et_start_def clean_start_def add_listenfd_def k_epoll_add_def Let_def split: sum.splits option.splits)
  qed
  show "et_start argv a s = Inr ((l, e), s1) \<Longrightarrow>
      su_flags s1 l AND O_NONBLOCK \<noteq> 0 \<and> su_interest s1 (e, l) = Some ({EPOLLIN, EPOLLET}, None)"
    by (auto simp: et_start_def add_listenfd_def k_epoll_add_def Let_def dest: set_nonblocking_result(2)
        split: sum.splits option.splits if_splits prod.splits)
qed

lemma epoll_start_clean:
  assumes "fresh_answers a s" "on_ctl a = None"
  shows "clean_start (\<lambda>(l, e, st). {l, e}) s (epoll_start argv a socks s)"
proof -
  note c = epoll_setup.open_listener_clean [OF assms(1), of argv]
  have f: "on_epoll a = Inr e \<Longrightarrow> e \<notin> su_fds s" for e using assms by (simp add: fresh_answers_def)
  show ?thesis
    using c f assms(2) by (auto simp: epoll_start_def clean_start_def k_epoll_add_def Let_def split: sum.splits)
qed

lemma select_start_clean:
  assumes "fresh_answers a s"
  shows "clean_start (\<lambda>(l, st). {l}) s (select_start argv a socks s)"
  using select_setup.open_listener_clean [OF assms, of argv]
  by (auto simp: select_start_def clean_start_def split: sum.splits option.splits)

text \<open>
  The level-triggered server does not test whether its listening socket could be registered: it then enters its loop with
  the socket closed and nothing to wait for.
\<close>

lemma epoll_start_blind:
  assumes "open_listener epoll_install_handlers argv a s = Inr (l, s1)" "on_epoll a = Inr epfd" "on_ctl a = Some e"
  shows "\<exists>st s2. epoll_start argv a socks s = Inr ((l, epfd, st), s2) \<and> ep_reg st = {} \<and> l \<notin> su_fds s2"
  using assms by (simp add: epoll_start_def k_epoll_add_def epoll_init_def add_epoll_fd_def Let_def)

lemma epoll_start_cases:
  assumes "fresh_answers a s"
  shows "clean_start (\<lambda>(l, e, st). {l, e}) s (epoll_start argv a socks s)
     \<or> on_ctl a \<noteq> None \<and> (\<exists>l e st s1. epoll_start argv a socks s = Inr ((l, e, st), s1) \<and> ep_reg st = {} \<and> e \<notin> su_fds s
          \<and> su_fds s1 = insert e (su_fds s) \<and> su_err s1 = su_err s @ [''epoll_ctl ADD''])"
proof (cases "on_ctl a")
  case None
  then show ?thesis using epoll_start_clean [OF assms] by blast
next
  case (Some e)
  note c = epoll_setup.open_listener_clean [OF assms, of argv]
  have f: "on_epoll a = Inr e \<Longrightarrow> e \<notin> su_fds s" for e using assms by (simp add: fresh_answers_def)
  show ?thesis
  proof (cases "open_listener epoll_install_handlers argv a s")
    case (Inl x)
    then show ?thesis using c by (cases x) (simp add: epoll_start_def clean_start_def)
  next
    case (Inr x)
    obtain l s1 where x: "x = (l, s1)" by (cases x)
    then have s1: "su_fds s1 = insert l (su_fds s)" "l \<notin> su_fds s" "su_err s1 = su_err s" "on_epoll a \<noteq> Inr l"
      using c Inr by (auto simp: clean_start_def)
    then show ?thesis using Inr x Some f
      by (cases "on_epoll a") (auto simp: epoll_start_def clean_start_def k_epoll_add_def epoll_init_def add_epoll_fd_def Let_def)
  qed
qed

text \<open>Whichever way the edge-triggered server ends, the descriptors it was started with are the open ones.\<close>

lemma et_server_main_ends:
  assumes "fresh_answers a s" "et_server_main argv a alloc ws s = Some (Some st, s1)"
  shows "su_fds s1 = su_fds s \<and> st \<le> 1"
proof (cases "et_start argv a s")
  case (Inl x)
  then show ?thesis using assms et_start_clean(1) [OF assms(1), of argv]
    by (cases x) (simp add: et_server_main_def clean_start_def)
next
  case (Inr y)
  then obtain l e s2 where y: "et_start argv a s = Inr ((l, e), s2)" by (cases y) auto
  then have "su_fds s2 = su_fds s \<union> {l, e}" "{l, e} \<inter> su_fds s = {}"
    using et_start_clean(1) [OF assms(1), of argv] by (simp_all add: clean_start_def)
  then show ?thesis using assms(2) y by (auto simp: et_server_main_def split: option.splits if_splits)
qed

lemma plain_server_loop_fds:
  "(\<forall>fd c. Some (fd, c) \<in> set conns \<longrightarrow> fd \<notin> fds) \<Longrightarrow> snd (plain_server_loop conns fds) = fds"
proof (induction conns)
  case (Cons x cs)
  then have "snd (plain_server_loop cs fds) = fds" by auto
  then show ?case
    using Cons.prems by (cases x) (auto simp: Let_def split: prod.splits)
qed simp

lemma plain_client_fds:
  assumes "\<forall>p \<in> set plist. \<forall>fd. at_socket p = Some fd \<longrightarrow> fd \<notin> su_fds s"
    and "plain_client_main argv (Some plist) stdin c s = (st, out, c1, s1)"
  shows "su_fds s1 = su_fds s \<and> st \<le> 1"
proof (cases "find usable plist")
  case (Some p)
  then have p: "p \<in> set plist" "usable p" by (auto simp: find_Some_iff)
  then have "the (at_socket p) \<notin> su_fds s" using assms(1) by (auto simp: usable_def)
  then show ?thesis using assms(2) Some net_open_no_leak [OF assms(1), THEN conjunct1]
    by (auto simp: plain_client_main_def Let_def split: if_splits prod.splits)
qed (use assms(2) net_open_no_leak [OF assms(1), THEN conjunct1] in \<open>auto simp: plain_client_main_def Let_def split: if_splits\<close>)

text \<open>A demonstration that succeeds leaves no socket file; one whose \<open>listen\<close> or \<open>fork\<close> fails leaves it behind.\<close>

lemma demo_uds_file:
  "demo_uds_start a files = Inr (d, files1) \<Longrightarrow> d = us_init \<and> DEMO_PATH \<in> files1
     \<and> demo_uds_end (d\<lparr>us_p := UP_exit 0\<rparr>) files1 = files - {DEMO_PATH}"
  "demo_uds_start a files = Inl (st, msg, files1) \<Longrightarrow> st = 1 \<and> (DEMO_PATH \<in> files1 \<longleftrightarrow> do_socket a \<and> do_bind a)"
  by (auto simp: demo_uds_start_def demo_uds_end_def die_def Let_def split: if_splits)

section \<open>Properties\<close>

text \<open>
  C18: Whatever the system calls of the start-up answer, the edge-triggered, \<open>poll\<close>, \<open>select\<close>, thread and process servers either end
  with status 1, a message and every descriptor they opened closed again, or enter their loop with exactly the listening socket (and
  the \<open>epoll\<close> instance) opened in addition and \<open>SIGPIPE\<close> ignored; the edge-triggered server's listening socket is then
  non-blocking and registered for edge-triggered input. The level-triggered server does the same with one exception: when \<open>epoll_ctl\<close>
  refuses its listening socket it reports that, closes the socket and enters its loop all the same, with nothing registered, so
  that it can never accept a client. Assumed of the kernel: a new descriptor was not open before.
\<close>

theorem servers_start_cleanly:
  assumes "fresh_answers a s"
  shows "clean_start (\<lambda>(l, e). {l, e}) s (et_start argv a s)
     \<and> (\<forall>l e s1. et_start argv a s = Inr ((l, e), s1) \<longrightarrow>
          su_flags s1 l AND O_NONBLOCK \<noteq> 0 \<and> su_interest s1 (e, l) = Some ({EPOLLIN, EPOLLET}, None))
     \<and> (clean_start (\<lambda>(l, e, st). {l, e}) s (epoll_start argv a socks s)
        \<or> on_ctl a \<noteq> None \<and> (\<exists>l e st s1. epoll_start argv a socks s = Inr ((l, e, st), s1) \<and> ep_reg st = {} \<and> e \<notin> su_fds s
             \<and> su_fds s1 = insert e (su_fds s) \<and> su_err s1 = su_err s @ [''epoll_ctl ADD'']))
     \<and> clean_start (\<lambda>(l, st). {l}) s (poll_start argv a socks s)
     \<and> clean_start (\<lambda>(l, st). {l}) s (select_start argv a socks s)
     \<and> clean_start (\<lambda>(l, st). {l}) s (thread_start argv a socks s)
     \<and> clean_start (\<lambda>(l, st). {l}) s (process_start argv a s)"
  using et_start_clean [OF assms] epoll_start_cases [OF assms, of argv socks] select_start_clean [OF assms]
    clean_start_map [OF poll_setup.open_listener_clean [OF assms, of argv, THEN conjunct1], of "\<lambda>(l, st). {l}" "\<lambda>l. (l, poll_init l socks)"]
    clean_start_map [OF thread_setup.open_listener_clean [OF assms, of argv, THEN conjunct1], of "\<lambda>(l, st). {l}" "\<lambda>l. (l, th_init socks)"]
    clean_start_map [OF process_setup.open_listener_clean [OF assms, of argv, THEN conjunct1], of "\<lambda>(l, st). {l}" "\<lambda>l. (l, pr_init)"]
  by (simp add: poll_start_def thread_start_def process_start_def)

definition demo_answers1 :: start_answers where
  "demo_answers1 = \<lparr>on_sigaction = (\<lambda>_. None), on_gai = Some [\<lparr>at_socket = Some 3, at_ok = False\<rparr>, \<lparr>at_socket = Some 3, at_ok = True\<rparr>],
     on_listen = True, on_getfl = None, on_setfl = None, on_epoll = Inr 4, on_ctl = Some ENOMEM\<rparr>"

definition demo_startup :: startup where
  "demo_startup = \<lparr>su_acts = (\<lambda>_. \<lparr>act_handler = SIG_DFL, act_mask = {}, act_restart = False\<rparr>), su_fds = {0, 1, 2}, su_flags = (\<lambda>_. 2),
     su_interest = (\<lambda>_. None), su_err = []\<rparr>"

text \<open>A registration that fails: the two servers that use \<open>epoll\<close> end differently.\<close>

theorem servers_start_cleanly_witness:
  "clean_start (\<lambda>(l, e). {l, e}) demo_startup (et_start [''et'', ''8080''] demo_answers1 demo_startup)
   \<and> (\<exists>s1. et_start [''et'', ''8080''] demo_answers1 demo_startup = Inl (1, s1))
   \<and> \<not> clean_start (\<lambda>(l, e, st). {l, e}) demo_startup (epoll_start [''lt'', ''8080''] demo_answers1 (\<lambda>_. demo_peer) demo_startup)"
proof -
  have "fresh_answers demo_answers1 demo_startup" by (simp add: fresh_answers_def demo_answers1_def demo_startup_def)
  moreover have "\<exists>s1. et_start [''et'', ''8080''] demo_answers1 demo_startup = Inl (1, s1)"
    by (simp add: et_start_def open_listener_def sigpipe_defs demo_answers1_def demo_startup_def open_serverfd_def set_nonblocking_def
        O_NONBLOCK_def add_listenfd_def k_epoll_add_def)
  moreover have "\<not> clean_start (\<lambda>(l, e, st). {l, e}) demo_startup (epoll_start [''lt'', ''8080''] demo_answers1 (\<lambda>_. demo_peer) demo_startup)"
    by (simp add: clean_start_def epoll_start_def open_listener_def sigpipe_defs demo_answers1_def demo_startup_def open_serverfd_def
        k_epoll_add_def)
  ultimately show ?thesis using servers_start_cleanly [of demo_answers1 demo_startup "[''et'', ''8080'']"] by blast
qed

end
