(* ===== verification/Coroutine_Tasks.thy ===== *)
theory Coroutine_Tasks
  imports Coroutines
begin

text \<open>
  The owners of the coroutine frames in \<open>12.3/cpp20_coroutine_scheduler.cpp\<close>: \<open>Task\<close> objects hold a handle, are moved into and
  inside a vector, and destroy the frame they still hold in their destructor. The state is the set of live frames, the \<open>Task\<close> objects by
  address with their handle, and the frames destroyed so far. \<open>tk_bad\<close> is set when a frame that is not live is destroyed, which is
  undefined behaviour. The numbers of the frames are the handles of the theory \<open>Coroutines\<close>.
\<close>

section \<open>Frames and their owners\<close>

record task_heap =
  tk_frames :: "nat set"
  tk_made :: nat
  tk_tasks :: "nat \<Rightarrow> nat option option"
  tk_addr :: nat
  tk_destroyed :: "nat list"
  tk_bad :: bool

definition handle_of :: "task_heap \<Rightarrow> nat \<Rightarrow> nat option" where
  "handle_of s this = (case tk_tasks s this of None \<Rightarrow> None | Some h \<Rightarrow> h)"

definition frame_destroy :: "nat \<Rightarrow> task_heap \<Rightarrow> task_heap" where
  "frame_destroy h s =
     (if h \<in> tk_frames s then s\<lparr>tk_frames := tk_frames s - {h}, tk_destroyed := tk_destroyed s @ [h]\<rparr>
      else s\<lparr>tk_bad := True\<rparr>)"

definition new_addr :: "task_heap \<Rightarrow> nat \<times> task_heap" where
  "new_addr s = (tk_addr s, s\<lparr>tk_addr := tk_addr s + 1\<rparr>)"

text \<open>The constructor from a handle, the moves, the destructor and \<open>start\<close>.\<close>

definition task_ctor :: "nat \<Rightarrow> nat \<Rightarrow> task_heap \<Rightarrow> task_heap" where
  "task_ctor this h s = s\<lparr>tk_tasks := (tk_tasks s)(this \<mapsto> Some h)\<rparr>"

definition task_move_ctor :: "nat \<Rightarrow> nat \<Rightarrow> task_heap \<Rightarrow> task_heap" where
  "task_move_ctor this other s =
     (let h = handle_of s other in s\<lparr>tk_tasks := (tk_tasks s)(other \<mapsto> None, this \<mapsto> h)\<rparr>)"

definition task_release :: "nat \<Rightarrow> task_heap \<Rightarrow> task_heap" where
  "task_release this s = (case handle_of s this of None \<Rightarrow> s | Some h \<Rightarrow> frame_destroy h s)"

definition task_move_assign :: "nat \<Rightarrow> nat \<Rightarrow> task_heap \<Rightarrow> task_heap" where
  "task_move_assign this other s =
     (if this \<noteq> other then
        (let s1 = task_release this s; h = handle_of s1 other
         in s1\<lparr>tk_tasks := (tk_tasks s1)(other \<mapsto> None, this \<mapsto> h)\<rparr>)
      else s)"

definition task_dtor :: "nat \<Rightarrow> task_heap \<Rightarrow> task_heap" where
  "task_dtor this s = (let s1 = task_release this s in s1\<lparr>tk_tasks := (tk_tasks s1)(this := None)\<rparr>)"

definition task_start :: "task_heap \<Rightarrow> nat \<Rightarrow> co_state \<Rightarrow> co_state option" where
  "task_start s this scheduler = (case handle_of s this of None \<Rightarrow> None | Some h \<Rightarrow> Some (spawn h scheduler))"

text \<open>
  A call of \<open>handle_request\<close>: the frame is allocated, \<open>get_return_object\<close> wraps its handle into a \<open>Task\<close> (a temporary of
  the caller), and \<open>initial_suspend\<close> gives control back before the body runs.
\<close>

definition get_return_object :: "nat \<Rightarrow> task_heap \<Rightarrow> nat \<times> task_heap" where
  "get_return_object h s = (let (a, s1) = new_addr s in (a, task_ctor a h s1))"

definition call_coroutine :: "task_heap \<Rightarrow> nat \<times> task_heap" where
  "call_coroutine s =
     (let h = tk_made s in get_return_object h (s\<lparr>tk_frames := insert h (tk_frames s), tk_made := h + 1\<rparr>))"

section \<open>The vector of tasks\<close>

text \<open>
  \<open>push_back\<close> of a temporary: with spare capacity one move; otherwise the element is constructed in a larger block and the old ones
  are moved over and destroyed one by one.
\<close>

record task_vec =
  tv_elems :: "nat list"
  tv_cap :: nat

fun relocate :: "nat list \<Rightarrow> task_heap \<Rightarrow> nat list \<times> task_heap" where
  "relocate [] s = ([], s)"
| "relocate (a # as) s =
     (case new_addr s of (b, s1) \<Rightarrow>
        case relocate as (task_dtor a (task_move_ctor b a s1)) of (bs, s2) \<Rightarrow> (b # bs, s2))"

definition push_back :: "task_vec \<Rightarrow> nat \<Rightarrow> task_heap \<Rightarrow> task_vec \<times> task_heap" where
  "push_back v tmp s =
     (case new_addr s of (b, s1) \<Rightarrow>
        let s2 = task_move_ctor b tmp s1
        in if length (tv_elems v) < tv_cap v then (v\<lparr>tv_elems := tv_elems v @ [b]\<rparr>, s2)
           else case relocate (tv_elems v) s2 of (bs, s3) \<Rightarrow>
                  (\<lparr>tv_elems = bs @ [b], tv_cap = (if tv_cap v = 0 then 1 else 2 * tv_cap v)\<rparr>, s3))"

text \<open>\<open>tasks.push_back(handle_request(...))\<close>; the temporary dies at the end of the statement.\<close>

definition push_request :: "task_vec \<times> task_heap \<Rightarrow> task_vec \<times> task_heap" where
  "push_request vs =
     (case call_coroutine (snd vs) of (tmp, s1) \<Rightarrow>
        case push_back (fst vs) tmp s1 of (v, s2) \<Rightarrow> (v, task_dtor tmp s2))"

fun start_all :: "task_heap \<Rightarrow> nat list \<Rightarrow> co_state \<Rightarrow> co_state option" where
  "start_all s [] scheduler = Some scheduler"
| "start_all s (a # as) scheduler =
     (case task_start s a scheduler of None \<Rightarrow> None | Some scheduler1 \<Rightarrow> start_all s as scheduler1)"

definition destroy_vec :: "task_vec \<Rightarrow> task_heap \<Rightarrow> task_heap" where
  "destroy_vec v s = foldl (\<lambda>s a. task_dtor a s) s (tv_elems v)"

definition tasks_empty :: task_heap where
  "tasks_empty = \<lparr>tk_frames = {}, tk_made = 0, tk_tasks = Map.empty, tk_addr = 0, tk_destroyed = [], tk_bad = False\<rparr>"

definition make_tasks :: "nat \<Rightarrow> task_vec \<times> task_heap" where
  "make_tasks n = (push_request ^^ n) (\<lparr>tv_elems = [], tv_cap = 0\<rparr>, tasks_empty)"

text \<open>
  \<open>main\<close>: the tasks are made, started and run, and the vector goes before the scheduler. The result is the scheduler at the end,
  the heap when \<open>run\<close> began and the heap at the end.
\<close>

definition tasks_main :: "request list \<Rightarrow> (co_state \<times> task_heap \<times> task_heap) option" where
  "tasks_main rqs =
     (case make_tasks (length rqs) of (tasks, s) \<Rightarrow>
        case start_all s (tv_elems tasks) \<lparr>tick = 0, ready = [], timers = [], points = map (\<lambda>_. At_start) rqs, cout = []\<rparr> of
          None \<Rightarrow> None
        | Some scheduler \<Rightarrow>
            (case run (handle_request rqs) scheduler of
               None \<Rightarrow> None
             | Some scheduler1 \<Rightarrow> Some (scheduler1, s, destroy_vec tasks s)))"

section \<open>Every frame has one owner\<close>

definition tasks_inv :: "task_heap \<Rightarrow> bool" where
  "tasks_inv s \<longleftrightarrow> \<not> tk_bad s \<and> owns (handle_of s) (tk_frames s) \<and> (\<forall>a \<in> dom (tk_tasks s). a < tk_addr s)
     \<and> distinct (tk_destroyed s) \<and> tk_frames s \<inter> set (tk_destroyed s) = {}
     \<and> tk_frames s \<union> set (tk_destroyed s) = {..<tk_made s}"

lemma handle_of_upd: "handle_of (s\<lparr>tk_tasks := (tk_tasks s)(a \<mapsto> h)\<rparr>) = (handle_of s)(a := h)"
  by (auto simp: handle_of_def)

lemma handle_of_clear: "handle_of (s\<lparr>tk_tasks := (tk_tasks s)(a := None)\<rparr>) = (handle_of s)(a := None)"
  by (auto simp: handle_of_def)

lemma handle_of_same [simp]:
  "handle_of (s\<lparr>tk_addr := n\<rparr>) = handle_of s" "handle_of (s\<lparr>tk_frames := F\<rparr>) = handle_of s"
  "handle_of (s\<lparr>tk_made := n\<rparr>) = handle_of s" "handle_of (s\<lparr>tk_destroyed := l\<rparr>) = handle_of s"
  "handle_of (s\<lparr>tk_bad := b\<rparr>) = handle_of s"
  by (auto simp: handle_of_def)

lemma handle_of_frame_destroy [simp]: "handle_of (frame_destroy h s) = handle_of s"
  by (simp add: frame_destroy_def)

lemma handle_of_release [simp]: "handle_of (task_release a s) = handle_of s"
  by (simp add: task_release_def split: option.splits)

lemma handle_of_moved:
  "this \<noteq> other \<Longrightarrow> handle_of (task_move_ctor this other s) = (handle_of s)(other := None, this := handle_of s other)"
  by (auto simp: task_move_ctor_def handle_of_def)

lemma handle_of_dtor: "handle_of (task_dtor a s) = (handle_of s)(a := None)"
  using handle_of_clear [of "task_release a s" a] by (simp add: task_dtor_def Let_def)

text \<open>The operations keep the invariant; a move changes the owner only, a destructor destroys the frame that is held.\<close>

lemma tasks_inv_ctor:
  assumes "tasks_inv s" "handle_of s a = None" "a < tk_addr s" "h = tk_made s"
  shows "tasks_inv (task_ctor a h (s\<lparr>tk_frames := insert h (tk_frames s), tk_made := h + 1\<rparr>))"
proof -
  have "h \<notin> tk_frames s" "h \<notin> set (tk_destroyed s)" using assms(1,4) by (auto simp: tasks_inv_def)
  moreover have "handle_of (task_ctor a h (s\<lparr>tk_frames := insert h (tk_frames s), tk_made := h + 1\<rparr>)) = (handle_of s)(a := Some h)"
    by (auto simp: task_ctor_def handle_of_def)
  moreover have "insert h (tk_frames s) \<union> set (tk_destroyed s) = {..<h + 1}"
    using assms(1,4) by (auto simp: tasks_inv_def lessThan_Suc)
  ultimately show ?thesis
    using assms owns_take [of "handle_of s" "tk_frames s" a h] by (auto simp: tasks_inv_def task_ctor_def)
qed

lemma tasks_inv_move:
  assumes "tasks_inv s" "this \<noteq> other" "handle_of s this = None" "this < tk_addr s" "other < tk_addr s"
  shows "tasks_inv (task_move_ctor this other s)"
proof -
  have "owns ((handle_of s)(other := None, this := handle_of s other)) (tk_frames s)"
    using assms owns_move [of "handle_of s" "tk_frames s" other _ this]
    by (cases "handle_of s other") (auto simp: tasks_inv_def fun_upd_idem)
  then show ?thesis using assms handle_of_moved [OF assms(2), of s]
    by (auto simp: tasks_inv_def task_move_ctor_def Let_def)
qed

lemma task_release_props:
  assumes "tasks_inv s"
  shows "\<not> tk_bad (task_release a s)" "tk_frames (task_release a s) = tk_frames s - set_option (handle_of s a)"
    "tk_destroyed (task_release a s) = tk_destroyed s @ (case handle_of s a of None \<Rightarrow> [] | Some h \<Rightarrow> [h])"
    "tk_tasks (task_release a s) = tk_tasks s" "tk_addr (task_release a s) = tk_addr s" "tk_made (task_release a s) = tk_made s"
  using assms owns_in [of "handle_of s" "tk_frames s" a]
  by (auto simp: tasks_inv_def task_release_def frame_destroy_def split: option.splits)

lemma tasks_inv_released:
  assumes "tasks_inv s" "\<And>b. b \<noteq> a \<Longrightarrow> m b = tk_tasks s b" "m a = None \<or> m a = Some None" "a < tk_addr s"
  shows "tasks_inv ((task_release a s)\<lparr>tk_tasks := m\<rparr>)"
proof -
  let ?t = "(task_release a s)\<lparr>tk_tasks := m\<rparr>"
  note r = task_release_props [OF assms(1), of a]
  have h: "handle_of ?t = (handle_of s)(a := None)" using assms(2,3) by (auto simp: handle_of_def fun_eq_iff)
  have d: "\<forall>b \<in> dom m. b < tk_addr s"
  proof
    fix b assume "b \<in> dom m"
    then show "b < tk_addr s" using assms by (cases "b = a") (auto simp: tasks_inv_def)
  qed
  show ?thesis
  proof (cases "handle_of s a")
    case None
    then have "(handle_of s)(a := None) = handle_of s" by (simp add: fun_upd_idem)
    then show ?thesis using assms(1) r h d None by (simp add: tasks_inv_def)
  next
    case (Some x)
    have "x \<in> tk_frames s" "owns ((handle_of s)(a := None)) (tk_frames s - {x})"
      using assms(1) Some owns_in owns_drop by (auto simp: tasks_inv_def)
    then show ?thesis using assms(1) r h d Some by (auto simp: tasks_inv_def)
  qed
qed

lemma tasks_inv_dtor: "tasks_inv s \<Longrightarrow> a < tk_addr s \<Longrightarrow> tasks_inv (task_dtor a s)"
  using tasks_inv_released [of s a "(tk_tasks s)(a := None)"] by (simp add: task_dtor_def task_release_props)

lemma tasks_inv_assign:
  assumes "tasks_inv s" "this < tk_addr s" "other < tk_addr s"
  shows "tasks_inv (task_move_assign this other s)"
proof (cases "this = other")
  case False
  let ?s = "(task_release this s)\<lparr>tk_tasks := (tk_tasks s)(this \<mapsto> None)\<rparr>"
  have i: "tasks_inv ?s" using assms by (intro tasks_inv_released) auto
  have h: "handle_of ?s this = None" "handle_of ?s other = handle_of s other" using False by (simp_all add: handle_of_def)
  have "task_move_assign this other s = task_move_ctor this other ?s"
    using False assms(1) h by (simp add: task_move_assign_def task_move_ctor_def Let_def task_release_props fun_upd_twist)
  then show ?thesis using tasks_inv_move [OF i False h(1)] assms by (simp add: task_release_props)
qed (use assms in \<open>simp add: task_move_assign_def\<close>)

section \<open>The tasks of the vector\<close>

lemma tasks_inv_addr: "tasks_inv s \<Longrightarrow> tasks_inv (s\<lparr>tk_addr := tk_addr s + 1\<rparr>)"
  by (simp add: tasks_inv_def) (blast intro: less_SucI)

text \<open>Moving an element to a new address and destroying it at the old one.\<close>

lemma move_element:
  assumes "tasks_inv s" "tk_tasks s a = Some (Some h)"
  defines "t \<equiv> task_dtor a (task_move_ctor (tk_addr s) a (s\<lparr>tk_addr := tk_addr s + 1\<rparr>))"
  shows "tasks_inv t" "tk_tasks t = (tk_tasks s)(a := None, tk_addr s \<mapsto> Some h)" "tk_frames t = tk_frames s"
    "tk_destroyed t = tk_destroyed s" "tk_made t = tk_made s" "tk_addr t = tk_addr s + 1"
proof -
  let ?b = "tk_addr s" and ?s1 = "s\<lparr>tk_addr := tk_addr s + 1\<rparr>"
  have a: "a < ?b" and new: "tk_tasks s ?b = None" using assms(1,2) by (auto simp: tasks_inv_def)
  have i1: "tasks_inv ?s1" using tasks_inv_addr [OF assms(1)] .
  have "handle_of ?s1 ?b = None" using new by (simp add: handle_of_def)
  then have i2: "tasks_inv (task_move_ctor ?b a ?s1)" using tasks_inv_move [OF i1, of ?b a] a by simp
  have t2: "tk_tasks (task_move_ctor ?b a ?s1) = (tk_tasks s)(a \<mapsto> None, ?b \<mapsto> Some h)"
    using assms(2) by (simp add: task_move_ctor_def handle_of_def)
  then have "handle_of (task_move_ctor ?b a ?s1) a = None" using a by (simp add: handle_of_def)
  then have r: "task_release a (task_move_ctor ?b a ?s1) = task_move_ctor ?b a ?s1" by (simp add: task_release_def)
  show "tasks_inv t" using tasks_inv_dtor [OF i2, of a] a by (simp add: t_def task_move_ctor_def)
  show "tk_tasks t = (tk_tasks s)(a := None, ?b \<mapsto> Some h)" using t2 r a by (auto simp: t_def task_dtor_def Let_def fun_eq_iff)
  show "tk_frames t = tk_frames s" "tk_destroyed t = tk_destroyed s" "tk_made t = tk_made s" "tk_addr t = ?b + 1"
    using r by (simp_all add: t_def task_dtor_def Let_def) (simp_all add: task_move_ctor_def)
qed

definition holding :: "task_heap \<Rightarrow> nat list \<Rightarrow> nat list \<Rightarrow> bool" where
  "holding s as hs \<longleftrightarrow> map (tk_tasks s) as = map (\<lambda>h. Some (Some h)) hs"

lemma holding_cong: "holding s as hs \<Longrightarrow> (\<And>a. a \<in> set as \<Longrightarrow> tk_tasks t a = tk_tasks s a) \<Longrightarrow> holding t as hs"
  by (auto simp: holding_def cong: map_cong)

lemma holding_dom: "holding s as hs \<Longrightarrow> set as \<subseteq> dom (tk_tasks s)"
proof
  fix a assume "holding s as hs" "a \<in> set as"
  then have "tk_tasks s a \<in> set (map (\<lambda>h. Some (Some h)) hs)" by (metis holding_def image_eqI list.set_map)
  then show "a \<in> dom (tk_tasks s)" by auto
qed

lemma relocate_props:
  assumes "tasks_inv s" "holding s as hs" "distinct as" "relocate as s = (bs, t)"
  shows "tasks_inv t \<and> holding t bs hs \<and> distinct bs \<and> set bs \<subseteq> {tk_addr s..<tk_addr t} \<and> tk_addr s \<le> tk_addr t
    \<and> tk_frames t = tk_frames s \<and> tk_destroyed t = tk_destroyed s \<and> tk_made t = tk_made s
    \<and> (\<forall>c. c \<notin> set as \<and> c \<notin> set bs \<longrightarrow> tk_tasks t c = tk_tasks s c) \<and> (\<forall>c \<in> set as. tk_tasks t c = None)"
  using assms
proof (induction as arbitrary: s hs bs t)
  case (Cons a as)
  obtain h hs' where h: "hs = h # hs'" "tk_tasks s a = Some (Some h)" "holding s as hs'"
    using Cons.prems(2) by (cases hs) (auto simp: holding_def)
  let ?b = "tk_addr s"
  define u where "u = task_dtor a (task_move_ctor ?b a (s\<lparr>tk_addr := ?b + 1\<rparr>))"
  obtain bs' where bs: "relocate as u = (bs', t)" "bs = ?b # bs'"
    using Cons.prems(4) by (auto simp: new_addr_def u_def split: prod.splits)
  note m = move_element [OF Cons.prems(1) h(2), folded u_def]
  have below: "\<forall>c \<in> set (a # as). c < ?b"
    using holding_dom [OF Cons.prems(2)] Cons.prems(1) by (auto simp: tasks_inv_def)
  have "holding u as hs'" by (rule holding_cong [OF h(3)]) (use Cons.prems(3) below m(2) in auto)
  from Cons.IH [OF m(1) this _ bs(1)] Cons.prems(3)
  have t: "tasks_inv t" "holding t bs' hs'" "distinct bs'" "set bs' \<subseteq> {tk_addr u..<tk_addr t}" "tk_addr u \<le> tk_addr t"
    "tk_frames t = tk_frames u" "tk_destroyed t = tk_destroyed u" "tk_made t = tk_made u"
    "\<And>c. c \<notin> set as \<Longrightarrow> c \<notin> set bs' \<Longrightarrow> tk_tasks t c = tk_tasks u c" "\<forall>c \<in> set as. tk_tasks t c = None" by auto
  have new: "?b \<notin> set bs'" "a \<notin> set bs'" using t(4) m(6) below by auto
  have "tk_tasks t ?b = Some (Some h)" using t(9) [of ?b] new below m(2) by auto
  moreover have "tk_tasks t a = None" using t(9) [of a] new below m(2) Cons.prems(3) by auto
  ultimately show ?case using t new m bs(2) h(1) by (auto simp: holding_def)
qed (simp add: holding_def)

definition vec_ok :: "nat \<Rightarrow> task_vec \<times> task_heap \<Rightarrow> bool" where
  "vec_ok n vs \<longleftrightarrow> (case vs of (v, s) \<Rightarrow> tasks_inv s \<and> holding s (tv_elems v) [0..<n] \<and> distinct (tv_elems v)
     \<and> dom (tk_tasks s) = set (tv_elems v) \<and> tk_frames s = {..<n} \<and> tk_made s = n \<and> tk_destroyed s = [])"

lemma drop_temporary:
  assumes "tasks_inv t" "tk_tasks t a = Some None"
  shows "tasks_inv (task_dtor a t)" "task_dtor a t = t\<lparr>tk_tasks := (tk_tasks t)(a := None)\<rparr>"
proof -
  show "task_dtor a t = t\<lparr>tk_tasks := (tk_tasks t)(a := None)\<rparr>"
    using assms(2) by (simp add: task_dtor_def task_release_def handle_of_def)
  show "tasks_inv (task_dtor a t)" using assms by (intro tasks_inv_dtor) (auto simp: tasks_inv_def)
qed

lemma vec_ok_push:
  assumes "vec_ok n (v, s)"
  shows "vec_ok (Suc n) (push_request (v, s))"
proof -
  let ?a = "tk_addr s" and ?b = "Suc (tk_addr s)" and ?as = "tv_elems v"
  have i: "tasks_inv s" "holding s ?as [0..<n]" "distinct ?as" "dom (tk_tasks s) = set ?as"
    "tk_frames s = {..<n}" "tk_made s = n" "tk_destroyed s = []" using assms by (auto simp: vec_ok_def)
  have old: "\<forall>c \<in> set ?as. c < ?a" using i(1,4) by (auto simp: tasks_inv_def)
  then have fresh: "?a \<notin> dom (tk_tasks s)" "?b \<notin> dom (tk_tasks s)" using i(4) by auto
  define s1 where "s1 = task_ctor ?a n (s\<lparr>tk_frames := insert n (tk_frames s), tk_made := Suc n, tk_addr := ?b\<rparr>)"
  have c: "call_coroutine s = (?a, s1)"
    by (simp add: call_coroutine_def get_return_object_def new_addr_def Let_def s1_def i(6))
  have "tasks_inv (task_ctor ?a n ((s\<lparr>tk_addr := ?b\<rparr>)\<lparr>tk_frames := insert n (tk_frames s), tk_made := Suc n\<rparr>))"
    using tasks_inv_ctor [of "s\<lparr>tk_addr := ?b\<rparr>" ?a n] tasks_inv_addr [OF i(1)] i(6) fresh by (simp add: handle_of_def domIff)
  moreover have "s1 = task_ctor ?a n ((s\<lparr>tk_addr := ?b\<rparr>)\<lparr>tk_frames := insert n (tk_frames s), tk_made := Suc n\<rparr>)"
    by (cases s) (simp add: s1_def task_ctor_def)
  ultimately have i1: "tasks_inv s1" by simp
  define s2 where "s2 = task_move_ctor ?b ?a (s1\<lparr>tk_addr := Suc ?b\<rparr>)"
  have s1: "tk_tasks s1 = (tk_tasks s)(?a \<mapsto> Some n)" "tk_addr s1 = ?b" "tk_frames s1 = {..<Suc n}" "tk_made s1 = Suc n" "tk_destroyed s1 = []"
    using i by (auto simp: s1_def task_ctor_def lessThan_Suc)
  have i2: "tasks_inv s2" unfolding s2_def
    by (rule tasks_inv_move) (use tasks_inv_addr [OF i1] s1 fresh in \<open>simp_all add: handle_of_def domIff\<close>)
  have s2: "tk_tasks s2 = (tk_tasks s)(?a \<mapsto> None, ?b \<mapsto> Some n)" "tk_addr s2 = Suc ?b" "tk_frames s2 = {..<Suc n}" "tk_made s2 = Suc n" "tk_destroyed s2 = []"
    using s1 by (simp_all add: s2_def task_move_ctor_def handle_of_def)
  have h2: "holding s2 ?as [0..<n]" by (rule holding_cong [OF i(2)]) (use old s2(1) in auto)
  obtain bs cap s3 where p: "push_back v ?a s1 = (\<lparr>tv_elems = bs @ [?b], tv_cap = cap\<rparr>, s3)"
    and s3: "tasks_inv s3" "holding s3 bs [0..<n]" "distinct bs" "?a \<notin> set bs" "?b \<notin> set bs"
      "tk_frames s3 = tk_frames s2" "tk_destroyed s3 = tk_destroyed s2" "tk_made s3 = tk_made s2"
      "\<And>c. c \<notin> set ?as \<Longrightarrow> c \<notin> set bs \<Longrightarrow> tk_tasks s3 c = tk_tasks s2 c" "\<And>c. c \<in> set ?as \<Longrightarrow> c \<notin> set bs \<Longrightarrow> tk_tasks s3 c = None"
  proof (cases "length ?as < tv_cap v")
    case True
    show ?thesis
      by (rule that [of ?as "tv_cap v" s2]) (use True i2 h2 i(3) old s1(2) in \<open>auto simp: push_back_def new_addr_def Let_def s2_def\<close>)
  next
    case False
    obtain bs s3 where r: "relocate ?as s2 = (bs, s3)" by (cases "relocate ?as s2")
    note q = relocate_props [OF i2 h2 i(3) r]
    show ?thesis
      by (rule that [of bs "if tv_cap v = 0 then 1 else 2 * tv_cap v" s3])
        (use False q r s1(2) s2(2) in \<open>auto simp: push_back_def new_addr_def Let_def s2_def\<close>)
  qed
  have "?a \<notin> set ?as" "?b \<notin> set ?as" using old by (auto dest: bspec)
  then have at: "tk_tasks s3 ?a = Some None" "tk_tasks s3 ?b = Some (Some n)"
    using s3(4,5) s3(9) [of ?a] s3(9) [of ?b] s2(1) by auto
  note d = drop_temporary [OF s3(1) at(1)]
  have "dom (tk_tasks s3) - {?a} = insert ?b (set bs)"
  proof (intro set_eqI iffI)
    fix c assume c: "c \<in> dom (tk_tasks s3) - {?a}"
    show "c \<in> insert ?b (set bs)"
    proof (rule ccontr)
      assume "c \<notin> insert ?b (set bs)"
      with c s3(9) [of c] s3(10) [of c] s2(1) i(4) show False by (cases "c \<in> set ?as") (auto simp: domIff split: if_splits)
    qed
  next
    fix c assume "c \<in> insert ?b (set bs)"
    then show "c \<in> dom (tk_tasks s3) - {?a}" using at(2) s3(4) holding_dom [OF s3(2)] by auto
  qed
  moreover have "holding (task_dtor ?a s3) (bs @ [?b]) [0..<Suc n]"
  proof -
    have "holding (task_dtor ?a s3) bs [0..<n]" by (rule holding_cong [OF s3(2)]) (use s3(4) d(2) in auto)
    then show ?thesis using at(2) d(2) by (simp add: holding_def)
  qed
  ultimately show ?thesis
    using c p d s3 s2 by (simp add: vec_ok_def push_request_def)
qed

lemma make_tasks_ok: "vec_ok n (make_tasks n)"
proof (induction n)
  case 0
  show ?case by (simp add: make_tasks_def vec_ok_def tasks_empty_def tasks_inv_def holding_def owns_def handle_of_def)
next
  case (Suc n)
  then show ?case using vec_ok_push [of n "fst (make_tasks n)" "snd (make_tasks n)"] by (simp add: make_tasks_def)
qed

lemma start_all_spawns:
  "holding s as hs \<Longrightarrow> start_all s as scheduler = Some (foldl (\<lambda>sc h. spawn h sc) scheduler hs)"
proof (induction as arbitrary: hs scheduler)
  case (Cons a as)
  then obtain h hs' where "hs = h # hs'" "tk_tasks s a = Some (Some h)" "holding s as hs'" by (cases hs) (auto simp: holding_def)
  then show ?case using Cons.IH [of hs'] by (simp add: task_start_def handle_of_def)
qed (simp add: holding_def)

lemma dtor_element:
  assumes "tasks_inv s" "tk_tasks s a = Some (Some h)"
  shows "tasks_inv (task_dtor a s)" "tk_tasks (task_dtor a s) = (tk_tasks s)(a := None)"
    "tk_destroyed (task_dtor a s) = tk_destroyed s @ [h]" "tk_frames (task_dtor a s) = tk_frames s - {h}"
proof -
  show "tasks_inv (task_dtor a s)" using assms by (intro tasks_inv_dtor) (auto simp: tasks_inv_def)
  have "handle_of s a = Some h" using assms(2) by (simp add: handle_of_def)
  then show "tk_tasks (task_dtor a s) = (tk_tasks s)(a := None)" "tk_destroyed (task_dtor a s) = tk_destroyed s @ [h]"
    "tk_frames (task_dtor a s) = tk_frames s - {h}"
    using task_release_props [OF assms(1), of a] by (simp_all add: task_dtor_def Let_def)
qed

lemma destroy_vec_props:
  assumes "tasks_inv s" "holding s as hs" "distinct as"
  defines "t \<equiv> foldl (\<lambda>s a. task_dtor a s) s as"
  shows "tasks_inv t \<and> tk_destroyed t = tk_destroyed s @ hs \<and> tk_frames t = tk_frames s - set hs \<and> dom (tk_tasks t) = dom (tk_tasks s) - set as"
  using assms(1-3) unfolding t_def
proof (induction as arbitrary: s hs)
  case (Cons a as)
  obtain h hs' where h: "hs = h # hs'" "tk_tasks s a = Some (Some h)" "holding s as hs'"
    using Cons.prems(2) by (cases hs) (auto simp: holding_def)
  note d = dtor_element [OF Cons.prems(1) h(2)]
  have "holding (task_dtor a s) as hs'" by (rule holding_cong [OF h(3)]) (use d(2) Cons.prems(3) in auto)
  from Cons.IH [OF d(1) this] Cons.prems(3) d h(1) show ?case by (auto split: if_splits)
qed (simp add: holding_def)

section \<open>Properties\<close>

text \<open>
  C22: The tasks of \<open>main\<close> run as the scheduler's model says, and their frames live exactly as long as they must: when \<open>run\<close>
  begins every request has its frame, held by one \<open>Task\<close> however often the vector was reallocated; when they are destroyed each coroutine
  is at its end and the scheduler refers to none; and each frame is destroyed exactly once, with no \<open>Task\<close> and no frame left.
\<close>

theorem frames_destroyed_once:
  assumes "distinct (map rq_name rqs)" "\<forall>rq \<in> set rqs. max 0 (read_delay rq) + max 0 (write_delay rq) \<le> INT_MAX"
  shows "\<exists>s h0 h1. tasks_main rqs = Some (s, h0, h1) \<and> co_main rqs = Some s
     \<and> tk_frames h0 = {..<length rqs} \<and> owns (handle_of h0) (tk_frames h0)
     \<and> ready s = [] \<and> timers s = [] \<and> points s = replicate (length rqs) Co_done
     \<and> tk_destroyed h1 = [0..<length rqs] \<and> tk_frames h1 = {} \<and> dom (tk_tasks h1) = {} \<and> \<not> tk_bad h1"
proof -
  obtain v h0 where m: "make_tasks (length rqs) = (v, h0)" by (cases "make_tasks (length rqs)")
  then have ok: "tasks_inv h0" "holding h0 (tv_elems v) [0..<length rqs]" "distinct (tv_elems v)" "dom (tk_tasks h0) = set (tv_elems v)"
    "tk_frames h0 = {..<length rqs}" "tk_destroyed h0 = []"
    using make_tasks_ok [of "length rqs"] by (simp_all add: vec_ok_def)
  have "requests_ok rqs" using assms by (simp add: requests_ok_def write_at_def read_at_def)
  then obtain s where s: "co_main rqs = Some s" "co_wf rqs [] s" "ready s = []" "timers s = []"
    using coros.run_ends co_wf_init unfolding co_main_def by blast
  then have "points s = replicate (length rqs) Co_done"
    by (intro nth_equalityI) (auto simp: co_wf_def handles_wf_def)
  moreover have "tasks_main rqs = Some (s, h0, destroy_vec v h0)"
    using s(1) m start_all_spawns [OF ok(2)] by (simp add: tasks_main_def co_main_def co_init_def)
  moreover have "owns (handle_of h0) (tk_frames h0)" using ok(1) by (simp add: tasks_inv_def)
  moreover have "tk_destroyed (destroy_vec v h0) = [0..<length rqs] \<and> tk_frames (destroy_vec v h0) = {}
      \<and> dom (tk_tasks (destroy_vec v h0)) = {} \<and> \<not> tk_bad (destroy_vec v h0)"
    using destroy_vec_props [OF ok(1-3)] ok(4-6) by (auto simp: destroy_vec_def tasks_inv_def)
  ultimately show ?thesis using s ok(5) by blast
qed

theorem frames_destroyed_once_witness:
  "\<exists>s h0 h1. tasks_main main_requests = Some (s, h0, h1) \<and> tk_destroyed h1 = [0, 1, 2]"
proof -
  have "length main_requests = 3" by (simp add: main_requests_def)
  moreover have "[0..<3] = [0, 1, 2 :: nat]" by code_simp
  ultimately show ?thesis using frames_destroyed_once [of main_requests] by (auto simp: main_requests_def INT_MAX_def)
qed

text \<open>A \<open>Task\<close> that was moved from holds nothing: starting it would give the scheduler a null handle.\<close>

lemma moved_from_empty: "this \<noteq> other \<Longrightarrow> task_start (task_move_ctor this other s) other scheduler = None"
  by (simp add: task_start_def handle_of_moved)

text \<open>An assignment destroys the frame of the target, once, and takes over the other one; assigning to itself changes nothing.\<close>

lemma assign_takes_over:
  assumes "tasks_inv s" "handle_of s this = Some h" "handle_of s other = Some h'" "this \<noteq> other"
  defines "t \<equiv> task_move_assign this other s"
  shows "tk_destroyed t = tk_destroyed s @ [h]" "tk_frames t = tk_frames s - {h}" "handle_of t this = Some h'" "handle_of t other = None"
    "task_move_assign this this s = s"
  using assms(2-4) task_release_props [OF assms(1), of this]
  by (simp_all add: t_def task_move_assign_def Let_def handle_of_def task_release_def)

end
