(* ===== verification/Float_Bits.thy ===== *)
theory Float_Bits
  imports CS_Prelude
begin

text \<open>
  Binary floating point as the sources use it: a \<open>double\<close> or a \<open>float\<close> is its bit pattern, and an operation decodes its arguments,
  computes exactly on integers and rounds once to the nearest value, ties to even (IEEE 754, the rounding mode the programs run in). A format is given by its
  precision \<open>p\<close> and the width \<open>eb\<close> of its exponent: 53 and 11 for \<open>double\<close>, 24 and 8 for \<open>float\<close>. Which NaN an operation
  yields is left open by C; here it is the default one of the processor. An intermediate result is rounded to its type (no fused operations). The
  interface \<open>ieee_format\<close> holds what is proved for every format.
\<close>

unbundle bit_operations_syntax

section \<open>Formats\<close>

type_synonym double = "64 word"
type_synonym single = "32 word"

text \<open>A finite value is sign, significand and exponent: \<open>F_fin s m e\<close> is \<open>m * 2 ^ e\<close>, negated if \<open>s\<close>.\<close>

datatype fval = F_nan | F_inf bool | F_fin bool int int

definition emin :: "nat \<Rightarrow> nat \<Rightarrow> int" where
  "emin p eb = 3 - 2 ^ (eb - 1) - int p"

definition inf_bits :: "nat \<Rightarrow> nat \<Rightarrow> int" where
  "inf_bits p eb = (2 ^ eb - 1) * 2 ^ (p - 1)"

definition sign_bits :: "nat \<Rightarrow> nat \<Rightarrow> bool \<Rightarrow> int" where
  "sign_bits p eb s = (if s then 2 ^ (p + eb - 1) else 0)"

definition decode :: "nat \<Rightarrow> nat \<Rightarrow> int \<Rightarrow> fval" where
  "decode p eb b =
     (let s = 2 ^ (p + eb - 1) \<le> b; E = (b div 2 ^ (p - 1)) mod 2 ^ eb; f = b mod 2 ^ (p - 1)
      in if E = 2 ^ eb - 1 then (if f = 0 then F_inf s else F_nan)
         else if E = 0 then F_fin s f (emin p eb)
         else F_fin s (2 ^ (p - 1) + f) (emin p eb + E - 1))"

definition nan_bits :: "nat \<Rightarrow> nat \<Rightarrow> int" where
  "nan_bits p eb = sign_bits p eb True + inf_bits p eb + 2 ^ (p - 2)"

section \<open>Rounding\<close>

text \<open>The number of binary digits.\<close>

function bit_length :: "int \<Rightarrow> nat" where
  "bit_length m = (if m \<le> 0 then 0 else Suc (bit_length (m div 2)))"
  by pat_completeness auto
termination by (relation "measure nat") auto

declare bit_length.simps [simp del]

text \<open>\<open>m / 2 ^ t\<close> to the nearest integer, a tie to the even one.\<close>

definition half_even :: "int \<Rightarrow> nat \<Rightarrow> int" where
  "half_even m t =
     (let q = m div 2 ^ t; r = m mod 2 ^ t
      in if 2 ^ t < 2 * r \<or> (2 * r = 2 ^ t \<and> odd q) then q + 1 else q)"

text \<open>The bits of \<open>m * 2 ^ e\<close> rounded; a carry out of the significand moves into the exponent by itself, and infinity is the top.\<close>

definition round_bits :: "nat \<Rightarrow> nat \<Rightarrow> bool \<Rightarrow> int \<Rightarrow> int \<Rightarrow> int" where
  "round_bits p eb s m e =
     (if m = 0 then sign_bits p eb s
      else let t = max (emin p eb - e) (int (bit_length m) - int p);
               q = (if 0 \<le> t then half_even m (nat t) else m * 2 ^ nat (- t))
           in sign_bits p eb s + min (inf_bits p eb) ((e + t - emin p eb) * 2 ^ (p - 1) + q))"

definition encode :: "nat \<Rightarrow> nat \<Rightarrow> fval \<Rightarrow> int" where
  "encode p eb v =
     (case v of F_nan \<Rightarrow> nan_bits p eb
      | F_inf s \<Rightarrow> sign_bits p eb s + inf_bits p eb
      | F_fin s m e \<Rightarrow> round_bits p eb s m e)"

section \<open>Arithmetic and comparison\<close>

definition sg :: "bool \<Rightarrow> int" where "sg s = (if s then -1 else 1)"

text \<open>A sum that is exactly zero is positive unless both arguments are negative zeros.\<close>

fun add_bits :: "nat \<Rightarrow> nat \<Rightarrow> fval \<Rightarrow> fval \<Rightarrow> int" where
  "add_bits p eb (F_fin s m e) (F_fin s' m' e') =
     (let e0 = min e e'; x = sg s * m * 2 ^ nat (e - e0) + sg s' * m' * 2 ^ nat (e' - e0)
      in if x = 0 then sign_bits p eb (s \<and> s') else round_bits p eb (x < 0) \<bar>x\<bar> e0)"
| "add_bits p eb (F_inf s) (F_inf s') = (if s = s' then encode p eb (F_inf s) else nan_bits p eb)"
| "add_bits p eb (F_inf s) (F_fin _ _ _) = encode p eb (F_inf s)"
| "add_bits p eb (F_fin _ _ _) (F_inf s) = encode p eb (F_inf s)"
| "add_bits p eb F_nan _ = nan_bits p eb"
| "add_bits p eb _ F_nan = nan_bits p eb"

fun mul_bits :: "nat \<Rightarrow> nat \<Rightarrow> fval \<Rightarrow> fval \<Rightarrow> int" where
  "mul_bits p eb (F_fin s m e) (F_fin s' m' e') = round_bits p eb (s \<noteq> s') (m * m') (e + e')"
| "mul_bits p eb (F_inf s) (F_inf s') = encode p eb (F_inf (s \<noteq> s'))"
| "mul_bits p eb (F_inf s) (F_fin s' m _) = (if m = 0 then nan_bits p eb else encode p eb (F_inf (s \<noteq> s')))"
| "mul_bits p eb (F_fin s m _) (F_inf s') = (if m = 0 then nan_bits p eb else encode p eb (F_inf (s \<noteq> s')))"
| "mul_bits p eb F_nan _ = nan_bits p eb"
| "mul_bits p eb _ F_nan = nan_bits p eb"

text \<open>
  The quotient is cut off after at least two digits more than the precision and its last digit set when a remainder is left, which
  rounding cannot tell from the exact quotient.
\<close>

fun div_bits :: "nat \<Rightarrow> nat \<Rightarrow> fval \<Rightarrow> fval \<Rightarrow> int" where
  "div_bits p eb (F_fin s m e) (F_fin s' m' e') =
     (if m' = 0 then (if m = 0 then nan_bits p eb else encode p eb (F_inf (s \<noteq> s')))
      else let k = p + 2 + bit_length m'; n = m * 2 ^ k; q = n div m'; sticky = (if n mod m' = 0 then 0 else 1)
           in round_bits p eb (s \<noteq> s') (2 * q + sticky) (e - e' - int k - 1))"
| "div_bits p eb (F_inf s) (F_inf s') = nan_bits p eb"
| "div_bits p eb (F_inf s) (F_fin s' _ _) = encode p eb (F_inf (s \<noteq> s'))"
| "div_bits p eb (F_fin s _ _) (F_inf s') = sign_bits p eb (s \<noteq> s')"
| "div_bits p eb F_nan _ = nan_bits p eb"
| "div_bits p eb _ F_nan = nan_bits p eb"

text \<open>The order: \<open>None\<close> when a NaN is involved (unordered), otherwise the sign of the difference.\<close>

fun compare_vals :: "fval \<Rightarrow> fval \<Rightarrow> int option" where
  "compare_vals (F_fin s m e) (F_fin s' m' e') =
     (let e0 = min e e' in Some (sgn (sg s * m * 2 ^ nat (e - e0) - sg s' * m' * 2 ^ nat (e' - e0))))"
| "compare_vals (F_inf s) (F_inf s') = Some (if s = s' then 0 else sg s)"
| "compare_vals (F_inf s) (F_fin _ _ _) = Some (sg s)"
| "compare_vals (F_fin _ _ _) (F_inf s) = Some (- sg s)"
| "compare_vals F_nan _ = None"
| "compare_vals _ F_nan = None"

text \<open>The integer part; \<open>None\<close> for infinity and NaN.\<close>

fun truncate_val :: "fval \<Rightarrow> int option" where
  "truncate_val (F_fin s m e) = Some (sg s * (if 0 \<le> e then m * 2 ^ nat e else m div 2 ^ nat (- e)))"
| "truncate_val (F_inf s) = None"
| "truncate_val F_nan = None"

section \<open>The two types\<close>

definition dval :: "double \<Rightarrow> fval" where "dval x = decode 53 11 (uint x)"
definition sval :: "single \<Rightarrow> fval" where "sval x = decode 24 8 (uint x)"

definition d_add :: "double \<Rightarrow> double \<Rightarrow> double" where "d_add x y = word_of_int (add_bits 53 11 (dval x) (dval y))"
definition d_mul :: "double \<Rightarrow> double \<Rightarrow> double" where "d_mul x y = word_of_int (mul_bits 53 11 (dval x) (dval y))"
definition d_div :: "double \<Rightarrow> double \<Rightarrow> double" where "d_div x y = word_of_int (div_bits 53 11 (dval x) (dval y))"
definition d_sub :: "double \<Rightarrow> double \<Rightarrow> double" where "d_sub x y = d_add x (y XOR 0x8000000000000000)"
definition s_add :: "single \<Rightarrow> single \<Rightarrow> single" where "s_add x y = word_of_int (add_bits 24 8 (sval x) (sval y))"
definition s_mul :: "single \<Rightarrow> single \<Rightarrow> single" where "s_mul x y = word_of_int (mul_bits 24 8 (sval x) (sval y))"

definition d_of_int :: "int \<Rightarrow> double" where "d_of_int x = word_of_int (round_bits 53 11 (x < 0) \<bar>x\<bar> 0)"
definition s_of_int :: "int \<Rightarrow> single" where "s_of_int x = word_of_int (round_bits 24 8 (x < 0) \<bar>x\<bar> 0)"

definition d_lt :: "double \<Rightarrow> double \<Rightarrow> bool" where "d_lt x y \<longleftrightarrow> compare_vals (dval x) (dval y) = Some (- 1)"
definition d_eq :: "double \<Rightarrow> double \<Rightarrow> bool" where "d_eq x y \<longleftrightarrow> compare_vals (dval x) (dval y) = Some 0"
definition is_nan :: "double \<Rightarrow> bool" where "is_nan x \<longleftrightarrow> dval x = F_nan"

text \<open>Conversion to an integer type with the given range; outside it the behaviour is undefined (\<open>None\<close>).\<close>

definition d_to_range :: "int \<Rightarrow> int \<Rightarrow> double \<Rightarrow> int option" where
  "d_to_range lo hi x =
     (case truncate_val (dval x) of None \<Rightarrow> None | Some v \<Rightarrow> if lo \<le> v \<and> v \<le> hi then Some v else None)"

section \<open>Digits and halves\<close>

lemma bit_length_0 [simp]: "bit_length 0 = 0"
  by (simp add: bit_length.simps)

lemma bit_length_bounds:
  "0 < m \<Longrightarrow> 0 < bit_length m \<and> 2 ^ (bit_length m - 1) \<le> m \<and> m < 2 ^ bit_length m"
proof (induction m rule: bit_length.induct)
  case (1 m)
  show ?case
  proof (cases "m = 1")
    case True
    then show ?thesis by (simp add: bit_length.simps)
  next
    case False
    with 1 have ih: "0 < bit_length (m div 2)" "2 ^ (bit_length (m div 2) - 1) \<le> m div 2" "m div 2 < 2 ^ bit_length (m div 2)"
      by simp_all
    then obtain l where l: "bit_length (m div 2) = Suc l" by (metis gr0_conv_Suc)
    have "bit_length m = Suc (Suc l)" using l 1(2) by (simp add: bit_length.simps [of m])
    moreover have "2 ^ l \<le> m div 2" "m div 2 < 2 * 2 ^ l" using ih l by simp_all
    then have "2 * 2 ^ l \<le> m" "m < 4 * 2 ^ l" by linarith+
    ultimately show ?thesis by simp
  qed
qed

lemma bit_length_le: "0 \<le> m \<Longrightarrow> m < 2 ^ k \<Longrightarrow> bit_length m \<le> k"
proof (cases "m = 0")
  case False
  assume m: "0 \<le> m" "m < 2 ^ k"
  then have b: "0 < bit_length m" "2 ^ (bit_length m - 1) \<le> m" using False bit_length_bounds [of m] by simp_all
  then have "2 ^ (bit_length m - 1) < (2 :: int) ^ k" using m(2) by linarith
  then have "bit_length m - 1 < k" by (rule power_less_imp_less_exp [rotated]) simp
  then show ?thesis using b(1) by simp
qed simp

lemma bit_length_unique: "2 ^ l \<le> m \<Longrightarrow> m < 2 ^ Suc l \<Longrightarrow> bit_length m = Suc l"
proof -
  assume m: "2 ^ l \<le> m" "m < 2 ^ Suc l"
  then have pos: "0 < m" by (meson less_le_trans zero_less_numeral zero_less_power)
  have "2 ^ l < (2 :: int) ^ bit_length m" using m(1) bit_length_bounds [OF pos] by linarith
  then have "l < bit_length m" by (simp add: power_strict_increasing_iff)
  with bit_length_le [of m "Suc l"] m(2) pos show ?thesis by simp
qed

lemma bit_length_shift: "0 < k \<Longrightarrow> bit_length (k * 2 ^ j) = bit_length k + j"
proof -
  assume k: "0 < k"
  obtain l where l: "bit_length k = Suc l" using bit_length_bounds [OF k] by (metis gr0_conv_Suc)
  then have "2 ^ l \<le> k" "k < 2 ^ Suc l" using bit_length_bounds [OF k] by simp_all
  then have "2 ^ l * 2 ^ j \<le> k * 2 ^ j" "k * 2 ^ j < 2 ^ Suc l * 2 ^ j" by simp_all
  then have "2 ^ (l + j) \<le> k * 2 ^ j" "k * 2 ^ j < 2 ^ Suc (l + j)" by (simp_all only: power_add [symmetric] add_Suc)
  then have "bit_length (k * 2 ^ j) = Suc (l + j)" by (rule bit_length_unique)
  then show ?thesis using l by simp
qed

text \<open>Rounding loses at most half a unit of the last place, and just half only when it ends at an even number; an exact quotient is kept.\<close>

lemma half_even_bound:
  "2 * \<bar>half_even m t * 2 ^ t - m\<bar> \<le> 2 ^ t \<and> (2 * \<bar>half_even m t * 2 ^ t - m\<bar> = 2 ^ t \<longrightarrow> even (half_even m t) \<or> t = 0)"
proof -
  define q r where "q = m div 2 ^ t" and "r = m mod 2 ^ t"
  have m: "m = q * 2 ^ t + r" unfolding q_def r_def by (rule div_mult_mod_eq [symmetric])
  have r: "0 \<le> r" "r < 2 ^ t" by (simp_all add: r_def)
  have h: "half_even m t = (if 2 ^ t < 2 * r \<or> (2 * r = 2 ^ t \<and> odd q) then q + 1 else q)"
    by (simp add: half_even_def q_def r_def Let_def)
  show ?thesis
  proof (cases "2 ^ t < 2 * r \<or> (2 * r = 2 ^ t \<and> odd q)")
    case True
    then have "half_even m t * 2 ^ t - m = 2 ^ t - r" using h m by (simp add: distrib_right)
    then show ?thesis using True r h by (auto simp: abs_if)
  next
    case False
    then have "half_even m t * 2 ^ t - m = - r" using h m by simp
    then show ?thesis using False r h by (auto simp: abs_if)
  qed
qed

lemma half_even_exact: "half_even (k * 2 ^ t) t = k"
  by (simp add: half_even_def Let_def)

lemma demo_sums:
  "d_add 0x3FB999999999999A 0x3FC999999999999A = 0x3FD3333333333334"
  "d_mul 0x4008000000000000 0x3FE0000000000000 = 0x3FF8000000000000"
  "s_add 0x4B800000 0x3F800000 = 0x4B800000"
  "d_div 0x3FF0000000000000 0x4008000000000000 = 0x3FD5555555555555"
  "d_div 0x3FF0000000000000 0x41CDCD6500000000 = 0x3E112E0BE826D695"
  "d_sub 0x3FF0000000000000 0x3FEFFFFFFFFFFFFF = 0x3CA0000000000000"
  by code_simp+

section \<open>What holds for every format\<close>

text \<open>The value in units of the smallest positive number; \<open>denotes\<close>: a finite number is the integer \<open>x\<close>.\<close>

definition scaled :: "nat \<Rightarrow> nat \<Rightarrow> fval \<Rightarrow> int option" where
  "scaled p eb v = (case v of F_fin s m e \<Rightarrow> Some (sg s * m * 2 ^ nat (e - emin p eb)) | _ \<Rightarrow> None)"

definition denotes :: "nat \<Rightarrow> nat \<Rightarrow> int \<Rightarrow> int \<Rightarrow> bool" where
  "denotes p eb b x \<longleftrightarrow> scaled p eb (decode p eb b) = Some (x * 2 ^ nat (- emin p eb))"

definition mag :: "nat \<Rightarrow> int \<Rightarrow> int" where
  "mag p B = (let E = B div 2 ^ (p - 1); f = B mod 2 ^ (p - 1) in if E = 0 then f else (2 ^ (p - 1) + f) * 2 ^ nat (E - 1))"

lemma decode_fin:
  assumes "decode p eb b = F_fin s m e"
  shows "emin p eb \<le> e \<and> 0 \<le> m"
proof -
  define E f where "E = (b div 2 ^ (p - 1)) mod 2 ^ eb" and "f = b mod 2 ^ (p - 1)"
  have "0 \<le> E" "0 \<le> f" by (simp_all add: E_def f_def)
  moreover have "(E = 0 \<and> m = f \<and> e = emin p eb) \<or> (0 < E \<and> m = 2 ^ (p - 1) + f \<and> e = emin p eb + E - 1)"
    using assms \<open>0 \<le> E\<close> unfolding decode_def Let_def E_def [symmetric] f_def [symmetric]
    by (cases "E = 2 ^ eb - 1"; cases "E = 0"; cases "f = 0") simp_all
  ultimately show ?thesis by (elim disjE) simp_all
qed

lemma pow2_sign: "a * 2 ^ i = b * (2 :: int) ^ j \<Longrightarrow> (a < 0 \<longleftrightarrow> b < 0) \<and> (a = 0 \<longleftrightarrow> b = 0)"
proof -
  assume eq: "a * 2 ^ i = b * 2 ^ j"
  have "a < 0 \<longleftrightarrow> a * 2 ^ i < 0" "b < 0 \<longleftrightarrow> b * 2 ^ j < 0" "a = 0 \<longleftrightarrow> a * 2 ^ i = 0" "b = 0 \<longleftrightarrow> b * 2 ^ j = 0"
    by (simp_all add: mult_less_0_iff)
  with eq show ?thesis by metis
qed

locale ieee_format =
  fixes p eb :: nat
  assumes p: "1 < p" and eb: "1 < eb" and wide: "p + 1 < 2 ^ (eb - 1)"
begin

lemma emin_neg: "emin p eb < 0" "int p + 1 < 2 ^ (eb - 1)" "emin p eb \<le> 2 ^ (eb - 1) - int p"
proof -
  have w: "int p + 1 < 2 ^ (eb - 1)" using wide by (metis int_ops(4) of_nat_Suc of_nat_less_iff of_nat_numeral of_nat_power Suc_eq_plus1 add.commute)
  show "emin p eb < 0" using w p by (simp add: emin_def)
  show "int p + 1 < 2 ^ (eb - 1)" using w .
  show "emin p eb \<le> 2 ^ (eb - 1) - int p" unfolding emin_def using w p by linarith
qed

lemma split_sign: "(2 :: int) ^ (p + eb - 1) = 2 ^ eb * 2 ^ (p - 1)"
  using p by (simp add: power_add [symmetric])

lemma decode_finite:
  assumes "0 \<le> B" "B < inf_bits p eb"
  shows "decode p eb (sign_bits p eb s + B) =
    (if B div 2 ^ (p - 1) = 0 then F_fin s (B mod 2 ^ (p - 1)) (emin p eb)
     else F_fin s (2 ^ (p - 1) + B mod 2 ^ (p - 1)) (emin p eb + B div 2 ^ (p - 1) - 1))"
proof -
  let ?P = "(2 :: int) ^ (p - 1)"
  have P: "0 < ?P" by simp
  have "B div ?P * ?P \<le> B" using div_mult_mod_eq [of B ?P] pos_mod_sign [OF P, of B] by linarith
  then have "B div ?P * ?P < (2 ^ eb - 1) * ?P" using assms(2) unfolding inf_bits_def by linarith
  then have E: "0 \<le> B div ?P" "B div ?P < 2 ^ eb - 1"
    using assms(1) P by (simp_all add: pos_imp_zdiv_nonneg_iff)
  have S: "sign_bits p eb s = (if s then 2 ^ eb else 0) * ?P" unfolding sign_bits_def split_sign by simp
  have "B < 2 ^ eb * ?P - 1 * ?P" using assms(2) unfolding inf_bits_def left_diff_distrib .
  then have "B < 2 ^ eb * ?P" using P by linarith
  then have "2 ^ (p + eb - 1) \<le> sign_bits p eb s + B \<longleftrightarrow> s" using assms(1) unfolding sign_bits_def split_sign by simp
  moreover have "(sign_bits p eb s + B) div ?P = (if s then 2 ^ eb else 0) + B div ?P" by (simp add: S)
  then have "(sign_bits p eb s + B) div ?P mod 2 ^ eb = B div ?P" using E by (cases s) simp_all
  moreover have "(sign_bits p eb s + B) mod ?P = B mod ?P" by (simp add: S)
  ultimately show ?thesis using E by (simp add: decode_def Let_def)
qed

lemma scaled_decode:
  assumes "0 \<le> B" "B < inf_bits p eb"
  shows "scaled p eb (decode p eb (sign_bits p eb s + B)) = Some (sg s * mag p B)"
  by (simp add: decode_finite [OF assms] scaled_def mag_def Let_def)

lemma mag_bits:
  assumes "emin p eb \<le> g" "0 \<le> q" "q < 2 ^ p" "q < 2 ^ (p - 1) \<Longrightarrow> g = emin p eb"
  shows "mag p ((g - emin p eb) * 2 ^ (p - 1) + q) = q * 2 ^ nat (g - emin p eb)"
proof (cases "q < 2 ^ (p - 1)")
  case True
  then show ?thesis using assms by (simp add: mag_def)
next
  case False
  define f where "f = q - 2 ^ (p - 1)"
  have "(2 :: int) ^ p = 2 * 2 ^ (p - 1)" using p by (metis One_nat_def Suc_pred' power_Suc less_trans zero_less_one)
  then have f: "0 \<le> f" "f < 2 ^ (p - 1)" "q = 2 ^ (p - 1) + f" using False assms(3) by (simp_all add: f_def)
  define E where "E = g - emin p eb + 1"
  have "(g - emin p eb) * 2 ^ (p - 1) + q = E * 2 ^ (p - 1) + f" using f(3) by (simp add: E_def distrib_right)
  moreover have "(E * 2 ^ (p - 1) + f) div 2 ^ (p - 1) = E" "(E * 2 ^ (p - 1) + f) mod 2 ^ (p - 1) = f" using f(1,2) by simp_all
  moreover have "E \<noteq> 0" "E - 1 = g - emin p eb" using assms(1) by (simp_all add: E_def)
  moreover from calculation have "mag p (E * 2 ^ (p - 1) + f) = (2 ^ (p - 1) + f) * 2 ^ nat (g - emin p eb)"
    unfolding mag_def Let_def by simp
  ultimately show ?thesis using f(3) by metis
qed

text \<open>A larger pattern is a larger magnitude: comparing the bits compares the values.\<close>

lemma mag_step: "0 \<le> B \<Longrightarrow> mag p B < mag p (B + 1)"
proof -
  assume B: "0 \<le> B"
  let ?P = "(2 :: int) ^ (p - 1)"
  define E f where "E = B div ?P" and "f = B mod ?P"
  have P: "1 < ?P" using p by simp
  have b: "B = E * ?P + f" unfolding E_def f_def by (rule div_mult_mod_eq [symmetric])
  have f: "0 \<le> f" "f < ?P" "0 \<le> E" using B by (simp_all add: E_def f_def pos_imp_zdiv_nonneg_iff)
  have m: "mag p B = (if E = 0 then f else (?P + f) * 2 ^ nat (E - 1))" by (simp add: mag_def E_def f_def Let_def)
  show ?thesis
  proof (cases "f + 1 = ?P")
    case False
    then have "0 \<le> f + 1" "f + 1 < ?P" using f by linarith+
    then have "(E * ?P + (f + 1)) div ?P = E" "(E * ?P + (f + 1)) mod ?P = f + 1" by simp_all
    moreover have "B + 1 = E * ?P + (f + 1)" using b by simp
    ultimately have "mag p (B + 1) = (if E = 0 then f + 1 else (?P + (f + 1)) * 2 ^ nat (E - 1))"
      unfolding mag_def Let_def by metis
    then show ?thesis using m by simp
  next
    case True
    then have b1: "B + 1 = (E + 1) * ?P" using b by (simp add: distrib_right)
    have "((E + 1) * ?P) div ?P = E + 1" "((E + 1) * ?P) mod ?P = 0" by simp_all
    then have "mag p (B + 1) = ?P * 2 ^ nat E" unfolding b1 mag_def Let_def using f(3) by simp
    moreover have "mag p B < ?P * 2 ^ nat E"
    proof (cases "E = 0")
      case True
      then show ?thesis using m f(2) by simp
    next
      case E: False
      then have "nat E = Suc (nat (E - 1))" using f(3) by simp
      moreover have "(?P + f) * 2 ^ nat (E - 1) < (2 * ?P) * 2 ^ nat (E - 1)" using f(2) by simp
      ultimately show ?thesis using m E by simp
    qed
    ultimately show ?thesis by simp
  qed
qed

lemma mag_mono: "0 \<le> A \<Longrightarrow> A < B \<Longrightarrow> mag p A < mag p B"
proof -
  assume A: "0 \<le> A" "A < B"
  have "mag p A < mag p (A + 1 + int n)" for n
  proof (induction n)
    case (Suc n)
    then show ?case using mag_step [of "A + 1 + int n"] A(1) by (simp add: add.commute add.left_commute)
  qed (use mag_step A(1) in simp)
  from this [of "nat (B - A - 1)"] A show ?thesis by simp
qed

lemma mag_inj: "0 \<le> A \<Longrightarrow> 0 \<le> B \<Longrightarrow> mag p A = mag p B \<Longrightarrow> A = B"
  using mag_mono [of A B] mag_mono [of B A] by (cases A B rule: linorder_cases) auto

text \<open>A value with at most \<open>p\<close> digits at a possible place is not changed by rounding.\<close>

lemma round_exact:
  assumes k: "0 < k" "k < 2 ^ p" and m: "m = k * 2 ^ j"
    and place: "emin p eb \<le> e + int j" and small: "e + int j + int (bit_length k) \<le> 2 ^ (eb - 1)"
  shows "scaled p eb (decode p eb (round_bits p eb s m e)) = Some (sg s * (k * 2 ^ nat (e + int j - emin p eb)))"
proof -
  have bk: "bit_length k \<le> p" using bit_length_le k by simp
  have bm: "bit_length m = bit_length k + j" using bit_length_shift k(1) m by simp
  define t where "t = max (emin p eb - e) (int (bit_length m) - int p)"
  have t: "t \<le> int j" "int (bit_length k) + int j - int p \<le> t" "emin p eb \<le> e + t" using place bk bm by (auto simp: t_def)
  define q where "q = (if 0 \<le> t then half_even m (nat t) else m * 2 ^ nat (- t))"
  have q: "q = k * 2 ^ nat (int j - t)"
  proof (cases "0 \<le> t")
    case True
    then have "j = nat (int j - t) + nat t" using t(1) by simp
    then have "m = (k * 2 ^ nat (int j - t)) * 2 ^ nat t" using m by (metis mult.assoc power_add)
    then show ?thesis using True half_even_exact by (simp add: q_def)
  next
    case False
    then have "nat (int j - t) = j + nat (- t)" by simp
    then show ?thesis using False m by (simp add: q_def power_add)
  qed
  have "nat (int j - t) \<le> p - bit_length k" using t(2) by simp
  then have "(2 :: int) ^ nat (int j - t) \<le> 2 ^ (p - bit_length k)" by simp
  moreover have "k < 2 ^ bit_length k" using bit_length_bounds k(1) by simp
  ultimately have "q < 2 ^ bit_length k * 2 ^ (p - bit_length k)"
    unfolding q using k(1) by (intro mult_less_le_imp_less) simp_all
  then have qp: "q < 2 ^ p" using bk by (simp add: power_add [symmetric])
  have q0: "0 < q" using k(1) by (simp add: q)
  have low: "e + t = emin p eb" if "q < 2 ^ (p - 1)"
  proof (rule ccontr)
    assume "e + t \<noteq> emin p eb"
    then have "t = int (bit_length k) + int j - int p" using bm by (auto simp: t_def max_def split: if_splits)
    then have "nat (int j - t) = p - bit_length k" using bk by simp
    moreover have "2 ^ (bit_length k - 1) \<le> k" "0 < bit_length k" using bit_length_bounds k(1) by simp_all
    ultimately have "2 ^ (bit_length k - 1) * 2 ^ (p - bit_length k) \<le> q" unfolding q by simp
    moreover have "bit_length k - 1 + (p - bit_length k) = p - 1" using \<open>0 < bit_length k\<close> bk by simp
    ultimately have "2 ^ (p - 1) \<le> q" by (metis power_add)
    with that show False by simp
  qed
  define B where "B = (e + t - emin p eb) * 2 ^ (p - 1) + q"
  have "e + t \<le> 2 ^ (eb - 1) - int p"
  proof (cases "emin p eb - e \<le> int (bit_length m) - int p")
    case True
    then show ?thesis using small bm by (simp add: t_def)
  next
    case False
    then show ?thesis using emin_neg(3) by (simp add: t_def)
  qed
  moreover have "(2 :: int) ^ eb = 2 * 2 ^ (eb - 1)" using eb by (metis One_nat_def Suc_pred' power_Suc less_trans zero_less_one)
  ultimately have "e + t - emin p eb + 2 \<le> 2 ^ eb - 1" unfolding emin_def by linarith
  then have "(e + t - emin p eb + 2) * 2 ^ (p - 1) \<le> inf_bits p eb" by (simp add: inf_bits_def)
  moreover have "(2 :: int) ^ p = 2 * 2 ^ (p - 1)" using p by (metis One_nat_def Suc_pred' power_Suc less_trans zero_less_one)
  ultimately have B: "B < inf_bits p eb" using qp unfolding B_def distrib_right by linarith
  have "0 \<le> B" using t(3) q0 unfolding B_def by simp
  moreover have "m \<noteq> 0" using k(1) m by simp
  then have "round_bits p eb s m e = sign_bits p eb s + min (inf_bits p eb) B"
    unfolding round_bits_def Let_def B_def q_def t_def by simp
  then have "round_bits p eb s m e = sign_bits p eb s + B" using B by simp
  ultimately have "scaled p eb (decode p eb (round_bits p eb s m e)) = Some (sg s * mag p B)" using scaled_decode B by simp
  moreover have "mag p B = q * 2 ^ nat (e + t - emin p eb)"
    unfolding B_def by (rule mag_bits) (use t(3) q0 qp low in auto)
  moreover have "q * 2 ^ nat (e + t - emin p eb) = k * 2 ^ (nat (int j - t) + nat (e + t - emin p eb))"
    unfolding q power_add by simp
  moreover have "nat (int j - t) + nat (e + t - emin p eb) = nat (e + int j - emin p eb)" using t by simp
  ultimately show ?thesis by simp
qed

text \<open>Integers of at most \<open>p\<close> digits: they are representable at whatever place an operation finds them.\<close>

lemma round_int:
  assumes x: "0 < x" "x \<le> 2 ^ p" and m: "m * 2 ^ nat e = x * 2 ^ nat (- e)"
  shows "denotes p eb (round_bits p eb s m e) (sg s * x)"
proof -
  obtain k j where k: "0 < k" "k < 2 ^ p" "m = k * 2 ^ j" "0 \<le> e + int j" "k * 2 ^ nat (e + int j) = x"
  proof (cases "0 < e")
    case True
    then have me: "m * 2 ^ nat e = x" using m by simp
    then have "0 < m" using x(1) by (metis mult.commute zero_less_mult_pos zero_less_numeral zero_less_power)
    moreover have "m < m * 2 ^ nat e" using \<open>0 < m\<close> True by simp
    then have "m < 2 ^ p" using me x(2) by linarith
    ultimately show ?thesis using that [of m 0] True me by simp
  next
    case False
    then have me: "m = x * 2 ^ nat (- e)" using m by simp
    show ?thesis
    proof (cases "x = 2 ^ p")
      case True
      have "(2 :: int) ^ p = 2 ^ (p - 1) * 2" using p by (metis One_nat_def Suc_pred' power_Suc2 less_trans zero_less_one)
      then show ?thesis using that [of "2 ^ (p - 1)" "nat (- e) + 1"] me True False p by simp
    next
      case False
      then show ?thesis using that [of x "nat (- e)"] me x \<open>\<not> 0 < e\<close> by simp
    qed
  qed
  have "bit_length x = bit_length k + nat (e + int j)" using bit_length_shift [OF k(1)] k(5) by metis
  moreover have "bit_length x \<le> p + 1" using bit_length_le [of x "p + 1"] x by simp
  ultimately have "e + int j + int (bit_length k) \<le> 2 ^ (eb - 1)" using k(4) emin_neg(2) by linarith
  moreover have "emin p eb \<le> e + int j" using k(4) emin_neg(1) by linarith
  moreover have "nat (e + int j - emin p eb) = nat (e + int j) + nat (- emin p eb)" using k(4) emin_neg(1) by simp
  ultimately show ?thesis
    using round_exact [OF k(1-3), of e s] k(5) by (simp add: denotes_def power_add mult.assoc [symmetric])
qed

lemma zero_denotes: "denotes p eb (sign_bits p eb s) 0"
proof -
  have "0 < inf_bits p eb" using eb by (simp add: inf_bits_def)
  from scaled_decode [OF order_refl this, of s] show ?thesis by (simp add: denotes_def mag_def)
qed

lemma round_bits_int:
  assumes "\<bar>x\<bar> \<le> 2 ^ p" "\<bar>y\<bar> * 2 ^ nat e = \<bar>x\<bar> * 2 ^ nat (- e)" "s = (x < 0) \<or> x = 0"
  shows "denotes p eb (round_bits p eb s \<bar>y\<bar> e) x"
proof (cases "x = 0")
  case True
  then show ?thesis using assms(2) zero_denotes by (simp add: round_bits_def)
next
  case False
  then have "sg s * \<bar>x\<bar> = x" using assms(3) by (auto simp: sg_def)
  then show ?thesis using round_int [of "\<bar>x\<bar>" "\<bar>y\<bar>" e s] assms(1,2) False by simp
qed

lemma denotesE:
  assumes "denotes p eb b x"
  obtains s m e where "decode p eb b = F_fin s m e" "sg s * m * 2 ^ nat (e - emin p eb) = x * 2 ^ nat (- emin p eb)" "emin p eb \<le> e" "0 \<le> m"
proof -
  from assms obtain s m e where d: "decode p eb b = F_fin s m e" "sg s * m * 2 ^ nat (e - emin p eb) = x * 2 ^ nat (- emin p eb)"
    by (auto simp: denotes_def scaled_def split: fval.splits)
  moreover have "emin p eb \<le> e" "0 \<le> m" using decode_fin [OF d(1)] by simp_all
  ultimately show ?thesis using that by blast
qed

text \<open>Both sides of an equation of scaled values at the exponent that is in force.\<close>

lemma rescale:
  assumes "emin p eb \<le> e" "X * 2 ^ nat (e - emin p eb) = x * (2 :: int) ^ nat (- emin p eb)"
  shows "X * 2 ^ nat e = x * 2 ^ nat (- e)"
proof (cases "0 \<le> e")
  case True
  then have "nat (e - emin p eb) = nat e + nat (- emin p eb)" using emin_neg(1) by simp
  then show ?thesis using assms(2) True by (simp add: power_add)
next
  case False
  then have "nat (- emin p eb) = nat (- e) + nat (e - emin p eb)" using assms(1) by simp
  then show ?thesis using assms(2) False by (simp add: power_add)
qed

lemma add_int:
  assumes "denotes p eb a x" "denotes p eb b y" "\<bar>x + y\<bar> \<le> 2 ^ p"
  shows "denotes p eb (add_bits p eb (decode p eb a) (decode p eb b)) (x + y)"
proof -
  obtain s m e where a: "decode p eb a = F_fin s m e" "sg s * m * 2 ^ nat (e - emin p eb) = x * 2 ^ nat (- emin p eb)" "emin p eb \<le> e"
    using assms(1) by (rule denotesE)
  obtain s' m' e' where b: "decode p eb b = F_fin s' m' e'" "sg s' * m' * 2 ^ nat (e' - emin p eb) = y * 2 ^ nat (- emin p eb)" "emin p eb \<le> e'"
    using assms(2) by (rule denotesE)
  define e0 where "e0 = min e e'"
  define X where "X = sg s * m * 2 ^ nat (e - e0) + sg s' * m' * 2 ^ nat (e' - e0)"
  have e0: "emin p eb \<le> e0" "e0 \<le> e" "e0 \<le> e'" using a(3) b(3) by (auto simp: e0_def)
  have "nat (e - emin p eb) = nat (e - e0) + nat (e0 - emin p eb)" "nat (e' - emin p eb) = nat (e' - e0) + nat (e0 - emin p eb)"
    using e0 by simp_all
  then have "X * 2 ^ nat (e0 - emin p eb) = (x + y) * 2 ^ nat (- emin p eb)"
    using a(2) b(2) by (simp add: X_def distrib_right power_add mult.assoc)
  then have X: "X * 2 ^ nat e0 = (x + y) * 2 ^ nat (- e0)" using rescale [OF e0(1)] by blast
  have sum: "add_bits p eb (decode p eb a) (decode p eb b) =
      (if X = 0 then sign_bits p eb (s \<and> s') else round_bits p eb (X < 0) \<bar>X\<bar> e0)"
    by (simp add: a(1) b(1) Let_def X_def e0_def)
  show ?thesis
  proof (cases "X = 0")
    case True
    then have "x + y = 0" using X by simp
    then show ?thesis using True sum zero_denotes by simp
  next
    case False
    have "\<bar>X\<bar> * 2 ^ nat e0 = \<bar>x + y\<bar> * 2 ^ nat (- e0)" using arg_cong [OF X, of abs] by (simp add: abs_mult)
    moreover have "X < 0 \<longleftrightarrow> x + y < 0" using pow2_sign [OF X] by simp
    ultimately show ?thesis using round_bits_int [OF assms(3)] False sum by simp
  qed
qed

lemma mul_int:
  assumes "denotes p eb a x" "denotes p eb b y" "\<bar>x * y\<bar> \<le> 2 ^ p"
  shows "denotes p eb (mul_bits p eb (decode p eb a) (decode p eb b)) (x * y)"
proof -
  obtain s m e where a: "decode p eb a = F_fin s m e" "sg s * m * 2 ^ nat (e - emin p eb) = x * 2 ^ nat (- emin p eb)" "emin p eb \<le> e" "0 \<le> m"
    using assms(1) by (rule denotesE)
  obtain s' m' e' where b: "decode p eb b = F_fin s' m' e'" "sg s' * m' * 2 ^ nat (e' - emin p eb) = y * 2 ^ nat (- emin p eb)" "emin p eb \<le> e'" "0 \<le> m'"
    using assms(2) by (rule denotesE)
  have X: "sg s * m * 2 ^ nat e = x * 2 ^ nat (- e)" "sg s' * m' * 2 ^ nat e' = y * 2 ^ nat (- e')"
    using rescale a(2,3) b(2,3) by blast+
  have prod: "(sg s * m * (sg s' * m')) * (2 ^ nat e * 2 ^ nat e') = (x * y) * (2 ^ nat (- e) * 2 ^ nat (- e'))"
    using arg_cong2 [OF X, of "(*)"] by (simp add: ac_simps)
  have n: "nat e + nat e' + nat (- (e + e')) = nat (- e) + nat (- e') + nat (e + e')" by arith
  have "(sg s * m * (sg s' * m')) * 2 ^ nat (e + e') * (2 ^ nat (- e) * 2 ^ nat (- e')) =
      (sg s * m * (sg s' * m')) * (2 ^ nat e * 2 ^ nat e') * 2 ^ nat (- (e + e'))"
    using arg_cong [OF n [symmetric], of "\<lambda>i. (sg s * m * (sg s' * m')) * 2 ^ i"] by (simp add: power_add ac_simps)
  also have "\<dots> = (x * y) * 2 ^ nat (- (e + e')) * (2 ^ nat (- e) * 2 ^ nat (- e'))" using prod by (simp add: ac_simps)
  finally have P: "(sg s * m * (sg s' * m')) * 2 ^ nat (e + e') = (x * y) * 2 ^ nat (- (e + e'))" by simp
  have "\<bar>m * m'\<bar> * 2 ^ nat (e + e') = \<bar>x * y\<bar> * 2 ^ nat (- (e + e'))"
    using arg_cong [OF P, of abs] by (simp add: abs_mult sg_def split: if_splits)
  moreover have "(s \<noteq> s') = (x * y < 0) \<or> x * y = 0"
    using pow2_sign [OF P] a(4) b(4) by (cases s; cases s') (auto simp: sg_def mult_less_0_iff zero_less_mult_iff)
  moreover have "\<bar>m * m'\<bar> = m * m'" using a(4) b(4) by simp
  ultimately show ?thesis using round_bits_int [OF assms(3), of "m * m'" "e + e'" "s \<noteq> s'"] a(1) b(1) by simp
qed

lemma of_int: "\<bar>x\<bar> \<le> 2 ^ p \<Longrightarrow> denotes p eb (round_bits p eb (x < 0) \<bar>x\<bar> 0) x"
  by (rule round_bits_int) simp_all

lemma truncate_int:
  assumes "denotes p eb b x"
  shows "truncate_val (decode p eb b) = Some x"
proof -
  obtain s m e where a: "decode p eb b = F_fin s m e" "sg s * m * 2 ^ nat (e - emin p eb) = x * 2 ^ nat (- emin p eb)" "emin p eb \<le> e"
    using assms by (rule denotesE)
  then have X: "sg s * m * 2 ^ nat e = x * 2 ^ nat (- e)" using rescale by blast
  show ?thesis
  proof (cases "0 \<le> e")
    case True
    then show ?thesis using a(1) X by (simp add: mult.assoc)
  next
    case False
    then have "sg s * m = x * 2 ^ nat (- e)" using X by simp
    then have "m = (sg s * x) * 2 ^ nat (- e)" by (cases s) (simp_all add: sg_def)
    then have "m div 2 ^ nat (- e) = sg s * x" by simp
    then have "sg s * (m div 2 ^ nat (- e)) = x" by (simp add: sg_def)
    then show ?thesis using a(1) False by simp
  qed
qed

text \<open>The results are patterns of the format, and a pattern of a finite number is determined by sign and magnitude.\<close>

lemma top_bits: "inf_bits p eb + 2 ^ (p - 1) = 2 ^ (p + eb - 1)" "0 < inf_bits p eb"
proof -
  show "inf_bits p eb + 2 ^ (p - 1) = 2 ^ (p + eb - 1)" unfolding inf_bits_def split_sign by (simp add: left_diff_distrib)
  show "0 < inf_bits p eb" using eb by (simp add: inf_bits_def)
qed

lemma width: "(2 :: int) ^ (p + eb) = 2 * 2 ^ (p + eb - 1)"
  using p by (metis One_nat_def Suc_pred' add_gr_0 power_Suc less_trans zero_less_one)

lemma sign_bits_range: "0 \<le> sign_bits p eb s \<and> sign_bits p eb s \<le> 2 ^ (p + eb - 1)"
  by (simp add: sign_bits_def)

lemma room: "0 \<le> sign_bits p eb s" "sign_bits p eb s < 2 ^ (p + eb)" "sign_bits p eb s + inf_bits p eb < 2 ^ (p + eb)"
proof -
  have "(0 :: int) < 2 ^ (p - 1)" "(0 :: int) < 2 ^ (p + eb - 1)" by simp_all
  then show "0 \<le> sign_bits p eb s" "sign_bits p eb s < 2 ^ (p + eb)" "sign_bits p eb s + inf_bits p eb < 2 ^ (p + eb)"
    using sign_bits_range [of s] width top_bits by linarith+
qed

lemma half_even_nonneg: "0 \<le> m \<Longrightarrow> 0 \<le> half_even m t"
proof -
  assume "0 \<le> m"
  then have "0 \<le> m div 2 ^ t" by (simp add: pos_imp_zdiv_nonneg_iff)
  then show ?thesis by (auto simp: half_even_def Let_def)
qed

lemma round_bits_range: "0 \<le> m \<Longrightarrow> 0 \<le> round_bits p eb s m e \<and> round_bits p eb s m e < 2 ^ (p + eb)"
proof -
  assume m: "0 \<le> m"
  define t where "t = max (emin p eb - e) (int (bit_length m) - int p)"
  define q where "q = (if 0 \<le> t then half_even m (nat t) else m * 2 ^ nat (- t))"
  have "0 \<le> q" using m half_even_nonneg by (simp add: q_def)
  moreover have "0 \<le> e + t - emin p eb" by (simp add: t_def)
  ultimately have B: "0 \<le> (e + t - emin p eb) * 2 ^ (p - 1) + q" by simp
  have r: "round_bits p eb s m e = (if m = 0 then sign_bits p eb s
      else sign_bits p eb s + min (inf_bits p eb) ((e + t - emin p eb) * 2 ^ (p - 1) + q))"
    unfolding round_bits_def Let_def q_def t_def ..
  show ?thesis
  proof (cases "m = 0")
    case True
    then show ?thesis using r room(1,2) by simp
  next
    case False
    define M where "M = min (inf_bits p eb) ((e + t - emin p eb) * 2 ^ (p - 1) + q)"
    have "0 \<le> M" "M \<le> inf_bits p eb" using B top_bits(2) by (simp_all add: M_def)
    moreover have "round_bits p eb s m e = sign_bits p eb s + M" using r False by (simp add: M_def)
    ultimately show ?thesis using room [of s] by linarith
  qed
qed

lemma special_range: "0 \<le> nan_bits p eb \<and> nan_bits p eb < 2 ^ (p + eb)" "0 \<le> encode p eb (F_inf s) \<and> encode p eb (F_inf s) < 2 ^ (p + eb)"
proof -
  have h: "(2 :: int) ^ (p - 1) = 2 * 2 ^ (p - 2)" using p by (metis Suc_diff_Suc Suc_1 power_Suc)
  have "(0 :: int) < 2 ^ (p - 2)" by simp
  then show "0 \<le> nan_bits p eb \<and> nan_bits p eb < 2 ^ (p + eb)"
    using sign_bits_range [of True] top_bits width h unfolding nan_bits_def by linarith
  show "0 \<le> encode p eb (F_inf s) \<and> encode p eb (F_inf s) < 2 ^ (p + eb)"
    using room [of s] top_bits(2) by (simp add: encode_def)
qed

lemma add_bits_range: "0 \<le> add_bits p eb v w \<and> add_bits p eb v w < 2 ^ (p + eb)"
proof -
  have "0 \<le> sign_bits p eb s \<and> sign_bits p eb s < 2 ^ (p + eb)" for s using room by simp
  moreover have "0 \<le> round_bits p eb s \<bar>x\<bar> e \<and> round_bits p eb s \<bar>x\<bar> e < 2 ^ (p + eb)" for s x e
    by (rule round_bits_range) simp
  ultimately show ?thesis using special_range by (cases "(p, eb, v, w)" rule: add_bits.cases) (simp_all add: Let_def)
qed

lemma mul_bits_range: "0 \<le> mul_bits p eb (decode p eb a) (decode p eb b) \<and> mul_bits p eb (decode p eb a) (decode p eb b) < 2 ^ (p + eb)"
proof (cases "decode p eb a"; cases "decode p eb b")
  fix s m e s' m' e' assume d: "decode p eb a = F_fin s m e" "decode p eb b = F_fin s' m' e'"
  then have "0 \<le> m * m'" using decode_fin by (metis mult_nonneg_nonneg)
  then show ?thesis using d round_bits_range by simp
qed (use special_range in simp_all)

lemma pattern_split:
  assumes "0 \<le> b" "b < 2 ^ (p + eb)"
  obtains s B where "b = sign_bits p eb s + B" "0 \<le> B" "B < 2 ^ (p + eb - 1)"
proof (cases "2 ^ (p + eb - 1) \<le> b")
  case True
  then show ?thesis using that [of True "b - 2 ^ (p + eb - 1)"] assms width by (simp add: sign_bits_def)
next
  case False
  then show ?thesis using that [of False b] assms by (simp add: sign_bits_def)
qed

lemma decode_special:
  assumes "inf_bits p eb \<le> B" "B < 2 ^ (p + eb - 1)"
  shows "decode p eb (sign_bits p eb s + B) = (if B = inf_bits p eb then F_inf s else F_nan)"
proof -
  let ?P = "(2 :: int) ^ (p - 1)"
  define f where "f = B - inf_bits p eb"
  have f: "0 \<le> f" "f < ?P" using assms top_bits(1) by (simp_all add: f_def)
  have B: "B = (2 ^ eb - 1) * ?P + f" by (simp add: f_def inf_bits_def)
  have S: "sign_bits p eb s = (if s then 2 ^ eb else 0) * ?P" unfolding sign_bits_def split_sign by simp
  define K where "K = (if s then 2 ^ eb else 0) + (2 ^ eb - 1 :: int)"
  have K: "sign_bits p eb s + B = K * ?P + f" unfolding S B K_def by (simp add: distrib_right)
  then have "(sign_bits p eb s + B) div ?P = K" "(sign_bits p eb s + B) mod ?P = f" using f by simp_all
  moreover have "K mod 2 ^ eb = 2 ^ eb - 1"
  proof -
    have "(0 :: int) \<le> 2 ^ eb - 1" "(2 ^ eb - 1 :: int) < 2 ^ eb" by simp_all
    then have "(2 ^ eb - 1 :: int) mod 2 ^ eb = 2 ^ eb - 1" by (rule mod_pos_pos_trivial)
    moreover have "(2 ^ eb + (2 ^ eb - 1) :: int) mod 2 ^ eb = (2 ^ eb - 1) mod 2 ^ eb" by (rule mod_add_self1)
    ultimately show ?thesis by (cases s) (simp_all add: K_def)
  qed
  moreover have "2 ^ (p + eb - 1) \<le> sign_bits p eb s + B \<longleftrightarrow> s"
    using assms top_bits(2) by (simp add: sign_bits_def)
  ultimately show ?thesis by (auto simp: decode_def Let_def f_def)
qed

lemma decode_unique:
  assumes "0 \<le> a" "a < 2 ^ (p + eb)" "0 \<le> b" "b < 2 ^ (p + eb)"
    and "decode p eb a = F_fin s m e" "decode p eb b = F_fin s m' e'"
    and "m * 2 ^ nat (e - emin p eb) = m' * 2 ^ nat (e' - emin p eb)"
  shows "a = b"
proof -
  have fin: "\<exists>B. x = sign_bits p eb s + B \<and> 0 \<le> B \<and> m * 2 ^ nat (e - emin p eb) = mag p B"
    if x: "0 \<le> x" "x < 2 ^ (p + eb)" "decode p eb x = F_fin s m e" for x s m e
  proof -
    obtain s1 B where B: "x = sign_bits p eb s1 + B" "0 \<le> B" "B < 2 ^ (p + eb - 1)" by (rule pattern_split [OF x(1,2)])
    have i: "B < inf_bits p eb"
    proof (rule ccontr)
      assume "\<not> B < inf_bits p eb"
      then have "decode p eb x = (if B = inf_bits p eb then F_inf s1 else F_nan)" unfolding B(1) by (intro decode_special B(3)) simp
      then show False using x(3) by (simp split: if_splits)
    qed
    have "s1 = s" using x(3) decode_finite [OF B(2) i, of s1] B(1) by (simp split: if_splits)
    moreover have "sg s * m * 2 ^ nat (e - emin p eb) = sg s * mag p B"
      using scaled_decode [OF B(2) i, of s] x(3) B(1) \<open>s1 = s\<close> by (simp add: scaled_def)
    then have "m * 2 ^ nat (e - emin p eb) = mag p B" by (cases s) (simp_all add: sg_def)
    ultimately show ?thesis using B by blast
  qed
  from fin [OF assms(1,2,5)] fin [OF assms(3,4,6)] assms(7) show ?thesis using mag_inj by metis
qed

lemma decode_upper:
  assumes "decode p eb b = F_fin s m e"
  shows "m < 2 ^ p" "e + int p \<le> 2 ^ (eb - 1)"
proof -
  define E f where "E = (b div 2 ^ (p - 1)) mod 2 ^ eb" and "f = b mod 2 ^ (p - 1)"
  have E: "0 \<le> E" "E < 2 ^ eb" and f: "0 \<le> f" "f < 2 ^ (p - 1)" by (simp_all add: E_def f_def)
  have c: "E \<noteq> 2 ^ eb - 1 \<and> ((m = f \<and> e = emin p eb) \<or> (m = 2 ^ (p - 1) + f \<and> e = emin p eb + E - 1))"
    using assms unfolding decode_def Let_def E_def [symmetric] f_def [symmetric]
    by (cases "E = 2 ^ eb - 1"; cases "E = 0"; cases "f = 0") simp_all
  have h: "(2 :: int) ^ p = 2 * 2 ^ (p - 1)" using p by (metis One_nat_def Suc_pred' power_Suc less_trans zero_less_one)
  show "m < 2 ^ p" using c f unfolding h by (elim conjE disjE) linarith+
  have e2: "(2 :: int) ^ eb = 2 * 2 ^ (eb - 1)" using eb by (metis One_nat_def Suc_pred' power_Suc less_trans zero_less_one)
  have "e \<le> emin p eb + 2 ^ eb - 3 \<or> e = emin p eb" using c E by linarith
  then show "e + int p \<le> 2 ^ (eb - 1)" using emin_neg(3) e2 unfolding emin_def by linarith
qed

lemma round_exact_fin:
  assumes k: "0 \<le> k" "k < 2 ^ p" and m: "m = k * 2 ^ j"
    and place: "emin p eb \<le> e + int j" and small: "e + int j + int (bit_length k) \<le> 2 ^ (eb - 1)"
  shows "\<exists>m1 e1. decode p eb (round_bits p eb s m e) = F_fin s m1 e1 \<and> emin p eb \<le> e1 \<and> 0 \<le> m1
    \<and> m1 * 2 ^ nat (e1 - emin p eb) = k * 2 ^ nat (e + int j - emin p eb)"
proof (cases "k = 0")
  case True
  then have "round_bits p eb s m e = sign_bits p eb s + 0" using m by (simp add: round_bits_def)
  then have "decode p eb (round_bits p eb s m e) = F_fin s 0 (emin p eb)" using decode_finite [of 0 s] top_bits(2) by simp
  then show ?thesis using True by simp
next
  case False
  then have k0: "0 < k" using k(1) by simp
  obtain s1 m1 e1 where d: "decode p eb (round_bits p eb s m e) = F_fin s1 m1 e1"
      "sg s1 * m1 * 2 ^ nat (e1 - emin p eb) = sg s * (k * 2 ^ nat (e + int j - emin p eb))"
    using round_exact [OF k0 k(2) m place small, of s] by (auto simp: scaled_def split: fval.splits)
  have pos: "emin p eb \<le> e1" "0 \<le> m1" using decode_fin [OF d(1)] by simp_all
  have "sg s1 * m1 * 2 ^ nat (e1 - emin p eb) = (sg s * k) * 2 ^ nat (e + int j - emin p eb)" using d(2) by (simp add: mult.assoc)
  from pow2_sign [OF this] have "s1 = s" using k0 pos(2) by (cases s; cases s1) (auto simp: sg_def)
  then have "m1 * 2 ^ nat (e1 - emin p eb) = k * 2 ^ nat (e + int j - emin p eb)" using d(2) by (cases s) (simp_all add: sg_def)
  then show ?thesis using d(1) pos \<open>s1 = s\<close> by blast
qed

lemma decode_inf:
  "decode p eb (encode p eb (F_inf s)) = F_inf s"
  "0 \<le> b \<Longrightarrow> b < 2 ^ (p + eb) \<Longrightarrow> decode p eb b = F_inf s \<Longrightarrow> b = encode p eb (F_inf s)"
proof -
  have room: "inf_bits p eb < 2 ^ (p + eb - 1)" using top_bits(1) zero_less_power [of "2 :: int" "p - 1"] by linarith
  show "decode p eb (encode p eb (F_inf s)) = F_inf s" using decode_special [OF order_refl room] by (simp add: encode_def)
  assume b: "0 \<le> b" "b < 2 ^ (p + eb)" "decode p eb b = F_inf s"
  obtain s1 B where B: "b = sign_bits p eb s1 + B" "0 \<le> B" "B < 2 ^ (p + eb - 1)" by (rule pattern_split [OF b(1,2)])
  have "\<not> B < inf_bits p eb" using b(3) decode_finite [OF B(2), of s1] B(1) by (auto split: if_splits)
  then have "decode p eb b = (if B = inf_bits p eb then F_inf s1 else F_nan)" unfolding B(1) by (intro decode_special B(3)) simp
  then show "b = encode p eb (F_inf s)" using b(3) B(1) by (simp add: encode_def split: if_splits)
qed

lemma denotes_unique:
  assumes "0 \<le> a" "a < 2 ^ (p + eb)" "0 \<le> b" "b < 2 ^ (p + eb)" "denotes p eb a x" "denotes p eb b x" "x \<noteq> 0"
  shows "a = b"
proof -
  obtain s m e where a: "decode p eb a = F_fin s m e" "sg s * m * 2 ^ nat (e - emin p eb) = x * 2 ^ nat (- emin p eb)" "0 \<le> m"
    using assms(5) by (rule denotesE)
  obtain s' m' e' where b: "decode p eb b = F_fin s' m' e'" "sg s' * m' * 2 ^ nat (e' - emin p eb) = x * 2 ^ nat (- emin p eb)" "0 \<le> m'"
    using assms(6) by (rule denotesE)
  have "s = (x < 0)" using pow2_sign [OF a(2)] a(3) assms(7) by (cases s) (auto simp: sg_def)
  moreover have "s' = (x < 0)" using pow2_sign [OF b(2)] b(3) assms(7) by (cases s') (auto simp: sg_def)
  ultimately have "s' = s" by simp
  moreover from this have "m * 2 ^ nat (e - emin p eb) = m' * 2 ^ nat (e' - emin p eb)"
    using a(2) b(2) by (cases s) (simp_all add: sg_def)
  ultimately show ?thesis using decode_unique assms(1-4) a(1) b(1) by blast
qed

end

interpretation dfmt: ieee_format 53 11
  by unfold_locales simp_all

interpretation sfmt: ieee_format 24 8
  by unfold_locales simp_all

section \<open>The operations of the two types on integers\<close>

definition d_denotes :: "double \<Rightarrow> int \<Rightarrow> bool" where "d_denotes a x \<longleftrightarrow> denotes 53 11 (uint a) x"
definition s_denotes :: "single \<Rightarrow> int \<Rightarrow> bool" where "s_denotes a x \<longleftrightarrow> denotes 24 8 (uint a) x"

lemma uint_pattern: "0 \<le> b \<and> b < 2 ^ (53 + 11) \<Longrightarrow> uint (word_of_int b :: double) = b"
  "0 \<le> b \<and> b < 2 ^ (24 + 8) \<Longrightarrow> uint (word_of_int b :: single) = b"
  by (simp_all add: unsigned_of_int take_bit_int_eq_self)

lemma uint_range: "0 \<le> uint (x :: double) \<and> uint x < 2 ^ (53 + 11)" "0 \<le> uint (y :: single) \<and> uint y < 2 ^ (24 + 8)"
  using uint_lt2p [of x] uint_lt2p [of y] by simp_all

lemma d_add_int: "d_denotes a x \<Longrightarrow> d_denotes b y \<Longrightarrow> \<bar>x + y\<bar> \<le> 2 ^ 53 \<Longrightarrow> d_denotes (d_add a b) (x + y)"
  unfolding d_denotes_def d_add_def dval_def by (subst uint_pattern(1) [OF dfmt.add_bits_range]) (rule dfmt.add_int)

lemma s_add_int: "s_denotes a x \<Longrightarrow> s_denotes b y \<Longrightarrow> \<bar>x + y\<bar> \<le> 2 ^ 24 \<Longrightarrow> s_denotes (s_add a b) (x + y)"
  unfolding s_denotes_def s_add_def sval_def by (subst uint_pattern(2) [OF sfmt.add_bits_range]) (rule sfmt.add_int)

lemma d_mul_int: "d_denotes a x \<Longrightarrow> d_denotes b y \<Longrightarrow> \<bar>x * y\<bar> \<le> 2 ^ 53 \<Longrightarrow> d_denotes (d_mul a b) (x * y)"
  unfolding d_denotes_def d_mul_def dval_def by (subst uint_pattern(1) [OF dfmt.mul_bits_range]) (rule dfmt.mul_int)

lemma s_mul_int: "s_denotes a x \<Longrightarrow> s_denotes b y \<Longrightarrow> \<bar>x * y\<bar> \<le> 2 ^ 24 \<Longrightarrow> s_denotes (s_mul a b) (x * y)"
  unfolding s_denotes_def s_mul_def sval_def by (subst uint_pattern(2) [OF sfmt.mul_bits_range]) (rule sfmt.mul_int)

lemma d_of_int_denotes: "\<bar>x\<bar> \<le> 2 ^ 53 \<Longrightarrow> d_denotes (d_of_int x) x"
  unfolding d_denotes_def d_of_int_def by (subst uint_pattern(1) [OF dfmt.round_bits_range]) (simp_all add: dfmt.of_int)

lemma s_of_int_denotes: "\<bar>x\<bar> \<le> 2 ^ 24 \<Longrightarrow> s_denotes (s_of_int x) x"
  unfolding s_denotes_def s_of_int_def by (subst uint_pattern(2) [OF sfmt.round_bits_range]) (simp_all add: sfmt.of_int)

lemma s_denotes_unique: "s_denotes a x \<Longrightarrow> s_denotes b x \<Longrightarrow> x \<noteq> 0 \<Longrightarrow> a = b"
  using sfmt.denotes_unique [of "uint a" "uint b" x] uint_range(2) [of a] uint_range(2) [of b]
  by (simp add: s_denotes_def word_uint_eq_iff)

lemma d_denotes_unique: "d_denotes a x \<Longrightarrow> d_denotes b x \<Longrightarrow> x \<noteq> 0 \<Longrightarrow> a = b"
  using dfmt.denotes_unique [of "uint a" "uint b" x] uint_range(1) [of a] uint_range(1) [of b]
  by (simp add: d_denotes_def word_uint_eq_iff)

lemma d_zero_denotes: "d_denotes 0 0" "s_denotes 0 0"
  using dfmt.zero_denotes [of False] sfmt.zero_denotes [of False] by (simp_all add: d_denotes_def s_denotes_def sign_bits_def)

end
