(* ===== verification/Float_Programs.thy ===== *)
theory Float_Programs
  imports Float_Bits Data_Layout
begin

text \<open>
  The floating-point programs: the functions of \<open>3.11/fp_asm.c\<close> and the demonstration of negative zero on them, the variadic calls of
  \<open>vararg.c\<close>, the sum of decimal constants in \<open>exp_precision.cpp\<close>, and the array sums of \<open>6.4-6.5\<close> (\<open>conflict.c\<close>, \<open>wss_scan.c\<close>)
  and \<open>9.1-9.5/locality\<close>, on the bit patterns of the theory \<open>Float_Bits\<close>.
\<close>

section \<open>fp_asm.c\<close>

definition fp_add :: "double \<Rightarrow> double \<Rightarrow> double" where "fp_add a b = d_add a b"

definition i2d :: "int \<Rightarrow> double" where "i2d x = d_of_int x"

definition fp_mix :: "int \<Rightarrow> double \<Rightarrow> int \<Rightarrow> double \<Rightarrow> int \<Rightarrow> double" where
  "fp_mix i1 d1 i2 d2 i3 = d_add (d_add (d_mul d1 (i2d i1)) (d_mul d2 (i2d i2))) (i2d i3)"

definition f2d :: "single \<Rightarrow> double" where "f2d x = word_of_int (encode 53 11 (sval x))"
definition d2f :: "double \<Rightarrow> single" where "d2f x = word_of_int (encode 24 8 (dval x))"
definition d2i :: "double \<Rightarrow> int option" where "d2i x = d_to_range (- (2 ^ 31)) (2 ^ 31 - 1) x"
definition d2l :: "double \<Rightarrow> int option" where "d2l x = d_to_range (- (2 ^ 63)) (2 ^ 63 - 1) x"
definition d2u :: "double \<Rightarrow> int option" where "d2u x = d_to_range 0 (2 ^ 32 - 1) x"

text \<open>The sign is a bit: \<open>fp_neg\<close> flips it and \<open>__builtin_fabs\<close> clears it, whatever the other bits are.\<close>

definition fp_neg :: "double \<Rightarrow> double" where "fp_neg x = x XOR 0x8000000000000000"
definition fp_abs :: "double \<Rightarrow> double" where "fp_abs x = (if d_lt x 0 then fp_neg x else x)"
definition fp_fabs :: "double \<Rightarrow> double" where "fp_fabs x = x AND 0x7FFFFFFFFFFFFFFF"

definition fp_lt :: "double \<Rightarrow> double \<Rightarrow> int" where "fp_lt a b = (if d_lt a b then 1 else 0)"
definition fp_eq :: "double \<Rightarrow> double \<Rightarrow> int" where "fp_eq a b = (if d_eq a b then 1 else 0)"

definition fp_cmp3 :: "double \<Rightarrow> double \<Rightarrow> int" where
  "fp_cmp3 a b = (if d_lt a b then -1 else if d_lt b a then 1 else if d_eq a b then 0 else 2)"

text \<open>The constant 3.14 is the nearest \<open>double\<close>.\<close>

definition fp_zero :: double where "fp_zero = 0"
definition fp_one :: double where "fp_one = 0x3FF0000000000000"
definition fp_scale :: "double \<Rightarrow> double" where "fp_scale x = d_add (d_mul x 0x40091EB851EB851F) fp_one"
definition flt_add :: "single \<Rightarrow> single \<Rightarrow> single" where "flt_add a b = s_add a b"

section \<open>negzero.c, vararg.c and exp_precision.cpp\<close>

text \<open>What \<open>show\<close> prints: the name, the value and its bits; the text of a value is the library's.\<close>

definition show_double :: "bytes \<Rightarrow> double \<Rightarrow> bytes \<times> double \<times> 64 word" where
  "show_double name v = (let bits = v in (name, v, bits))"

definition NAN :: double where "NAN = 0x7FF8000000000000"

definition negzero_main :: "(bytes \<times> double \<times> 64 word) list" where
  "negzero_main =
     (let nz = fp_neg 0; nnan = fp_neg NAN
      in [show_double ''fp_abs(-0.0)'' (fp_abs nz), show_double ''fp_fabs(-0.0)'' (fp_fabs nz),
          show_double ''fp_abs(-NaN)'' (fp_abs nnan), show_double ''fp_fabs(-NaN)'' (fp_fabs nnan)])"

text \<open>A value that lives across a call of the external \<open>work\<close>.\<close>

definition keep :: "(double \<Rightarrow> double) \<Rightarrow> double \<Rightarrow> double" where "keep work x = d_add (work x) x"
definition keep_int :: "(int \<Rightarrow> int) \<Rightarrow> int \<Rightarrow> int" where "keep_int iwork x = c_long (iwork x + x)"

text \<open>The variadic calls of \<open>vararg.c\<close>; \<open>fmt\<close> is the text \<open>%f\<close> gives for a \<open>double\<close>.\<close>

definition vararg_p0 :: bytes where "vararg_p0 = ''none'' @ [LF]"
definition vararg_p1 :: "(double \<Rightarrow> bytes) \<Rightarrow> double \<Rightarrow> bytes" where "vararg_p1 fmt x = fmt x @ [LF]"
definition vararg_p2 :: "(double \<Rightarrow> bytes) \<Rightarrow> double \<Rightarrow> double \<Rightarrow> bytes" where "vararg_p2 fmt x y = fmt x @ '' '' @ fmt y @ [LF]"

text \<open>The constants 0.1, 0.2 and 0.3 as the nearest doubles; the comparison and the fields \<open>printDoubleBits\<close> shows.\<close>

definition d01 :: double where "d01 = 0x3FB999999999999A"
definition d02 :: double where "d02 = 0x3FC999999999999A"
definition d03 :: double where "d03 = 0x3FD3333333333333"

definition exp_precision_main :: "bool \<times> (c_word \<times> c_word \<times> c_word) list" where
  "exp_precision_main =
     (d_eq (d_add d01 d02) d03, [printDoubleBits d01, printDoubleBits d02, printDoubleBits d03, printDoubleBits (d_add d01 d02)])"

section \<open>Array sums\<close>

text \<open>\<open>sum += x[i] * y[i]\<close>: the product is a \<open>float\<close>, the acc a \<open>double\<close>.\<close>

definition dot_step :: "single list \<Rightarrow> single list \<Rightarrow> double \<Rightarrow> nat \<Rightarrow> double" where
  "dot_step x y acc i = d_add acc (f2d (s_mul (x ! i) (y ! i)))"

definition dotprod_n :: "single list \<Rightarrow> single list \<Rightarrow> nat \<Rightarrow> double" where
  "dotprod_n x y n = foldl (dot_step x y) 0 [0..<n]"

definition CONFLICT_N :: nat where "CONFLICT_N = 2 ^ 12"

definition conflict_dotprod :: "single list \<Rightarrow> single list \<Rightarrow> double" where
  "conflict_dotprod x y = foldl (dot_step x y) 0 [0..<CONFLICT_N]"

definition conflict_main :: double where
  "conflict_main =
     (let x = map (\<lambda>i. s_of_int (int i)) [0..<CONFLICT_N]; y = map (\<lambda>i. s_of_int (int i)) [0..<CONFLICT_N]
      in conflict_dotprod x y)"

text \<open>
  \<open>wss_scan\<close>: \<open>n\<close> and \<open>rep\<close> are the numbers \<open>atol\<close> and \<open>atoi\<close> read, here not negative; the result is the status
  and what is printed (the sizes and the acc), \<open>None\<close> when \<open>malloc\<close> fails: the arrays are then written through null.
\<close>

definition wss_main :: "nat \<Rightarrow> bool \<Rightarrow> nat \<Rightarrow> nat \<Rightarrow> (nat \<times> (nat \<times> nat \<times> nat \<times> double) option) option" where
  "wss_main argc malloc_ok n rep =
     (if argc \<noteq> 3 then Some (1, None)
      else if \<not> malloc_ok \<and> 0 < n then None
      else let x = map (\<lambda>i. s_of_int (int i)) [0..<n]; y = map (\<lambda>i. s_of_int (int i)) [0..<n];
               acc = ((\<lambda>acc. d_add acc (dotprod_n x y n)) ^^ rep) 0
           in Some (0, Some (n, n * 4 * 2 div 1024, rep, acc)))"

definition LOC_N :: nat where "LOC_N = 64 * 1024 * 1024"
definition LOC_BLOCK :: nat where "LOC_BLOCK = 256 * 1024"

text \<open>The two orders of adding every element ten times, for an array of \<open>n\<close> elements and blocks of \<open>block\<close>.\<close>

definition add_range :: "single list \<Rightarrow> nat \<Rightarrow> nat \<Rightarrow> single \<Rightarrow> single" where
  "add_range a lo hi acc = foldl (\<lambda>acc i. s_add acc (a ! i)) acc [lo..<hi]"

definition pass_then_repeat :: "nat \<Rightarrow> single list \<Rightarrow> single" where
  "pass_then_repeat n a = (add_range a 0 n ^^ 10) 0"

function blocks_from :: "nat \<Rightarrow> nat \<Rightarrow> single list \<Rightarrow> nat \<Rightarrow> single \<Rightarrow> single" where
  "blocks_from n block a blk acc =
     (if blk < n \<and> 0 < block then blocks_from n block a (blk + block) ((add_range a blk (blk + block) ^^ 10) acc) else acc)"
  by pat_completeness auto
termination by (relation "measure (\<lambda>(n, block, a, blk, acc). n - blk)") auto

declare blocks_from.simps [simp del]

definition blocked_repeat :: "nat \<Rightarrow> nat \<Rightarrow> single list \<Rightarrow> single" where
  "blocked_repeat n block a = blocks_from n block a 0 0"

definition locality_main :: single where
  "locality_main = blocked_repeat LOC_N LOC_BLOCK (replicate LOC_N 0x3F800000)"

lemma demo_floats:
  "negzero_main = [(''fp_abs(-0.0)'', 0x8000000000000000, 0x8000000000000000), (''fp_fabs(-0.0)'', 0, 0),
     (''fp_abs(-NaN)'', 0xFFF8000000000000, 0xFFF8000000000000), (''fp_fabs(-NaN)'', 0x7FF8000000000000, 0x7FF8000000000000)]"
  "exp_precision_main = (False, [(0, 0x3FB, 0x999999999999A), (0, 0x3FC, 0x999999999999A), (0, 0x3FD, 0x3333333333333), (0, 0x3FD, 0x3333333333334)])"
  "d2i 0xC00E000000000000 = Some (- 3)" "d2u 0xBFE0000000000000 = Some 0" "d2u 0xBFF0000000000000 = None"
  "d2f d01 = 0x3DCCCCCD" "f2d 0x3DCCCCCD = 0x3FB99999A0000000" "d2f 0x7FEFFFFFFFFFFFFF = 0x7F800000"
  by code_simp+

section \<open>Conversions\<close>

lemma f2d_fin:
  assumes "sval x = F_fin s m e"
  shows "\<exists>m1 e1. dval (f2d x) = F_fin s m1 e1 \<and> emin 53 11 \<le> e1 \<and> 0 \<le> m1 \<and> m1 * 2 ^ nat (e1 - emin 53 11) = m * 2 ^ nat (e - emin 53 11)"
proof -
  have d: "decode 24 8 (uint x) = F_fin s m e" using assms by (simp add: sval_def)
  note b = decode_fin [OF d] sfmt.decode_upper [OF d]
  have "bit_length m \<le> 24" using bit_length_le [of m 24] b by simp
  then have "e + int 0 + int (bit_length m) \<le> 2 ^ (11 - 1)" using b(3) by simp
  moreover have "emin 53 11 \<le> e + int 0" using b(1) by (simp add: emin_def)
  moreover have "m < 2 ^ 53" using b(2) by simp
  ultimately have "\<exists>m1 e1. decode 53 11 (round_bits 53 11 s m e) = F_fin s m1 e1 \<and> emin 53 11 \<le> e1 \<and> 0 \<le> m1
      \<and> m1 * 2 ^ nat (e1 - emin 53 11) = m * 2 ^ nat (e + int 0 - emin 53 11)"
    using dfmt.round_exact_fin [of m m 0 e s] b(1) by simp
  moreover have "uint (f2d x) = round_bits 53 11 s m e"
    unfolding f2d_def assms encode_def using dfmt.round_bits_range [of m s e] b(1) by (subst uint_pattern(1)) simp_all
  ultimately show ?thesis by (simp add: dval_def)
qed

lemma f2d_int: "s_denotes x n \<Longrightarrow> d_denotes (f2d x) n"
proof -
  assume "s_denotes x n"
  then obtain s m e where x: "decode 24 8 (uint x) = F_fin s m e" "sg s * m * 2 ^ nat (e - emin 24 8) = n * 2 ^ nat (- emin 24 8)" "emin 24 8 \<le> e"
    unfolding s_denotes_def by (rule sfmt.denotesE)
  then obtain m1 e1 where y: "dval (f2d x) = F_fin s m1 e1" "m1 * 2 ^ nat (e1 - emin 53 11) = m * 2 ^ nat (e - emin 53 11)"
    using f2d_fin [of x s m e] by (auto simp: sval_def)
  have d: "nat (e - emin 53 11) = nat (e - emin 24 8) + 925" "nat (- emin 53 11) = nat (- emin 24 8) + 925"
    using x(3) by (simp_all add: emin_def)
  have "sg s * m1 * 2 ^ nat (e1 - emin 53 11) = (sg s * m * 2 ^ nat (e - emin 24 8)) * 2 ^ 925"
    using y(2) by (simp only: d(1) power_add mult.assoc)
  also have "\<dots> = n * 2 ^ nat (- emin 53 11)" unfolding x(2) d(2) power_add by (simp only: mult.assoc)
  finally show ?thesis using y(1) by (simp add: d_denotes_def denotes_def scaled_def dval_def)
qed

text \<open>Widening loses nothing, so narrowing gives the \<open>float\<close> back, infinities and zeros of both signs included.\<close>

lemma d2f_f2d:
  assumes "sval x \<noteq> F_nan"
  shows "d2f (f2d x) = x"
proof (cases "sval x")
  case (F_inf s)
  then have "uint x = encode 24 8 (F_inf s)" using sfmt.decode_inf(2) [of "uint x" s] uint_range(2) [of x] by (simp add: sval_def)
  moreover have "dval (f2d x) = F_inf s"
    unfolding dval_def f2d_def F_inf by (subst uint_pattern(1) [OF dfmt.special_range(2)]) (rule dfmt.decode_inf(1))
  ultimately show ?thesis by (simp add: d2f_def word_uint_eq_iff uint_pattern(2) [OF sfmt.special_range(2)])
next
  case (F_fin s m e)
  then have d: "decode 24 8 (uint x) = F_fin s m e" by (simp add: sval_def)
  note b = decode_fin [OF d] sfmt.decode_upper [OF d]
  obtain m1 e1 where y: "dval (f2d x) = F_fin s m1 e1" "emin 53 11 \<le> e1" "0 \<le> m1" "m1 * 2 ^ nat (e1 - emin 53 11) = m * 2 ^ nat (e - emin 53 11)"
    using f2d_fin [OF F_fin] by blast
  have bl: "bit_length m \<le> 24" using bit_length_le [of m 24] b by simp
  have e: "emin 53 11 \<le> e" "emin 24 8 \<le> e" using b(1) by (simp_all add: emin_def)
  obtain k j e' where k: "0 \<le> k" "k < 2 ^ 24" "m1 = k * 2 ^ j" "emin 24 8 \<le> e' + int j" "e' + int j + int (bit_length k) \<le> 2 ^ (8 - 1)"
      "k * 2 ^ nat (e' + int j - emin 24 8) = m * 2 ^ nat (e - emin 24 8)" "e' = e1 \<or> m1 = 0"
  proof (cases "e1 \<le> e")
    case True
    then have "nat (e - emin 53 11) = nat (e - e1) + nat (e1 - emin 53 11)" using y(2) by simp
    then have "m1 = m * 2 ^ nat (e - e1)" using y(4) by (simp add: power_add)
    then show ?thesis using that [of m "nat (e - e1)" e1] b(1,2,3) e bl True by simp
  next
    case False
    then have "nat (e1 - emin 53 11) = nat (e1 - e) + nat (e - emin 53 11)" using e by simp
    then have m: "m = m1 * 2 ^ nat (e1 - e)" using y(4) by (simp add: power_add)
    have lt: "m1 < 2 ^ 24"
    proof -
      have "m1 * 1 \<le> m1 * 2 ^ nat (e1 - e)" using y(3) by (intro mult_left_mono) simp_all
      then show ?thesis using b(2) m by simp
    qed
    have small: "e1 + int (bit_length m1) \<le> 2 ^ (8 - 1) \<or> m1 = 0"
    proof (cases "m1 = 0")
      case False
      then have "bit_length m = bit_length m1 + nat (e1 - e)" using m bit_length_shift y(3) by simp
      moreover have "int (nat (e1 - e)) = e1 - e" using \<open>\<not> e1 \<le> e\<close> by simp
      ultimately have "int (bit_length m1) + (e1 - e) \<le> 24" using bl by linarith
      then show ?thesis using b(3) by simp
    qed simp
    show ?thesis
    proof (cases "m1 = 0")
      case True
      then show ?thesis using that [of 0 0 "emin 24 8"] m by (simp add: emin_def)
    next
      case False
      have "nat (e1 - emin 24 8) = nat (e1 - e) + nat (e - emin 24 8)" using \<open>\<not> e1 \<le> e\<close> e by simp
      then have "m1 * 2 ^ nat (e1 - emin 24 8) = m * 2 ^ nat (e - emin 24 8)" unfolding m by (simp add: power_add)
      then show ?thesis using that [of m1 0 e1] y(3) lt small False \<open>\<not> e1 \<le> e\<close> e by simp
    qed
  qed
  obtain m2 e2 where z: "decode 24 8 (round_bits 24 8 s m1 e1) = F_fin s m2 e2" "m2 * 2 ^ nat (e2 - emin 24 8) = k * 2 ^ nat (e' + int j - emin 24 8)"
  proof -
    have "round_bits 24 8 s m1 e1 = round_bits 24 8 s m1 e'" using k(7) by (auto simp: round_bits_def)
    then show ?thesis using that sfmt.round_exact_fin [OF k(1-5), of s] by auto
  qed
  have r: "0 \<le> round_bits 24 8 s m1 e1" "round_bits 24 8 s m1 e1 < 2 ^ (24 + 8)" using sfmt.round_bits_range [OF y(3)] by simp_all
  have "round_bits 24 8 s m1 e1 = uint x"
    by (rule sfmt.decode_unique [OF r _ _ z(1) d]) (use uint_range(2) [of x] z(2) k(6) in simp_all)
  then show ?thesis using y(1) by (simp add: d2f_def encode_def)
qed (use assms in simp)

lemma d2i_i2d:
  assumes "- (2 ^ 31) \<le> n" "n < 2 ^ 31"
  shows "d2i (i2d n) = Some n" "d2l (i2d n) = Some n"
proof -
  have "\<bar>n\<bar> \<le> 2 ^ 53" using assms by simp
  then have "truncate_val (dval (i2d n)) = Some n"
    using dfmt.truncate_int d_of_int_denotes unfolding i2d_def dval_def d_denotes_def by blast
  then show "d2i (i2d n) = Some n" "d2l (i2d n) = Some n" using assms by (simp_all add: d2i_def d2l_def d_to_range_def)
qed

section \<open>Signs and order\<close>

lemma top_bit: "bit (x :: double) 63 \<longleftrightarrow> 2 ^ 63 \<le> uint x"
proof -
  have r: "0 \<le> uint x" "uint x < 2 ^ 64" using uint_lt2p [of x] by simp_all
  have "bit x 63 \<longleftrightarrow> bit (uint x) 63" by (simp add: bit_uint_iff)
  then have "bit x 63 \<longleftrightarrow> odd (uint x div 2 ^ 63)" unfolding bit_iff_odd [of "uint x"] .
  moreover have "uint x div 2 ^ 63 = (if 2 ^ 63 \<le> uint x then 1 else 0)"
  proof (cases "2 ^ 63 \<le> uint x")
    case True
    have "uint x div 2 ^ 63 = 1" by (rule int_div_pos_eq [of _ _ _ "uint x - 2 ^ 63"]) (use True r in simp_all)
    then show ?thesis using True by simp
  qed (use r in simp)
  ultimately show ?thesis by (simp split: if_splits)
qed

lemma sign_masks: "bit (0x8000000000000000 :: double) n \<longleftrightarrow> n = 63" "bit (0x7FFFFFFFFFFFFFFF :: double) n \<longleftrightarrow> n < 63"
proof -
  have "(0x8000000000000000 :: double) = 2 ^ 63" "(0x7FFFFFFFFFFFFFFF :: double) = mask 63" by (simp_all add: mask_eq_exp_minus_1)
  then show "bit (0x8000000000000000 :: double) n \<longleftrightarrow> n = 63" "bit (0x7FFFFFFFFFFFFFFF :: double) n \<longleftrightarrow> n < 63"
    by (auto simp only: bit_exp_iff bit_mask_iff possible_bit_word) (simp_all add: possible_bit_def)
qed

lemma fp_fabs_sign: "bit x 63 \<Longrightarrow> fp_neg x = fp_fabs x" "\<not> bit x 63 \<Longrightarrow> fp_fabs x = x"
proof -
  have n: "n < 63 \<or> n = 63" if "n < LENGTH(64)" for n using that by auto
  show "fp_neg x = fp_fabs x" if "bit x 63" unfolding fp_neg_def fp_fabs_def
    by (rule bit_word_eqI, simp only: bit_and_iff bit_xor_iff sign_masks) (use that n in auto)
  show "fp_fabs x = x" if "\<not> bit x 63" unfolding fp_fabs_def
    by (rule bit_word_eqI, simp only: bit_and_iff sign_masks) (use that n in auto)
qed

lemma fp_neg_twice: "fp_neg (fp_neg x) = x"
  unfolding fp_neg_def by (simp add: ac_simps)

lemma decode_sign: "dval x = F_fin s m e \<or> dval x = F_inf s \<Longrightarrow> s = bit x 63"
  unfolding top_bit dval_def decode_def Let_def by (auto split: if_splits)

lemma zero_vals: "dval 0 = F_fin False 0 (- 1074)" "dval 0x8000000000000000 = F_fin True 0 (- 1074)"
  by code_simp+

lemma negative_zero: "dval x = F_fin True 0 e \<Longrightarrow> x = 0x8000000000000000"
proof -
  assume x: "dval x = F_fin True 0 e"
  have "uint x = uint (0x8000000000000000 :: double)"
    by (rule dfmt.decode_unique [of _ _ True 0 e 0 "- 1074"])
       (use x zero_vals(2) uint_range(1) [of x] uint_range(1) [of "0x8000000000000000"] in \<open>simp_all add: dval_def\<close>)
  then show ?thesis by (simp only: word_uint_eq_iff)
qed

lemma d_lt_zero: "d_lt x 0 \<longleftrightarrow> bit x 63 \<and> \<not> is_nan x \<and> x \<noteq> 0x8000000000000000"
proof (cases "dval x")
  case (F_fin s m e)
  have m: "0 \<le> m" using decode_fin F_fin unfolding dval_def by blast
  have "x = 0x8000000000000000 \<longleftrightarrow> s \<and> m = 0"
    using F_fin negative_zero [of x e] zero_vals(2) by auto
  moreover have "d_lt x 0 \<longleftrightarrow> s \<and> m \<noteq> 0"
    using F_fin m by (auto simp: d_lt_def zero_vals Let_def sg_def sgn_if mult_less_0_iff zero_less_mult_iff split: if_splits)
  ultimately show ?thesis using F_fin decode_sign [of x s m e] by (auto simp: is_nan_def)
next
  case (F_inf s)
  then show ?thesis using decode_sign [of x s] zero_vals by (auto simp: d_lt_def is_nan_def sg_def split: if_splits)
next
  case F_nan
  then show ?thesis by (simp add: d_lt_def is_nan_def)
qed

lemma compare_none: "compare_vals v w = None \<longleftrightarrow> v = F_nan \<or> w = F_nan"
  by (cases v; cases w) (simp_all add: Let_def)

lemma compare_swap: "compare_vals w v = map_option uminus (compare_vals v w)"
  by (cases v; cases w) (auto simp: Let_def min.commute sgn_if sg_def)

lemma compare_range: "compare_vals v w = Some c \<Longrightarrow> c = -1 \<or> c = 0 \<or> c = 1"
  by (cases v; cases w) (auto simp: Let_def sgn_if sg_def split: if_splits)

lemma fp_cmp3_compare: "fp_cmp3 a b = (case compare_vals (dval a) (dval b) of None \<Rightarrow> 2 | Some c \<Rightarrow> c)"
proof (cases "compare_vals (dval a) (dval b)")
  case None
  then show ?thesis by (simp add: fp_cmp3_def d_lt_def d_eq_def compare_swap [of "dval b" "dval a"])
next
  case (Some c)
  then show ?thesis using compare_range [OF Some]
    by (auto simp: fp_cmp3_def d_lt_def d_eq_def compare_swap [of "dval b" "dval a"])
qed

section \<open>Sums\<close>

abbreviation ONE :: single where "ONE \<equiv> 0x3F800000"

lemma one_denotes: "s_denotes ONE 1" "s_denotes 0x4B800000 (2 ^ 24)"
proof -
  have "s_of_int 1 = ONE" "s_of_int (2 ^ 24) = 0x4B800000" by code_simp+
  then show "s_denotes ONE 1" "s_denotes 0x4B800000 (2 ^ 24)" using s_of_int_denotes [of 1] s_of_int_denotes [of "2 ^ 24"] by simp_all
qed

lemma min_plus: "0 \<le> b \<Longrightarrow> min (min a M + b) M = min (a + b) (M :: int)"
  by auto

text \<open>Adding 1.0 counts up to \<open>2 ^ 24\<close> and then changes nothing: the sum is a tie between two neighbours.\<close>

lemma add_one:
  assumes "s_denotes acc k" "0 \<le> k" "k \<le> 2 ^ 24"
  shows "s_denotes (s_add acc ONE) (min (k + 1) (2 ^ 24))"
proof (cases "k = 2 ^ 24")
  case True
  then have "acc = 0x4B800000" using s_denotes_unique [of acc "2 ^ 24"] assms(1) one_denotes(2) by simp
  then show ?thesis using demo_sums(3) one_denotes(2) True by simp
next
  case False
  then show ?thesis using s_add_int [OF assms(1) one_denotes(1)] assms by simp
qed

lemma add_range_ones:
  assumes "s_denotes acc k" "0 \<le> k" "k \<le> 2 ^ 24" "lo \<le> hi" "\<And>i. lo \<le> i \<Longrightarrow> i < hi \<Longrightarrow> a ! i = ONE"
  shows "s_denotes (add_range a lo hi acc) (min (k + int (hi - lo)) (2 ^ 24))"
  using assms(4,5)
proof (induction "hi - lo" arbitrary: hi)
  case 0
  then show ?case using assms(1,3) by (simp add: add_range_def)
next
  case (Suc n)
  then obtain h where h: "hi = Suc h" "lo \<le> h" by (cases hi) auto
  then have "s_denotes (add_range a lo h acc) (min (k + int (h - lo)) (2 ^ 24))" using Suc by (intro Suc.hyps(1)) auto
  from add_one [OF this] have "s_denotes (s_add (add_range a lo h acc) ONE) (min (min (k + int (h - lo)) (2 ^ 24) + 1) (2 ^ 24))"
    using assms(2) by simp
  moreover have "min (min (k + int (h - lo)) (2 ^ 24) + 1) (2 ^ 24) = min (k + int (hi - lo)) (2 ^ 24)" using h by auto
  moreover have "add_range a lo hi acc = s_add (add_range a lo h acc) ONE" using h Suc.prems(2) by (simp add: add_range_def)
  ultimately show ?case by simp
qed

lemma repeat_ones:
  assumes "s_denotes acc k" "0 \<le> k" "k \<le> 2 ^ 24" "lo \<le> hi" "\<And>i. lo \<le> i \<Longrightarrow> i < hi \<Longrightarrow> a ! i = ONE"
  shows "s_denotes ((add_range a lo hi ^^ j) acc) (min (k + int j * int (hi - lo)) (2 ^ 24))"
proof (induction j)
  case 0
  then show ?case using assms(1,3) by simp
next
  case (Suc j)
  have "s_denotes ((add_range a lo hi ^^ Suc j) acc) (min (min (k + int j * int (hi - lo)) (2 ^ 24) + int (hi - lo)) (2 ^ 24))"
    using add_range_ones [OF Suc _ _ assms(4,5)] assms(2) by simp
  moreover have "min (min (k + int j * int (hi - lo)) (2 ^ 24) + int (hi - lo)) (2 ^ 24) = min (k + int (Suc j) * int (hi - lo)) (2 ^ 24)"
    by (subst min_plus) (simp_all add: distrib_right)
  ultimately show ?case by simp
qed

lemma blocks_ones:
  assumes "s_denotes acc k" "0 \<le> k" "k \<le> 2 ^ 24" "0 < block" "blk \<le> n" "block dvd n - blk" "\<And>i. i < n \<Longrightarrow> a ! i = ONE"
  shows "s_denotes (blocks_from n block a blk acc) (min (k + 10 * int (n - blk)) (2 ^ 24))"
  using assms
proof (induction n block a blk acc arbitrary: k rule: blocks_from.induct)
  case (1 n block a blk acc)
  show ?case
  proof (cases "blk < n")
    case True
    then have le: "blk + block \<le> n" using 1(7) dvd_imp_le [of block "n - blk"] by simp
    have dv: "block dvd n - (blk + block)" using 1(7) dvd_diff_nat [of block "n - blk" block] by simp
    have r: "s_denotes ((add_range a blk (blk + block) ^^ 10) acc) (min (k + 10 * int block) (2 ^ 24))"
      using repeat_ones [OF 1(2-4), of blk "blk + block" a 10] 1(8) le by simp
    have "s_denotes (blocks_from n block a (blk + block) ((add_range a blk (blk + block) ^^ 10) acc))
        (min (min (k + 10 * int block) (2 ^ 24) + 10 * int (n - (blk + block))) (2 ^ 24))"
      by (rule 1(1)) (use True r 1(3,5,8) le dv in auto)
    moreover have "min (min (k + 10 * int block) (2 ^ 24) + 10 * int (n - (blk + block))) (2 ^ 24) = min (k + 10 * int (n - blk)) (2 ^ 24)"
      using le by auto
    ultimately show ?thesis using True 1(5) by (simp add: blocks_from.simps [of n block a blk])
  next
    case False
    then have "blocks_from n block a blk acc = acc" by (subst blocks_from.simps) simp
    moreover have "min (k + 10 * int (n - blk)) (2 ^ 24) = k" using False 1(4) by simp
    ultimately show ?thesis using 1(2) by simp
  qed
qed

text \<open>Both orders give the same result, whatever the size, if every element is 1.0.\<close>

lemma repeats_ones:
  assumes "0 < block" "block dvd n"
  shows "s_denotes (pass_then_repeat n (replicate n ONE)) (min (10 * int n) (2 ^ 24))"
    and "s_denotes (blocked_repeat n block (replicate n ONE)) (min (10 * int n) (2 ^ 24))"
  using repeat_ones [OF d_zero_denotes(2), of 0 n "replicate n ONE" 10] blocks_ones [OF d_zero_denotes(2), of block 0 n "replicate n ONE"] assms
  by (simp_all add: pass_then_repeat_def blocked_repeat_def)

text \<open>The squares up to 4096 are representable as \<open>float\<close>, and their sums as \<open>double\<close>: no step of the loop rounds.\<close>

lemma squares_bound: "(\<Sum>i<n. int i * int i) \<le> int n ^ 3"
proof (induction n)
  case (Suc n)
  have "int n ^ 3 + int n * int n \<le> int (Suc n) ^ 3" by (simp add: power3_eq_cube algebra_simps)
  then show ?case using Suc by simp
qed simp

lemma dot_exact:
  assumes "n \<le> 4097" "n \<le> length x" "n \<le> length y" "\<And>i. i < n \<Longrightarrow> s_denotes (x ! i) (int i) \<and> s_denotes (y ! i) (int i)"
  shows "d_denotes (foldl (dot_step x y) 0 [0..<n]) (\<Sum>i<n. int i * int i)"
  using assms
proof (induction n)
  case 0
  then show ?case using d_zero_denotes(1) by simp
next
  case (Suc n)
  then have acc: "d_denotes (foldl (dot_step x y) 0 [0..<n]) (\<Sum>i<n. int i * int i)" by simp
  have n: "int n \<le> 4096" using Suc.prems(1) by simp
  then have "int n * int n \<le> 4096 * 4096" by (intro mult_mono) simp_all
  then have "s_denotes (s_mul (x ! n) (y ! n)) (int n * int n)" using s_mul_int Suc.prems(4) [of n] by simp
  then have p: "d_denotes (f2d (s_mul (x ! n) (y ! n))) (int n * int n)" by (rule f2d_int)
  have "int (Suc n) ^ 3 \<le> 4097 ^ 3" using n by (intro power_mono) simp_all
  then have "(\<Sum>i<n. int i * int i) + int n * int n \<le> 4097 ^ 3" using squares_bound [of "Suc n"] by simp
  moreover have "0 \<le> (\<Sum>i<n. int i * int i) + int n * int n" by (intro add_nonneg_nonneg sum_nonneg) simp_all
  ultimately have "\<bar>(\<Sum>i<n. int i * int i) + int n * int n\<bar> \<le> 2 ^ 53" by simp
  note step = d_add_int [OF acc p this]
  have "foldl (dot_step x y) 0 [0..<Suc n] = d_add (foldl (dot_step x y) 0 [0..<n]) (f2d (s_mul (x ! n) (y ! n)))"
    by (simp add: dot_step_def [of x y "foldl (dot_step x y) 0 [0..<n]" n])
  then show ?case using step by simp
qed

lemma filled_denotes: "i < n \<Longrightarrow> n \<le> 4097 \<Longrightarrow> s_denotes (map (\<lambda>i. s_of_int (int i)) [0..<n] ! i) (int i)"
  using s_of_int_denotes [of "int i"] by simp

lemma sum_squares: "6 * (\<Sum>i<Suc n. int i * int i) = int n * (int n + 1) * (2 * int n + 1)"
  by (induction n) (simp_all add: algebra_simps)

section \<open>Properties\<close>

text \<open>
  C40: Converting an \<open>int\<close> to \<open>double\<close> and back, to \<open>int\<close> or to \<open>long\<close>, gives it again, and so does widening a \<open>float\<close>
  to \<open>double\<close> and narrowing it, for every \<open>float\<close> that is not a NaN, infinities, denormalised numbers and both zeros included.
\<close>

theorem float_conversions_roundtrip:
  "(- (2 ^ 31) \<le> n \<and> n < 2 ^ 31 \<longrightarrow> d2i (i2d n) = Some n \<and> d2l (i2d n) = Some n) \<and> (sval x \<noteq> F_nan \<longrightarrow> d2f (f2d x) = x)"
  using d2i_i2d d2f_f2d by blast

theorem float_conversions_roundtrip_witness:
  "d2i (i2d (- 2147483648)) = Some (- 2147483648) \<and> d2f (f2d 0x80000001) = 0x80000001"
proof -
  have "sval 0x80000001 = F_fin True 1 (- 149)" by code_simp
  then show ?thesis using float_conversions_roundtrip [of "- 2147483648" "0x80000001"] by simp
qed

text \<open>
  \<open>fp_abs\<close>, written with a comparison, agrees with \<open>__builtin_fabs\<close> except on negative zero and on NaNs, which it
  returns unchanged: the compiler may not replace one by the other. \<open>fp_cmp3\<close> returns 2 just when a NaN is involved; otherwise
  it is -1, 0 or 1 and changes its sign when the arguments are swapped, and \<open>fp_lt\<close> and \<open>fp_eq\<close> agree with it.
\<close>

lemma fp_signs_and_order:
  "fp_abs x = (if x = 0x8000000000000000 \<or> is_nan x then x else fp_fabs x)
   \<and> (fp_cmp3 a b = 2 \<longleftrightarrow> is_nan a \<or> is_nan b)
   \<and> fp_cmp3 b a = (if is_nan a \<or> is_nan b then 2 else - fp_cmp3 a b)
   \<and> fp_lt a b = (if fp_cmp3 a b = - 1 then 1 else 0) \<and> fp_eq a b = (if fp_cmp3 a b = 0 then 1 else 0)"
proof (intro conjI)
  show "fp_abs x = (if x = 0x8000000000000000 \<or> is_nan x then x else fp_fabs x)"
    using fp_fabs_sign [of x] d_lt_zero [of x] by (auto simp: fp_abs_def)
  have n: "is_nan a \<or> is_nan b \<longleftrightarrow> compare_vals (dval a) (dval b) = None" by (simp add: compare_none is_nan_def)
  have r: "compare_vals (dval a) (dval b) = Some c \<Longrightarrow> c = -1 \<or> c = 0 \<or> c = 1" for c by (rule compare_range)
  show "fp_cmp3 a b = 2 \<longleftrightarrow> is_nan a \<or> is_nan b"
    unfolding n fp_cmp3_compare using r by (auto split: option.splits)
  show "fp_cmp3 b a = (if is_nan a \<or> is_nan b then 2 else - fp_cmp3 a b)"
    unfolding n fp_cmp3_compare compare_swap [of "dval b" "dval a"] by (auto split: option.splits)
  show "fp_lt a b = (if fp_cmp3 a b = - 1 then 1 else 0)" "fp_eq a b = (if fp_cmp3 a b = 0 then 1 else 0)"
    unfolding fp_cmp3_compare fp_lt_def fp_eq_def d_lt_def d_eq_def by (auto split: option.splits)
qed

text \<open>
  C39: The two ways of adding every element of an array ten times give the same \<open>float\<close> for the array of ones that \<open>main\<close> fills, whatever its size,
  although floating-point addition is not associative. The sum counts to \<open>2 ^ 24\<close> and stays there: the program prints 16777216 and not 671088640.
  The dot product of \<open>conflict.c\<close> is exact: it never rounds.
\<close>

theorem float_sums:
  "(0 < block \<and> block dvd n \<longrightarrow> blocked_repeat n block (replicate n ONE) = pass_then_repeat n (replicate n ONE)
       \<and> s_denotes (blocked_repeat n block (replicate n ONE)) (min (10 * int n) (2 ^ 24)))
   \<and> s_denotes locality_main 16777216 \<and> d_denotes conflict_main (\<Sum>i<4096. int i * int i)"
proof (intro conjI impI)
  assume "0 < block \<and> block dvd n"
  note r = repeats_ones [of block n] this
  show "s_denotes (blocked_repeat n block (replicate n ONE)) (min (10 * int n) (2 ^ 24))" using r by blast
  show "blocked_repeat n block (replicate n ONE) = pass_then_repeat n (replicate n ONE)"
  proof (cases "n = 0")
    case True
    then show ?thesis by (simp add: blocked_repeat_def pass_then_repeat_def add_range_def blocks_from.simps [of 0] id_def funpow_simps_right numeral_eq_Suc)
  next
    case False
    then have "min (10 * int n) (2 ^ 24) \<noteq> 0" by simp
    then show ?thesis using s_denotes_unique r by blast
  qed
next
  have "LOC_BLOCK dvd LOC_N" "0 < LOC_BLOCK" unfolding LOC_BLOCK_def LOC_N_def by simp_all
  from repeats_ones(2) [OF this(2,1)] have "s_denotes locality_main (min (10 * int LOC_N) (2 ^ 24))" by (simp add: locality_main_def)
  moreover have "min (10 * int LOC_N) (2 ^ 24) = 16777216" by (simp add: LOC_N_def)
  ultimately show "s_denotes locality_main 16777216" by simp
next
  have "d_denotes conflict_main (\<Sum>i<CONFLICT_N. int i * int i)"
    unfolding conflict_main_def conflict_dotprod_def Let_def
    by (rule dot_exact) (auto simp: CONFLICT_N_def intro!: s_of_int_denotes)
  then show "d_denotes conflict_main (\<Sum>i<4096. int i * int i)" by (simp add: CONFLICT_N_def)
qed

theorem float_sums_witness:
  "blocked_repeat 6 3 (replicate 6 ONE) = pass_then_repeat 6 (replicate 6 ONE) \<and> blocked_repeat 6 3 (replicate 6 ONE) = s_of_int 60"
proof -
  have six: "s_denotes (s_of_int 60) 60" by (rule s_of_int_denotes) simp
  have "0 < (3 :: nat) \<and> 3 dvd (6 :: nat)" by simp
  with float_sums [of 3 6] have eq: "blocked_repeat 6 3 (replicate 6 ONE) = pass_then_repeat 6 (replicate 6 ONE)"
    and d: "s_denotes (blocked_repeat 6 3 (replicate 6 ONE)) (min (10 * int 6) (2 ^ 24))" by blast+
  have m: "min (10 * int 6) (2 ^ 24) = (60 :: int)" by simp
  show ?thesis by (rule conjI [OF eq], rule s_denotes_unique [OF d [unfolded m] six]) simp
qed

text \<open>What is printed for the dot product, 22898104320, and what the working-set scan prints for one repetition.\<close>

lemma conflict_value: "(\<Sum>i<4096. int i * int i) = 22898104320"
  using sum_squares [of 4095] by simp

lemma wss_exact:
  assumes "n \<le> 4097"
  shows "\<exists>res. wss_main 3 True n 1 = Some (0, Some (n, n * 8 div 1024, 1, res)) \<and> d_denotes res (\<Sum>i<n. int i * int i)"
proof -
  let ?x = "map (\<lambda>i. s_of_int (int i)) [0..<n]"
  have d: "d_denotes (dotprod_n ?x ?x n) (\<Sum>i<n. int i * int i)"
    unfolding dotprod_n_def by (rule dot_exact) (use assms filled_denotes in auto)
  have "0 \<le> (\<Sum>i<n. int i * int i)" by (intro sum_nonneg) simp
  moreover have "int n ^ 3 \<le> 4097 ^ 3" using assms by (intro power_mono) simp_all
  ultimately have "\<bar>0 + (\<Sum>i<n. int i * int i)\<bar> \<le> 2 ^ 53" using squares_bound [of n] by simp
  from d_add_int [OF d_zero_denotes(1) d this] show ?thesis by (simp add: wss_main_def Let_def)
qed

end
