(* ===== verification/Experiment_Mains.thy ===== *)
theory Experiment_Mains
  imports Loop_Kernels Float_Bits C_Text
begin

text \<open>
  The main programs around the measured loops of Chapters 5 and 6: what they read, the loops they call and what they print. The clock and
  the cycle counter are arguments, given as the readings in their order; the text of a \<open>double\<close> is the library's, so the results hold its bits.
  \<open>None\<close> is undefined behaviour (an overflow, an access outside an array) or a measuring loop that has not ended with the given readings.
\<close>

section \<open>The clock\<close>

record timespec =
  tv_sec :: int
  tv_nsec :: int

text \<open>The constants 1e-9, 0.05, 1e6 and 1e9 as doubles.\<close>

definition NANO :: double where "NANO = 0x3E112E0BE826D695"
definition MIN_TIME :: double where "MIN_TIME = 0x3FA999999999999A"
definition MEGA :: double where "MEGA = 0x412E848000000000"
definition GIGA :: double where "GIGA = 0x41CDCD6500000000"

definition now_sec :: "timespec \<Rightarrow> double" where
  "now_sec ts = d_add (d_of_int (tv_sec ts)) (d_mul (d_of_int (tv_nsec ts)) NANO)"

definition d_ge :: "double \<Rightarrow> double \<Rightarrow> bool" where "d_ge x y \<longleftrightarrow> d_lt y x \<or> d_eq x y"

section \<open>mountain.c\<close>

definition MINBYTES :: nat where "MINBYTES = 2 ^ 14"
definition MAXBYTES :: nat where "MAXBYTES = 2 ^ 27"
definition MAXSTRIDE :: nat where "MAXSTRIDE = 16"
definition MAXELEMS :: nat where "MAXELEMS = MAXBYTES div 8"

text \<open>
  The measuring loop of \<open>run\<close>: each round calls \<open>test\<close>, which returns \<open>v\<close>, \<open>reps\<close> times and adds the results to \<open>sink\<close>,
  between two readings of the clock. The result is the number of repetitions and the time of the round that was long enough.
\<close>

fun run_loop :: "int \<Rightarrow> int \<Rightarrow> (timespec \<times> timespec) list \<Rightarrow> (int \<times> double) option" where
  "run_loop v reps [] = None"
| "run_loop v reps ((t0, t1) # rs) =
     (let start = now_sec t0; sink = reps * v; t = d_sub (now_sec t1) start
      in if LONG_MAX < sink \<or> sink < LONG_MIN then None
         else if d_ge t MIN_TIME then Some (reps, t)
         else if LONG_MAX < reps * 2 then None
         else run_loop v (reps * 2) rs)"

definition run_size :: "int list \<Rightarrow> nat \<Rightarrow> nat \<Rightarrow> (timespec \<times> timespec) list \<Rightarrow> double option" where
  "run_size data bytes stride readings =
     (let elems = bytes div 8; touched = elems div stride
      in if touched = 0 then Some 0
         else case mountain_test data elems stride of
                None \<Rightarrow> None
              | Some v \<Rightarrow>
                  (case run_loop v 1 readings of
                     None \<Rightarrow> None
                   | Some (reps, t) \<Rightarrow>
                       (let bytes = d_mul (d_mul (d_of_int (int touched)) (d_of_int 8)) (d_of_int reps)
                        in Some (d_div (d_div bytes t) MEGA))))"

definition size_label :: "nat \<Rightarrow> bytes" where
  "size_label sz = (if 2 ^ 20 \<le> sz then dec_int (int (sz div 2 ^ 20)) @ ''M'' else dec_int (int (sz div 2 ^ 10)) @ ''K'')"

fun collect :: "'a option list \<Rightarrow> 'a list option" where
  "collect [] = Some []"
| "collect (None # xs) = None"
| "collect (Some x # xs) = map_option (Cons x) (collect xs)"

text \<open>The rows of the table, from \<open>size\<close> on; \<open>clk size s\<close> are the readings taken for one entry.\<close>

function mountain_rows :: "int list \<Rightarrow> (nat \<Rightarrow> nat \<Rightarrow> (timespec \<times> timespec) list) \<Rightarrow> nat \<Rightarrow> (bytes \<times> double list) list option" where
  "mountain_rows data clk sz =
     (if sz \<le> MAXBYTES \<and> 0 < sz then
        (case collect (map (\<lambda>s. run_size data sz s (clk sz s)) [1..<MAXSTRIDE + 1]) of
           None \<Rightarrow> None
         | Some row \<Rightarrow> map_option (Cons (size_label sz, row)) (mountain_rows data clk (sz * 2)))
      else Some [])"
  by pat_completeness auto
termination by (relation "measure (\<lambda>(data, clk, sz). Suc MAXBYTES - sz)") auto

declare mountain_rows.simps [simp del]

definition mountain_header :: bytes where
  "mountain_header = ''size'' @ concat (map (\<lambda>s. '',s'' @ dec_int (int s)) [1..<MAXSTRIDE + 1]) @ [LF]"

definition mountain_main :: "(nat \<Rightarrow> nat \<Rightarrow> (timespec \<times> timespec) list) \<Rightarrow> (bytes \<times> (bytes \<times> double list) list) option" where
  "mountain_main clk = (let data = init_data MAXELEMS in map_option (Pair mountain_header) (mountain_rows data clk MINBYTES))"

section \<open>reg_spill.c\<close>

definition SPILL_N :: nat where "SPILL_N = 4096"
definition SPILL_ITERS :: nat where "SPILL_ITERS = 200000"

text \<open>
  \<open>bench\<close>: the pairs are the readings of the cycle counter around the five rounds; the result is the line's name and value,
  and what \<open>s\<close> holds at the end.
\<close>

definition best_of :: "(64 word \<times> 64 word) list \<Rightarrow> 64 word" where
  "best_of readings = foldl (\<lambda>best (c0, c1). if c1 - c0 < best then c1 - c0 else best) (NOT 0) readings"

definition bench :: "bytes \<Rightarrow> nat \<Rightarrow> int list \<Rightarrow> (64 word \<times> 64 word) list \<Rightarrow> ((bytes \<times> double) \<times> 64 word) option" where
  "bench name K d readings =
     (case combine K d SPILL_N of
        None \<Rightarrow> None
      | Some v \<Rightarrow>
          (let w = word_of_int v;
               s = ((\<lambda>s. ((\<lambda>s. s XOR w) ^^ SPILL_ITERS) s) ^^ length readings) w;
               cpe = d_div (d_of_int (uint (best_of readings))) (d_mul (d_of_int (int SPILL_N)) (d_of_int (int SPILL_ITERS)))
           in Some ((name, cpe), s)))"

definition spill_data :: "int list" where
  "spill_data = map (\<lambda>i. int (i mod 7 + 1)) [0..<SPILL_N]"

definition spill_ways :: "nat list" where "spill_ways = [1, 2, 3, 4, 5, 6, 8, 10, 12, 16, 20]"

definition spill_main :: "(nat \<Rightarrow> (64 word \<times> 64 word) list) \<Rightarrow> ((bytes \<times> double) \<times> 64 word) list option" where
  "spill_main rdtsc =
     (let d = spill_data in collect (map (\<lambda>K. bench (''K='' @ dec_int (int K)) K d (rdtsc K)) spill_ways))"

section \<open>cmov_vs_branch.c\<close>

definition CMOV_N :: nat where "CMOV_N = 2 ^ 14"
definition CMOV_ITERS :: nat where "CMOV_ITERS = 50000"

text \<open>\<open>rnd\<close> are the numbers \<open>rand\<close> returns; the result is the two names, the time per element, \<open>a[0]\<close> and \<open>b[0]\<close>.\<close>

definition cmov_arrays :: "bool \<Rightarrow> (nat \<Rightarrow> int) \<Rightarrow> int list \<times> int list" where
  "cmov_arrays rnd r =
     (map (\<lambda>i. if rnd then r (2 * i) else int i) [0..<CMOV_N], map (\<lambda>i. if rnd then r (2 * i + 1) else int i + int CMOV_N) [0..<CMOV_N])"

definition elapsed_ns :: "timespec \<Rightarrow> timespec \<Rightarrow> double" where
  "elapsed_ns t0 t1 = d_add (d_mul (d_of_int (tv_sec t1 - tv_sec t0)) GIGA) (d_of_int (tv_nsec t1 - tv_nsec t0))"

definition cmov_main :: "bytes list \<Rightarrow> (nat \<Rightarrow> int) \<Rightarrow> timespec \<Rightarrow> timespec \<Rightarrow> (bytes \<times> bytes) \<times> double \<times> int \<times> int" where
  "cmov_main argv r t0 t1 =
     (let use_cmov = (1 < length argv \<and> argv ! 1 = ''cmov''); rnd = (2 < length argv \<and> argv ! 2 = ''rand'');
          (a, b) = ((\<lambda>(a, b). if use_cmov then minmax2 a b CMOV_N else minmax1 a b CMOV_N) ^^ CMOV_ITERS) (cmov_arrays rnd r);
          ns = elapsed_ns t0 t1
      in ((if use_cmov then ''cmov'' else ''branch'', if rnd then ''rand'' else ''pred''),
          d_div ns (d_mul (d_of_int (int CMOV_N)) (d_of_int (int CMOV_ITERS))), a ! 0, b ! 0))"

section \<open>branch_predict.c\<close>

text \<open>The label, the sum, the seconds and the nanoseconds per element that are printed; \<open>r\<close> is what \<open>rand\<close> draws.\<close>

definition BRANCH_N :: nat where "BRANCH_N = 65536"

definition branch_report ::
  "((int \<Rightarrow> int \<Rightarrow> int) \<Rightarrow> int list \<Rightarrow> int list) \<Rightarrow> bytes list \<Rightarrow> (nat \<Rightarrow> int) \<Rightarrow> timespec \<Rightarrow> timespec \<Rightarrow> bytes \<times> int \<times> double \<times> double" where
  "branch_report qsort argv r t0 t1 =
     (let is_sorted = (1 < length argv \<and> argv ! 1 = ''sorted'');
          total = branch_main qsort is_sorted (map r [0..<BRANCH_N]);
          ns = elapsed_ns t0 t1;
          per = d_div ns (d_mul (d_of_int (int BRANCH_N)) (d_of_int (int branch_iters)))
      in (if is_sorted then ''sorted'' else ''unsorted'', total, d_div ns GIGA, per))"

section \<open>ptr_chase.c and the sums of a matrix\<close>

text \<open>\<open>n\<close> and \<open>iters\<close> are the numbers \<open>atol\<close> reads, not negative. The result is the status and the numbers printed.\<close>

definition ptr_chase_main :: "nat \<Rightarrow> bool \<Rightarrow> (nat \<Rightarrow> nat) \<Rightarrow> nat \<Rightarrow> nat \<Rightarrow> (nat \<times> (nat \<times> nat \<times> nat \<times> nat) option) option" where
  "ptr_chase_main argc malloc_ok rnd n iters =
     (if argc \<noteq> 3 then Some (1, None)
      else if (\<not> malloc_ok \<and> 0 < n) \<or> (n = 0 \<and> 0 < iters) then None
      else let idx = sattolo rnd n; p = chase idx iters 0 in Some (0, Some (n, n * 8 div 1024, iters, p)))"

definition ROWCOL_N :: nat where "ROWCOL_N = 4096"

definition rowcol_main :: "bytes list \<Rightarrow> int option" where
  "rowcol_main argv =
     (let a = (\<lambda>i j. int i + int j)
      in if 1 < length argv \<and> argv ! 1 \<noteq> [] \<and> hd (argv ! 1) = CHR ''c'' then sum_col ROWCOL_N a else sum_row ROWCOL_N a)"

section \<open>The measuring loop ends\<close>

definition round_time :: "timespec \<times> timespec \<Rightarrow> double" where
  "round_time ts = d_sub (now_sec (snd ts)) (now_sec (fst ts))"

lemma run_loop_first:
  assumes "k < length readings" "d_ge (round_time (readings ! k)) MIN_TIME" "\<And>j. j < k \<Longrightarrow> \<not> d_ge (round_time (readings ! j)) MIN_TIME"
    and "0 \<le> v" "0 \<le> reps" "reps * 2 ^ k \<le> LONG_MAX" "reps * 2 ^ k * v \<le> LONG_MAX"
  shows "run_loop v reps readings = Some (reps * 2 ^ k, round_time (readings ! k))"
  using assms
proof (induction k arbitrary: reps readings)
  case 0
  then obtain ts rs where "readings = ts # rs" by (cases readings) auto
  moreover have "LONG_MIN \<le> reps * v" using 0 by (auto simp: LONG_MIN_def intro: order_trans [of _ 0])
  ultimately show ?case using 0 by (cases ts) (simp add: Let_def round_time_def)
next
  case (Suc k)
  then obtain ts rs where r: "readings = ts # rs" by (cases readings) auto
  have two: "(1 :: int) \<le> 2 ^ k" by simp
  have "(1 :: int) \<le> 2 ^ Suc k" by (rule one_le_power) simp
  then have "reps * v \<le> reps * v * 2 ^ Suc k" using Suc.prems(4,5) by (metis mult.right_neutral mult_left_mono mult_nonneg_nonneg)
  then have sink: "reps * v \<le> LONG_MAX" "LONG_MIN \<le> reps * v"
    using Suc.prems(4,5,7) by (auto simp: LONG_MIN_def ac_simps intro: order_trans [of _ 0])
  have "reps * 2 \<le> reps * 2 * 2 ^ k" using Suc.prems(5) two by (metis mult.right_neutral mult_left_mono mult_nonneg_nonneg zero_le_numeral)
  then have "reps * 2 \<le> LONG_MAX" using Suc.prems(6) by (simp add: ac_simps)
  moreover have "\<not> d_ge (round_time ts) MIN_TIME" using Suc.prems(3) [of 0] r by simp
  moreover have "run_loop v (reps * 2) rs = Some (reps * 2 * 2 ^ k, round_time (rs ! k))"
    by (rule Suc.IH) (use Suc.prems r in \<open>auto simp: ac_simps dest: spec [of _ "Suc _"]\<close>, use Suc.prems(3) r in fastforce)
  ultimately show ?case using sink r by (cases ts) (simp add: Let_def round_time_def ac_simps)
qed

text \<open>One of the first sixteen rounds is long enough.\<close>

definition settles :: "(timespec \<times> timespec) list \<Rightarrow> bool" where
  "settles readings \<longleftrightarrow> (\<exists>k < 16. k < length readings \<and> d_ge (round_time (readings ! k)) MIN_TIME)"

lemma run_loop_settles:
  assumes "settles readings" "0 \<le> v" "v \<le> 2 ^ 47"
  shows "\<exists>k < 16. run_loop v 1 readings = Some (2 ^ k, round_time (readings ! k)) \<and> d_ge (round_time (readings ! k)) MIN_TIME"
proof -
  define k where "k = (LEAST k. k < 16 \<and> k < length readings \<and> d_ge (round_time (readings ! k)) MIN_TIME)"
  have k: "k < 16 \<and> k < length readings \<and> d_ge (round_time (readings ! k)) MIN_TIME"
    unfolding k_def by (rule LeastI_ex) (use assms(1) in \<open>auto simp: settles_def\<close>)
  have least: "\<not> d_ge (round_time (readings ! j)) MIN_TIME" if "j < k" for j
    using not_less_Least [OF that [unfolded k_def]] that k by simp
  have "(2 :: int) ^ k \<le> 2 ^ 15" using k by (intro power_increasing) simp_all
  moreover from this have "2 ^ k * v \<le> 2 ^ 15 * 2 ^ 47" using assms(2,3) by (intro mult_mono) simp_all
  ultimately have "run_loop v 1 readings = Some (1 * 2 ^ k, round_time (readings ! k))"
    by (intro run_loop_first) (use k least assms(2) in \<open>simp_all add: LONG_MAX_def\<close>)
  then show ?thesis using k by auto
qed

lemma test_bound:
  assumes "0 < stride" "stride \<le> MAXSTRIDE" "elems \<le> 2 ^ 24"
  shows "\<exists>v. mountain_test (init_data MAXELEMS) elems stride = Some v \<and> 0 \<le> v \<and> v \<le> 2 ^ 47"
proof -
  have len: "length (init_data MAXELEMS) = 2 ^ 24" by (simp add: init_data_def MAXELEMS_def MAXBYTES_def)
  have at: "init_data MAXELEMS ! k = int k" if "k < elems" for k using that assms(3) by (simp add: init_data_def MAXELEMS_def MAXBYTES_def)
  have sub: "strided elems stride 0 \<subseteq> {..<elems}" by (auto simp: strided_def)
  have nonneg: "0 \<le> (\<Sum>k \<in> strided elems stride 0. init_data MAXELEMS ! k)" by (intro sum_nonneg) (use at sub in auto)
  have "(\<Sum>k \<in> strided elems stride 0. init_data MAXELEMS ! k) \<le> (\<Sum>k < elems. init_data MAXELEMS ! k)"
    by (intro sum_mono2) (use at sub in auto)
  also have "\<dots> = (\<Sum>k < elems. int k)" using at by simp
  also have "\<dots> * 2 \<le> int elems * int elems" by (induction elems) (auto simp: algebra_simps)
  finally have "(\<Sum>k \<in> strided elems stride 0. init_data MAXELEMS ! k) * 2 \<le> int elems * int elems" by simp
  moreover have "int elems * int elems \<le> 2 ^ 24 * 2 ^ 24" using assms(3) by (intro mult_mono) simp_all
  ultimately have le: "(\<Sum>k \<in> strided elems stride 0. init_data MAXELEMS ! k) \<le> 2 ^ 47" by simp
  have "rest_abs (init_data MAXELEMS) elems stride 0 = rest_sum (init_data MAXELEMS) elems stride 0"
    by (intro sum.cong) (use at sub in auto)
  then have "mountain_test (init_data MAXELEMS) elems stride = Some (rest_sum (init_data MAXELEMS) elems stride 0)"
    using mountain_test_sum [OF assms(1), of elems "init_data MAXELEMS"] assms(2,3) len le by (simp add: LONG_MAX_def MAXSTRIDE_def)
  with le nonneg show ?thesis by simp
qed

lemma run_size_ends:
  assumes "0 < stride" "stride \<le> MAXSTRIDE" "bytes \<le> MAXBYTES" "settles readings"
  shows "\<exists>r. run_size (init_data MAXELEMS) bytes stride readings = Some r"
proof -
  have "bytes div 8 \<le> 2 ^ 24" using div_le_mono [OF assms(3), of 8] by (simp add: MAXBYTES_def)
  then obtain v where v: "mountain_test (init_data MAXELEMS) (bytes div 8) stride = Some v" "0 \<le> v" "v \<le> 2 ^ 47"
    using test_bound assms(1,2) by blast
  then show ?thesis using run_loop_settles [OF assms(4) v(2,3)] by (auto simp: run_size_def Let_def)
qed

lemma collect_Some: "(\<And>x. x \<in> set xs \<Longrightarrow> \<exists>y. x = Some y) \<Longrightarrow> \<exists>ys. collect xs = Some ys \<and> length ys = length xs"
proof (induction xs)
  case (Cons x xs)
  then obtain y ys where "x = Some y" "collect xs = Some ys" "length ys = length xs" by force
  then show ?case by simp
qed simp

lemma mountain_rows_end:
  assumes "\<And>i s. 14 \<le> i \<Longrightarrow> i \<le> 27 \<Longrightarrow> s \<in> {1..16} \<Longrightarrow> settles (clk (2 ^ i) s)" "14 \<le> i" "i \<le> 28"
  shows "\<exists>rows. mountain_rows (init_data MAXELEMS) clk (2 ^ i) = Some rows \<and> map fst rows = map (\<lambda>j. size_label (2 ^ j)) [i..<28]
    \<and> (\<forall>row \<in> set rows. length (snd row) = 16)"
  using assms(3,2)
proof (induction rule: inc_induct)
  case base
  have "\<not> (2 :: nat) ^ 28 \<le> MAXBYTES" by (simp add: MAXBYTES_def)
  then show ?case by (subst mountain_rows.simps) simp
next
  case (step i)
  have le: "(2 :: nat) ^ i \<le> MAXBYTES" unfolding MAXBYTES_def using step(2) by (intro power_increasing) simp_all
  have "\<exists>row. collect (map (\<lambda>s. run_size (init_data MAXELEMS) (2 ^ i) s (clk (2 ^ i) s)) [1..<MAXSTRIDE + 1]) = Some row
      \<and> length row = length (map (\<lambda>s. run_size (init_data MAXELEMS) (2 ^ i) s (clk (2 ^ i) s)) [1..<MAXSTRIDE + 1])"
    by (rule collect_Some) (use run_size_ends le assms(1) step in \<open>force simp: MAXSTRIDE_def\<close>)
  then obtain row where row: "collect (map (\<lambda>s. run_size (init_data MAXELEMS) (2 ^ i) s (clk (2 ^ i) s)) [1..<MAXSTRIDE + 1]) = Some row"
      "length row = 16" by (auto simp: MAXSTRIDE_def)
  obtain rows where rows: "mountain_rows (init_data MAXELEMS) clk (2 ^ Suc i) = Some rows"
      "map fst rows = map (\<lambda>j. size_label (2 ^ j)) [Suc i..<28]" "\<forall>row \<in> set rows. length (snd row) = 16"
    using step by auto
  have "mountain_rows (init_data MAXELEMS) clk (2 ^ i) = Some ((size_label (2 ^ i), row) # rows)"
    by (subst mountain_rows.simps) (use le row(1) rows(1) in \<open>simp add: mult.commute\<close>)
  then show ?case using rows(2,3) row(2) step(2) by (simp add: upt_conv_Cons)
qed

lemma size_labels:
  "map (\<lambda>j. size_label (2 ^ j)) [14..<28] =
     [''16K'', ''32K'', ''64K'', ''128K'', ''256K'', ''512K'', ''1M'', ''2M'', ''4M'', ''8M'', ''16M'', ''32M'', ''64M'', ''128M'']"
proof -
  have label: "size_label (2 ^ j) = (if 20 \<le> j then dec_int (2 ^ (j - 20)) @ ''M'' else dec_int (2 ^ (j - 10)) @ ''K'')" if "10 \<le> j" for j
  proof -
    have c: "(2 :: nat) ^ 20 \<le> 2 ^ j \<longleftrightarrow> 20 \<le> j" by (rule power_increasing_iff) simp
    have "(2 :: nat) ^ j div 2 ^ m = 2 ^ (j - m)" if "m \<le> j" for m using that by (simp add: power_diff)
    from this [of 20] this [of 10] c show ?thesis using that by (cases "20 \<le> j") (simp_all add: size_label_def)
  qed
  have "map (\<lambda>j. size_label (2 ^ j)) [14..<28] =
      map (\<lambda>j. if 20 \<le> j then dec_int (2 ^ (j - 20)) @ ''M'' else dec_int (2 ^ (j - 10)) @ ''K'') [14..<28]"
  proof (rule map_cong [OF refl])
    fix j assume "j \<in> set [14..<28]"
    then have "10 \<le> j" by auto
    then show "size_label (2 ^ j) = (if 20 \<le> j then dec_int (2 ^ (j - 20)) @ ''M'' else dec_int (2 ^ (j - 10)) @ ''K'')" by (rule label)
  qed
  also have "\<dots> = [''16K'', ''32K'', ''64K'', ''128K'', ''256K'', ''512K'', ''1M'', ''2M'', ''4M'', ''8M'', ''16M'', ''32M'', ''64M'', ''128M'']"
    by code_simp
  finally show ?thesis .
qed

section \<open>The other experiments\<close>

lemma xor_even: "even n \<Longrightarrow> ((\<lambda>s. s XOR v) ^^ n) (x :: 64 word) = x"
proof -
  assume "even n"
  then obtain k where n: "n = 2 * k" by (auto elim: evenE)
  have two: "(\<lambda>s. s XOR v) ^^ 2 = (id :: 64 word \<Rightarrow> 64 word)"
    by (simp add: numeral_2_eq_2 fun_eq_iff xor.assoc)
  have "(\<lambda>s. s XOR v) ^^ n = ((\<lambda>s. s XOR v) ^^ 2) ^^ k" unfolding n by (simp add: funpow_mult)
  also have "\<dots> = id" unfolding two by (induction k) simp_all
  finally show ?thesis by simp
qed

lemma best_of_min:
  "best_of readings \<in> insert (NOT 0) ((\<lambda>(c0, c1). c1 - c0) ` set readings) \<and> (\<forall>(c0, c1) \<in> set readings. best_of readings \<le> c1 - c0)"
proof (induction readings rule: rev_induct)
  case Nil
  show ?case by (simp add: best_of_def)
next
  case (snoc r readings)
  obtain c0 c1 where r: "r = (c0, c1)" by (cases r)
  have b: "best_of (readings @ [r]) = (if c1 - c0 < best_of readings then c1 - c0 else best_of readings)" by (simp add: best_of_def r)
  show ?case using snoc unfolding b by (auto simp: r)
qed

lemma bench_result:
  assumes "combine K d SPILL_N = Some v"
  shows "\<exists>cpe. bench name K d readings = Some ((name, cpe), word_of_int v)"
proof -
  have "even SPILL_ITERS" by (simp add: SPILL_ITERS_def)
  then have "(\<lambda>s. ((\<lambda>s. s XOR v) ^^ SPILL_ITERS) s) = id" for v :: "64 word" using xor_even by (auto simp: fun_eq_iff)
  moreover have "(id ^^ n) x = x" for n and x :: "64 word" by (induction n) simp_all
  ultimately show ?thesis using assms by (simp add: bench_def Let_def)
qed

text \<open>
  The data of \<open>main\<close> are 1 to 7 over and over, whose product passes a \<open>long\<close> at the thirty-eighth element: already the first call of
  \<open>combine1\<close> is undefined, and with it the program.
\<close>

lemma spill_overflows: "combine 1 spill_data SPILL_N = None"
proof (rule combine_overflow)
  have "(\<Prod>k = 0..<Suc 37. spill_data ! k) = prod_list (map (\<lambda>k. int (k mod 7 + 1)) [0..<38])"
    by (subst prod.distinct_set_conv_list [symmetric]) (auto simp: spill_data_def SPILL_N_def intro: prod.cong)
  also have "\<dots> = 19512096384614400000" by code_simp
  finally show "chk_long (\<Prod>k = 0..<Suc 37. spill_data ! k) = None" by (simp add: chk_long_def LONG_MAX_def)
qed (simp_all add: spill_data_def SPILL_N_def)

lemma minmax_iterated:
  assumes "length a = n" "length b = n"
  shows "((\<lambda>(a, b). minmax2 a b n) ^^ Suc k) (a, b) = (map2 min a b, map2 max a b)"
proof (induction k)
  case 0
  show ?case using minmax2_spec [of n a b] assms by simp
next
  case (Suc k)
  have "map2 min (map2 min a b) (map2 max a b) = map2 min a b" "map2 max (map2 min a b) (map2 max a b) = map2 max a b"
    using assms by (auto intro!: nth_equalityI)
  then show ?case using Suc minmax2_spec [of n "map2 min a b" "map2 max a b"] assms by simp
qed

text \<open>What \<open>main\<close> prints does not depend on the variant: the smaller and the larger of the first two numbers.\<close>

lemma cmov_main_values:
  "snd (snd (cmov_main argv r t0 t1)) =
     (if 2 < length argv \<and> argv ! 2 = ''rand'' then (min (r 0) (r 1), max (r 0) (r 1)) else (0, int CMOV_N))"
proof -
  define rnd where "rnd = (2 < length argv \<and> argv ! 2 = ''rand'')"
  obtain a b where ab: "cmov_arrays rnd r = (a, b)" by (cases "cmov_arrays rnd r")
  have len: "length a = CMOV_N" "length b = CMOV_N" using ab by (auto simp: cmov_arrays_def)
  have pos: "0 < CMOV_N" by (simp add: CMOV_N_def)
  have it: "CMOV_ITERS = Suc 49999" by (simp add: CMOV_ITERS_def)
  have f: "(\<lambda>(a, b). if c then minmax2 a b CMOV_N else minmax1 a b CMOV_N) = (\<lambda>(a, b). minmax2 a b CMOV_N)" for c
    by (simp add: minmax1_eq_minmax2 cong: if_cong)
  have "snd (snd (cmov_main argv r t0 t1)) = (map2 min a b ! 0, map2 max a b ! 0)"
    using minmax_iterated [OF len, of 49999] ab unfolding cmov_main_def Let_def f rnd_def [symmetric] it by simp
  moreover have "a ! 0 = (if rnd then r 0 else 0)" "b ! 0 = (if rnd then r 1 else int CMOV_N)"
    using ab pos by (auto simp: cmov_arrays_def)
  ultimately show ?thesis using len pos by (auto simp: rnd_def)
qed

text \<open>The sum is the same, sorted or not, and fits a \<open>long\<close>.\<close>

lemma branch_report_sum:
  assumes "\<And>cmp xs. mset (qsort cmp xs) = mset xs"
  shows "fst (snd (branch_report qsort argv r t0 t1)) = branch_main qsort False (map r [0..<BRANCH_N])"
  using branch_main_same [of qsort "map r [0..<BRANCH_N]", OF assms]
  by (cases "1 < length argv \<and> argv ! 1 = ''sorted''") (simp_all only: branch_report_def Let_def fst_conv snd_conv simp_thms)

lemma branch_main_range: "0 \<le> branch_main qsort False drawn \<and> branch_main qsort False drawn \<le> 255 * int (length drawn) * int branch_iters"
proof -
  define k where "k = sum_list (filter (\<lambda>d. 128 \<le> d) (map (\<lambda>r. r mod 256) drawn))"
  have k: "0 \<le> k \<and> k \<le> 255 * int (length drawn)" unfolding k_def
  proof (induction drawn)
    case (Cons d ds)
    have "0 \<le> d mod 256" "d mod 256 \<le> 255" using pos_mod_bound [of 256 d] by simp_all
    with Cons show ?case by auto
  qed simp
  have "(branch_sum (map (\<lambda>r. r mod 256) drawn) ^^ n) 0 = k * int n" for n
    by (induction n) (simp_all add: branch_sum_filter k_def algebra_simps)
  then have "branch_main qsort False drawn = k * int branch_iters" by (simp add: branch_main_def Let_def)
  then show ?thesis using k mult_right_mono [of k "255 * int (length drawn)" "int branch_iters"] by simp
qed

lemma rowcol_value: "rowcol_main argv = Some 68702699520"
proof -
  have inner: "(\<Sum>j<n. int i + int j) * 2 = int n * (2 * int i + int n - 1)" for i n by (induction n) (simp_all add: algebra_simps)
  have "(\<Sum>i<m. \<Sum>j<n. int i + int j) * 2 = int m * int n * (int m + int n - 2)" for m n
  proof (induction m)
    case (Suc m)
    have "(\<Sum>i<Suc m. \<Sum>j<n. int i + int j) * 2 = (\<Sum>i<m. \<Sum>j<n. int i + int j) * 2 + (\<Sum>j<n. int m + int j) * 2" by (simp add: distrib_right)
    then show ?case using Suc inner [of m n] by (simp add: algebra_simps)
  qed simp
  from this [of 4096 4096] have "(\<Sum>i<4096. \<Sum>j<4096. int i + int j) = 68702699520" by simp
  moreover have "(\<Sum>i<ROWCOL_N. \<Sum>j<ROWCOL_N. \<bar>int i + int j\<bar>) \<le> LONG_MAX" by (rule int_matrix_bound) (simp_all add: ROWCOL_N_def)
  ultimately show ?thesis using sum_rows_cols [where N = ROWCOL_N and a = "\<lambda>i j. int i + int j"] by (simp add: rowcol_main_def ROWCOL_N_def Let_def)
qed

section \<open>Properties\<close>

text \<open>
  The program that measures the memory mountain ends with its whole table, whatever the clock shows, provided that for every entry one of
  the first sixteen rounds takes at least 0.05 seconds: no call of \<open>test\<close> reads outside the array, neither its sum nor the doubling of the
  repetitions overflows a \<open>long\<close>, and there are fourteen rows, from 16K to 128M, of sixteen numbers. The loop stops at a number of
  repetitions that is a power of two and whose round was long enough.
\<close>

lemma mountain_main_ends:
  assumes "\<forall>i \<in> {14..27}. \<forall>s \<in> {1..16}. settles (clk (2 ^ i) s)"
  shows "\<exists>rows. mountain_main clk = Some (mountain_header, rows)
     \<and> map fst rows = [''16K'', ''32K'', ''64K'', ''128K'', ''256K'', ''512K'', ''1M'', ''2M'', ''4M'', ''8M'', ''16M'', ''32M'', ''64M'', ''128M'']
     \<and> (\<forall>row \<in> set rows. length (snd row) = 16)
     \<and> (\<forall>i \<in> {14..27}. \<forall>s \<in> {1..16}. \<exists>v k. mountain_test (init_data MAXELEMS) (2 ^ i div 8) s = Some v \<and> k < 16
          \<and> run_loop v 1 (clk (2 ^ i) s) = Some (2 ^ k, round_time (clk (2 ^ i) s ! k)) \<and> d_ge (round_time (clk (2 ^ i) s ! k)) MIN_TIME)"
proof -
  obtain rows where "mountain_rows (init_data MAXELEMS) clk (2 ^ 14) = Some rows" "map fst rows = map (\<lambda>j. size_label (2 ^ j)) [14..<28]"
      "\<forall>row \<in> set rows. length (snd row) = 16"
    using mountain_rows_end [of clk 14] assms by force
  moreover have "\<exists>v k. mountain_test (init_data MAXELEMS) (2 ^ i div 8) s = Some v \<and> k < 16
      \<and> run_loop v 1 (clk (2 ^ i) s) = Some (2 ^ k, round_time (clk (2 ^ i) s ! k)) \<and> d_ge (round_time (clk (2 ^ i) s ! k)) MIN_TIME"
    if i: "i \<in> {14..27}" and s: "s \<in> {1..16}" for i s
  proof -
    have "(2 :: nat) ^ i \<le> 2 ^ 27" using i by (intro power_increasing) simp_all
    from div_le_mono [OF this, of 8] have "(2 :: nat) ^ i div 8 \<le> 2 ^ 24" by simp
    then obtain v where v: "mountain_test (init_data MAXELEMS) (2 ^ i div 8) s = Some v" "0 \<le> v" "v \<le> 2 ^ 47"
      using test_bound [of s "2 ^ i div 8"] s by (auto simp: MAXSTRIDE_def)
    then show ?thesis using run_loop_settles [OF _ v(2,3), of "clk (2 ^ i) s"] assms i s by blast
  qed
  ultimately show ?thesis using size_labels by (simp add: mountain_main_def MINBYTES_def)
qed

lemma mountain_main_ends_witness:
  "\<exists>rows. mountain_main (\<lambda>_ _. [(\<lparr>tv_sec = 5, tv_nsec = 0\<rparr>, \<lparr>tv_sec = 5, tv_nsec = 1000\<rparr>), (\<lparr>tv_sec = 5, tv_nsec = 1000\<rparr>, \<lparr>tv_sec = 6, tv_nsec = 0\<rparr>)])
     = Some (mountain_header, rows) \<and> length rows = 14"
proof -
  let ?r = "[(\<lparr>tv_sec = 5, tv_nsec = 0\<rparr>, \<lparr>tv_sec = 5, tv_nsec = 1000\<rparr>), (\<lparr>tv_sec = 5, tv_nsec = 1000\<rparr>, \<lparr>tv_sec = 6, tv_nsec = 0\<rparr>)]"
  have "d_ge (round_time (\<lparr>tv_sec = 5, tv_nsec = 1000\<rparr>, \<lparr>tv_sec = 6, tv_nsec = 0\<rparr>)) MIN_TIME" by code_simp
  then have s: "settles ?r" unfolding settles_def by (intro exI [of _ 1]) simp
  obtain rows where "mountain_main (\<lambda>_ _. ?r) = Some (mountain_header, rows)"
      "map fst rows = [''16K'', ''32K'', ''64K'', ''128K'', ''256K'', ''512K'', ''1M'', ''2M'', ''4M'', ''8M'', ''16M'', ''32M'', ''64M'', ''128M'']"
  proof -
    have "\<forall>i \<in> {14..27 :: nat}. \<forall>sz \<in> {1..16 :: nat}. settles ?r" using s by simp
    from mountain_main_ends [of "\<lambda>_ _. ?r", OF this] show ?thesis by (elim exE conjE) (rule that)
  qed
  moreover from arg_cong [OF this(2), of length] have "length rows = 14" by simp
  ultimately show ?thesis by blast
qed

text \<open>
  What the experiments print does not depend on what they measure. The first elements after the fifty thousand exchanges of
  \<open>cmov_vs_branch.c\<close> are the smaller and the larger number drawn, with the branch and without; the pointer chase of a table of \<open>n\<close> slots
  prints 0 just when \<open>n\<close> divides the number of steps, whatever is drawn; the matrix sums to 68702699520 by rows and by columns. Only
  \<open>reg_spill.c\<close> is undefined, whatever the cycle counter shows: its products overflow.
\<close>

lemma experiments_print_same:
  assumes "0 < n"
  shows "spill_main rdtsc = None
     \<and> snd (snd (cmov_main [prog, variant, ''rand''] r t0 t1)) = (min (r 0) (r 1), max (r 0) (r 1))
     \<and> (\<exists>p. ptr_chase_main 3 True rnd n iters = Some (0, Some (n, n * 8 div 1024, iters, p)) \<and> (p = 0 \<longleftrightarrow> n dvd iters))
     \<and> rowcol_main argv = Some 68702699520"
proof (intro conjI)
  have none: "bench name 1 spill_data readings = None" for name readings unfolding bench_def spill_overflows by (rule option.case(1))
  have "spill_ways = 1 # tl spill_ways" by (simp add: spill_ways_def)
  then obtain Ks where ways: "spill_ways = 1 # Ks" by blast
  show "spill_main rdtsc = None" unfolding spill_main_def Let_def ways list.map none collect.simps ..
  show "snd (snd (cmov_main [prog, variant, ''rand''] r t0 t1)) = (min (r 0) (r 1), max (r 0) (r 1))"
    by (simp add: cmov_main_values)
  show "\<exists>p. ptr_chase_main 3 True rnd n iters = Some (0, Some (n, n * 8 div 1024, iters, p)) \<and> (p = 0 \<longleftrightarrow> n dvd iters)"
    using chase_returns [OF assms, of rnd iters] assms by (simp add: ptr_chase_main_def Let_def)
  show "rowcol_main argv = Some 68702699520" by (rule rowcol_value)
qed

lemma experiments_print_same_witness:
  "ptr_chase_main 3 True (\<lambda>i. 3 * i + 1) 5 10 = Some (0, Some (5, 0, 10, 0)) \<and> rowcol_main [''proc'', ''c''] = Some 68702699520"
  using experiments_print_same [of 5 _ _ _ _ _ _ "\<lambda>i. 3 * i + 1" 10 "[''proc'', ''c'']"] by auto

end
