(* ===== verification/Small_Programs.thy ===== *)
theory Small_Programs
  imports Csapp Child_Control Float_Programs Sio
begin

text \<open>
  The small demonstrations: the wrappers of \<open>8.3-8.4\<close> and the programs that call them, the first system calls of \<open>8.1\<close> and \<open>8.2\<close>,
  the branch hints of \<open>5.7\<close>, the wild pointer and the variant of Chapter 3, and the page reader of \<open>9.1-9.5\<close>. \<open>None\<close> is undefined behaviour.
\<close>

section \<open>Early wrappers\<close>

text \<open>
  \<open>unix_error\<close> of \<open>8.3-8.4\<close> and of \<open>8.5-8.6/handler\<close> ends the process with status 0, the one of the later shell with status 1.
\<close>

definition unix_error_84 :: "(errno \<Rightarrow> bytes) \<Rightarrow> bytes \<Rightarrow> errno \<Rightarrow> nat \<times> bytes" where
  "unix_error_84 strerror msg e = (0, msg @ '': '' @ strerror e @ [LF])"

definition try_fork_84 :: "(errno \<Rightarrow> bytes) \<Rightarrow> errno + nat \<Rightarrow> nat or_exit" where
  "try_fork_84 strerror r = (case r of Inl e \<Rightarrow> Inl (unix_error_84 strerror ''fork error'' e) | Inr p \<Rightarrow> Inr p)"

definition try_gets_84 :: "(errno \<Rightarrow> bytes) \<Rightarrow> gets_answer \<Rightarrow> bytes option or_exit" where
  "try_gets_84 strerror a =
     (case a of Got s \<Rightarrow> Inr (Some s) | At_eof \<Rightarrow> Inr None | Gets_error e \<Rightarrow> Inl (unix_error_84 strerror ''fgets error'' e))"

text \<open>
  \<open>fork.c\<close>: each process changes its own copy of \<open>x\<close> and prints it. Which of the two writes first is the scheduler's choice; the result is
  the exit status of the parent with its message, or what has been printed.
\<close>

definition fork_main :: "(errno \<Rightarrow> bytes) \<Rightarrow> errno + nat \<Rightarrow> bool \<Rightarrow> bytes or_exit" where
  "fork_main strerror r child_first =
     (let x = 1
      in case try_fork_84 strerror r of
           Inl e \<Rightarrow> Inl e
         | Inr pid \<Rightarrow>
             (let child = ''child: x = '' @ dec_int (x + 1) @ [LF]; parent = ''parent: x = '' @ dec_int (x - 1) @ [LF]
              in Inr (if child_first then child @ parent else parent @ child)))"

text \<open>\<open>main\<close> of \<open>wait.c\<close>: \<open>err\<close> is the value of \<open>errno\<close> after the last \<open>waitpid\<close>. Both ways of leaving give status 0.\<close>

definition wait_main :: "(errno \<Rightarrow> bytes) \<Rightarrow> nat set \<Rightarrow> pid list \<Rightarrow> errno \<Rightarrow> ((bool \<times> wstatus list) \<times> nat \<times> bytes) option" where
  "wait_main strerror killed ps err =
     map_option (\<lambda>r. (r, if err \<noteq> ECHILD then unix_error_84 strerror ''wait pid error'' err else (0, []))) (order_wait killed ps)"

section \<open>System calls\<close>

text \<open>\<open>8.1\<close> writes once, whatever the call answers; \<open>8.2\<close> writes one byte in each of its turns and prints a sum that stays 0.\<close>

definition hello_main :: "chan \<Rightarrow> nat \<times> chan" where
  "hello_main out = (0, snd (kwrite (take 13 (''hello, world'' @ [LF])) out))"

fun dot_turns :: "nat \<Rightarrow> chan \<Rightarrow> chan" where
  "dot_turns 0 out = out"
| "dot_turns (Suc k) out = dot_turns k (snd (kwrite ''.'' out))"

definition ub_main :: "nat \<Rightarrow> chan \<Rightarrow> chan \<times> bytes" where
  "ub_main turns out = (dot_turns turns out, dec_int 0 @ [LF])"

section \<open>Branch hints\<close>

text \<open>\<open>__builtin_expect(x, c)\<close> is \<open>x\<close>: the hint moves code and has no value of its own.\<close>

definition builtin_expect :: "'a \<Rightarrow> bool \<Rightarrow> 'a" where "builtin_expect x c = x"
definition likely :: "bool \<Rightarrow> bool" where "likely x = builtin_expect x True"
definition unlikely :: "bool \<Rightarrow> bool" where "unlikely x = builtin_expect x False"

datatype path_call = Hot_path int | Cold_path_log_error int

definition handle_plain :: "int \<Rightarrow> int \<times> path_call list" where
  "handle_plain v = (if v < 0 then (-1, [Cold_path_log_error v]) else (0, [Hot_path v]))"

definition handle_hinted :: "int \<Rightarrow> int \<times> path_call list" where
  "handle_hinted v = (if unlikely (v < 0) then (-1, [Cold_path_log_error v]) else (0, [Hot_path v]))"

text \<open>The two blocks store into \<open>sink\<close> three times; every operation is on \<open>int\<close> and must not overflow.\<close>

definition chk :: "int \<Rightarrow> int option" where "chk x = (if in_int x then Some x else None)"

definition block_A :: "int \<Rightarrow> int list option" where
  "block_A v =
     do { a \<leftarrow> chk (v * 3); s1 \<leftarrow> chk (a + 1);
          b \<leftarrow> (if v < 0 then None else chk (v * 4)); let s2 = s1 XOR b;
          c \<leftarrow> chk (v * 7); s3 \<leftarrow> chk (s2 + c); Some [s1, s2, s3] }"

definition block_B :: "int \<Rightarrow> int list option" where
  "block_B v =
     do { s1 \<leftarrow> chk (v - 9); let s2 = s1 OR (v div 2);
          c \<leftarrow> chk (v * 5); s3 \<leftarrow> chk (s2 - c); Some [s1, s2, s3] }"

definition expect_true :: "int \<Rightarrow> (int \<times> int list) option" where
  "expect_true v = (if likely (0 < v) then map_option (Pair 1) (block_A v) else map_option (Pair 0) (block_B v))"

definition expect_false :: "int \<Rightarrow> (int \<times> int list) option" where
  "expect_false v = (if unlikely (0 < v) then map_option (Pair 1) (block_A v) else map_option (Pair 0) (block_B v))"

section \<open>Chapter 3\<close>

text \<open>\<open>3.2\<close>: \<open>multsore\<close> stores the product through a pointer; the product must fit a \<open>long\<close>.\<close>

definition mult2 :: "int \<Rightarrow> int \<Rightarrow> int option" where
  "mult2 a b = (let s = a * b in if LONG_MIN \<le> s \<and> s \<le> LONG_MAX then Some s else None)"

definition multsore :: "int \<Rightarrow> int \<Rightarrow> nat \<Rightarrow> (nat \<Rightarrow> int) \<Rightarrow> (nat \<Rightarrow> int) option" where
  "multsore x y dest mem = map_option (\<lambda>t. mem(dest := t)) (mult2 x y)"

definition mult_main :: "nat \<Rightarrow> (nat \<Rightarrow> int) \<Rightarrow> bytes option" where
  "mult_main d mem = map_option (\<lambda>mem. ''2 * 3 = '' @ dec_int (mem d) @ [LF]) (multsore 2 3 d mem)"

text \<open>The variant: one visitor per alternative; the text of a \<open>double\<close> is the library's. The labels are UTF-8.\<close>

datatype shape = Shape_int int | Shape_double double | Shape_string bytes

definition describe :: "(double \<Rightarrow> bytes) \<Rightarrow> shape \<Rightarrow> bytes" where
  "describe fmt s =
     (case s of
        Shape_int n \<Rightarrow> [CHR 0xE6, CHR 0x95, CHR 0xB4, CHR 0xE6, CHR 0x95, CHR 0xB0, CHR '' ''] @ dec_int n @ [LF]
      | Shape_double d \<Rightarrow> [CHR 0xE5, CHR 0xB0, CHR 0x8F, CHR 0xE6, CHR 0x95, CHR 0xB0, CHR '' ''] @ fmt d @ [LF]
      | Shape_string s \<Rightarrow> [CHR 0xE5, CHR 0xAD, CHR 0x97, CHR 0xE7, CHR 0xAC, CHR 0xA6, CHR 0xE4, CHR 0xB8, CHR 0xB2, CHR '' ''] @ s @ [LF])"

definition variant_main :: "(double \<Rightarrow> bytes) \<Rightarrow> bytes" where
  "variant_main fmt = describe fmt (Shape_int 42) @ describe fmt (Shape_double 0x40091EB851EB851F) @ describe fmt (Shape_string ''hello'')"

text \<open>
  The list walk of \<open>crash.c\<close>: memory maps an address to the node there. The result is the memory at the end, or the address whose access
  faults with the memory at that moment; no result is a walk that does not end.
\<close>

record node =
  nd_id :: int
  nd_name :: bytes
  nd_next :: nat

datatype walk_end = Walked "nat \<Rightarrow> node option" | Faulted nat "nat \<Rightarrow> node option"

partial_function (option) walk :: "(nat \<Rightarrow> node option) \<Rightarrow> nat \<Rightarrow> walk_end option" where
  "walk mem n =
     (if n = 0 then Some (Walked mem)
      else case mem n of
             None \<Rightarrow> Some (Faulted n mem)
           | Some nd \<Rightarrow> walk (mem(n \<mapsto> nd\<lparr>nd_name := overlay [CHR ''X'', NUL] (nd_name nd)\<rparr>)) (nd_next nd))"

definition BAD :: nat where "BAD = 0xdeadbeef"

definition crash_main :: "(nat \<Rightarrow> node option) \<Rightarrow> nat \<Rightarrow> walk_end option" where
  "crash_main mem head =
     walk (mem(head \<mapsto> \<lparr>nd_id = 1, nd_name = overlay ''head'' (replicate 16 NUL), nd_next = BAD\<rparr>)) head"

section \<open>Reading one byte of every page\<close>

text \<open>The bytes of the mapped file; a \<open>char\<close> is signed.\<close>

definition schar :: "byte \<Rightarrow> int" where
  "schar c = (let n = int (of_char c) in if n < 128 then n else n - 256)"

definition major_sum :: "bytes \<Rightarrow> int" where
  "major_sum m = foldl (\<lambda>acc i. acc + schar (m ! (i * 4096))) 0 [0..<(length m + 4095) div 4096]"

definition major_main :: "bytes option \<Rightarrow> bytes option" where
  "major_main bigfile = map_option (\<lambda>m. ''sum = '' @ dec_int (major_sum m) @ [LF]) bigfile"

section \<open>What the programs do\<close>

lemma fork_main_prints:
  "fork_main str (Inr p) True = Inr (''child: x = 2'' @ [LF] @ ''parent: x = 0'' @ [LF])"
  "fork_main str (Inr p) False = Inr (''parent: x = 0'' @ [LF] @ ''child: x = 2'' @ [LF])"
proof -
  have "dec_int 2 = ''2''" "dec_int 0 = ''0''" by code_simp+
  then show "fork_main str (Inr p) True = Inr (''child: x = 2'' @ [LF] @ ''parent: x = 0'' @ [LF])"
    "fork_main str (Inr p) False = Inr (''parent: x = 0'' @ [LF] @ ''child: x = 2'' @ [LF])"
    by (simp_all add: fork_main_def try_fork_84_def)
qed

text \<open>An error is reported on standard error and then hidden: the status is that of a success.\<close>

lemma early_errors_succeed:
  "fork_main str (Inl e) b = Inl (0, ''fork error: '' @ str e @ [LF])"
  "try_gets_84 str (Gets_error e) = Inl x \<Longrightarrow> fst x = 0"
  "wait_main str killed ps err = Some (r, st, msg) \<Longrightarrow> st = 0"
  by (auto simp: fork_main_def try_fork_84_def try_gets_84_def unix_error_84_def wait_main_def split: if_splits)

lemma hello_writes: "k_wsched out = [] \<Longrightarrow> k_out (snd (hello_main out)) = k_out out @ ''hello, world'' @ [LF]"
  by (simp add: hello_main_def kwrite_def)

lemma dot_turns_writes: "k_wsched out = [] \<Longrightarrow> k_out (dot_turns n out) = k_out out @ replicate n (CHR ''.'')"
proof (induction n arbitrary: out)
  case (Suc n)
  then show ?case by (simp add: kwrite_def replicate_append_same [symmetric])
qed simp

lemma crash_faults:
  assumes "head \<noteq> 0" "head \<noteq> BAD" "mem BAD = None"
  shows "\<exists>mem'. crash_main mem head = Some (Faulted BAD mem') \<and> map_option nd_name (mem' head) = Some ([CHR ''X'', NUL] @ ''ad'' @ replicate 12 NUL)"
proof -
  have "BAD \<noteq> 0" by (simp add: BAD_def)
  then show ?thesis using assms unfolding crash_main_def
    by (subst walk.simps, subst walk.simps) (simp add: overlay_def eval_nat_numeral)
qed

lemma mult_main_prints: "mult_main d mem = Some (''2 * 3 = 6'' @ [LF])"
proof -
  have "dec_int 6 = ''6''" by code_simp
  then show ?thesis by (simp add: mult_main_def multsore_def mult2_def LONG_MIN_def LONG_MAX_def)
qed

text \<open>A hint changes nothing, not even which values overflow.\<close>

lemma hints_equal: "handle_hinted v = handle_plain v" "expect_true v = expect_false v"
  by (simp_all add: handle_hinted_def handle_plain_def expect_true_def expect_false_def likely_def unlikely_def builtin_expect_def)

end
