(* ===== verification/Http_Program.thy ===== *)
theory Http_Program
  imports Http_Client C_Text
begin

text \<open>
  \<open>main\<close> of \<open>Chapter11/experiments/http_client.cpp\<close> with everything it owns: the guard of libcurl's global state, the handle in
  its \<open>unique_ptr\<close>, the exceptions and the text it prints. The state of libcurl counts the initialisations not yet undone and
  holds the live handles; \<open>lb_bad\<close> is set by a call libcurl forbids.
\<close>

section \<open>Guards\<close>

record curl_lib =
  lb_inits :: nat
  lb_live :: "nat set"
  lb_bad :: bool

text \<open>The texts of the program in UTF-8.\<close>

definition INIT_FAILED :: bytes where
  "INIT_FAILED = ''curl_global_init '' @ [CHR 0xE5, CHR 0xA4, CHR 0xB1, CHR 0xE8, CHR 0xB4, CHR 0xA5]"
definition EASY_FAILED :: bytes where
  "EASY_FAILED = ''curl_easy_init '' @ [CHR 0xE5, CHR 0xA4, CHR 0xB1, CHR 0xE8, CHR 0xB4, CHR 0xA5]"
definition TRANSFER_FAILED :: bytes where
  "TRANSFER_FAILED = [CHR 0xE4, CHR 0xBC, CHR 0xA0, CHR 0xE8, CHR 0xBE, CHR 0x93, CHR 0xE5, CHR 0xA4, CHR 0xB1, CHR 0xE8, CHR 0xB4, CHR 0xA5] @ '': ''"
definition ERROR_LABEL :: bytes where
  "ERROR_LABEL = [CHR 0xE9, CHR 0x94, CHR 0x99, CHR 0xE8, CHR 0xAF, CHR 0xAF] @ '': ''"
definition STATUS_LABEL :: bytes where
  "STATUS_LABEL = ''HTTP '' @ [CHR 0xE7, CHR 0x8A, CHR 0xB6, CHR 0xE6, CHR 0x80, CHR 0x81, CHR 0xE7, CHR 0xA0, CHR 0x81] @ '': ''"
definition BODY_LENGTH :: bytes where
  "BODY_LENGTH = ''body '' @ [CHR 0xE9, CHR 0x95, CHR 0xBF, CHR 0xE5, CHR 0xBA, CHR 0xA6] @ '': ''"
definition BYTES_LABEL :: bytes where
  "BYTES_LABEL = '' '' @ [CHR 0xE5, CHR 0xAD, CHR 0x97, CHR 0xE8, CHR 0x8A, CHR 0x82]"
definition BODY_START :: bytes where
  "BODY_START = ''body '' @ [CHR 0xE5, CHR 0x89, CHR 0x8D] @ '' ''"
definition NOT_OK :: bytes where
  "NOT_OK = ''  ('' @ [CHR 0xE9, CHR 0x9D, CHR 0x9E] @ '' 2xx'' @ [CHR 0xEF, CHR 0xBC, CHR 0x8C, CHR 0xE4, CHR 0xB8, CHR 0x9A, CHR 0xE5, CHR 0x8A, CHR 0xA1, CHR 0xE5, CHR 0xA4, CHR 0xB1, CHR 0xE8, CHR 0xB4, CHR 0xA5] @ '')''"

text \<open>The constructor of \<open>CurlGlobal\<close>: the state, or the text of the exception. A constructor that throws has no destructor call.\<close>

definition CurlGlobal_ctor :: "bool \<Rightarrow> curl_lib \<Rightarrow> bytes + curl_lib" where
  "CurlGlobal_ctor init_ok lib = (if init_ok then Inr (lib\<lparr>lb_inits := lb_inits lib + 1\<rparr>) else Inl INIT_FAILED)"

definition CurlGlobal_dtor :: "curl_lib \<Rightarrow> curl_lib" where
  "CurlGlobal_dtor lib =
     (if lb_inits lib = 0 \<or> lb_live lib \<noteq> {} then lib\<lparr>lb_bad := True\<rparr> else lib\<lparr>lb_inits := lb_inits lib - 1\<rparr>)"

definition CurlEasyDeleter :: "nat option \<Rightarrow> curl_lib \<Rightarrow> curl_lib" where
  "CurlEasyDeleter h lib =
     (case h of None \<Rightarrow> lib
      | Some p \<Rightarrow> if p \<in> lb_live lib \<and> 0 < lb_inits lib then lib\<lparr>lb_live := lb_live lib - {p}\<rparr> else lib\<lparr>lb_bad := True\<rparr>)"

text \<open>The constructor of \<open>HttpClient\<close>: \<open>easy\<close> is what \<open>curl_easy_init\<close> returns. When it throws, the empty \<open>handle_\<close> is destroyed.\<close>

definition HttpClient_ctor :: "nat option \<Rightarrow> curl_lib \<Rightarrow> (bytes \<times> curl_lib) + (nat \<times> http_client \<times> curl_lib)" where
  "HttpClient_ctor easy lib =
     (case easy of
        None \<Rightarrow> Inl (EASY_FAILED, CurlEasyDeleter None lib)
      | Some p \<Rightarrow> Inr (p, new_client, lib\<lparr>lb_live := insert p (lb_live lib)\<rparr>))"

section \<open>The program\<close>

definition get_title :: "bytes \<Rightarrow> bytes" where
  "get_title url = ''== GET '' @ url @ '' =='' @ [LF]"

definition get_report :: "http_response \<Rightarrow> bytes" where
  "get_report r =
     STATUS_LABEL @ dec_int (rs_status r) @ (if response_ok r then ''  (2xx OK)'' else NOT_OK) @ [LF]
     @ BODY_LENGTH @ dec_int (int (length (rs_body r))) @ BYTES_LABEL @ [LF]
     @ BODY_START @ ''200'' @ BYTES_LABEL @ '':'' @ [LF] @ take 200 (rs_body r) @ [LF, LF]"

definition post_title :: "bytes \<Rightarrow> bytes" where
  "post_title url = ''== POST JSON '' @ url @ '' =='' @ [LF]"

definition post_report :: "http_response \<Rightarrow> bytes" where
  "post_report r = STATUS_LABEL @ dec_int (rs_status r) @ [LF] @ BODY_START @ ''300'' @ BYTES_LABEL @ '':'' @ [LF] @ take 300 (rs_body r) @ [LF]"

text \<open>
  The \<open>try\<close> block: what it prints, the exception that leaves it, and the library after the client has been destroyed. One
  more header list is alive while the POST runs, at \<open>p\<close>.
\<close>

definition POST_URL :: bytes where "POST_URL = ''https://httpbin.org/post''"

definition POST_BODY :: bytes where
  "POST_BODY = [CHR 0x7B, CHR 0x22] @ ''name'' @ [CHR 0x22, CHR 0x3A, CHR 0x22] @ ''yanxu'' @
     [CHR 0x22, CHR 0x2C, CHR 0x22] @ ''chapter'' @ [CHR 0x22, CHR 0x3A] @ ''11'' @ [CHR 0x7D]"

definition http_try ::
  "nat option \<Rightarrow> nat \<Rightarrow> (nat \<Rightarrow> bool) \<Rightarrow> (nat \<Rightarrow> bytes) \<Rightarrow> (wire_request \<Rightarrow> curl_answer) \<Rightarrow> bytes \<Rightarrow> curl_lib
   \<Rightarrow> (bytes \<times> bytes option \<times> curl_lib) option" where
  "http_try easy p grow strerror curl url lib =
     (case HttpClient_ctor easy lib of
        Inl (msg, lib1) \<Rightarrow> Some ([], Some msg, lib1)
      | Inr (h, client, lib1) \<Rightarrow>
          (let out1 = get_title url; leave = CurlEasyDeleter (Some h) lib1
           in case http_get curl grow strerror url client of
                None \<Rightarrow> None
              | Some (Inl msg, client1) \<Rightarrow> Some (out1, Some (TRANSFER_FAILED @ msg), leave)
              | Some (Inr r, client1) \<Rightarrow>
                  (let out2 = out1 @ get_report r @ post_title POST_URL
                   in case post_json curl grow strerror p POST_URL POST_BODY client1 of
                        None \<Rightarrow> None
                      | Some (Inl msg, client2) \<Rightarrow> Some (out2, Some (TRANSFER_FAILED @ msg), leave)
                      | Some (Inr r2, client2) \<Rightarrow> Some (out2 @ post_report r2, None, leave))))"

text \<open>The guard is built outside the \<open>try\<close> block: its exception is caught by nobody and ends the process.\<close>

datatype http_end = Terminated bytes | Exited nat bytes bytes

definition http_program ::
  "bool \<Rightarrow> nat option \<Rightarrow> nat \<Rightarrow> (nat \<Rightarrow> bool) \<Rightarrow> (nat \<Rightarrow> bytes) \<Rightarrow> (wire_request \<Rightarrow> curl_answer) \<Rightarrow> bytes list \<Rightarrow> curl_lib
   \<Rightarrow> (http_end \<times> curl_lib) option" where
  "http_program init_ok easy p grow strerror curl argv lib =
     (case CurlGlobal_ctor init_ok lib of
        Inl msg \<Rightarrow> Some (Terminated msg, lib)
      | Inr lib1 \<Rightarrow>
          (let url = (if 1 < length argv then argv ! 1 else ''https://httpbin.org/get'')
           in case http_try easy p grow strerror curl url lib1 of
                None \<Rightarrow> None
              | Some (out, exn, lib2) \<Rightarrow>
                  Some (case exn of None \<Rightarrow> Exited 0 out [] | Some msg \<Rightarrow> Exited 1 out (ERROR_LABEL @ msg @ [LF]), CurlGlobal_dtor lib2)))"

section \<open>Everything is given back\<close>

text \<open>The two requests are those of \<open>http_main\<close>, which keeps of this program the status and the responses.\<close>

lemma main_calls_texts:
  "main_calls argv = (Call_get (if 1 < length argv then argv ! 1 else ''https://httpbin.org/get''), Call_post 0 POST_URL POST_BODY)"
  by (simp add: main_calls_def POST_URL_def POST_BODY_def)

lemma http_main_of_program:
  assumes "http_program True (Some h) 0 grow strerror curl argv lib = Some (Exited st out err, lib1)"
  shows "\<exists>rs. http_main grow strerror curl argv = Some (int st, rs)"
proof -
  define url where "url = (if 1 < length argv then argv ! 1 else ''https://httpbin.org/get'')"
  note defs = http_program_def http_try_def HttpClient_ctor_def CurlGlobal_ctor_def Let_def url_def [symmetric]
  have calls: "main_calls argv = (Call_get url, Call_post 0 POST_URL POST_BODY)" by (simp only: main_calls_texts url_def)
  obtain x cl1 where g: "http_get curl grow strerror url new_client = Some (x, cl1)"
    using assms unfolding defs by (cases "http_get curl grow strerror url new_client") (simp_all split: prod.splits)
  show ?thesis
  proof (cases x)
    case (Inl msg)
    then show ?thesis using assms g unfolding defs by (simp add: http_main_def calls split: prod.splits)
  next
    case (Inr r)
    obtain z where z: "post_json curl grow strerror 0 POST_URL POST_BODY cl1 = Some z"
      using assms g Inr unfolding defs by (cases "post_json curl grow strerror 0 POST_URL POST_BODY cl1") simp_all
    then obtain y cl2 where q: "post_json curl grow strerror 0 POST_URL POST_BODY cl1 = Some (y, cl2)" by (cases z) simp
    show ?thesis using assms g q Inr unfolding defs by (cases y) (simp_all add: http_main_def calls)
  qed
qed

text \<open>
  Whatever fails, the handle is cleaned up once, before the global state, and the library is left as it was. The exit
  status is 0 just when both transfers succeed, whatever the status codes of the responses are.
\<close>

lemma http_program_ends:
  assumes "\<forall>w. \<forall>c \<in> set (an_chunks (curl w)). length c < 2 ^ 64" and "\<not> lb_bad lib" "lb_live lib = {}"
  shows "\<exists>e. http_program init_ok easy p grow strerror curl argv lib = Some (e, lib)
     \<and> ((\<exists>msg. e = Terminated msg) \<longleftrightarrow> \<not> init_ok)
     \<and> ((\<exists>out. e = Exited 0 out []) \<longleftrightarrow> init_ok \<and> easy \<noteq> None
          \<and> \<not> isl (outcome grow strerror (curl (wire_of (Call_get (if 1 < length argv then argv ! 1 else ''https://httpbin.org/get'')))))
          \<and> \<not> isl (outcome grow strerror (curl (wire_of (Call_post p POST_URL POST_BODY)))))"
proof (cases "\<not> init_ok \<or> easy = None")
  case True
  then show ?thesis using assms(2,3)
    by (cases init_ok) (auto simp: http_program_def CurlGlobal_ctor_def CurlGlobal_dtor_def http_try_def HttpClient_ctor_def CurlEasyDeleter_def)
next
  case False
  then obtain h where h: "easy = Some h" and i: "init_ok" by auto
  define url where "url = (if 1 < length argv then argv ! 1 else ''https://httpbin.org/get'')"
  have e: "cl_slists new_client = Map.empty" by (simp add: new_client_def)
  obtain cl1 where g: "http_get curl grow strerror url new_client = Some (outcome grow strerror (curl (wire_of (Call_get url))), cl1)"
      "cl_slists cl1 = Map.empty"
    using call_outcome [of curl "Call_get url" new_client grow strerror] assms(1) e by auto
  obtain cl2 where q: "post_json curl grow strerror p POST_URL POST_BODY cl1
      = Some (outcome grow strerror (curl (wire_of (Call_post p POST_URL POST_BODY))), cl2)"
    using call_outcome [of curl "Call_post p POST_URL POST_BODY" cl1 grow strerror] assms(1) g(2) by auto
  have l: "CurlGlobal_dtor (CurlEasyDeleter (Some h) (lib\<lparr>lb_inits := Suc (lb_inits lib), lb_live := {h}\<rparr>)) = lib"
    using assms(2,3) by (simp add: CurlGlobal_dtor_def CurlEasyDeleter_def)
  show ?thesis
    using q h i l assms(3) unfolding http_program_def http_try_def HttpClient_ctor_def CurlGlobal_ctor_def url_def [symmetric] Let_def
    by (cases "outcome grow strerror (curl (wire_of (Call_get url)))"; cases "outcome grow strerror (curl (wire_of (Call_post p POST_URL POST_BODY)))")
      (simp_all add: g(1) del: wire_of.simps)
qed

end
