(* ===== verification/Spec2Isabelle.thy ===== *)
theory Spec2Isabelle
  imports Rio Sio Signal_Shell Signal_Sync Epoll_ET Tiny Event_Servers Dedup Passfd Concurrent_Servers Loop_Kernels Coroutines Child_Control Ipc_Demo
    Csapp Cpp_Socket Http_Client Memory_Errors Page_Faults Writeback Data_Layout Shared_State Interposition
    Server_Start Coroutine_Tasks Float_Programs Experiment_Mains Small_Programs Http_Program
begin

text \<open>
  Verification of the programs of a companion repository to a computer systems textbook: shells and signal
  handling (\<open>Chapter8\<close>), robust input and output and Unix domain sockets (\<open>Chapter10\<close>), a web server and echo
  programs over TCP (\<open>Chapter11\<close>), concurrent servers by processes, input/output multiplexing, threads and coroutines
  (\<open>Chapter12\<close>), the kernels of the performance experiments (\<open>Chapter5\<close>, \<open>Chapter6\<close>), and the experiments on data,
  machine code, linking and virtual memory (\<open>Chapter2\<close>, \<open>Chapter3\<close>, \<open>Chapter7\<close>, \<open>Chapter9\<close>).

  \<^bold>\<open>How the code is modelled.\<close> A \<open>struct\<close> is a record, an enumeration or program counter a datatype, a function of the
  source a definition of the same name. Sequential code is a function on explicit state; an error return is \<open>Inl\<close> with
  its \<open>errno\<close>, and \<open>None\<close> is undefined behaviour, an overflow or an access outside an array, or a loop
  that does not end. Programs with signal handlers, threads or several processes are inductive step
  relations in which each of them may take the next step; handlers interrupt the main flow wherever the signal
  mask lets them. The kernel is a parameter everywhere: a descriptor is a channel with the bytes to come and a
  schedule of short counts and failures over which every theorem quantifies, and the results of \<open>accept\<close>,
  \<open>fork\<close>, \<open>malloc\<close>, \<open>rand\<close> and the like are arguments or free choices of a step.

  \<^bold>\<open>Foundations.\<close>
  \<^item> \<open>CS_Prelude\<close>: bytes, buffers and C strings in memory, the ranges of the C integers, \<open>errno\<close>, shared list lemmas, and
    \<open>always_until\<close>: from a state every run of a step relation comes to a goal, by a measure.
  \<^item> \<open>Kernel_IO\<close>: \<open>read\<close> and \<open>write\<close> on a channel; the interfaces \<open>byte_source\<close> and \<open>byte_sink\<close> and, on top of
    them, \<open>read_fully\<close> and \<open>write_fully\<close>, in which the retry loops are proved correct once and for all.
  \<^item> \<open>C_Text\<close>: the string and number functions of the C library the sources call.
  \<^item> \<open>Processes\<close>: children, zombies, masks and pending signals of a process, and what the kernel keeps of them.
  \<^item> \<open>Float_Bits\<close>: \<open>float\<close> and \<open>double\<close> as the bit patterns of binary32 and binary64. A pattern is decoded to an exact value,
    the operations are exact and the result is rounded to nearest even; the interface \<open>ieee_format\<close> holds the laws both
    formats share.

  \<^bold>\<open>Chapter 8.\<close>
  \<^item> \<open>Job_Tables\<close>: the slot table of the shell and the compact list of \<open>sync/joblist.c\<close>; both refine a finite set of
    processes with a capacity.
  \<^item> \<open>Shell_Parse\<close>: \<open>parseline\<close> and \<open>builtin_command\<close>; the words of a line, and the overflow of \<open>argv\<close>.
  \<^item> \<open>Signal_Shell\<close>: \<open>8.5-8.6/shell/main.c\<close>, \<open>eval\<close> and \<open>main\<close> interleaved with the \<open>SIGCHLD\<close> handler: no job
    is deleted before it was added, every run from the fork of a foreground command comes to the next prompt, only with the
    command reaped, no zombie is forgotten at the prompt, and a full table makes the shell hang for ever.
  \<^item> \<open>Signal_Sync\<close>: \<open>sync/procmask.c\<close> and \<open>waitsig/waitforsignal.c\<close>.
  \<^item> \<open>Child_Control\<close>: the first shell, the reaping loops of \<open>wait.c\<close>, the handler that waits for every child.
  \<^item> \<open>Sio\<close>, \<open>Csapp\<close>: the output functions that are safe in a handler and the error wrappers (\<open>csapp.c\<close>); \<open>Csapp\<close> also holds the
    main programs of \<open>passfd_send.c\<close>, \<open>passfd_recv.c\<close> and \<open>addrinfo.c\<close>.
  \<^item> \<open>Small_Programs\<close>: the early wrappers of \<open>8.3-8.4\<close>, whose \<open>unix_error\<close> ends with status 0, and the programs of a few
    lines: \<open>fork.c\<close>, \<open>wait.c\<close>'s \<open>main\<close>, \<open>8.1\<close>, \<open>8.2\<close>, the branch hints of \<open>5.7\<close>, the product of \<open>3.2\<close>, the variant of
    \<open>3.9\<close>, the wild pointer of \<open>3.10\<close> and the page reader of \<open>9.1-9.5\<close>.

  \<^bold>\<open>Chapter 10.\<close>
  \<^item> \<open>Rio\<close>: \<open>rio.c\<close> in full; the buffered calls take the bytes of the stream in order whatever \<open>read\<close> does, and deliver all of them
    unless a call fails on a read error, which loses what that call had read.
  \<^item> \<open>Uds\<close>, \<open>Passfd\<close>: addresses in both name spaces, the server and client over a Unix socket, and the passing of an
    open descriptor between two processes, with every failing exit of the receiver.
  \<^item> \<open>Cpp_Socket\<close>: \<open>unix_socket.hpp\<close>, where the moves, resets and destructors of \<open>Fd\<close> leave every descriptor with one
    owner, and \<open>passfd_cpp.cpp\<close> on top of it.

  \<^bold>\<open>Chapter 11.\<close>
  \<^item> \<open>Net\<close>: \<open>open_clientfd\<close>, \<open>open_serverfd\<close> and the echo clients.
  \<^item> \<open>Tiny_Text\<close>, \<open>Tiny\<close>: the web server, its text processing apart from its transactions: GET, PUT and multipart POST
    store and send exactly the bytes they should. A transaction returns, hangs, reaches undefined behaviour or goes on in a child
    (\<open>txn_end\<close>), and whichever it is, the server itself changes nothing outside the upload directory; a CGI program may.
  \<^item> \<open>Http_Client\<close>: the C++ client over libcurl (a parameter); reusing its handle does not show in any result.
  \<^item> \<open>Http_Program\<close>: its \<open>main\<close> with the guards, exceptions and output: the handle and the global state of libcurl are given back
    in order whatever fails.

  \<^bold>\<open>Chapter 12.\<close>
  \<^item> \<open>Echo_Service\<close>, \<open>Event_Servers\<close>: the echo functions, and the servers by \<open>poll\<close>, \<open>select\<close> and level-triggered \<open>epoll\<close>
    with their descriptor tables.
  \<^item> \<open>Epoll_ET\<close>: the edge-triggered server with its output queue per connection: what is written and queued is what was
    read, input is drained as edge triggering requires, and a freed connection is never touched.
  \<^item> \<open>Concurrent_Servers\<close>: the process and the thread server, with the ownership of descriptors and heap blocks.
  \<^item> \<open>Server_Start\<close>: how each server starts, with its signal actions, descriptors and interest lists as the state, and what it
    leaves open when a call fails; \<open>action_setup\<close> is the contract of the six versions of \<open>install_handlers\<close>. It also
    holds the mains of the serial echo server and of its client, and the creation steps of \<open>ipc_demo.c\<close>.
  \<^item> \<open>Coroutines\<close>: the coroutine scheduler; \<open>resumable\<close> is the contract between scheduler and coroutine bodies.
  \<^item> \<open>Coroutine_Tasks\<close>: the \<open>Task\<close> objects that own the coroutine frames, in and out of the vector of \<open>main\<close>; every frame has
    one owner and is destroyed once, after its coroutine has ended.
  \<^item> \<open>Ipc_Demo\<close>: the exchanges over a socket, shared memory and an eventfd.

  \<^bold>\<open>Chapters 5 and 6.\<close>
  \<^item> \<open>Dedup\<close>: the hash table version computes the list of the quadratic version.
  \<^item> \<open>Loop_Kernels\<close>: the unrolled, multi-accumulator and branch-free loops equal their plain forms wherever these cannot
    overflow; an overflow is \<open>None\<close>. The array of the pointer chase is a single cycle.
  \<^item> \<open>Experiment_Mains\<close>: the main programs around these loops. The readings of the clocks are arguments; what the programs
    print apart from times does not depend on them, and the memory mountain ends with its whole table if for each entry one
    of the first sixteen rounds is long enough; \<open>reg_spill.c\<close> overflows in its first product and is undefined. Sixteen doublings keep the number of repetitions and the sum within a
    \<open>long\<close>.

  \<^bold>\<open>Chapters 2, 3 and 7.\<close>
  \<^item> \<open>Machine_Code\<close>: the C functions of Chapter 3 on 64-bit words, a fragment of x86-64 and the instruction sequences the
    sources quote, which agree with C wherever C is defined; the exact range of the two summing loops.
  \<^item> \<open>Data_Layout\<close>: bytes of objects, conversions and fields of floats (Chapter 2), array traversals and structure
    layout (3.8, 3.9), the vector routines of Chapter 7.
  \<^item> \<open>Float_Programs\<close>: the functions of \<open>3.11\<close>, the decimal constants of \<open>2.4\<close>, the dot products of \<open>6.4-6.5\<close> and the two
    traversals of \<open>9.1-9.5/locality\<close>, whose \<open>float\<close> sum stops at \<open>2 ^ 24\<close>.
  \<^item> \<open>Interposition\<close>: the preloaded \<open>malloc\<close> and \<open>free\<close> of Chapter 7, which \<open>printf\<close> re-enters; with
    the guard they return.

  \<^bold>\<open>Chapter 9, and what processes and threads share.\<close>
  \<^item> \<open>Proc_Files\<close>: \<open>sscanf\<close> and \<open>fscanf\<close> for the conversions used and the readers of \<open>/proc\<close>; the interface \<open>keyed_lines\<close>
    states what a reader of one line promises, and both lookup loops are proved over it.
  \<^item> \<open>Page_Faults\<close>: \<open>paging/main.c\<close>, \<open>zero_page.c\<close>, \<open>cow_minflt.c\<close>, \<open>cow_trace.c\<close>, \<open>vmstat_fault.c\<close>. The hypotheses
    \<open>paging_rules\<close> (demand-zero pages, copy on write, file pages) and \<open>counters_shown\<close> (the text of \<open>/proc\<close>) state what the
    experiments rely on; \<open>view_kernel\<close> satisfies them.
  \<^item> \<open>Writeback\<close>: the writing loop of \<open>dirty_writeback.c\<close>.
  \<^item> \<open>Memory_Errors\<close>: \<open>mem_errors.c\<close> and \<open>leak.c\<close> over a memory of blocks in which every error is a value; a call of
    \<open>malloc\<close> may fail, and then the error is an access through a null pointer.
  \<^item> \<open>Shared_State\<close>: two writers of one file (\<open>race_write.c\<close>), a shared offset (\<open>shared.c\<close>), a shared mapping (\<open>shm.c\<close>), and
    the two mutexes of \<open>deadlock.c\<close>.

  \<^bold>\<open>Bounds.\<close> There is no fuel but in \<open>Interposition\<close>, where it is the depth of a recursion through \<open>printf\<close> and depth 2 is
  shown to be enough for every request. Loops that end by the length of their data or of the kernel's schedule are functions with a
  measure; the schedules are finite but of any length, which stands for a descriptor that does not fail forever.
  Loops whose end is a theorem (\<open>dedup_hash\<close>, the header loop of the web server, the coroutine scheduler, the strided
  loops) are partial functions with value \<open>None\<close> where they do not return, and the theorems state that they return, or,
  for a truncated request, that they do not. Array sizes are those of the source; arithmetic is on unbounded integers
  with an explicit check at the limit, except unsigned words and hashes, which wrap.

  \<^bold>\<open>Not modelled.\<close> \<open>tsan_race.c\<close> shares a \<open>rio_t\<close> between two threads without a lock: a data race is undefined, so there is no
  behaviour to state. \<open>alloc.c\<close> prints the headers and addresses of the C library's allocator, which is not part of the
  repository. The decimal text of a \<open>double\<close>, the texts
  of \<open>strerror\<close> and the times themselves are parameters or left out; the payload of a NaN that an operation makes is not
  specified by C, and the model returns one fixed NaN. The options and header lists of libcurl are taken to be accepted, as the client ignores the results of
  \<open>curl_easy_setopt\<close> and \<open>curl_slist_append\<close>. The copies of \<open>csapp.c\<close> in other directories of Chapter 8 have the text of
  the ones modelled. Weak memory is not modelled: shared state changes by atomic steps, and in the shared-memory demonstration byte by
  byte. The Makefiles, shell scripts and the plotting script are not programs of this development.
\<close>

end
